(* ===== verification/Alos_Prelude.thy ===== *)
theory Alos_Prelude
  imports Main "HOL-Library.Word"
begin

text \<open>
  Shared vocabulary of the development: names for the machine types of the Go sources, the
  big-endian byte layouts of \<open>encoding/binary\<close>, and the generic facts on words and lists
  that several components use.  A Go \<open>byte\<close> is an 8-bit word, a \<open>uint64\<close> a 64-bit word;
  a Go \<open>string\<close> and a \<open>[]byte\<close> are both lists of bytes, and string literals of the
  source are written \<open>str ''...''\<close>.  A Go \<open>int\<close> that only ever holds the length of, or an
  index into, a slice is a natural number.
\<close>

unbundle bit_operations_syntax

type_synonym byte = "8 word"
type_synonym u16 = "16 word"
type_synonym u32 = "32 word"
type_synonym u64 = "64 word"
type_synonym gostring = "byte list"

named_theorems word_consts \<open>numerals of the source written as masks and powers of two\<close>

definition str :: "string \<Rightarrow> gostring" where
  "str s = map of_char s"

lemma str_simps [simp]: "str [] = []" "str (c # s) = of_char c # str s"
  by (simp_all add: str_def)

subsection \<open>Bits of bounded words\<close>

lemma bit_less_exp: "unat (v::'a::len word) < 2 ^ k \<Longrightarrow> bit v n \<Longrightarrow> n < k"
proof (rule ccontr)
  assume v: "unat v < 2 ^ k" and b: "bit v n" and "\<not> n < k"
  then have "(2::nat) ^ k \<le> 2 ^ n" by simp
  with v have "unat v < 2 ^ n" by linarith
  then have "unat v div 2 ^ n = 0" by simp
  moreover have "bit (unat v) n" using b by (simp add: bit_unsigned_iff bit_imp_le_length)
  ultimately show False by (simp add: bit_iff_odd)
qed

lemma bit_word_less: "v < w \<Longrightarrow> unat w \<le> 2 ^ k \<Longrightarrow> bit v n \<longrightarrow> n < k"
  for v w :: "'a::len word"
  using bit_less_exp [of v k n] by (auto simp: word_less_nat_alt)

lemma take_bit_word_small: "unat v < 2 ^ k \<Longrightarrow> take_bit k v = v"
  for v :: "'a::len word"
  by (rule bit_word_eqI) (auto simp: bit_simps dest: bit_less_exp)

lemma bit_byteD: "bit (b :: byte) n \<Longrightarrow> n < 8"
  using bit_imp_le_length [of b n] by simp

lemma bit_ucast_byte: "bit (ucast (b :: byte) :: u64) n \<longleftrightarrow> n < 8 \<and> bit b n"
  by (auto simp: bit_simps dest: bit_byteD)

lemma unat_less_expI: "(\<And>n. bit v n \<Longrightarrow> n < k) \<Longrightarrow> unat v < 2 ^ k"
  for v :: "'a::len word"
proof -
  assume "\<And>n. bit v n \<Longrightarrow> n < k"
  then have "take_bit k v = v" by (auto intro!: bit_word_eqI simp: bit_simps)
  then have "take_bit k (unat v) = unat v" by (metis unsigned_take_bit_eq)
  then show ?thesis by (metis take_bit_nat_less_exp)
qed

lemma byte_consts [word_consts]:
  "(0x3f::byte) = mask 6" "(0x7f::byte) = mask 7" "(0x80::byte) = 2 ^ 7" "(0x40::byte) = 2 ^ 6"
  "(0xff::byte) = mask 8"
  by (simp_all add: mask_numeral)

lemma u64_consts [word_consts]:
  "(0x40::u64) = 2 ^ 6" "(0x80::u64) = 2 ^ 7" "(0x7f::u64) = mask 7"
  "(0x4000::u64) = 2 ^ 14" "(0x80000000::u64) = 2 ^ 31"
  "(0x3fffffffffffffff::u64) = mask 62" "(0xc000000000000000::u64) = 2 ^ 63 OR 2 ^ 62"
  by (simp_all add: mask_numeral)

subsection \<open>Words as numbers\<close>

lemma unat_drop_bit_div: "unat (drop_bit k v) = unat v div 2 ^ k"
  unfolding unat_drop_bit_eq by (rule drop_bit_eq_div)

lemma unat_push_bit_mod: "unat (push_bit k (v :: 'a::len word)) = unat v * 2 ^ k mod 2 ^ LENGTH('a)"
  unfolding unsigned_push_bit_eq by (simp only: take_bit_eq_mod push_bit_eq_mult)

lemma unat_and_mask: "unat (v AND (push_bit k 1 - 1)) = unat v mod 2 ^ k"
proof -
  have "v AND (push_bit k 1 - 1) = take_bit k v" by (simp only: mask_eq_exp_minus_1 [symmetric] take_bit_eq_mask push_bit_of_1)
  then have "unat (v AND (push_bit k 1 - 1)) = take_bit k (unat v)" by (simp only: unsigned_take_bit_eq)
  then show ?thesis by (simp only: take_bit_eq_mod)
qed

lemma unat_mask_word: "k \<le> LENGTH('a) \<Longrightarrow> unat (push_bit k 1 - 1 :: 'a::len word) = 2 ^ k - 1"
proof -
  assume k: "k \<le> LENGTH('a)"
  have "unat (push_bit k 1 - 1 :: 'a word) = unat (- 1 AND (push_bit k 1 - 1) :: 'a word)" by simp
  also have "\<dots> = mask LENGTH('a) mod 2 ^ k" unfolding unat_and_mask unsigned_minus_1_eq_mask ..
  also have "\<dots> = mask k" using k by (simp only: take_bit_eq_mod [symmetric] take_bit_of_mask min_absorb1)
  finally show ?thesis by (simp only: mask_eq_exp_minus_1)
qed

lemma unat_ucast_up: "LENGTH('a) \<le> LENGTH('b) \<Longrightarrow> unat (ucast (v :: 'a::len word) :: 'b::len word) = unat v"
  by (simp add: unsigned_ucast_eq take_bit_nat_eq_self_iff) (meson order_less_le_trans power_increasing_iff unsigned_less one_less_numeral_iff semiring_norm(76))

lemma or_exp_low: "(x OR 2 ^ k) AND mask k = x AND (mask k :: 'a::len word)"
  by (rule bit_word_eqI) (auto simp: bit_and_iff bit_or_iff bit_mask_iff bit_exp_iff)

lemma and_exp_0: "\<not> bit x k \<Longrightarrow> x AND 2 ^ k = (0 :: 'a::len word)"
  by (rule bit_word_eqI) (auto simp: bit_and_iff bit_exp_iff)

subsection \<open>Big-endian byte strings\<close>

text \<open>
  \<open>be_bytes k v\<close> is what \<open>binary.BigEndian.PutUint16/32/64\<close> store for \<open>k = 2, 4, 8\<close>;
  \<open>be_word\<close> is what \<open>binary.BigEndian.Uint16/32/64\<close> read back.
\<close>

fun be_bytes :: "nat \<Rightarrow> 'a::len word \<Rightarrow> byte list" where
  "be_bytes 0 v = []"
| "be_bytes (Suc k) v = ucast (drop_bit (8 * k) v) # be_bytes k v"

definition be_word :: "byte list \<Rightarrow> 'a::len word" where
  "be_word bs = foldl (\<lambda>a b. push_bit 8 a OR ucast b) 0 bs"

lemma length_be_bytes [simp]: "length (be_bytes k v) = k"
  by (induction k) auto

lemma be_bytes_hd: "be_bytes (numeral k) v ! 0 = ucast (drop_bit (8 * (numeral k - 1)) v)"
  by (simp add: numeral_eq_Suc)

lemma foldl_be_bytes:
  "foldl (\<lambda>a b. push_bit 8 a OR ucast b) a (be_bytes k v) = push_bit (8 * k) a OR take_bit (8 * k) v"
  for a v :: "'a::len word"
proof (induction k arbitrary: a)
  case (Suc k)
  have "push_bit (8 * k) (push_bit 8 a OR ucast (ucast (drop_bit (8 * k) v) :: byte)) OR take_bit (8 * k) v
      = push_bit (8 * Suc k) a OR take_bit (8 * Suc k) v"
  proof (rule bit_word_eqI)
    fix n assume "n < LENGTH('a)"
    then show "bit (push_bit (8 * k) (push_bit 8 a OR ucast (ucast (drop_bit (8 * k) v) :: byte))
          OR take_bit (8 * k) v) n = bit (push_bit (8 * Suc k) a OR take_bit (8 * Suc k) v) n"
      by (cases "n < 8 * k"; cases "n < 8 + 8 * k") (auto simp: bit_simps add.commute)
  qed
  with Suc.IH show ?case by simp
qed simp

lemma be_word_be_bytes: "be_word (be_bytes k v) = take_bit (8 * k) v"
  by (simp add: be_word_def foldl_be_bytes)

lemma be_word_be_bytes64 [simp]: "be_word (be_bytes 8 v) = (v :: u64)"
  by (simp add: be_word_be_bytes take_bit_word_eq_self)

lemma be_word_be_bytes32 [simp]: "be_word (be_bytes 4 v) = (v :: u32)"
  by (simp add: be_word_be_bytes take_bit_word_eq_self)

lemma be_word_be_bytes16 [simp]: "be_word (be_bytes 2 v) = (v :: u16)"
  by (simp add: be_word_be_bytes take_bit_word_eq_self)

end
