(* ===== verification/Quic_Varint.thy ===== *)
theory Quic_Varint
  imports Alos_Prelude
begin

text \<open>
  QUIC variable-length integers, \<open>core/quic_varint.go\<close>.  The two writers and the reader are
  given over 64-bit words with the source's shifts and masks.  The writers agree, every value
  below \<open>2 ^ 62\<close> is read back with the number of bytes written, and the reader only ever
  consumes bytes that are there.
\<close>

definition quicAppendVarint :: "byte list \<Rightarrow> u64 \<Rightarrow> byte list" where
  "quicAppendVarint dst v =
     (if v < 64 then dst @ [ucast v]
      else if v < 16384 then dst @ [ucast (0x40 OR drop_bit 8 v), ucast v]
      else if v < 1073741824 then
        dst @ [ucast (0x80 OR drop_bit 24 v), ucast (drop_bit 16 v), ucast (drop_bit 8 v), ucast v]
      else dst @ be_bytes 8 (0xc000000000000000 OR v))"

text \<open>
  \<open>quicPutVarint\<close> overwrites the front of a slice and returns the number of bytes written; the
  index expressions panic on a slice that is too short, which is \<open>None\<close> here.
\<close>

definition put_at_front :: "byte list \<Rightarrow> byte list \<Rightarrow> (byte list \<times> nat) option" where
  "put_at_front dst bs =
     (if length dst < length bs then None else Some (bs @ drop (length bs) dst, length bs))"

definition quicPutVarint :: "byte list \<Rightarrow> u64 \<Rightarrow> (byte list \<times> nat) option" where
  "quicPutVarint dst v =
     (if v < 64 then put_at_front dst [ucast v]
      else if v < 16384 then put_at_front dst (be_bytes 2 (ucast (0x4000 OR v) :: u16))
      else if v < 1073741824 then put_at_front dst (be_bytes 4 (ucast (0x80000000 OR v) :: u32))
      else put_at_front dst (be_bytes 8 (0xc000000000000000 OR v)))"

text \<open>The pair \<open>(0, 0)\<close> is the source's failure result; \<open>n = 0\<close> is what its callers test.\<close>

definition quicParseVarint :: "byte list \<Rightarrow> u64 \<times> nat" where
  "quicParseVarint data =
     (if length data = 0 then (0, 0)
      else
        let prefix = drop_bit 6 (data ! 0) in
        if prefix = 0 then (ucast (data ! 0 AND 0x3f), 1)
        else if prefix = 1 then
          (if length data < 2 then (0, 0)
           else (push_bit 8 (ucast (data ! 0 AND 0x3f)) OR ucast (data ! 1), 2))
        else if prefix = 2 then
          (if length data < 4 then (0, 0)
           else (push_bit 24 (ucast (data ! 0 AND 0x3f)) OR push_bit 16 (ucast (data ! 1))
                 OR push_bit 8 (ucast (data ! 2)) OR ucast (data ! 3), 4))
        else
          (if length data < 8 then (0, 0)
           else (be_word (take 8 data) AND 0x3fffffffffffffff, 8)))"

text \<open>The encoded form on its own, and its length; \<open>quicAppendVarint\<close> appends it.\<close>

definition varint_bytes :: "u64 \<Rightarrow> byte list" where
  "varint_bytes v = quicAppendVarint [] v"

definition varint_len :: "u64 \<Rightarrow> nat" where
  "varint_len v = (if v < 64 then 1 else if v < 16384 then 2 else if v < 1073741824 then 4 else 8)"

lemma quicAppendVarint_append: "quicAppendVarint dst v = dst @ varint_bytes v"
  by (simp add: varint_bytes_def quicAppendVarint_def)

lemma length_varint_bytes [simp]: "length (varint_bytes v) = varint_len v"
  by (simp add: varint_bytes_def quicAppendVarint_def varint_len_def)

lemma varint_len_pos [simp]: "0 < varint_len v" "Suc 0 \<le> varint_len v"
  by (simp_all add: varint_len_def)

lemma varint_len_neq0 [simp]: "varint_len v \<noteq> 0"
  by (simp add: varint_len_def)

lemma varint_bytes_neq_Nil [simp]: "varint_bytes v \<noteq> []"
  by (metis length_varint_bytes list.size(3) varint_len_neq0)

subsection \<open>The first byte and the payload, one width at a time\<close>

lemma varint1_prefix: "v < 64 \<Longrightarrow> drop_bit 6 (ucast v :: byte) = 0" for v :: u64
proof (rule bit_word_eqI)
  fix n assume "v < 64"
  then have "bit v (6 + n) \<longrightarrow> 6 + n < 6" by (rule bit_word_less) simp
  then show "bit (drop_bit 6 (ucast v :: byte)) n = bit (0 :: byte) n" by (simp add: bit_simps)
qed

lemma varint1_value: "v < 64 \<Longrightarrow> ucast ((ucast v :: byte) AND 0x3f) = v" for v :: u64
proof (rule bit_word_eqI)
  fix n assume "v < 64"
  then have "bit v n \<longrightarrow> n < 6" by (rule bit_word_less) simp
  then show "bit (ucast ((ucast v :: byte) AND 0x3f) :: u64) n = bit v n"
    unfolding word_consts bit_simps by auto
qed

lemma varint2_prefix: "v < 16384 \<Longrightarrow> drop_bit 6 (ucast (0x40 OR drop_bit 8 v) :: byte) = 1" for v :: u64
proof (rule bit_word_eqI)
  fix n assume "v < 16384"
  then have "bit v (8 + (6 + n)) \<longrightarrow> 8 + (6 + n) < 14" by (rule bit_word_less) simp
  then show "bit (drop_bit 6 (ucast (0x40 OR drop_bit 8 v) :: byte)) n = bit (1 :: byte) n"
    unfolding word_consts bit_simps by auto
qed

lemma varint2_value:
  "v < 16384 \<Longrightarrow>
   push_bit 8 (ucast ((ucast (0x40 OR drop_bit 8 v) :: byte) AND 0x3f)) OR ucast (ucast v :: byte) = v"
  for v :: u64
proof (rule bit_word_eqI)
  fix n assume "v < 16384"
  then have "bit v n \<longrightarrow> n < 14" by (rule bit_word_less) simp
  then show "bit (push_bit 8 (ucast ((ucast (0x40 OR drop_bit 8 v) :: byte) AND 0x3f))
      OR ucast (ucast v :: byte) :: u64) n = bit v n"
    unfolding word_consts bit_simps by (cases "n < 8") auto
qed

lemma varint4_prefix: "v < 1073741824 \<Longrightarrow> drop_bit 6 (ucast (0x80 OR drop_bit 24 v) :: byte) = 2" for v :: u64
proof (rule bit_word_eqI)
  fix n assume "v < 1073741824"
  then have "bit v (24 + (6 + n)) \<longrightarrow> 24 + (6 + n) < 30" by (rule bit_word_less) simp
  moreover have "(2 :: byte) = 2 ^ 1" by simp
  ultimately show "bit (drop_bit 6 (ucast (0x80 OR drop_bit 24 v) :: byte)) n = bit (2 :: byte) n"
    unfolding word_consts bit_simps by (auto simp: bit_simps)
qed

lemma varint4_value:
  "v < 1073741824 \<Longrightarrow>
   push_bit 24 (ucast ((ucast (0x80 OR drop_bit 24 v) :: byte) AND 0x3f))
   OR push_bit 16 (ucast (ucast (drop_bit 16 v) :: byte)) OR push_bit 8 (ucast (ucast (drop_bit 8 v) :: byte))
   OR ucast (ucast v :: byte) = v"
  for v :: u64
proof (rule bit_word_eqI)
  fix n assume "v < 1073741824"
  then have "bit v n \<longrightarrow> n < 30" by (rule bit_word_less) simp
  then show "bit (push_bit 24 (ucast ((ucast (0x80 OR drop_bit 24 v) :: byte) AND 0x3f))
   OR push_bit 16 (ucast (ucast (drop_bit 16 v) :: byte)) OR push_bit 8 (ucast (ucast (drop_bit 8 v) :: byte))
   OR ucast (ucast v :: byte) :: u64) n = bit v n"
    unfolding word_consts bit_simps by (cases "n < 8"; cases "n < 16"; cases "n < 24") auto
qed

lemma varint8_prefix:
  "drop_bit 6 (ucast (drop_bit 56 (0xc000000000000000 OR v)) :: byte) = 3" for v :: u64
proof (rule bit_word_eqI)
  fix n
  have three: "(3 :: byte) = mask 2" by (simp add: mask_numeral)
  show "bit (drop_bit 6 (ucast (drop_bit 56 (0xc000000000000000 OR v)) :: byte)) n = bit (3 :: byte) n"
    unfolding word_consts three bit_simps by (cases "n = 0"; cases "n = 1") auto
qed

lemma varint8_value:
  "v < 2 ^ 62 \<Longrightarrow> (0xc000000000000000 OR v) AND 0x3fffffffffffffff = v" for v :: u64
proof (rule bit_word_eqI)
  fix n assume "v < 2 ^ 62"
  then have "bit v n \<longrightarrow> n < 62" by (rule bit_word_less) simp
  then show "bit ((0xc000000000000000 OR v) AND 0x3fffffffffffffff) n = bit v n"
    unfolding word_consts bit_simps by auto
qed

lemmas varint_fields = varint1_prefix varint1_value varint2_prefix varint2_value
  varint4_prefix varint4_value varint8_prefix varint8_value

lemma quicParseVarint_be8:
  "v < 2 ^ 62 \<Longrightarrow> quicParseVarint (be_bytes 8 (0xc000000000000000 OR v) @ rest) = (v, 8)"
proof -
  assume v: "v < 2 ^ 62"
  let ?d = "be_bytes 8 (0xc000000000000000 OR v) @ rest"
  have "drop_bit 6 (?d ! 0) = 3"
    using varint8_prefix [of v] by (simp only: be_bytes_hd nth_append length_be_bytes) simp
  then show ?thesis
    using varint8_value [OF v] by (simp add: quicParseVarint_def Let_def)
qed

lemma quicParseVarint_bytes:
  assumes "v < 2 ^ 62"
  shows "quicParseVarint (varint_bytes v @ rest) = (v, varint_len v)"
proof -
  consider "v < 64" | "\<not> v < 64" "v < 16384" | "\<not> v < 64" "\<not> v < 16384" "v < 1073741824"
    | "\<not> v < 64" "\<not> v < 16384" "\<not> v < 1073741824" by blast
  then show ?thesis
    by cases (simp_all add: varint_bytes_def quicAppendVarint_def varint_len_def varint_fields
        quicParseVarint_be8 [OF assms] quicParseVarint_def [of "_ # _"] Let_def del: be_bytes.simps)
qed


subsection \<open>Properties\<close>

lemma quicPutVarint_eq:
  "quicPutVarint dst v = put_at_front dst (varint_bytes v)"
proof -
  have hi2: "ucast (drop_bit 8 (ucast (0x4000 OR v) :: u16)) = (ucast (0x40 OR drop_bit 8 v) :: byte)"
    by (rule bit_word_eqI) (unfold word_consts bit_simps, auto)
  have lo2: "ucast (ucast (0x4000 OR v) :: u16) = (ucast v :: byte)"
    by (rule bit_word_eqI) (unfold word_consts bit_simps, auto)
  have hi4: "ucast (drop_bit 24 (ucast (0x80000000 OR v) :: u32)) = (ucast (0x80 OR drop_bit 24 v) :: byte)"
    by (rule bit_word_eqI) (unfold word_consts bit_simps, auto)
  have lo4: "ucast (drop_bit k (ucast (0x80000000 OR v) :: u32)) = (ucast (drop_bit k v) :: byte)"
    if "k \<le> 16" for k
    by (rule bit_word_eqI) (use that in \<open>unfold word_consts bit_simps, auto\<close>)
  have two: "be_bytes 2 (ucast (0x4000 OR v) :: u16) = [ucast (0x40 OR drop_bit 8 v), ucast v]"
    using hi2 lo2 by (simp add: numeral_2_eq_2)
  have four: "be_bytes 4 (ucast (0x80000000 OR v) :: u32)
      = [ucast (0x80 OR drop_bit 24 v), ucast (drop_bit 16 v), ucast (drop_bit 8 v), ucast v]"
    using hi4 lo4 [of 16] lo4 [of 8] lo4 [of 0] by (simp add: numeral_eq_Suc)
  show ?thesis
    by (simp add: quicPutVarint_def varint_bytes_def quicAppendVarint_def two four)
qed

lemma quicParseVarint_len:
  assumes "quicParseVarint data = (v, n)"
  shows "n \<le> length data" and "n \<in> {0, 1, 2, 4, 8}"
  using assms by (auto simp: quicParseVarint_def Let_def Suc_le_eq split: if_splits)

lemma quicParseVarint_prefix:
  assumes "quicParseVarint data = (v, n)" and "0 < n"
  shows "quicParseVarint (take n data @ rest) = (v, n)"
proof -
  have n: "n \<le> length data" "n = 1 \<or> n = 2 \<or> n = 4 \<or> n = 8"
    using quicParseVarint_len [OF assms(1)] assms(2) by auto
  let ?d = "take n data @ rest"
  have nth: "?d ! i = data ! i" if "i < n" for i
    using that n(1) by (simp add: nth_append)
  have len: "n \<le> length ?d" "?d \<noteq> []" "data \<noteq> []" using n assms(2) by auto
  from n(2) assms(1) nth len n(1) show ?thesis
    by (elim disjE) (simp_all add: quicParseVarint_def Let_def min_def
        split: if_splits)
qed

lemma quicParseVarint_value:
  assumes "quicParseVarint data = (v, n)"
  shows "v < 2 ^ 62"
proof -
  have "k < 62" if "bit v k" for k
  proof -
    have v: "v = 0 \<or> v = ucast (data ! 0 AND 0x3f)
        \<or> v = push_bit 8 (ucast (data ! 0 AND 0x3f)) OR ucast (data ! 1)
        \<or> v = push_bit 24 (ucast (data ! 0 AND 0x3f)) OR push_bit 16 (ucast (data ! 1))
            OR push_bit 8 (ucast (data ! 2)) OR ucast (data ! 3)
        \<or> v = be_word (take 8 data) AND 0x3fffffffffffffff"
      using assms by (simp add: quicParseVarint_def Let_def split: if_splits)
    from v that show ?thesis
      by (elim disjE) (auto simp: bit_or_iff bit_and_iff bit_push_bit_iff bit_mask_iff bit_ucast_byte word_consts)
  qed
  then have "unat v < 2 ^ 62" by (rule unat_less_expI)
  then show ?thesis by (simp add: word_less_nat_alt)
qed

end
