(* ===== verification/Quic_Frame.thy ===== *)
theory Quic_Frame
  imports Quic_Varint "HOL-Library.Monad_Syntax"
begin

text \<open>
  QUIC frames, \<open>core/quic_frame.go\<close> with the frame writers of \<open>core/quic_cid.go\<close> and
  \<open>core/quic_path.go\<close>.  The parser's pair of a buffer and an offset into it is represented by
  the unread suffix of the buffer, since the parser never looks back.  The visitor's callbacks
  become the list of frames visited, so a frame is in the list exactly when its callback has
  run, also when a later frame of the packet is refused.  The theory shows that the parser
  always returns, that it reads back whatever sequence of frames the writers produce, and that in
  the handshake packet spaces nothing but the six permitted frame types is ever visited.
\<close>

subsection \<open>Frame types and their fields\<close>

definition quicFramePadding :: u64 where "quicFramePadding = 0x00"
definition quicFramePing :: u64 where "quicFramePing = 0x01"
definition quicFrameACK :: u64 where "quicFrameACK = 0x02"
definition quicFrameACKECN :: u64 where "quicFrameACKECN = 0x03"
definition quicFrameResetStream :: u64 where "quicFrameResetStream = 0x04"
definition quicFrameStopSending :: u64 where "quicFrameStopSending = 0x05"
definition quicFrameCrypto :: u64 where "quicFrameCrypto = 0x06"
definition quicFrameNewToken :: u64 where "quicFrameNewToken = 0x07"
definition quicFrameStream :: u64 where "quicFrameStream = 0x08"
definition quicFrameStreamEnd :: u64 where "quicFrameStreamEnd = 0x0f"
definition quicFrameMaxData :: u64 where "quicFrameMaxData = 0x10"
definition quicFrameMaxStreamData :: u64 where "quicFrameMaxStreamData = 0x11"
definition quicFrameMaxStreamsBidi :: u64 where "quicFrameMaxStreamsBidi = 0x12"
definition quicFrameMaxStreamsUni :: u64 where "quicFrameMaxStreamsUni = 0x13"
definition quicFrameDataBlocked :: u64 where "quicFrameDataBlocked = 0x14"
definition quicFrameStreamDataBlock :: u64 where "quicFrameStreamDataBlock = 0x15"
definition quicFrameStreamsBlockBidi :: u64 where "quicFrameStreamsBlockBidi = 0x16"
definition quicFrameStreamsBlockUni :: u64 where "quicFrameStreamsBlockUni = 0x17"
definition quicFrameNewConnID :: u64 where "quicFrameNewConnID = 0x18"
definition quicFrameRetireConnID :: u64 where "quicFrameRetireConnID = 0x19"
definition quicFramePathChallenge :: u64 where "quicFramePathChallenge = 0x1a"
definition quicFramePathResponse :: u64 where "quicFramePathResponse = 0x1b"
definition quicFrameConnClose :: u64 where "quicFrameConnClose = 0x1c"
definition quicFrameAppClose :: u64 where "quicFrameAppClose = 0x1d"
definition quicFrameHandshakeDone :: u64 where "quicFrameHandshakeDone = 0x1e"

lemmas quicFrame_types = quicFramePadding_def quicFramePing_def quicFrameACK_def quicFrameACKECN_def
  quicFrameResetStream_def quicFrameStopSending_def quicFrameCrypto_def quicFrameNewToken_def
  quicFrameStream_def quicFrameStreamEnd_def quicFrameMaxData_def quicFrameMaxStreamData_def
  quicFrameMaxStreamsBidi_def quicFrameMaxStreamsUni_def quicFrameDataBlocked_def
  quicFrameStreamDataBlock_def quicFrameStreamsBlockBidi_def quicFrameStreamsBlockUni_def
  quicFrameNewConnID_def quicFrameRetireConnID_def quicFramePathChallenge_def
  quicFramePathResponse_def quicFrameConnClose_def quicFrameAppClose_def quicFrameHandshakeDone_def

definition quicStreamFlagOff :: byte where "quicStreamFlagOff = 0x04"
definition quicStreamFlagLen :: byte where "quicStreamFlagLen = 0x02"
definition quicStreamFlagFin :: byte where "quicStreamFlagFin = 0x01"

definition quicPathChallengeLen :: nat where "quicPathChallengeLen = 8"

record quicCryptoFrame =
  cr_offset :: u64
  cr_data :: "byte list"

record quicStreamFrame =
  st_streamID :: u64
  st_offset :: u64
  st_data :: "byte list"
  st_fin :: bool

record quicAckRange =
  ar_gap :: u64
  ar_count :: u64

record quicAckFrame =
  ack_largestAck :: u64
  ack_ackDelay :: u64
  ack_firstRange :: u64
  ack_ranges :: "quicAckRange list"

record quicConnCloseFrame =
  cc_errorCode :: u64
  cc_frameType :: u64
  cc_reasonPhrase :: gostring
  cc_isApp :: bool

record quicMaxDataFrame =
  md_maxData :: u64

record quicMaxStreamDataFrame =
  msd_streamID :: u64
  msd_maxStreamData :: u64

record quicMaxStreamsFrame =
  ms_maxStreams :: u64
  ms_bidi :: bool

record quicResetStreamFrame =
  rs_streamID :: u64
  rs_errorCode :: u64
  rs_finalSize :: u64

record quicStopSendingFrame =
  ss_streamID :: u64
  ss_errorCode :: u64

record quicNewConnIDFrame =
  nc_seq :: u64
  nc_retirePT :: u64
  nc_connID :: "byte list"
  nc_resetToken :: "byte list"

text \<open>One constructor per visitor callback of \<open>quicFrameVisitor\<close>.\<close>

datatype quicFrame =
    OnPadding
  | OnPing
  | OnACK quicAckFrame
  | OnCrypto quicCryptoFrame
  | OnStream quicStreamFrame
  | OnMaxData quicMaxDataFrame
  | OnMaxStreamData quicMaxStreamDataFrame
  | OnMaxStreams quicMaxStreamsFrame
  | OnResetStream quicResetStreamFrame
  | OnStopSending quicStopSendingFrame
  | OnRetireConnID u64
  | OnPathChallenge "byte list"
  | OnPathResponse "byte list"
  | OnConnClose quicConnCloseFrame
  | OnHandshakeDone
  | OnNewConnID quicNewConnIDFrame
  | OnNewToken "byte list"

datatype quicParseError = ErrTruncated | ErrQUICFrameNotAllowedInSpace | ErrQUICUnknownFrame

subsection \<open>Writers\<close>

definition quicAppendCryptoFrame :: "byte list \<Rightarrow> u64 \<Rightarrow> byte list \<Rightarrow> byte list" where
  "quicAppendCryptoFrame dst offset data =
     (let dst = quicAppendVarint dst quicFrameCrypto;
          dst = quicAppendVarint dst offset;
          dst = quicAppendVarint dst (of_nat (length data))
      in dst @ data)"

definition quicAppendStreamFrame ::
    "byte list \<Rightarrow> u64 \<Rightarrow> u64 \<Rightarrow> byte list \<Rightarrow> bool \<Rightarrow> byte list" where
  "quicAppendStreamFrame dst streamID offset data fin =
     (let flags = ucast quicFrameStream;
          flags = (if offset > 0 then flags OR quicStreamFlagOff else flags);
          flags = flags OR quicStreamFlagLen;
          flags = (if fin then flags OR quicStreamFlagFin else flags);
          dst = dst @ [flags];
          dst = quicAppendVarint dst streamID;
          dst = (if offset > 0 then quicAppendVarint dst offset else dst);
          dst = quicAppendVarint dst (of_nat (length data))
      in dst @ data)"

definition quicAppendACKFrame :: "byte list \<Rightarrow> u64 \<Rightarrow> u64 \<Rightarrow> u64 \<Rightarrow> byte list" where
  "quicAppendACKFrame dst largestAck ackDelay firstRange =
     (let dst = quicAppendVarint dst quicFrameACK;
          dst = quicAppendVarint dst largestAck;
          dst = quicAppendVarint dst ackDelay;
          dst = quicAppendVarint dst 0
      in quicAppendVarint dst firstRange)"

definition quicAppendMaxDataFrame :: "byte list \<Rightarrow> u64 \<Rightarrow> byte list" where
  "quicAppendMaxDataFrame dst maxData =
     quicAppendVarint (quicAppendVarint dst quicFrameMaxData) maxData"

definition quicAppendMaxStreamDataFrame :: "byte list \<Rightarrow> u64 \<Rightarrow> u64 \<Rightarrow> byte list" where
  "quicAppendMaxStreamDataFrame dst streamID maxStreamData =
     (let dst = quicAppendVarint dst quicFrameMaxStreamData;
          dst = quicAppendVarint dst streamID
      in quicAppendVarint dst maxStreamData)"

definition quicAppendStreamDataBlockedFrame :: "byte list \<Rightarrow> u64 \<Rightarrow> u64 \<Rightarrow> byte list" where
  "quicAppendStreamDataBlockedFrame dst streamID limit =
     (let dst = quicAppendVarint dst quicFrameStreamDataBlock;
          dst = quicAppendVarint dst streamID
      in quicAppendVarint dst limit)"

definition quicAppendMaxStreamsFrame :: "byte list \<Rightarrow> u64 \<Rightarrow> bool \<Rightarrow> byte list" where
  "quicAppendMaxStreamsFrame dst maxStreams bidi =
     (let dst = (if bidi then quicAppendVarint dst quicFrameMaxStreamsBidi
                 else quicAppendVarint dst quicFrameMaxStreamsUni)
      in quicAppendVarint dst maxStreams)"

definition quicAppendResetStreamFrame :: "byte list \<Rightarrow> u64 \<Rightarrow> u64 \<Rightarrow> u64 \<Rightarrow> byte list" where
  "quicAppendResetStreamFrame dst streamID errorCode finalSize =
     (let dst = quicAppendVarint dst quicFrameResetStream;
          dst = quicAppendVarint dst streamID;
          dst = quicAppendVarint dst errorCode
      in quicAppendVarint dst finalSize)"

definition quicAppendStopSendingFrame :: "byte list \<Rightarrow> u64 \<Rightarrow> u64 \<Rightarrow> byte list" where
  "quicAppendStopSendingFrame dst streamID errorCode =
     (let dst = quicAppendVarint dst quicFrameStopSending;
          dst = quicAppendVarint dst streamID
      in quicAppendVarint dst errorCode)"

definition quicAppendAppCloseFrame :: "byte list \<Rightarrow> u64 \<Rightarrow> gostring \<Rightarrow> byte list" where
  "quicAppendAppCloseFrame dst errorCode reason =
     (let dst = quicAppendVarint dst quicFrameAppClose;
          dst = quicAppendVarint dst errorCode;
          dst = quicAppendVarint dst (of_nat (length reason))
      in dst @ reason)"

definition quicAppendHandshakeDoneFrame :: "byte list \<Rightarrow> byte list" where
  "quicAppendHandshakeDoneFrame dst = quicAppendVarint dst quicFrameHandshakeDone"

definition quicAppendConnCloseFrame :: "byte list \<Rightarrow> u64 \<Rightarrow> u64 \<Rightarrow> gostring \<Rightarrow> byte list" where
  "quicAppendConnCloseFrame dst errorCode frameType reason =
     (let dst = quicAppendVarint dst quicFrameConnClose;
          dst = quicAppendVarint dst errorCode;
          dst = quicAppendVarint dst frameType;
          dst = quicAppendVarint dst (of_nat (length reason))
      in dst @ reason)"

definition quicAppendNewConnIDFrame ::
    "byte list \<Rightarrow> u64 \<Rightarrow> u64 \<Rightarrow> byte list \<Rightarrow> byte list \<Rightarrow> byte list" where
  "quicAppendNewConnIDFrame dst seq retirePriorTo cid token =
     (let dst = quicAppendVarint dst quicFrameNewConnID;
          dst = quicAppendVarint dst seq;
          dst = quicAppendVarint dst retirePriorTo;
          dst = dst @ [of_nat (length cid)];
          dst = dst @ cid
      in dst @ token)"

definition quicAppendRetireConnIDFrame :: "byte list \<Rightarrow> u64 \<Rightarrow> byte list" where
  "quicAppendRetireConnIDFrame dst seq =
     quicAppendVarint (quicAppendVarint dst quicFrameRetireConnID) seq"

definition quicAppendPathFrame :: "byte list \<Rightarrow> u64 \<Rightarrow> byte list \<Rightarrow> byte list" where
  "quicAppendPathFrame dst frameType data = quicAppendVarint dst frameType @ data"

subsection \<open>Reader\<close>

definition readVarint :: "byte list \<Rightarrow> (u64 \<times> byte list) option" where
  "readVarint p = (case quicParseVarint p of (v, n) \<Rightarrow> if n = 0 then None else Some (v, drop n p))"

definition readBytes :: "byte list \<Rightarrow> nat \<Rightarrow> (byte list \<times> byte list) option" where
  "readBytes p n = (if length p < n then None else Some (take n p, drop n p))"

fun parseAckRanges :: "nat \<Rightarrow> byte list \<Rightarrow> (quicAckRange list \<times> byte list) option" where
  "parseAckRanges 0 p = Some ([], p)"
| "parseAckRanges (Suc n) p =
     do {
       (gap, p) \<leftarrow> readVarint p;
       (count, p) \<leftarrow> readVarint p;
       (rs, p) \<leftarrow> parseAckRanges n p;
       Some (\<lparr>ar_gap = gap, ar_count = count\<rparr> # rs, p)
     }"

definition parseACK :: "bool \<Rightarrow> byte list \<Rightarrow> (quicAckFrame \<times> byte list) option" where
  "parseACK ecn p =
     do {
       (largestAck, p) \<leftarrow> readVarint p;
       (ackDelay, p) \<leftarrow> readVarint p;
       (rangeCount, p) \<leftarrow> readVarint p;
       (firstRange, p) \<leftarrow> readVarint p;
       (ranges, p) \<leftarrow>
         (if rangeCount > 0 then
            (if rangeCount > 256 \<or> unat rangeCount > length p then None
             else parseAckRanges (unat rangeCount) p)
          else Some ([], p));
       p \<leftarrow>
         (if ecn then
            do {
              (_, p) \<leftarrow> readVarint p;
              (_, p) \<leftarrow> readVarint p;
              (_, p) \<leftarrow> readVarint p;
              Some p
            }
          else Some p);
       Some (\<lparr>ack_largestAck = largestAck, ack_ackDelay = ackDelay, ack_firstRange = firstRange,
              ack_ranges = ranges\<rparr>, p)
     }"

definition parseStream :: "byte \<Rightarrow> byte list \<Rightarrow> (quicStreamFrame \<times> byte list) option" where
  "parseStream flags p =
     do {
       (streamID, p) \<leftarrow> readVarint p;
       (offset, p) \<leftarrow> (if flags AND quicStreamFlagOff \<noteq> 0 then readVarint p else Some (0, p));
       (data, p) \<leftarrow>
         (if flags AND quicStreamFlagLen \<noteq> 0 then
            do {
              (length, p) \<leftarrow> readVarint p;
              readBytes p (unat length)
            }
          else Some (p, []));
       Some (\<lparr>st_streamID = streamID, st_offset = offset, st_data = data,
              st_fin = (flags AND quicStreamFlagFin \<noteq> 0)\<rparr>, p)
     }"

definition parseConnClose :: "bool \<Rightarrow> byte list \<Rightarrow> (quicConnCloseFrame \<times> byte list) option" where
  "parseConnClose isApp p =
     do {
       (errorCode, p) \<leftarrow> readVarint p;
       (frameType, p) \<leftarrow> (if \<not> isApp then readVarint p else Some (0, p));
       (reasonLen, p) \<leftarrow> readVarint p;
       (reason, p) \<leftarrow> readBytes p (unat reasonLen);
       Some (\<lparr>cc_errorCode = errorCode, cc_frameType = frameType, cc_reasonPhrase = reason,
              cc_isApp = isApp\<rparr>, p)
     }"

definition parseNewConnID :: "byte list \<Rightarrow> (quicNewConnIDFrame \<times> byte list) option" where
  "parseNewConnID p =
     do {
       (seq, p) \<leftarrow> readVarint p;
       (retirePT, p) \<leftarrow> readVarint p;
       (cidLenByte, p) \<leftarrow> readBytes p 1;
       let cidLen = unat (cidLenByte ! 0);
       (if cidLen > 20 then None else
        do {
          (connID, p) \<leftarrow> readBytes p cidLen;
          (token, p) \<leftarrow> readBytes p 16;
          Some (\<lparr>nc_seq = seq, nc_retirePT = retirePT, nc_connID = connID,
                 nc_resetToken = token\<rparr>, p)
        })
     }"

text \<open>
  The switch of \<open>quicParseFrames\<close> on the frame type: the frame handed to a callback, if the
  type has one, and the rest of the input.
\<close>

definition truncated :: "('a \<times> byte list) option \<Rightarrow> ('a \<Rightarrow> quicFrame option) \<Rightarrow>
    quicParseError + (quicFrame option \<times> byte list)" where
  "truncated r f = (case r of None \<Rightarrow> Inl ErrTruncated | Some (x, p) \<Rightarrow> Inr (f x, p))"

definition quicParseFrameBody ::
    "u64 \<Rightarrow> byte list \<Rightarrow> quicParseError + (quicFrame option \<times> byte list)" where
  "quicParseFrameBody frameType p =
     (if frameType = quicFramePing then Inr (Some OnPing, p)
      else if frameType = quicFrameACK \<or> frameType = quicFrameACKECN then
        truncated (parseACK (frameType = quicFrameACKECN) p) (\<lambda>f. Some (OnACK f))
      else if frameType = quicFrameCrypto then
        truncated
          (do {
             (offset, p) \<leftarrow> readVarint p;
             (length, p) \<leftarrow> readVarint p;
             (data, p) \<leftarrow> readBytes p (unat length);
             Some (\<lparr>cr_offset = offset, cr_data = data\<rparr>, p)
           }) (\<lambda>f. Some (OnCrypto f))
      else if frameType \<ge> quicFrameStream \<and> frameType \<le> quicFrameStreamEnd then
        truncated (parseStream (ucast frameType) p) (\<lambda>f. Some (OnStream f))
      else if frameType = quicFrameMaxData then
        truncated (readVarint p) (\<lambda>maxData. Some (OnMaxData \<lparr>md_maxData = maxData\<rparr>))
      else if frameType = quicFrameMaxStreamData then
        truncated
          (do {
             (sid, p) \<leftarrow> readVarint p;
             (max, p) \<leftarrow> readVarint p;
             Some (\<lparr>msd_streamID = sid, msd_maxStreamData = max\<rparr>, p)
           }) (\<lambda>f. Some (OnMaxStreamData f))
      else if frameType = quicFrameMaxStreamsBidi \<or> frameType = quicFrameMaxStreamsUni then
        truncated (readVarint p)
          (\<lambda>max. Some (OnMaxStreams \<lparr>ms_maxStreams = max, ms_bidi = (frameType = quicFrameMaxStreamsBidi)\<rparr>))
      else if frameType = quicFrameConnClose \<or> frameType = quicFrameAppClose then
        truncated (parseConnClose (frameType = quicFrameAppClose) p) (\<lambda>f. Some (OnConnClose f))
      else if frameType = quicFrameHandshakeDone then Inr (Some OnHandshakeDone, p)
      else if frameType = quicFrameNewConnID then
        truncated (parseNewConnID p) (\<lambda>f. Some (OnNewConnID f))
      else if frameType = quicFrameNewToken then
        truncated
          (do {
             (length, p) \<leftarrow> readVarint p;
             readBytes p (unat length)
           }) (\<lambda>token. Some (OnNewToken token))
      else if frameType = quicFrameResetStream then
        truncated
          (do {
             (sid, p) \<leftarrow> readVarint p;
             (code, p) \<leftarrow> readVarint p;
             (final, p) \<leftarrow> readVarint p;
             Some (\<lparr>rs_streamID = sid, rs_errorCode = code, rs_finalSize = final\<rparr>, p)
           }) (\<lambda>f. Some (OnResetStream f))
      else if frameType = quicFrameStopSending then
        truncated
          (do {
             (sid, p) \<leftarrow> readVarint p;
             (code, p) \<leftarrow> readVarint p;
             Some (\<lparr>ss_streamID = sid, ss_errorCode = code\<rparr>, p)
           }) (\<lambda>f. Some (OnStopSending f))
      else if frameType = quicFrameDataBlocked then truncated (readVarint p) (\<lambda>_. None)
      else if frameType = quicFrameStreamDataBlock then
        truncated (do { (_, p) \<leftarrow> readVarint p; readVarint p }) (\<lambda>_. None)
      else if frameType = quicFrameStreamsBlockBidi \<or> frameType = quicFrameStreamsBlockUni then
        truncated (readVarint p) (\<lambda>_. None)
      else if frameType = quicFrameRetireConnID then
        truncated (readVarint p) (\<lambda>seq. Some (OnRetireConnID seq))
      else if frameType = quicFramePathChallenge \<or> frameType = quicFramePathResponse then
        truncated (readBytes p quicPathChallengeLen)
          (\<lambda>raw. Some (if frameType = quicFramePathChallenge then OnPathChallenge raw
                       else OnPathResponse raw))
      else Inl ErrQUICUnknownFrame)"

definition quicIsProbingFrame :: "u64 \<Rightarrow> bool" where
  "quicIsProbingFrame frameType \<longleftrightarrow>
     frameType \<in> {quicFramePathChallenge, quicFramePathResponse, quicFrameNewConnID, quicFramePadding}"

definition quicFrameAllowedInHandshakeSpaces :: "u64 \<Rightarrow> bool" where
  "quicFrameAllowedInHandshakeSpaces frameType \<longleftrightarrow>
     frameType \<in> {quicFramePadding, quicFramePing, quicFrameACK, quicFrameACKECN, quicFrameCrypto,
                  quicFrameConnClose}"

lemma readVarint_length: "readVarint p = Some (v, q) \<Longrightarrow> length q < length p"
  using quicParseVarint_len(1) [of p]
  by (auto simp: readVarint_def split: prod.splits if_splits)

lemma readBytes_length: "readBytes p n = Some (b, q) \<Longrightarrow> length q \<le> length p"
  by (auto simp: readBytes_def split: if_splits)

lemma parseAckRanges_length: "parseAckRanges n p = Some (rs, q) \<Longrightarrow> length q \<le> length p"
  by (induction n arbitrary: p rs)
    (fastforce simp: bind_eq_Some_conv dest: readVarint_length)+

lemmas read_lengths = readVarint_length readBytes_length parseAckRanges_length

lemma parseACK_length: "parseACK ecn p = Some (a, q) \<Longrightarrow> length q \<le> length p"
  by (auto simp: parseACK_def bind_eq_Some_conv dest!: read_lengths split: if_splits)

lemma parseStream_length: "parseStream fl p = Some (s, q) \<Longrightarrow> length q \<le> length p"
  by (auto simp: parseStream_def bind_eq_Some_conv dest!: read_lengths split: if_splits)

lemma parseConnClose_length: "parseConnClose app p = Some (c, q) \<Longrightarrow> length q \<le> length p"
  by (auto simp: parseConnClose_def bind_eq_Some_conv dest!: read_lengths split: if_splits)

lemma parseNewConnID_length: "parseNewConnID p = Some (d, q) \<Longrightarrow> length q \<le> length p"
  by (auto simp: parseNewConnID_def bind_eq_Some_conv Let_def dest!: read_lengths split: if_splits)

lemma truncated_Inr:
  "truncated r f = Inr (g, q) \<Longrightarrow> (\<And>x. r = Some (x, q) \<Longrightarrow> g = f x \<Longrightarrow> P) \<Longrightarrow> P"
  by (auto simp: truncated_def split: option.splits)

lemma quicParseFrameBody_length:
  assumes "quicParseFrameBody frameType p = Inr (f, q)"
  shows "length q \<le> length p"
  using assms unfolding quicParseFrameBody_def
  by (auto simp: bind_eq_Some_conv
      dest!: read_lengths parseACK_length parseStream_length parseConnClose_length parseNewConnID_length
      elim!: truncated_Inr split: if_splits)

text \<open>
  The loop.  \<open>allowed\<close> is the visitor's optional filter and \<open>np\<close> its \<open>nonProbing\<close> flag; the
  result is the list of frames visited, the final flag and the error, if the loop returned one.
\<close>

function quicParseFrames ::
    "(u64 \<Rightarrow> bool) option \<Rightarrow> bool \<Rightarrow> byte list \<Rightarrow> quicFrame list \<times> bool \<times> quicParseError option" where
  "quicParseFrames allowed np data =
     (if length data = 0 then ([], np, None)
      else if data ! 0 = 0x00 then
        (case quicParseFrames allowed np (drop 1 data) of (fs, r) \<Rightarrow> (OnPadding # fs, r))
      else
        case readVarint data of
          None \<Rightarrow> ([], np, Some ErrTruncated)
        | Some (frameType, p) \<Rightarrow>
            if (case allowed of None \<Rightarrow> False | Some ok \<Rightarrow> \<not> ok frameType)
            then ([], np, Some ErrQUICFrameNotAllowedInSpace)
            else
              let np = np \<or> \<not> quicIsProbingFrame frameType in
              case quicParseFrameBody frameType p of
                Inl e \<Rightarrow> ([], np, Some e)
              | Inr (f, q) \<Rightarrow>
                  (case quicParseFrames allowed np q of
                     (fs, r) \<Rightarrow> (case f of None \<Rightarrow> fs | Some g \<Rightarrow> g # fs, r)))"
  by pat_completeness auto
termination
  by (relation "measure (\<lambda>(allowed, np, data). length data)")
    (auto dest!: readVarint_length quicParseFrameBody_length)

declare quicParseFrames.simps [simp del]


subsection \<open>Reading back what was written\<close>

lemma readVarint_bytes [simp]: "v < 2 ^ 62 \<Longrightarrow> readVarint (varint_bytes v @ rest) = Some (v, rest)"
  by (simp add: readVarint_def quicParseVarint_bytes)

lemma readVarint_bytes_end [simp]: "v < 2 ^ 62 \<Longrightarrow> readVarint (varint_bytes v) = Some (v, [])"
  using readVarint_bytes [of v "[]"] by simp

lemma readBytes_append [simp]: "length bs = n \<Longrightarrow> readBytes (bs @ rest) n = Some (bs, rest)"
  by (auto simp: readBytes_def)

lemma unat_of_length: "n < 2 ^ 62 \<Longrightarrow> unat (of_nat n :: u64) = n"
  by (simp add: unat_of_nat)

lemma of_length_less: "n < 4611686018427387904 \<Longrightarrow> (of_nat n :: u64) < 4611686018427387904"
  by (simp add: word_less_nat_alt unat_of_nat)

lemma readVarint_zero: "readVarint (0 # p) = Some (0, p)"
  by (simp add: readVarint_def quicParseVarint_def)

lemma readBytes_1: "readBytes (b # p) (Suc 0) = Some ([b], p)"
  by (simp add: readBytes_def)

lemma readBytes_of_length [simp]:
  "length bs < 2 ^ 62 \<Longrightarrow> readBytes (bs @ rest) (unat (of_nat (length bs) :: u64)) = Some (bs, rest)"
  by (simp add: unat_of_length)

text \<open>The first byte of a small frame type is the type itself.\<close>

lemma varint_bytes_type: "v < 64 \<Longrightarrow> varint_bytes v = [ucast v]"
  by (simp add: varint_bytes_def quicAppendVarint_def)

definition consFrame :: "quicFrame option \<Rightarrow> quicFrame list \<times> 'r \<Rightarrow> quicFrame list \<times> 'r" where
  "consFrame f r = (case f of None \<Rightarrow> r | Some g \<Rightarrow> (g # fst r, snd r))"

lemma quicParseFrames_Nil [simp]: "quicParseFrames allowed np [] = ([], np, None)"
  by (simp add: quicParseFrames.simps)

lemma quicParseFrames_step:
  assumes "frameType < 64" and "frameType \<noteq> 0"
    and "case allowed of None \<Rightarrow> True | Some ok \<Rightarrow> ok frameType"
    and "quicParseFrameBody frameType p = Inr (f, q)"
  shows "quicParseFrames allowed np (varint_bytes frameType @ p)
       = consFrame f (quicParseFrames allowed (np \<or> \<not> quicIsProbingFrame frameType) q)"
proof -
  have "(ucast frameType :: byte) \<noteq> 0"
    using varint1_value [OF assms(1)] assms(2) by auto
  moreover have "readVarint (ucast frameType # p) = Some (frameType, p)"
    using readVarint_bytes [of frameType p] assms(1) varint_bytes_type [OF assms(1)]
    by (simp add: word_less_nat_alt)
  ultimately show ?thesis
    using assms(3,4)
    by (subst quicParseFrames.simps)
      (auto simp: varint_bytes_type [OF assms(1)] consFrame_def Let_def split: prod.splits option.splits)
qed

text \<open>
  \<open>quicEmitFrame\<close> is the writer the code uses for each kind of frame, \<open>wf_frame\<close> what a frame must
  satisfy to be writable: every field fits a variable-length integer and the fixed-length fields
  have their length.  \<open>OnACK\<close> is limited to a single range here; acknowledgements with several
  ranges are treated with the packet-number bookkeeping.
\<close>

fun quicEmitFrame :: "quicFrame \<Rightarrow> byte list" where
  "quicEmitFrame OnPadding = [0x00]"
| "quicEmitFrame OnPing = quicAppendVarint [] quicFramePing"
| "quicEmitFrame (OnACK f) =
     quicAppendACKFrame [] (ack_largestAck f) (ack_ackDelay f) (ack_firstRange f)"
| "quicEmitFrame (OnCrypto f) = quicAppendCryptoFrame [] (cr_offset f) (cr_data f)"
| "quicEmitFrame (OnStream f) =
     quicAppendStreamFrame [] (st_streamID f) (st_offset f) (st_data f) (st_fin f)"
| "quicEmitFrame (OnMaxData f) = quicAppendMaxDataFrame [] (md_maxData f)"
| "quicEmitFrame (OnMaxStreamData f) =
     quicAppendMaxStreamDataFrame [] (msd_streamID f) (msd_maxStreamData f)"
| "quicEmitFrame (OnMaxStreams f) = quicAppendMaxStreamsFrame [] (ms_maxStreams f) (ms_bidi f)"
| "quicEmitFrame (OnResetStream f) =
     quicAppendResetStreamFrame [] (rs_streamID f) (rs_errorCode f) (rs_finalSize f)"
| "quicEmitFrame (OnStopSending f) =
     quicAppendStopSendingFrame [] (ss_streamID f) (ss_errorCode f)"
| "quicEmitFrame (OnRetireConnID seq) = quicAppendRetireConnIDFrame [] seq"
| "quicEmitFrame (OnPathChallenge d) = quicAppendPathFrame [] quicFramePathChallenge d"
| "quicEmitFrame (OnPathResponse d) = quicAppendPathFrame [] quicFramePathResponse d"
| "quicEmitFrame (OnConnClose f) =
     (if cc_isApp f then quicAppendAppCloseFrame [] (cc_errorCode f) (cc_reasonPhrase f)
      else quicAppendConnCloseFrame [] (cc_errorCode f) (cc_frameType f) (cc_reasonPhrase f))"
| "quicEmitFrame OnHandshakeDone = quicAppendHandshakeDoneFrame []"
| "quicEmitFrame (OnNewConnID f) =
     quicAppendNewConnIDFrame [] (nc_seq f) (nc_retirePT f) (nc_connID f) (nc_resetToken f)"
| "quicEmitFrame (OnNewToken t) = []"

abbreviation vint :: "u64 \<Rightarrow> bool" where "vint v \<equiv> v < 2 ^ 62"

fun wf_frame :: "quicFrame \<Rightarrow> bool" where
  "wf_frame (OnACK f) \<longleftrightarrow> vint (ack_largestAck f) \<and> vint (ack_ackDelay f) \<and> vint (ack_firstRange f)
     \<and> ack_ranges f = []"
| "wf_frame (OnCrypto f) \<longleftrightarrow> vint (cr_offset f) \<and> length (cr_data f) < 2 ^ 62"
| "wf_frame (OnStream f) \<longleftrightarrow> vint (st_streamID f) \<and> vint (st_offset f) \<and> length (st_data f) < 2 ^ 62"
| "wf_frame (OnMaxData f) \<longleftrightarrow> vint (md_maxData f)"
| "wf_frame (OnMaxStreamData f) \<longleftrightarrow> vint (msd_streamID f) \<and> vint (msd_maxStreamData f)"
| "wf_frame (OnMaxStreams f) \<longleftrightarrow> vint (ms_maxStreams f)"
| "wf_frame (OnResetStream f) \<longleftrightarrow> vint (rs_streamID f) \<and> vint (rs_errorCode f) \<and> vint (rs_finalSize f)"
| "wf_frame (OnStopSending f) \<longleftrightarrow> vint (ss_streamID f) \<and> vint (ss_errorCode f)"
| "wf_frame (OnRetireConnID seq) \<longleftrightarrow> vint seq"
| "wf_frame (OnPathChallenge d) \<longleftrightarrow> length d = quicPathChallengeLen"
| "wf_frame (OnPathResponse d) \<longleftrightarrow> length d = quicPathChallengeLen"
| "wf_frame (OnConnClose f) \<longleftrightarrow> vint (cc_errorCode f) \<and> length (cc_reasonPhrase f) < 2 ^ 62
     \<and> (if cc_isApp f then cc_frameType f = 0 else vint (cc_frameType f))"
| "wf_frame (OnNewConnID f) \<longleftrightarrow> vint (nc_seq f) \<and> vint (nc_retirePT f) \<and> length (nc_connID f) \<le> 20
     \<and> length (nc_resetToken f) = 16"
| "wf_frame (OnNewToken t) \<longleftrightarrow> False"
| "wf_frame _ \<longleftrightarrow> True"

lemmas quicAppendFrame_defs = quicAppendACKFrame_def quicAppendCryptoFrame_def quicAppendStreamFrame_def
  quicAppendMaxDataFrame_def quicAppendMaxStreamDataFrame_def quicAppendMaxStreamsFrame_def
  quicAppendResetStreamFrame_def quicAppendStopSendingFrame_def quicAppendRetireConnIDFrame_def
  quicAppendPathFrame_def quicAppendAppCloseFrame_def quicAppendConnCloseFrame_def
  quicAppendHandshakeDoneFrame_def quicAppendNewConnIDFrame_def quicAppendStreamDataBlockedFrame_def

text \<open>Each writer produces a frame type followed by what the switch of the parser reads for it.\<close>

fun frameTypeOf :: "quicFrame \<Rightarrow> u64" where
  "frameTypeOf OnPadding = quicFramePadding"
| "frameTypeOf OnPing = quicFramePing"
| "frameTypeOf (OnACK f) = quicFrameACK"
| "frameTypeOf (OnCrypto f) = quicFrameCrypto"
| "frameTypeOf (OnStream f) =
     0x0a OR (if st_offset f > 0 then 0x04 else 0) OR (if st_fin f then 0x01 else 0)"
| "frameTypeOf (OnMaxData f) = quicFrameMaxData"
| "frameTypeOf (OnMaxStreamData f) = quicFrameMaxStreamData"
| "frameTypeOf (OnMaxStreams f) = (if ms_bidi f then quicFrameMaxStreamsBidi else quicFrameMaxStreamsUni)"
| "frameTypeOf (OnResetStream f) = quicFrameResetStream"
| "frameTypeOf (OnStopSending f) = quicFrameStopSending"
| "frameTypeOf (OnRetireConnID seq) = quicFrameRetireConnID"
| "frameTypeOf (OnPathChallenge d) = quicFramePathChallenge"
| "frameTypeOf (OnPathResponse d) = quicFramePathResponse"
| "frameTypeOf (OnConnClose f) = (if cc_isApp f then quicFrameAppClose else quicFrameConnClose)"
| "frameTypeOf OnHandshakeDone = quicFrameHandshakeDone"
| "frameTypeOf (OnNewConnID f) = quicFrameNewConnID"
| "frameTypeOf (OnNewToken t) = quicFrameNewToken"

lemma frameTypeOf_small: "frameTypeOf f < 64" "f \<noteq> OnPadding \<Longrightarrow> frameTypeOf f \<noteq> 0"
  by (cases f; simp add: quicFrame_types)+

lemma quicEmitFrame_type:
  assumes "wf_frame f"
  shows "quicEmitFrame f = varint_bytes (frameTypeOf f) @ drop 1 (quicEmitFrame f)"
  using assms
  by (cases f) (simp_all add: quicAppendFrame_defs quicAppendVarint_append varint_bytes_type quicFrame_types
      quicStreamFlagOff_def quicStreamFlagLen_def quicStreamFlagFin_def)

lemmas parse_defs = quicParseFrameBody_def truncated_def parseACK_def parseStream_def
  parseConnClose_def parseNewConnID_def

lemma stream_zero_offset:
  "\<not> 0 < st_offset f \<Longrightarrow> st_fin f = b \<Longrightarrow>
   \<lparr>st_streamID = st_streamID f, st_offset = 0, st_data = st_data f, st_fin = b\<rparr> = f"
  by (cases f) (auto simp: word_gt_0)

lemma quicEmitFrame_body:
  assumes "wf_frame f" and "f \<noteq> OnPadding"
  shows "quicParseFrameBody (frameTypeOf f) (drop 1 (quicEmitFrame f) @ rest) = Inr (Some f, rest)"
  using assms
  by (cases f) (auto simp: quicAppendFrame_defs quicAppendVarint_append varint_bytes_type quicFrame_types
      parse_defs of_length_less readVarint_zero readBytes_1 unat_of_nat Let_def stream_zero_offset
      quicStreamFlagOff_def quicStreamFlagLen_def quicStreamFlagFin_def quicPathChallengeLen_def
      split: if_splits)

lemma quicParseFrames_emit:
  assumes "wf_frame f" and "case allowed of None \<Rightarrow> True | Some ok \<Rightarrow> ok (frameTypeOf f)"
  shows "quicParseFrames allowed np (quicEmitFrame f @ rest)
       = consFrame (Some f) (quicParseFrames allowed
           (np \<or> f \<noteq> OnPadding \<and> \<not> quicIsProbingFrame (frameTypeOf f)) rest)"
proof (cases "f = OnPadding")
  case True
  then show ?thesis
    by (subst quicParseFrames.simps) (simp add: consFrame_def split: prod.splits)
next
  case False
  have eq: "quicEmitFrame f @ rest = varint_bytes (frameTypeOf f) @ (drop 1 (quicEmitFrame f) @ rest)"
    using quicEmitFrame_type [OF assms(1)] by (metis append.assoc)
  have "quicParseFrames allowed np (quicEmitFrame f @ rest)
      = consFrame (Some f) (quicParseFrames allowed (np \<or> \<not> quicIsProbingFrame (frameTypeOf f)) rest)"
    unfolding eq
    by (rule quicParseFrames_step) (use frameTypeOf_small assms quicEmitFrame_body False in auto)
  with False show ?thesis by simp
qed

text \<open>
  C2: whatever sequence of frames the writers emit into a packet, the parser visits exactly that
  sequence, in order and without an error, in every packet space that permits those frames.
\<close>

theorem quic_frames_roundtrip:
  assumes "\<forall>f \<in> set fs. wf_frame f"
    and "\<forall>f \<in> set fs. case allowed of None \<Rightarrow> True | Some ok \<Rightarrow> ok (frameTypeOf f)"
  shows "\<exists>np'. quicParseFrames allowed np (concat (map quicEmitFrame fs)) = (fs, np', None)"
  using assms
proof (induction fs arbitrary: np)
  case (Cons f fs)
  let ?np = "np \<or> f \<noteq> OnPadding \<and> \<not> quicIsProbingFrame (frameTypeOf f)"
  from Cons.IH [of ?np] Cons.prems obtain np' where
    "quicParseFrames allowed ?np (concat (map quicEmitFrame fs)) = (fs, np', None)" by auto
  with quicParseFrames_emit [of f allowed np "concat (map quicEmitFrame fs)"] Cons.prems show ?case
    by (simp add: consFrame_def)
qed simp

theorem quic_frames_roundtrip_witness:
  "\<exists>np'. quicParseFrames None False (concat (map quicEmitFrame
      [OnPing, OnMaxData \<lparr>md_maxData = 70000\<rparr>,
       OnStream \<lparr>st_streamID = 4, st_offset = 9, st_data = [1, 2], st_fin = True\<rparr>]))
    = ([OnPing, OnMaxData \<lparr>md_maxData = 70000\<rparr>,
        OnStream \<lparr>st_streamID = 4, st_offset = 9, st_data = [1, 2], st_fin = True\<rparr>], np', None)"
  by (rule quic_frames_roundtrip) auto

text \<open>Frames that may be visited while the keys of the handshake spaces are in use.\<close>

fun handshakeFrame :: "quicFrame \<Rightarrow> bool" where
  "handshakeFrame OnPadding = True"
| "handshakeFrame OnPing = True"
| "handshakeFrame (OnACK _) = True"
| "handshakeFrame (OnCrypto _) = True"
| "handshakeFrame (OnConnClose f) = (\<not> cc_isApp f)"
| "handshakeFrame _ = False"

lemma parseConnClose_isApp: "parseConnClose app p = Some (c, q) \<Longrightarrow> cc_isApp c = app"
  by (auto simp: parseConnClose_def bind_eq_Some_conv split: if_splits)

lemma quicParseFrameBody_handshake:
  assumes "quicParseFrameBody t p = Inr (Some f, q)" and "quicFrameAllowedInHandshakeSpaces t"
  shows "handshakeFrame f"
  using assms
  by (auto simp: quicFrameAllowedInHandshakeSpaces_def quicParseFrameBody_def quicFrame_types
      dest: parseConnClose_isApp elim!: truncated_Inr split: if_splits)

text \<open>
  C11: in the Initial and Handshake packet spaces the parser never hands any other frame to a
  callback than PADDING, PING, ACK, CRYPTO and the transport form of CONNECTION_CLOSE, whatever
  bytes the packet holds; in particular no stream, flow-control or connection-ID state can change
  before the handshake is complete.
\<close>

theorem quic_handshake_frames_only:
  "list_all handshakeFrame (fst (quicParseFrames (Some quicFrameAllowedInHandshakeSpaces) np data))"
proof (induction "Some quicFrameAllowedInHandshakeSpaces" np data rule: quicParseFrames.induct)
  case (1 np data)
  show ?case
    using 1 quicParseFrameBody_handshake
    by (subst quicParseFrames.simps)
      (fastforce simp: Let_def split: prod.splits option.splits sum.splits)
qed

end
