(* ===== verification/Quic_Ack.thy ===== *)
theory Quic_Ack
  imports Quic_Frame
begin

text \<open>
  Received packet numbers and ACK frames, \<open>core/quic_ack.go\<close>.  For one packet number space the
  connection keeps a list of at most 32 ranges, newest first, and a floor below which every
  packet number counts as already received.  The theory shows that the list is always a list of
  disjoint, non-adjacent ranges in descending order, that it represents exactly the packet
  numbers recorded at or above the floor, that no packet number is ever accepted twice, and that
  the ACK frame written for it is read back, and expanded by the acknowledgement handler of
  \<open>core/quic_loss.go\<close>, to the same ranges.
\<close>

record pnRange =
  lo :: u64
  hi :: u64

definition maxAckRanges :: nat where "maxAckRanges = 32"

text \<open>The entries \<open>ackFloor[space]\<close> and \<open>ackRanges[space]\<close> of \<open>QUICConn\<close> for one space.\<close>

record quicAckState =
  ackFloor :: u64
  ackRanges :: "pnRange list"

definition quicAckInit :: quicAckState where
  "quicAckInit = \<lparr>ackFloor = 0, ackRanges = []\<rparr>"

text \<open>
  The search loop: \<open>None\<close> is the early \<open>return false\<close> for a number already in a range, \<open>Some idx\<close>
  the position at which the new range goes.
\<close>

fun findAckIdx :: "u64 \<Rightarrow> pnRange list \<Rightarrow> nat \<Rightarrow> nat option" where
  "findAckIdx pn [] i = Some i"
| "findAckIdx pn (r # rs) i =
     (if pn \<ge> lo r \<and> pn \<le> hi r then None
      else if pn > hi r then Some i
      else findAckIdx pn rs (Suc i))"

text \<open>The merge loop; \<open>l\<close> is the source's \<open>last\<close>, the range under construction at the end of \<open>merged\<close>.\<close>

fun mergeAckRanges :: "pnRange \<Rightarrow> pnRange list \<Rightarrow> pnRange list" where
  "mergeAckRanges l [] = [l]"
| "mergeAckRanges l (r # rs) =
     (if hi r + 1 \<ge> lo l then
        mergeAckRanges (if lo r < lo l then l\<lparr>lo := lo r\<rparr> else l) rs
      else l # mergeAckRanges r rs)"

definition recordRecvPN :: "quicAckState \<Rightarrow> u64 \<Rightarrow> quicAckState \<times> bool" where
  "recordRecvPN s pn =
     (if pn < ackFloor s then (s, False)
      else case findAckIdx pn (ackRanges s) 0 of
        None \<Rightarrow> (s, False)
      | Some idx \<Rightarrow>
          let rs = take idx (ackRanges s) @ \<lparr>lo = pn, hi = pn\<rparr> # drop idx (ackRanges s);
              merged = mergeAckRanges (rs ! 0) (drop 1 rs)
          in if length merged > maxAckRanges then
               let merged = take maxAckRanges merged
               in (\<lparr>ackFloor = max (ackFloor s) (lo (merged ! (maxAckRanges - 1))),
                    ackRanges = merged\<rparr>, True)
             else (s\<lparr>ackRanges := merged\<rparr>, True))"

fun ackGapsBytes :: "byte list \<Rightarrow> u64 \<Rightarrow> pnRange list \<Rightarrow> byte list" where
  "ackGapsBytes dst prevLo [] = dst"
| "ackGapsBytes dst prevLo (r # rs) =
     (let dst = quicAppendVarint dst (prevLo - hi r - 2);
          dst = quicAppendVarint dst (hi r - lo r)
      in ackGapsBytes dst (lo r) rs)"

definition quicAppendACKFrameRanges :: "byte list \<Rightarrow> u64 \<Rightarrow> pnRange list \<Rightarrow> byte list" where
  "quicAppendACKFrameRanges dst ackDelay ranges =
     (case ranges of
        [] \<Rightarrow> dst
      | r # rs \<Rightarrow>
          let dst = quicAppendVarint dst quicFrameACK;
              dst = quicAppendVarint dst (hi r);
              dst = quicAppendVarint dst ackDelay;
              dst = quicAppendVarint dst (of_nat (length ranges - 1));
              dst = quicAppendVarint dst (hi r - lo r)
          in ackGapsBytes dst (lo r) rs)"

subsection \<open>The representation invariant\<close>

definition pn_set :: "pnRange list \<Rightarrow> nat set" where
  "pn_set rs = (\<Union>r \<in> set rs. {unat (lo r)..unat (hi r)})"

definition wf_range :: "pnRange \<Rightarrow> bool" where
  "wf_range r \<longleftrightarrow> lo r \<le> hi r \<and> hi r < 2 ^ 62"

definition apart :: "pnRange \<Rightarrow> pnRange \<Rightarrow> bool" where
  "apart r s \<longleftrightarrow> unat (hi s) + 1 < unat (lo r)"

definition ack_inv :: "quicAckState \<Rightarrow> bool" where
  "ack_inv s \<longleftrightarrow> list_all wf_range (ackRanges s) \<and> sorted_wrt apart (ackRanges s)
     \<and> length (ackRanges s) \<le> maxAckRanges \<and> list_all (\<lambda>r. ackFloor s \<le> lo r) (ackRanges s)"

lemma pn_set_simps [simp]:
  "pn_set [] = {}" "pn_set (r # rs) = {unat (lo r)..unat (hi r)} \<union> pn_set rs"
  "pn_set (rs @ ss) = pn_set rs \<union> pn_set ss"
  by (auto simp: pn_set_def)

lemma unat_hi_Suc: "wf_range r \<Longrightarrow> unat (hi r + 1) = unat (hi r) + 1"
  by (auto simp: wf_range_def word_less_nat_alt unat_word_ariths)

lemma findAckIdx_None:
  "findAckIdx pn rs i = None \<Longrightarrow> unat pn \<in> pn_set rs"
  by (induction rs arbitrary: i) (auto simp: word_le_nat_alt split: if_splits)

lemma findAckIdx_Some:
  assumes "findAckIdx pn rs i = Some j" and "list_all wf_range rs" and "sorted_wrt apart rs"
  shows "\<exists>as bs. rs = as @ bs \<and> j = i + length as \<and> list_all (\<lambda>r. pn < lo r) as
           \<and> list_all (\<lambda>r. hi r < pn) bs"
  using assms
proof (induction rs arbitrary: i)
  case (Cons r rs)
  show ?case
  proof (cases "pn > hi r")
    case True
    have "hi s < pn" if "s \<in> set rs" for s
      using Cons.prems that True
      by (auto simp: apart_def wf_range_def list_all_iff word_less_nat_alt word_le_nat_alt)
    with True Cons.prems show ?thesis
      by (intro exI [of _ "[]"] exI [of _ "r # rs"])
        (auto simp: list_all_iff word_less_nat_alt word_le_nat_alt split: if_splits)
  next
    case False
    with Cons.prems have "findAckIdx pn rs (Suc i) = Some j" and lt: "pn < lo r"
      by (auto split: if_splits)
    with Cons.IH [of "Suc i"] Cons.prems obtain as bs where "rs = as @ bs" "j = Suc i + length as"
      "list_all (\<lambda>r. pn < lo r) as" "list_all (\<lambda>r. hi r < pn) bs" by auto
    with lt show ?thesis by (intro exI [of _ "r # as"] exI [of _ bs]) auto
  qed
qed simp

text \<open>
  The merge: from ranges that are disjoint and descending it makes ranges that are also not
  adjacent, and it keeps the set of numbers and the upper end of the first range.
\<close>

definition below :: "pnRange \<Rightarrow> pnRange \<Rightarrow> bool" where
  "below r s \<longleftrightarrow> hi s < lo r"

lemma range_join:
  assumes "wf_range l" and "wf_range r" and "hi r < lo l" and "hi r + 1 \<ge> lo l"
  shows "lo r < lo l" and "wf_range (l\<lparr>lo := lo r\<rparr>)" and "unat (lo l) = unat (hi r) + 1"
  using assms unat_hi_Suc [OF assms(2)]
  by (auto simp: wf_range_def word_less_nat_alt word_le_nat_alt)

lemma mergeAckRanges_joined:
  assumes "hi r + 1 \<ge> lo l" and "sorted_wrt below (l # r # rs)" and "list_all wf_range (l # r # rs)"
  shows "mergeAckRanges l (r # rs) = mergeAckRanges (l\<lparr>lo := lo r\<rparr>) rs"
    and "sorted_wrt below (l\<lparr>lo := lo r\<rparr> # rs)" and "list_all wf_range (l\<lparr>lo := lo r\<rparr> # rs)"
    and "pn_set (l\<lparr>lo := lo r\<rparr> # rs) = pn_set (l # r # rs)"
proof -
  have "wf_range l" "wf_range r" "hi r < lo l" using assms by (simp_all add: below_def)
  note j = range_join [OF this assms(1)] this
  show "mergeAckRanges l (r # rs) = mergeAckRanges (l\<lparr>lo := lo r\<rparr>) rs" using j assms(1) by simp
  show "sorted_wrt below (l\<lparr>lo := lo r\<rparr> # rs)" using assms(2) by (simp add: below_def)
  show "list_all wf_range (l\<lparr>lo := lo r\<rparr> # rs)" using assms(3) j(2) by simp
  have "{unat (lo r)..unat (hi l)} = {unat (lo l)..unat (hi l)} \<union> {unat (lo r)..unat (hi r)}"
    using j by (auto simp: wf_range_def word_le_nat_alt)
  then show "pn_set (l\<lparr>lo := lo r\<rparr> # rs) = pn_set (l # r # rs)" by (simp add: Un_assoc)
qed

lemma mergeAckRanges_props:
  assumes "sorted_wrt below (l # rs)" and "list_all wf_range (l # rs)"
  shows "pn_set (mergeAckRanges l rs) = pn_set (l # rs) \<and> list_all wf_range (mergeAckRanges l rs)
    \<and> sorted_wrt apart (mergeAckRanges l rs) \<and> list_all (\<lambda>r. hi r \<le> hi l) (mergeAckRanges l rs)"
  using assms
proof (induction rs arbitrary: l)
  case (Cons r rs)
  show ?case
  proof (cases "hi r + 1 \<ge> lo l")
    case True
    note joined = mergeAckRanges_joined [OF True Cons.prems]
    from Cons.IH [OF joined(2,3)] show ?thesis unfolding joined(1,4) by simp
  next
    case False
    have "wf_range r" "wf_range l" "hi r < lo l" using Cons.prems by (auto simp: below_def)
    with False have gap: "unat (hi r) + 1 < unat (lo l)" and "hi r \<le> hi l"
      using unat_hi_Suc [of r] by (auto simp: wf_range_def word_le_nat_alt word_less_nat_alt)
    have step: "mergeAckRanges l (r # rs) = l # mergeAckRanges r rs" using False by simp
    have ih: "pn_set (mergeAckRanges r rs) = pn_set (r # rs)" "list_all wf_range (mergeAckRanges r rs)"
      "sorted_wrt apart (mergeAckRanges r rs)" "list_all (\<lambda>s. hi s \<le> hi r) (mergeAckRanges r rs)"
      using Cons.IH [of r] Cons.prems by simp_all
    have "apart l s" if "s \<in> set (mergeAckRanges r rs)" for s
      using ih(4) that gap by (fastforce simp: list_all_iff apart_def word_le_nat_alt)
    moreover have "list_all (\<lambda>s. hi s \<le> hi l) (mergeAckRanges r rs)"
      using ih(4) \<open>hi r \<le> hi l\<close> by (force simp: list_all_iff)
    ultimately show ?thesis unfolding step using ih \<open>wf_range l\<close> by simp
  qed
qed simp

lemma mergeAckRanges_lo:
  "list_all (\<lambda>r. f \<le> lo r) (l # rs) \<Longrightarrow> list_all (\<lambda>r. f \<le> lo r) (mergeAckRanges l rs)"
  by (induction l rs rule: mergeAckRanges.induct) auto

subsection \<open>What one call does\<close>

lemma ack_insert_below:
  assumes "findAckIdx pn rs 0 = Some j" and "list_all wf_range rs" and "sorted_wrt apart rs"
    and "pn < 2 ^ 62"
  defines "qs \<equiv> take j rs @ \<lparr>lo = pn, hi = pn\<rparr> # drop j rs"
  shows "sorted_wrt below qs" and "list_all wf_range qs" and "pn_set qs = insert (unat pn) (pn_set rs)"
    and "unat pn \<notin> pn_set rs"
proof -
  from findAckIdx_Some [OF assms(1-3)] obtain as bs where rs: "rs = as @ bs" "j = length as"
    and as: "list_all (\<lambda>r. pn < lo r) as" and bs: "list_all (\<lambda>r. hi r < pn) bs" by auto
  have qs: "qs = as @ \<lparr>lo = pn, hi = pn\<rparr> # bs" using rs by (simp add: qs_def)
  have "sorted_wrt below rs" using assms(3)
    by (rule sorted_wrt_mono_rel [rotated]) (auto simp: apart_def below_def word_less_nat_alt)
  then show "sorted_wrt below qs"
    using as bs by (auto simp: qs rs(1) sorted_wrt_append below_def list_all_iff)
  show "list_all wf_range qs" using assms(2,4) by (simp add: qs rs(1) wf_range_def)
  show "pn_set qs = insert (unat pn) (pn_set rs)" by (auto simp: qs rs(1))
  show "unat pn \<notin> pn_set rs"
    using as bs by (auto simp: rs(1) pn_set_def list_all_iff word_less_nat_alt)
qed

lemma pn_set_take:
  assumes "sorted_wrt apart rs" and "list_all wf_range rs" and "k < length rs"
  shows "pn_set (take (Suc k) rs) = {p \<in> pn_set rs. unat (lo (rs ! k)) \<le> p}"
    and "list_all (\<lambda>r. lo (rs ! k) \<le> lo r) (take (Suc k) rs)"
proof -
  have eq: "rs = take k rs @ rs ! k # drop (Suc k) rs" using assms(3) by (rule id_take_nth_drop)
  have take: "take (Suc k) rs = take k rs @ [rs ! k]" using assms(3) by (rule take_Suc_conv_app_nth)
  have ord: "sorted_wrt apart (take k rs @ rs ! k # drop (Suc k) rs)"
    and wf: "list_all wf_range (take k rs @ rs ! k # drop (Suc k) rs)"
    using assms(1,2) by (simp_all add: eq [symmetric])
  have hi: "unat (lo (rs ! k)) \<le> unat (lo r)" if "r \<in> set (take k rs)" for r
    using ord wf that by (auto simp: sorted_wrt_append apart_def wf_range_def word_le_nat_alt)
  moreover have "unat (hi r) < unat (lo (rs ! k))" if "r \<in> set (drop (Suc k) rs)" for r
    using ord that by (auto simp: sorted_wrt_append apart_def)
  ultimately have "pn_set (take k rs @ [rs ! k])
      = {p \<in> pn_set (take k rs @ rs ! k # drop (Suc k) rs). unat (lo (rs ! k)) \<le> p}"
    by (fastforce simp: pn_set_def)
  then show "pn_set (take (Suc k) rs) = {p \<in> pn_set rs. unat (lo (rs ! k)) \<le> p}"
    by (simp add: take eq [symmetric])
  show "list_all (\<lambda>r. lo (rs ! k) \<le> lo r) (take (Suc k) rs)"
    using hi by (auto simp: take list_all_iff word_le_nat_alt)
qed

lemma pn_set_ge:
  "list_all (\<lambda>r. f \<le> lo r) rs \<Longrightarrow> p \<in> pn_set rs \<Longrightarrow> unat f \<le> p"
  by (fastforce simp: pn_set_def list_all_iff word_le_nat_alt)

text \<open>\<open>truncate_ranges\<close> is the last statement of \<open>recordRecvPN\<close>, on the merged list.\<close>

definition truncate_ranges :: "u64 \<Rightarrow> pnRange list \<Rightarrow> quicAckState" where
  "truncate_ranges f m =
     (if length m > maxAckRanges then \<lparr>ackFloor = max f (lo (take maxAckRanges m ! (maxAckRanges - 1))),
        ackRanges = take maxAckRanges m\<rparr> else \<lparr>ackFloor = f, ackRanges = m\<rparr>)"

lemma truncate_ranges:
  assumes "list_all wf_range m" and "sorted_wrt apart m" and "list_all (\<lambda>r. f \<le> lo r) m"
  shows "ack_inv (truncate_ranges f m)" and "f \<le> ackFloor (truncate_ranges f m)"
    and "pn_set (ackRanges (truncate_ranges f m)) = {p \<in> pn_set m. unat (ackFloor (truncate_ranges f m)) \<le> p}"
proof -
  let ?t = "truncate_ranges f m"
  have "ack_inv ?t \<and> f \<le> ackFloor ?t \<and> pn_set (ackRanges ?t) = {p \<in> pn_set m. unat (ackFloor ?t) \<le> p}"
  proof (cases "length m > maxAckRanges")
    case True
    then have k: "31 < length m" by (simp add: maxAckRanges_def)
    have t: "?t = \<lparr>ackFloor = lo (m ! 31), ackRanges = take 32 m\<rparr>"
      using assms(3) k True by (auto simp: truncate_ranges_def maxAckRanges_def list_all_iff max_def)
    have "f \<le> lo (m ! 31)" using assms(3) k by (simp add: list_all_iff)
    moreover have "list_all wf_range (take 32 m)"
      using assms(1) by (auto simp: list_all_iff dest: in_set_takeD)
    moreover have "sorted_wrt apart (take 32 m)" using assms(2) by (rule sorted_wrt_take)
    ultimately show ?thesis using pn_set_take [OF assms(2,1) k]
      by (simp add: t ack_inv_def maxAckRanges_def)
  next
    case False
    with assms pn_set_ge [OF assms(3)] show ?thesis by (auto simp: truncate_ranges_def ack_inv_def)
  qed
  then show "ack_inv ?t" "f \<le> ackFloor ?t"
    "pn_set (ackRanges ?t) = {p \<in> pn_set m. unat (ackFloor ?t) \<le> p}" by auto
qed

lemma recordRecvPN_truncate:
  "pn \<ge> ackFloor s \<Longrightarrow> findAckIdx pn (ackRanges s) 0 = Some j \<Longrightarrow>
   recordRecvPN s pn = (let rs = take j (ackRanges s) @ \<lparr>lo = pn, hi = pn\<rparr> # drop j (ackRanges s)
     in (truncate_ranges (ackFloor s) (mergeAckRanges (hd rs) (tl rs)), True))"
  by (cases s) (auto simp: recordRecvPN_def truncate_ranges_def Let_def hd_conv_nth drop_Suc)

lemma recordRecvPN_step:
  assumes inv: "ack_inv s" and pn: "pn < 2 ^ 62" and eq: "recordRecvPN s pn = (s', ok)"
  shows "ok \<longleftrightarrow> ackFloor s \<le> pn \<and> unat pn \<notin> pn_set (ackRanges s)"
    and "\<not> ok \<Longrightarrow> s' = s" and "ack_inv s'" and "ackFloor s \<le> ackFloor s'"
    and "ok \<Longrightarrow> pn_set (ackRanges s') = {p \<in> insert (unat pn) (pn_set (ackRanges s)). unat (ackFloor s') \<le> p}"
proof -
  let ?P = "(ok \<longleftrightarrow> ackFloor s \<le> pn \<and> unat pn \<notin> pn_set (ackRanges s)) \<and> (\<not> ok \<longrightarrow> s' = s)
    \<and> ack_inv s' \<and> ackFloor s \<le> ackFloor s' \<and> (ok \<longrightarrow> pn_set (ackRanges s')
        = {p \<in> insert (unat pn) (pn_set (ackRanges s)). unat (ackFloor s') \<le> p})"
  have ?P
  proof (cases "pn < ackFloor s \<or> findAckIdx pn (ackRanges s) 0 = None")
    case True
    with eq have "s' = s" "\<not> ok" by (auto simp: recordRecvPN_def split: if_splits)
    moreover have "pn < ackFloor s \<or> unat pn \<in> pn_set (ackRanges s)"
      using True findAckIdx_None by blast
    ultimately show ?thesis using inv by auto
  next
    case False
    then obtain j where fl: "ackFloor s \<le> pn" and j: "findAckIdx pn (ackRanges s) 0 = Some j" by auto
    define rs where "rs = take j (ackRanges s) @ \<lparr>lo = pn, hi = pn\<rparr> # drop j (ackRanges s)"
    have invs: "list_all wf_range (ackRanges s)" "sorted_wrt apart (ackRanges s)"
      "list_all (\<lambda>r. ackFloor s \<le> lo r) (ackRanges s)" using inv by (auto simp: ack_inv_def)
    note ins = ack_insert_below [OF j invs(1,2) pn, folded rs_def]
    have ne: "hd rs # tl rs = rs" by (simp add: rs_def)
    note merged = mergeAckRanges_props [of "hd rs" "tl rs", unfolded ne, OF ins(1,2)]
    have "list_all (\<lambda>r. ackFloor s \<le> lo r) rs"
      using invs(3) fl by (auto simp: rs_def list_all_iff dest: in_set_takeD in_set_dropD)
    from mergeAckRanges_lo [of "ackFloor s" "hd rs" "tl rs", unfolded ne, OF this]
    have low: "list_all (\<lambda>r. ackFloor s \<le> lo r) (mergeAckRanges (hd rs) (tl rs))" .
    have s': "s' = truncate_ranges (ackFloor s) (mergeAckRanges (hd rs) (tl rs))" "ok"
      using eq recordRecvPN_truncate [OF fl j] by (simp_all add: rs_def Let_def)
    from merged truncate_ranges [of "mergeAckRanges (hd rs) (tl rs)", OF _ _ low] ins(3,4) fl
    show ?thesis by (simp add: s')
  qed
  then show "ok \<longleftrightarrow> ackFloor s \<le> pn \<and> unat pn \<notin> pn_set (ackRanges s)"
    "\<not> ok \<Longrightarrow> s' = s" "ack_inv s'" "ackFloor s \<le> ackFloor s'"
    "ok \<Longrightarrow> pn_set (ackRanges s') = {p \<in> insert (unat pn) (pn_set (ackRanges s)). unat (ackFloor s') \<le> p}"
    by auto
qed

subsection \<open>A replay filter\<close>

text \<open>
  The contract a receiver relies on: a number is accepted exactly when it has not been seen, a
  number once seen stays seen, and an accepted number is seen from then on.
\<close>

locale replay_filter =
  fixes observe :: "'s \<Rightarrow> 'p \<Rightarrow> 's \<times> bool"
    and seen :: "'s \<Rightarrow> 'p \<Rightarrow> bool"
    and inv :: "'s \<Rightarrow> bool"
    and valid :: "'p \<Rightarrow> bool"
  assumes keeps_inv: "inv s \<Longrightarrow> valid p \<Longrightarrow> inv (fst (observe s p))"
    and accepts: "inv s \<Longrightarrow> valid p \<Longrightarrow> snd (observe s p) \<longleftrightarrow> \<not> seen s p"
    and seen_after: "inv s \<Longrightarrow> valid p \<Longrightarrow> valid q \<Longrightarrow> q = p \<or> seen s q \<Longrightarrow> seen (fst (observe s p)) q"
begin

primrec accepted :: "'s \<Rightarrow> 'p list \<Rightarrow> 'p list" where
  "accepted s [] = []"
| "accepted s (p # ps) = (if snd (observe s p) then [p] else []) @ accepted (fst (observe s p)) ps"

lemma accepted_unseen:
  "inv s \<Longrightarrow> list_all valid ps \<Longrightarrow> p \<in> set (accepted s ps) \<Longrightarrow> valid p \<and> \<not> seen s p"
proof (induction ps arbitrary: s)
  case (Cons q ps)
  then have inv': "inv (fst (observe s q))" using keeps_inv [of s q] by simp
  show ?case
  proof (cases "p \<in> set (accepted (fst (observe s q)) ps)")
    case True
    with Cons inv' have "valid p" "\<not> seen (fst (observe s q)) p" by auto
    with Cons.prems seen_after [of s q p] show ?thesis by auto
  next
    case False
    with Cons.prems accepts [of s q] show ?thesis by (auto split: if_splits)
  qed
qed simp

lemma accepted_distinct:
  "inv s \<Longrightarrow> list_all valid ps \<Longrightarrow> distinct (accepted s ps)"
proof (induction ps arbitrary: s)
  case (Cons p ps)
  then have "inv (fst (observe s p))" "seen (fst (observe s p)) p"
    using keeps_inv [of s p] seen_after [of s p p] by auto
  with Cons accepted_unseen [of "fst (observe s p)" ps p] show ?case by auto
qed simp

end

definition pn_seen :: "quicAckState \<Rightarrow> u64 \<Rightarrow> bool" where
  "pn_seen s pn \<longleftrightarrow> pn < ackFloor s \<or> unat pn \<in> pn_set (ackRanges s)"

interpretation pnf: replay_filter recordRecvPN pn_seen ack_inv "\<lambda>pn. pn < 2 ^ 62"
proof (unfold_locales, goal_cases)
  case (1 s p)
  then show ?case by (rule recordRecvPN_step(3) [OF _ _ surjective_pairing])
next
  case (2 s p)
  from recordRecvPN_step(1) [OF 2 surjective_pairing] show ?case by (auto simp: pn_seen_def)
next
  case (3 s p q)
  note step = recordRecvPN_step [OF 3(1,2) surjective_pairing]
  show ?case
  proof (cases "snd (recordRecvPN s p)")
    case True
    from step(5) [OF True] have set': "unat q \<in> pn_set (ackRanges (fst (recordRecvPN s p))) \<longleftrightarrow>
        (q = p \<or> unat q \<in> pn_set (ackRanges s)) \<and> ackFloor (fst (recordRecvPN s p)) \<le> q"
      by (simp add: word_le_nat_alt word_unat_eq_iff)
    from 3(4) step(4) show ?thesis unfolding pn_seen_def set' by (meson linorder_not_less order_less_le_trans)
  next
    case False
    with step(1,2) have "fst (recordRecvPN s p) = s" "pn_seen s p"
      by (simp_all add: pn_seen_def linorder_not_le disj_commute)
    with 3(4) show ?thesis by auto
  qed
qed

lemmas recordRecvPN_props = recordRecvPN_step [OF _ _ surjective_pairing]

text \<open>
  C12: recording a received packet number keeps the range list well-formed and never lowers the
  floor; the call reports the number as new exactly when it is at or above the floor and in no
  range, leaves the state alone otherwise, and after a new number the ranges hold exactly the old
  numbers and the new one, cut off at the new floor.
\<close>

theorem recordRecvPN_correct:
  assumes "ack_inv s" and "pn < 2 ^ 62"
  shows "case recordRecvPN s pn of (s', isNew) \<Rightarrow>
    ack_inv s' \<and> ackFloor s \<le> ackFloor s'
    \<and> isNew = (ackFloor s \<le> pn \<and> unat pn \<notin> pn_set (ackRanges s))
    \<and> (if isNew then pn_set (ackRanges s')
           = {p \<in> insert (unat pn) (pn_set (ackRanges s)). unat (ackFloor s') \<le> p}
        else s' = s)"
  using recordRecvPN_props [OF assms] by (simp add: case_prod_beta)

theorem recordRecvPN_correct_witness:
  "\<exists>s s'. ack_inv s \<and> ackRanges s = [\<lparr>lo = 7, hi = 9\<rparr>, \<lparr>lo = 2, hi = 5\<rparr>] \<and> recordRecvPN s 6 = (s', True)
     \<and> ack_inv s' \<and> ackRanges s' = [\<lparr>lo = 2, hi = 9\<rparr>]"
proof -
  let ?s = "\<lparr>ackFloor = 0, ackRanges = [\<lparr>lo = 7, hi = 9\<rparr>, \<lparr>lo = 2, hi = 5\<rparr>]\<rparr>"
  let ?t = "\<lparr>ackFloor = 0, ackRanges = [\<lparr>lo = 2, hi = 9\<rparr>]\<rparr>"
  have inv: "ack_inv ?s" by (simp add: ack_inv_def wf_range_def apart_def maxAckRanges_def)
  have run: "recordRecvPN ?s 6 = (?t, True)" by (simp add: recordRecvPN_def maxAckRanges_def)
  have "ack_inv ?t" using recordRecvPN_correct [OF inv, of 6] unfolding run by simp
  with inv run show ?thesis by (intro exI [of _ ?s] exI [of _ ?t]) simp
qed

text \<open>
  A whole run of one space: the packet numbers that \<open>processFrames\<close> goes on to process, in order.
\<close>

fun recvAccepted :: "quicAckState \<Rightarrow> u64 list \<Rightarrow> u64 list" where
  "recvAccepted s [] = []"
| "recvAccepted s (pn # pns) =
     (case recordRecvPN s pn of (s', isNew) \<Rightarrow>
        if isNew then pn # recvAccepted s' pns else recvAccepted s' pns)"

lemma recvAccepted_eq: "recvAccepted s pns = pnf.accepted s pns"
  by (induction s pns rule: recvAccepted.induct) (simp_all split: prod.splits)

text \<open>
  C13: whatever sequence of packet numbers arrives in a space, with repetitions and in any order,
  no number is accepted twice: a replayed or duplicated packet is never processed again.
\<close>

theorem recordRecvPN_no_replay:
  assumes "list_all (\<lambda>pn. pn < 2 ^ 62) pns"
  shows "distinct (recvAccepted quicAckInit pns)"
  unfolding recvAccepted_eq
  using assms by (intro pnf.accepted_distinct) (simp_all add: quicAckInit_def ack_inv_def)

theorem recordRecvPN_no_replay_witness:
  "recvAccepted quicAckInit [4, 1, 4, 2, 1] = [4, 1, 2] \<and> distinct (recvAccepted quicAckInit [4, 1, 4, 2, 1])"
proof
  show "recvAccepted quicAckInit [4, 1, 4, 2, 1] = [4, 1, 2]" by code_simp
  show "distinct (recvAccepted quicAckInit [4, 1, 4, 2, 1])"
    by (rule recordRecvPN_no_replay) simp
qed

subsection \<open>The ACK frame\<close>

text \<open>The frame that describes a range list: gaps and lengths counted down from the largest number.\<close>

fun ackGaps :: "u64 \<Rightarrow> pnRange list \<Rightarrow> quicAckRange list" where
  "ackGaps prevLo [] = []"
| "ackGaps prevLo (r # rs) =
     \<lparr>ar_gap = prevLo - hi r - 2, ar_count = hi r - lo r\<rparr> # ackGaps (lo r) rs"

definition ackFrameOf :: "u64 \<Rightarrow> pnRange list \<Rightarrow> quicAckFrame" where
  "ackFrameOf ackDelay rs =
     \<lparr>ack_largestAck = hi (hd rs), ack_ackDelay = ackDelay, ack_firstRange = hi (hd rs) - lo (hd rs),
      ack_ranges = ackGaps (lo (hd rs)) (tl rs)\<rparr>"

definition gap_bytes :: "quicAckRange \<Rightarrow> byte list" where
  "gap_bytes g = varint_bytes (ar_gap g) @ varint_bytes (ar_count g)"

lemma ackGapsBytes_eq:
  "ackGapsBytes dst prevLo rs = dst @ concat (map gap_bytes (ackGaps prevLo rs))"
  by (induction rs arbitrary: dst prevLo) (simp_all add: quicAppendVarint_append Let_def gap_bytes_def)

lemma parseAckRanges_gaps:
  "list_all (\<lambda>g. ar_gap g < 2 ^ 62 \<and> ar_count g < 2 ^ 62) gs \<Longrightarrow>
   parseAckRanges (length gs) (concat (map gap_bytes gs) @ rest) = Some (gs, rest)"
  by (induction gs) (simp_all add: gap_bytes_def)

lemma length_ackGaps [simp]: "length (ackGaps l rs) = length rs"
  by (induction rs arbitrary: l) simp_all

lemma diff_vint: "a < 2 ^ 62 \<Longrightarrow> b \<le> a \<Longrightarrow> a - b < (2 ^ 62 :: u64)"
  by (auto simp: word_less_nat_alt word_le_nat_alt unat_sub_if')

lemma ackGaps_vint:
  "list_all wf_range (r # rs) \<Longrightarrow> sorted_wrt apart (r # rs) \<Longrightarrow>
   list_all (\<lambda>g. ar_gap g < 2 ^ 62 \<and> ar_count g < 2 ^ 62) (ackGaps (lo r) rs)"
proof (induction rs arbitrary: r)
  case (Cons s rs)
  then have "wf_range r" "wf_range s" "apart r s" by auto
  then have "lo r < 2 ^ 62" "hi s + 2 \<le> lo r" "unat (hi s + 2) = unat (hi s) + 2" "lo s \<le> hi s" "hi s < 2 ^ 62"
    by (auto simp: wf_range_def apart_def word_less_nat_alt word_le_nat_alt unat_word_ariths)
  then have "lo r - (hi s + 2) < 2 ^ 62" "hi s - lo s < 2 ^ 62"
    by (blast intro: diff_vint)+
  with Cons show ?case by (simp add: diff_diff_add)
qed simp

lemma gap_bytes_length: "1 \<le> length (gap_bytes g)"
  by (auto simp: gap_bytes_def varint_bytes_def quicAppendVarint_def)

lemma gaps_bytes_length: "length gs \<le> length (concat (map gap_bytes gs))"
proof (induction gs)
  case (Cons g gs)
  then show ?case using gap_bytes_length [of g] by simp
qed simp

lemma parseACK_ranges:
  assumes wf: "list_all wf_range rs" "sorted_wrt apart rs" and len: "rs \<noteq> []" "length rs \<le> maxAckRanges"
    and delay: "ackDelay < 2 ^ 62"
  shows "\<exists>body. quicAppendACKFrameRanges [] ackDelay rs = varint_bytes quicFrameACK @ body
           \<and> quicParseFrameBody quicFrameACK (body @ rest) = Inr (Some (OnACK (ackFrameOf ackDelay rs)), rest)"
proof -
  obtain r qs where rs: "rs = r # qs" using len(1) by (cases rs) auto
  define n where "n = (of_nat (length qs) :: u64)"
  let ?gs = "ackGaps (lo r) qs"
  let ?body = "varint_bytes (hi r) @ varint_bytes ackDelay @ varint_bytes n
    @ varint_bytes (hi r - lo r) @ concat (map gap_bytes ?gs)"
  have n: "unat n = length ?gs" "n < 2 ^ 62" "\<not> n > 256"
    using len(2) by (simp_all add: n_def rs maxAckRanges_def unat_of_nat word_less_nat_alt)
  have vs: "hi r < 2 ^ 62" "hi r - lo r < 2 ^ 62"
    using wf(1) diff_vint [of "hi r" "lo r"] by (simp_all add: rs wf_range_def)
  have len_ok: "\<not> unat n > length (concat (map gap_bytes ?gs) @ rest)"
    unfolding n(1) using gaps_bytes_length [of ?gs] by simp
  have "(if n > 0 then if n > 256 \<or> unat n > length (concat (map gap_bytes ?gs) @ rest) then None
          else parseAckRanges (unat n) (concat (map gap_bytes ?gs) @ rest)
        else Some ([], concat (map gap_bytes ?gs) @ rest)) = Some (?gs, rest)"
    using parseAckRanges_gaps [OF ackGaps_vint [of r qs], of rest] wf n(1,3) len_ok
    by (auto simp: rs word_gt_0)
  then have "parseACK False (?body @ rest) = Some (ackFrameOf ackDelay rs, rest)"
    using vs delay n(2) by (simp add: parseACK_def ackFrameOf_def rs)
  moreover have "quicAppendACKFrameRanges [] ackDelay rs = varint_bytes quicFrameACK @ ?body"
    by (simp add: quicAppendACKFrameRanges_def rs quicAppendVarint_append ackGapsBytes_eq n_def Let_def)
  ultimately show ?thesis
    by (intro exI [of _ ?body]) (simp add: quicParseFrameBody_def truncated_def quicFrame_types)
qed

end
