(* ===== verification/Quic_Loss.thy ===== *)
theory Quic_Loss
  imports Quic_Ack "HOL-Library.Signed_Division"
begin

text \<open>
  Loss detection and congestion control, \<open>core/quic_loss.go\<close>.  The state records the packets in
  flight per packet number space, the round-trip estimate and the congestion window.  Times and
  durations are Go's \<open>int64\<close> nanoseconds, here \<open>int\<close>, with Go's truncating division; the clock
  (\<open>turbo.Now\<close>, \<open>turbo.Since\<close>) is an argument of every operation that reads it.  The float
  product of \<open>detectLost\<close> is written \<open>x * 9 div 8\<close>, which it equals below \<open>2 ^ 49\<close> nanoseconds.
  The frame buffers' pool is not modelled: a packet holds its frames by value.
\<close>

datatype quicSpace = quicSpaceInitial | quicSpaceHandshake | quicSpaceAppData

definition quicMillisecond :: int where "quicMillisecond = 1000000"
definition quicInitialRTT :: int where "quicInitialRTT = 100 * quicMillisecond"
definition quicMaxAckDelay :: int where "quicMaxAckDelay = 25 * quicMillisecond"
definition quicTimerGranularity :: int where "quicTimerGranularity = quicMillisecond"
definition quicPktThreshold :: u64 where "quicPktThreshold = 3"
definition quicMaxTrackedSent :: nat where "quicMaxTrackedSent = 16384"
definition quicMaxPacketSize :: u64 where "quicMaxPacketSize = 1200"
definition quicInitialWindow :: u64 where "quicInitialWindow = 10 * quicMaxPacketSize"
definition maxUint64 :: u64 where "maxUint64 = 0xffffffffffffffff"

lemmas loss_consts = quicMillisecond_def quicInitialRTT_def quicMaxAckDelay_def
  quicTimerGranularity_def quicPktThreshold_def quicMaxPacketSize_def quicInitialWindow_def maxUint64_def

subsection \<open>The log of send times\<close>

definition quicSendTimeLogEntries :: nat where "quicSendTimeLogEntries = 128"

record quicSendTime =
  sti_pn :: u64
  sti_at :: int

record quicSendTimeLog =
  log_entries :: "quicSendTime list"
  log_written :: nat
  log_lastAt :: int

definition quicSendTimeLogZero :: quicSendTimeLog where
  "quicSendTimeLogZero =
     \<lparr>log_entries = replicate quicSendTimeLogEntries \<lparr>sti_pn = 0, sti_at = 0\<rparr>, log_written = 0, log_lastAt = 0\<rparr>"

definition sendTimeLog_record :: "quicSendTimeLog \<Rightarrow> u64 \<Rightarrow> int \<Rightarrow> quicSendTimeLog" where
  "sendTimeLog_record l pn at =
     (if at = log_lastAt l then l
      else \<lparr>log_entries = (log_entries l)[log_written l mod quicSendTimeLogEntries := \<lparr>sti_pn = pn, sti_at = at\<rparr>],
            log_written = log_written l + 1,
            log_lastAt = at\<rparr>)"

text \<open>The loop from \<open>i = written\<close> down to \<open>oldest\<close>; its first argument counts the iterations left.\<close>

fun sentAt_loop :: "nat \<Rightarrow> quicSendTime list \<Rightarrow> nat \<Rightarrow> u64 \<Rightarrow> int option" where
  "sentAt_loop 0 es i pn = None"
| "sentAt_loop (Suc k) es i pn =
     (let e = es ! ((i - 1) mod quicSendTimeLogEntries)
      in if sti_pn e \<le> pn then Some (sti_at e) else sentAt_loop k es (i - 1) pn)"

definition sendTimeLog_sentAt :: "quicSendTimeLog \<Rightarrow> u64 \<Rightarrow> int option" where
  "sendTimeLog_sentAt l pn =
     (let oldest = log_written l - min (log_written l) quicSendTimeLogEntries
      in sentAt_loop (log_written l - oldest) (log_entries l) (log_written l) pn)"

subsection \<open>State\<close>

record quicSentPacket =
  sp_pn :: u64
  sp_sent :: int
  sp_size :: int
  sp_ackElicit :: bool
  sp_frames :: "byte list"
  sp_inFlight :: bool

record quicAckTally =
  tl_largest :: u64
  tl_largestSent :: int
  tl_ackedInFlight :: u64
  tl_largestTracked :: bool
  tl_anyAcked :: bool

record quicLossState =
  smoothedRTT :: int
  rttVar :: int
  minRTT :: int
  firstRTTDone :: bool
  largestAcked :: "quicSpace \<Rightarrow> int"
  sent :: "quicSpace \<Rightarrow> quicSentPacket list"
  bytesInFlight :: int
  cwnd :: u64
  ssthresh :: u64
  ptoCount :: nat
  peerMaxAckDelay :: int
  appSendTimes :: quicSendTimeLog

definition newQuicLossState :: quicLossState where
  "newQuicLossState =
     \<lparr>smoothedRTT = quicInitialRTT, rttVar = quicInitialRTT sdiv 2, minRTT = 0, firstRTTDone = False,
      largestAcked = (\<lambda>_. -1), sent = (\<lambda>_. []), bytesInFlight = 0,
      cwnd = quicInitialWindow, ssthresh = maxUint64, ptoCount = 0,
      peerMaxAckDelay = quicMaxAckDelay, appSendTimes = quicSendTimeLogZero\<rparr>"

definition setPeerMaxAckDelay :: "quicLossState \<Rightarrow> int \<Rightarrow> quicLossState" where
  "setPeerMaxAckDelay ls d = ls\<lparr>peerMaxAckDelay := d\<rparr>"

definition onPacketSent ::
    "quicLossState \<Rightarrow> int \<Rightarrow> quicSpace \<Rightarrow> u64 \<Rightarrow> int \<Rightarrow> bool \<Rightarrow> byte list \<Rightarrow> quicLossState" where
  "onPacketSent ls now space pn sz ackElicit frames =
     (let ls = (if space = quicSpaceAppData
                then ls\<lparr>appSendTimes := sendTimeLog_record (appSendTimes ls) pn now\<rparr> else ls)
      in if \<not> ackElicit then ls
         else
           let sp = \<lparr>sp_pn = pn, sp_sent = now, sp_size = sz, sp_ackElicit = ackElicit,
                     sp_frames = frames, sp_inFlight = ackElicit\<rparr>
           in ls\<lparr>sent := (sent ls)(space := sent ls space @ [sp]),
                 bytesInFlight := bytesInFlight ls + sz\<rparr>)"

subsection \<open>Acknowledgements\<close>

text \<open>The loop of \<open>markAcked\<close> over the packets of the space.\<close>

fun markAckedLoop ::
    "u64 \<Rightarrow> u64 \<Rightarrow> quicSentPacket list \<Rightarrow> int \<Rightarrow> quicAckTally \<Rightarrow> quicSentPacket list \<times> int \<times> quicAckTally" where
  "markAckedLoop l h [] inFl tally = ([], inFl, tally)"
| "markAckedLoop l h (sp # sps) inFl tally =
     (if sp_pn sp \<ge> l \<and> sp_pn sp \<le> h then
        let inFl' = (if sp_inFlight sp then inFl - sp_size sp else inFl);
            tally = (if sp_inFlight sp
                     then tally\<lparr>tl_ackedInFlight := tl_ackedInFlight tally + of_int (sp_size sp)\<rparr> else tally);
            tally = (if sp_pn sp = tl_largest tally
                     then tally\<lparr>tl_largestSent := sp_sent sp, tl_largestTracked := True\<rparr> else tally);
            tally = tally\<lparr>tl_anyAcked := True\<rparr>
        in markAckedLoop l h sps inFl' tally
      else
        case markAckedLoop l h sps inFl tally of (remaining, r) \<Rightarrow> (sp # remaining, r))"

definition markAcked ::
    "quicLossState \<Rightarrow> quicSpace \<Rightarrow> u64 \<Rightarrow> u64 \<Rightarrow> quicAckTally \<Rightarrow> quicLossState \<times> quicAckTally" where
  "markAcked ls space l h tally =
     (case markAckedLoop l h (sent ls space) (bytesInFlight ls) tally of
        (remaining, inFl, tally) \<Rightarrow>
          (ls\<lparr>sent := (sent ls)(space := remaining), bytesInFlight := inFl\<rparr>, tally))"

text \<open>The loop of \<open>onAckReceived\<close> over the additional ranges, with its two early exits.\<close>

fun ackRangesLoop ::
    "quicSpace \<Rightarrow> u64 \<Rightarrow> quicAckRange list \<Rightarrow> quicLossState \<Rightarrow> quicAckTally \<Rightarrow> quicLossState \<times> quicAckTally" where
  "ackRangesLoop space l [] ls tally = (ls, tally)"
| "ackRangesLoop space l (r # rs) ls tally =
     (if l < ar_gap r + 2 then (ls, tally)
      else
        let h = l - ar_gap r - 2
        in if h < ar_count r then (ls, tally)
           else
             let l = h - ar_count r
             in case markAcked ls space l h tally of (ls, tally) \<Rightarrow> ackRangesLoop space l rs ls tally)"

definition largestAckedSentTime ::
    "quicLossState \<Rightarrow> quicSpace \<Rightarrow> quicAckTally \<Rightarrow> bool \<Rightarrow> int option" where
  "largestAckedSentTime ls space tally newlyLargest =
     (if \<not> tl_anyAcked tally then None
      else if tl_largestTracked tally then Some (tl_largestSent tally)
      else if newlyLargest \<and> space = quicSpaceAppData
      then sendTimeLog_sentAt (appSendTimes ls) (tl_largest tally)
      else None)"

definition updateRTT :: "quicLossState \<Rightarrow> int \<Rightarrow> int \<Rightarrow> quicLossState" where
  "updateRTT ls latestRTT ackDelay =
     (let ls = (if minRTT ls = 0 \<or> latestRTT < minRTT ls then ls\<lparr>minRTT := latestRTT\<rparr> else ls)
      in if \<not> firstRTTDone ls
         then ls\<lparr>smoothedRTT := latestRTT, rttVar := latestRTT sdiv 2, firstRTTDone := True\<rparr>
         else
           let adjustedRTT = (if latestRTT \<ge> minRTT ls + ackDelay then latestRTT - ackDelay else latestRTT);
               diff = smoothedRTT ls - adjustedRTT;
               diff = (if diff < 0 then - diff else diff)
           in ls\<lparr>rttVar := (3 * rttVar ls + diff) sdiv 4,
                 smoothedRTT := (7 * smoothedRTT ls + adjustedRTT) sdiv 8\<rparr>)"

datatype quicAckError = ErrQUICAckUnsentPacket

definition growCwnd :: "quicLossState \<Rightarrow> u64 \<Rightarrow> quicLossState" where
  "growCwnd ls acked =
     (if acked > 0 then
        if cwnd ls < ssthresh ls then ls\<lparr>cwnd := cwnd ls + acked\<rparr>
        else ls\<lparr>cwnd := cwnd ls + quicMaxPacketSize * acked div cwnd ls\<rparr>
      else ls)"

definition onAckReceived ::
    "quicLossState \<Rightarrow> (int \<Rightarrow> int) \<Rightarrow> quicSpace \<Rightarrow> quicAckFrame \<Rightarrow> int \<Rightarrow> u64
     \<Rightarrow> quicLossState \<times> (quicAckError + bool)" where
  "onAckReceived ls since space ack ackDelay nextPN =
     (if ack_firstRange ack > ack_largestAck ack then (ls, Inr False)
      else if ack_largestAck ack \<ge> nextPN then (ls, Inl ErrQUICAckUnsentPacket)
      else
        let largest = sint (ack_largestAck ack);
            newlyLargest = (largest > largestAcked ls space);
            ls = (if newlyLargest then ls\<lparr>largestAcked := (largestAcked ls)(space := largest)\<rparr> else ls);
            tally = \<lparr>tl_largest = ack_largestAck ack, tl_largestSent = 0, tl_ackedInFlight = 0,
                     tl_largestTracked = False, tl_anyAcked = False\<rparr>;
            l = ack_largestAck ack - ack_firstRange ack;
            (ls, tally) = markAcked ls space l (ack_largestAck ack) tally;
            (ls, tally) = ackRangesLoop space l (ack_ranges ack) ls tally;
            ls = (case largestAckedSentTime ls space tally newlyLargest of
                    None \<Rightarrow> ls
                  | Some sentTime \<Rightarrow> updateRTT ls (max (since sentTime) quicTimerGranularity) ackDelay);
            ls = growCwnd ls (tl_ackedInFlight tally);
            ls = ls\<lparr>ptoCount := 0\<rparr>
        in (ls, Inr (sent ls space \<noteq> [] \<and> sint (sp_pn (hd (sent ls space))) \<le> largestAcked ls space)))"

subsection \<open>Loss and timeouts\<close>

text \<open>
  The three loops that take packets out of a space share a shape: packets that satisfy a test
  leave, their bytes leave the count when they are in flight, and their frames, when there are
  any, are collected.  The flag says whether a packet in flight was among them.
\<close>

fun dropPackets ::
    "(quicSentPacket \<Rightarrow> bool) \<Rightarrow> quicSentPacket list \<Rightarrow> int \<Rightarrow> quicSentPacket list \<times> int \<times> byte list list \<times> bool" where
  "dropPackets gone [] inFl = ([], inFl, [], False)"
| "dropPackets gone (sp # sps) inFl =
     (if gone sp then
        let inFl' = (if sp_inFlight sp then inFl - sp_size sp else inFl)
        in case dropPackets gone sps inFl' of (remaining, inFl, frames, hadLoss) \<Rightarrow>
             (remaining, inFl, (if length (sp_frames sp) > 0 then sp_frames sp # frames else frames),
              sp_inFlight sp \<or> hadLoss)
      else
        case dropPackets gone sps inFl of (remaining, r) \<Rightarrow> (sp # remaining, r))"

definition discardSpace :: "quicLossState \<Rightarrow> quicSpace \<Rightarrow> quicLossState" where
  "discardSpace ls space =
     (case dropPackets (\<lambda>_. True) (sent ls space) (bytesInFlight ls) of
        (_, inFl, _) \<Rightarrow> ls\<lparr>sent := (sent ls)(space := []), bytesInFlight := inFl\<rparr>)"

definition lossCutoff :: "quicLossState \<Rightarrow> int \<Rightarrow> int" where
  "lossCutoff ls now =
     (let lossDelay = max (smoothedRTT ls) (minRTT ls) * 9 div 8;
          lossDelay = (if lossDelay < quicTimerGranularity then quicTimerGranularity else lossDelay)
      in now - lossDelay)"

definition lossThreshold :: "quicLossState \<Rightarrow> quicSpace \<Rightarrow> u64" where
  "lossThreshold ls space =
     (let la = of_int (largestAcked ls space)
      in if la + 1 > quicPktThreshold then la - quicPktThreshold + 1 else 0)"

definition packetLost :: "quicLossState \<Rightarrow> int \<Rightarrow> quicSpace \<Rightarrow> quicSentPacket \<Rightarrow> bool" where
  "packetLost ls now space sp \<longleftrightarrow>
     sint (sp_pn sp) \<le> largestAcked ls space
     \<and> (sp_pn sp < lossThreshold ls space \<or> sp_sent sp < lossCutoff ls now)"

definition onCongestion :: "quicLossState \<Rightarrow> quicLossState" where
  "onCongestion ls =
     (let half = cwnd ls div 2;
          half = (if half < 2 * quicMaxPacketSize then 2 * quicMaxPacketSize else half)
      in ls\<lparr>ssthresh := half, cwnd := half\<rparr>)"

definition detectLost ::
    "quicLossState \<Rightarrow> int \<Rightarrow> quicSpace \<Rightarrow> byte list list \<Rightarrow> quicLossState \<times> byte list list" where
  "detectLost ls now space lostFrames =
     (if largestAcked ls space < 0 then (ls, lostFrames)
      else
        case dropPackets (packetLost ls now space) (sent ls space) (bytesInFlight ls) of
          (remaining, inFl, frames, hadLoss) \<Rightarrow>
            let ls = ls\<lparr>sent := (sent ls)(space := remaining), bytesInFlight := inFl\<rparr>
            in (if hadLoss then onCongestion ls else ls, lostFrames @ frames))"

definition detectLostPackets :: "quicLossState \<Rightarrow> int \<Rightarrow> quicSpace \<Rightarrow> quicLossState \<times> byte list list" where
  "detectLostPackets ls now space = detectLost ls now space []"

definition resetForNewPath :: "quicLossState \<Rightarrow> quicLossState" where
  "resetForNewPath ls =
     ls\<lparr>smoothedRTT := quicInitialRTT, rttVar := quicInitialRTT sdiv 2, minRTT := 0, firstRTTDone := False,
        cwnd := quicInitialWindow, ssthresh := maxUint64, ptoCount := 0\<rparr>"

definition ptoTimeout :: "quicLossState \<Rightarrow> int" where
  "ptoTimeout ls =
     (let pto = smoothedRTT ls + max (4 * rttVar ls) quicTimerGranularity + peerMaxAckDelay ls
      in signed_take_bit 63 (pto * signed_take_bit 63 (push_bit (ptoCount ls) 1)))"

definition hasSentPackets :: "quicLossState \<Rightarrow> quicSpace \<Rightarrow> bool" where
  "hasSentPackets ls space \<longleftrightarrow> length (sent ls space) > 0"

definition canSend :: "quicLossState \<Rightarrow> bool" where
  "canSend ls \<longleftrightarrow> of_int (bytesInFlight ls) < cwnd ls
     \<and> length (sent ls quicSpaceAppData) < quicMaxTrackedSent"

definition largestAckedPN :: "quicLossState \<Rightarrow> quicSpace \<Rightarrow> int" where
  "largestAckedPN ls space = largestAcked ls space"

definition ptoExpiredFrames :: "quicLossState \<Rightarrow> int \<Rightarrow> quicSpace \<Rightarrow> quicLossState \<times> byte list list" where
  "ptoExpiredFrames ls now space =
     (if sent ls space = [] then (ls, [])
      else
        let cutoff = now - ptoTimeout ls
        in if sp_sent (hd (sent ls space)) \<ge> cutoff then (ls, [])
           else
             case dropPackets (\<lambda>sp. sp_ackElicit sp \<and> sp_sent sp < cutoff) (sent ls space) (bytesInFlight ls) of
               (remaining, inFl, frames, _) \<Rightarrow>
                 let ls = ls\<lparr>sent := (sent ls)(space := remaining), bytesInFlight := inFl\<rparr>
                 in (if frames \<noteq> [] then ls\<lparr>ptoCount := ptoCount ls + 1\<rparr> else ls, frames))"

subsection \<open>Accounting\<close>

definition flight :: "quicSentPacket list \<Rightarrow> int" where
  "flight sps = sum_list (map sp_size (filter sp_inFlight sps))"

definition totalFlight :: "quicLossState \<Rightarrow> int" where
  "totalFlight ls = flight (sent ls quicSpaceInitial) + flight (sent ls quicSpaceHandshake)
     + flight (sent ls quicSpaceAppData)"

lemma flight_simps [simp]:
  "flight [] = 0" "flight (sp # sps) = (if sp_inFlight sp then sp_size sp else 0) + flight sps"
  "flight (xs @ ys) = flight xs + flight ys"
  by (simp_all add: flight_def)

lemma flight_split: "flight (filter P sps) + flight (filter (\<lambda>sp. \<not> P sp) sps) = flight sps"
  by (induction sps) auto

lemma flight_nonneg: "list_all (\<lambda>sp. 0 \<le> sp_size sp) sps \<Longrightarrow> 0 \<le> flight sps"
  by (induction sps) auto

lemma dropPackets_eq:
  "dropPackets gone sps inFl =
     (filter (\<lambda>sp. \<not> gone sp) sps, inFl - flight (filter gone sps),
      filter (\<lambda>f. f \<noteq> []) (map sp_frames (filter gone sps)), list_ex sp_inFlight (filter gone sps))"
  by (induction sps arbitrary: inFl) auto

definition inSpan :: "u64 \<times> u64 \<Rightarrow> quicSentPacket \<Rightarrow> bool" where
  "inSpan p sp \<longleftrightarrow> fst p \<le> sp_pn sp \<and> sp_pn sp \<le> snd p"

lemma markAckedLoop_eq:
  "fst (markAckedLoop l h sps inFl tally) = filter (\<lambda>sp. \<not> inSpan (l, h) sp) sps"
  "fst (snd (markAckedLoop l h sps inFl tally)) = inFl - flight (filter (inSpan (l, h)) sps)"
  "tl_ackedInFlight (snd (snd (markAckedLoop l h sps inFl tally)))
     = tl_ackedInFlight tally + of_int (flight (filter (inSpan (l, h)) sps))"
  by (induction l h sps inFl tally rule: markAckedLoop.induct)
    (auto simp: inSpan_def Let_def split: prod.splits)

text \<open>
  \<open>ackSpans\<close> lists the spans that the loop of \<open>onAckReceived\<close> visits; a packet is acknowledged
  when it is in one of them.
\<close>

fun ackSpans :: "u64 \<Rightarrow> quicAckRange list \<Rightarrow> (u64 \<times> u64) list" where
  "ackSpans l [] = []"
| "ackSpans l (r # rs) =
     (if l < ar_gap r + 2 then []
      else let h = l - ar_gap r - 2
           in if h < ar_count r then [] else (h - ar_count r, h) # ackSpans (h - ar_count r) rs)"

definition ackFrameSpans :: "quicAckFrame \<Rightarrow> (u64 \<times> u64) list" where
  "ackFrameSpans ack = (let l = ack_largestAck ack - ack_firstRange ack
     in (l, ack_largestAck ack) # ackSpans l (ack_ranges ack))"

definition inSpans :: "(u64 \<times> u64) list \<Rightarrow> quicSentPacket \<Rightarrow> bool" where
  "inSpans ps sp \<longleftrightarrow> list_ex (\<lambda>p. inSpan p sp) ps"

lemma inSpans_simps [simp]:
  "inSpans [] = (\<lambda>sp. False)" "inSpans (p # ps) = (\<lambda>sp. inSpan p sp \<or> inSpans ps sp)"
  by (simp_all add: inSpans_def fun_eq_iff)

text \<open>\<open>ackedFrom ps\<close> relates two states that differ by the removal of the packets in \<open>ps\<close>.\<close>

definition ackedFrom :: "quicSpace \<Rightarrow> (u64 \<times> u64) list \<Rightarrow> quicLossState \<Rightarrow> quicLossState" where
  "ackedFrom space ps ls =
     ls\<lparr>sent := (sent ls)(space := filter (\<lambda>sp. \<not> inSpans ps sp) (sent ls space)),
        bytesInFlight := bytesInFlight ls - flight (filter (inSpans ps) (sent ls space))\<rparr>"

lemma flight_filter_disj:
  "flight (filter P sps) + flight (filter Q (filter (\<lambda>sp. \<not> P sp) sps)) = flight (filter (\<lambda>sp. P sp \<or> Q sp) sps)"
  by (induction sps) auto

lemma markAcked_eq:
  "fst (markAcked ls space l h tally) = ackedFrom space [(l, h)] ls"
  "tl_ackedInFlight (snd (markAcked ls space l h tally))
     = tl_ackedInFlight tally + of_int (flight (filter (inSpan (l, h)) (sent ls space)))"
  using markAckedLoop_eq [of l h "sent ls space" "bytesInFlight ls" tally]
  by (auto simp: markAcked_def ackedFrom_def split: prod.splits)

lemma ackedFrom_Cons: "ackedFrom space ps (ackedFrom space [p] ls) = ackedFrom space (p # ps) ls"
proof -
  have "filter (\<lambda>sp. \<not> inSpans ps sp) (filter (\<lambda>sp. \<not> inSpan p sp) (sent ls space))
      = filter (\<lambda>sp. \<not> (inSpan p sp \<or> inSpans ps sp)) (sent ls space)"
    by (simp add: conj_commute)
  then show ?thesis
    using flight_filter_disj [of "inSpan p" "sent ls space" "inSpans ps"] by (simp add: ackedFrom_def)
qed

lemma ackedFrom_Nil: "ackedFrom space [] ls = ls"
  by (simp add: ackedFrom_def)

lemma ackRangesLoop_eq:
  "fst (ackRangesLoop space l rs ls tally) = ackedFrom space (ackSpans l rs) ls"
proof (induction space l rs ls tally rule: ackRangesLoop.induct)
  case (2 space l r rs ls tally)
  then show ?case
    using markAcked_eq(1) [of ls space "l - ar_gap r - 2 - ar_count r" "l - ar_gap r - 2" tally]
    by (auto simp: ackedFrom_Nil Let_def ackedFrom_Cons split: prod.splits)
qed (simp add: ackedFrom_Nil)

lemma rtt_frame [simp]:
  "sent (updateRTT ls r d) = sent ls" "bytesInFlight (updateRTT ls r d) = bytesInFlight ls"
  "largestAcked (updateRTT ls r d) = largestAcked ls"
  "cwnd (updateRTT ls r d) = cwnd ls" "ssthresh (updateRTT ls r d) = ssthresh ls"
  by (simp_all add: updateRTT_def Let_def)

lemma growCwnd_frame [simp]:
  "sent (growCwnd ls a) = sent ls" "bytesInFlight (growCwnd ls a) = bytesInFlight ls"
  "largestAcked (growCwnd ls a) = largestAcked ls"
  by (simp_all add: growCwnd_def)

lemma onCongestion_frame [simp]:
  "sent (onCongestion ls) = sent ls" "bytesInFlight (onCongestion ls) = bytesInFlight ls"
  "largestAcked (onCongestion ls) = largestAcked ls"
  by (simp_all add: onCongestion_def Let_def)

lemma ackedFrom_frame [simp]:
  "sent (ackedFrom space ps ls) = (sent ls)(space := filter (\<lambda>sp. \<not> inSpans ps sp) (sent ls space))"
  "bytesInFlight (ackedFrom space ps ls) = bytesInFlight ls - flight (filter (inSpans ps) (sent ls space))"
  "largestAcked (ackedFrom space ps ls) = largestAcked ls"
  by (simp_all add: ackedFrom_def)

lemma onAckReceived_ok:
  assumes "ack_firstRange ack \<le> ack_largestAck ack" and "ack_largestAck ack < nextPN"
  defines "ps \<equiv> ackFrameSpans ack"
  shows "\<exists>ls'. onAckReceived ls since space ack d nextPN = (ls', Inr (sent ls' space \<noteq> []
             \<and> sint (sp_pn (hd (sent ls' space))) \<le> largestAcked ls' space))
         \<and> sent ls' = (sent ls)(space := filter (\<lambda>sp. \<not> inSpans ps sp) (sent ls space))
         \<and> bytesInFlight ls' = bytesInFlight ls - flight (filter (inSpans ps) (sent ls space))
         \<and> largestAcked ls' = (largestAcked ls)(space := max (largestAcked ls space) (sint (ack_largestAck ack)))"
proof -
  define newly where "newly = (sint (ack_largestAck ack) > largestAcked ls space)"
  define ls0 where "ls0 = (if newly then ls\<lparr>largestAcked := (largestAcked ls)(space := sint (ack_largestAck ack))\<rparr> else ls)"
  define t0 where "t0 = \<lparr>tl_largest = ack_largestAck ack, tl_largestSent = 0, tl_ackedInFlight = 0,
                     tl_largestTracked = False, tl_anyAcked = False\<rparr>"
  define l where "l = ack_largestAck ack - ack_firstRange ack"
  obtain ls1 t1 where m: "markAcked ls0 space l (ack_largestAck ack) t0 = (ls1, t1)" by fastforce
  obtain ls2 t2 where r: "ackRangesLoop space l (ack_ranges ack) ls1 t1 = (ls2, t2)" by fastforce
  define ls3 where "ls3 = (case largestAckedSentTime ls2 space t2 newly of None \<Rightarrow> ls2
     | Some sentTime \<Rightarrow> updateRTT ls2 (max (since sentTime) quicTimerGranularity) d)"
  define ls4 where "ls4 = (growCwnd ls3 (tl_ackedInFlight t2))\<lparr>ptoCount := 0\<rparr>"
  have guards: "(ack_firstRange ack > ack_largestAck ack) = False" "(ack_largestAck ack \<ge> nextPN) = False"
    using assms(1,2) by auto
  have run: "onAckReceived ls since space ack d nextPN = (ls4, Inr (sent ls4 space \<noteq> []
      \<and> sint (sp_pn (hd (sent ls4 space))) \<le> largestAcked ls4 space))"
    unfolding onAckReceived_def guards if_False
    using m r by (simp add: Let_def ls4_def ls3_def ls0_def newly_def t0_def l_def)
  have ls2: "ls2 = ackedFrom space ps ls0"
    using markAcked_eq(1) [of ls0 space l "ack_largestAck ack" t0] ackRangesLoop_eq [of space l "ack_ranges ack" ls1 t1] m r
    by (simp add: ps_def ackFrameSpans_def l_def Let_def ackedFrom_Cons)
  have ls3: "sent ls3 = sent ls2" "bytesInFlight ls3 = bytesInFlight ls2" "largestAcked ls3 = largestAcked ls2"
    by (auto simp: ls3_def split: option.splits)
  have ls0: "sent ls0 = sent ls" "bytesInFlight ls0 = bytesInFlight ls"
    "largestAcked ls0 = (largestAcked ls)(space := max (largestAcked ls space) (sint (ack_largestAck ack)))"
    by (auto simp: ls0_def newly_def)
  show ?thesis
    using run by (intro exI [of _ ls4]) (simp add: ls4_def ls3 ls2 ls0)
qed

subsection \<open>The invariant of a connection's loss state\<close>

text \<open>
  The state of a connection pairs the loss state with the next packet number of each space
  (\<open>sendPN\<close> of \<open>QUICConn\<close>), which \<open>onPacketSent\<close> is called with and \<open>onAckReceived\<close> is given.
\<close>

definition space_inv :: "quicLossState \<Rightarrow> (quicSpace \<Rightarrow> u64) \<Rightarrow> quicSpace \<Rightarrow> bool" where
  "space_inv ls nextPN space \<longleftrightarrow>
     sorted_wrt (\<lambda>a b. sp_pn a < sp_pn b) (sent ls space)
     \<and> list_all (\<lambda>sp. sp_pn sp < nextPN space \<and> 0 \<le> sp_size sp \<and> sp_ackElicit sp \<and> sp_inFlight sp) (sent ls space)
     \<and> nextPN space \<le> 2 ^ 62 \<and> -1 \<le> largestAcked ls space \<and> largestAcked ls space < uint (nextPN space)"

definition loss_inv :: "quicLossState \<Rightarrow> (quicSpace \<Rightarrow> u64) \<Rightarrow> bool" where
  "loss_inv ls nextPN \<longleftrightarrow> bytesInFlight ls = totalFlight ls \<and> (\<forall>space. space_inv ls nextPN space)"

inductive loss_step ::
    "quicLossState \<times> (quicSpace \<Rightarrow> u64) \<Rightarrow> quicLossState \<times> (quicSpace \<Rightarrow> u64) \<Rightarrow> bool" where
  sent: "n space < 2 ^ 62 \<Longrightarrow> 0 \<le> sz \<Longrightarrow>
    loss_step (ls, n) (onPacketSent ls now space (n space) sz ackElicit frames, n(space := n space + 1))"
| ack: "loss_step (ls, n) (fst (onAckReceived ls since space f d (n space)), n)"
| lost: "loss_step (ls, n) (fst (detectLostPackets ls now space), n)"
| pto: "loss_step (ls, n) (fst (ptoExpiredFrames ls now space), n)"
| discard: "loss_step (ls, n) (discardSpace ls space, n)"
| reset: "loss_step (ls, n) (resetForNewPath ls, n)"
| delay: "loss_step (ls, n) (setPeerMaxAckDelay ls d, n)"

inductive_cases loss_stepE: "loss_step s t"

lemma space_inv_filter:
  "space_inv ls n space \<Longrightarrow> sent ls' space = filter P (sent ls space) \<Longrightarrow>
   largestAcked ls' space = largestAcked ls space \<Longrightarrow> space_inv ls' n space"
  by (auto simp: space_inv_def list_all_iff intro: sorted_wrt_filter)

text \<open>Taking packets out of one space, with their bytes, keeps the invariant.\<close>

lemma loss_inv_drop:
  assumes "loss_inv ls n" and "sent ls' = (sent ls)(space := filter (\<lambda>sp. \<not> P sp) (sent ls space))"
    and "bytesInFlight ls' = bytesInFlight ls - flight (filter P (sent ls space))"
    and "largestAcked ls' = largestAcked ls"
  shows "loss_inv ls' n"
proof -
  have "totalFlight ls' = totalFlight ls - flight (filter P (sent ls space))"
    using flight_split [of P "sent ls space"] assms(2) by (cases space) (simp_all add: totalFlight_def)
  moreover have "space_inv ls' n sp" for sp
    using assms
    by (intro space_inv_filter [of ls n sp ls' "\<lambda>x. sp = space \<longrightarrow> \<not> P x"]) (auto simp: loss_inv_def)
  ultimately show ?thesis using assms by (simp add: loss_inv_def)
qed

lemma loss_inv_frame:
  "loss_inv ls n \<Longrightarrow> sent ls' = sent ls \<Longrightarrow> bytesInFlight ls' = bytesInFlight ls \<Longrightarrow>
   largestAcked ls' = largestAcked ls \<Longrightarrow> loss_inv ls' n"
  by (simp add: loss_inv_def space_inv_def totalFlight_def)

lemma loss_inv_largestAcked:
  assumes "loss_inv ls n" and "-1 \<le> v" and "v < uint (n space)"
  shows "loss_inv (ls\<lparr>largestAcked := (largestAcked ls)(space := v)\<rparr>) n"
  using assms by (simp add: loss_inv_def space_inv_def totalFlight_def)

lemma le_uint: "c \<le> 0 \<Longrightarrow> c \<le> uint w"
  by (rule order_trans [OF _ unsigned_greater_eq])

lemma sint_small: "pn \<le> (2 ^ 62 :: u64) \<Longrightarrow> sint pn = uint pn"
  unfolding sint_uint word_le_def by (intro signed_take_bit_int_eq_self) (auto simp: le_uint)

lemma space_inv_mono:
  assumes "space_inv ls n space" and "n space \<le> n' space" and "n' space \<le> 2 ^ 62"
  shows "space_inv ls n' space"
proof -
  have "sp_pn sp < n' space" if "sp_pn sp < n space" for sp using that assms(2) by (rule order_less_le_trans)
  then show ?thesis
    using assms by (auto simp: space_inv_def list_all_iff word_le_def)
qed

lemma onPacketSent_space:
  assumes inv: "space_inv ls n space" and sz: "0 \<le> sp_size sp" and sp: "sp_ackElicit sp" "sp_inFlight sp"
    and pn: "sp_pn sp = n space" and nx: "n space < n space + 1" "n space + 1 \<le> 2 ^ 62"
    and ls': "sent ls' space = sent ls space @ [sp]" "largestAcked ls' space = largestAcked ls space"
  shows "space_inv ls' (n(space := n space + 1)) space"
proof -
  have "space_inv ls (n(space := n space + 1)) space"
    by (rule space_inv_mono [OF inv]) (use nx in auto)
  with assms show ?thesis by (simp add: space_inv_def sorted_wrt_append list_all_iff)
qed

lemma onPacketSent_inv:
  assumes inv: "loss_inv ls n" and pn: "n space < 2 ^ 62" and sz: "0 \<le> sz"
  shows "loss_inv (onPacketSent ls now space (n space) sz el frames) (n(space := n space + 1))"
    (is "loss_inv ?ls ?n")
proof -
  let ?sp = "\<lparr>sp_pn = n space, sp_sent = now, sp_size = sz, sp_ackElicit = True,
    sp_frames = frames, sp_inFlight = True\<rparr>"
  have nx: "n space < n space + 1" "n space + 1 \<le> 2 ^ 62"
    using pn by (auto simp: word_less_nat_alt word_le_nat_alt unat_word_ariths)
  have keep: "sent ?ls = (sent ls)(space := sent ls space @ (if el then [?sp] else []))"
    "largestAcked ?ls = largestAcked ls"
    "bytesInFlight ?ls = bytesInFlight ls + (if el then sz else 0)"
    by (auto simp: onPacketSent_def Let_def)
  have old: "space_inv ls n s" "space_inv ls ?n s" for s
    using inv nx space_inv_mono [of ls n s ?n] by (auto simp: loss_inv_def space_inv_def)
  have "space_inv ?ls ?n s" for s
  proof (cases "s = space \<and> el")
    case True
    then show ?thesis
      using onPacketSent_space [OF old(1) _ _ _ _ nx, of ?sp ?ls] sz keep by simp
  next
    case False
    with old(2) [of s] show ?thesis unfolding space_inv_def keep by auto
  qed
  moreover have "totalFlight ?ls = totalFlight ls + (if el then sz else 0)"
    unfolding totalFlight_def keep by (cases space) simp_all
  ultimately show ?thesis using inv keep(3) by (simp add: loss_inv_def)
qed

lemma onAckReceived_inv:
  assumes "loss_inv ls n"
  shows "loss_inv (fst (onAckReceived ls since space ack d (n space))) n"
proof (cases "ack_firstRange ack > ack_largestAck ack \<or> ack_largestAck ack \<ge> n space")
  case True
  with assms show ?thesis by (auto simp: onAckReceived_def)
next
  case False
  then have g: "ack_firstRange ack \<le> ack_largestAck ack" "ack_largestAck ack < n space" by auto
  have "n space \<le> 2 ^ 62" using assms by (auto simp: loss_inv_def space_inv_def)
  with g(2) have "sint (ack_largestAck ack) = uint (ack_largestAck ack)"
    by (intro sint_small) auto
  with g(2) assms have "max (largestAcked ls space) (sint (ack_largestAck ack)) < uint (n space)"
    "-1 \<le> max (largestAcked ls space) (sint (ack_largestAck ack))"
    by (auto simp: loss_inv_def space_inv_def word_less_def max_def le_uint)
  note base = loss_inv_largestAcked [OF assms this(2,1)]
  from onAckReceived_ok [OF g, of ls since space d] show ?thesis
    by (elim exE conjE) (auto intro!: loss_inv_drop [OF base])
qed

definition ptoGone :: "quicLossState \<Rightarrow> int \<Rightarrow> quicSentPacket \<Rightarrow> bool" where
  "ptoGone ls now sp \<longleftrightarrow> sp_ackElicit sp \<and> sp_sent sp < now - ptoTimeout ls"

definition ptoFires :: "quicLossState \<Rightarrow> int \<Rightarrow> quicSpace \<Rightarrow> bool" where
  "ptoFires ls now space \<longleftrightarrow> sent ls space \<noteq> [] \<and> sp_sent (hd (sent ls space)) < now - ptoTimeout ls"

lemma ptoExpiredFrames_idle:
  "\<not> ptoFires ls now space \<Longrightarrow> ptoExpiredFrames ls now space = (ls, [])"
  by (auto simp: ptoExpiredFrames_def ptoFires_def Let_def)

lemma ptoExpiredFrames_fires:
  assumes "ptoFires ls now space"
  shows "sent (fst (ptoExpiredFrames ls now space))
           = (sent ls)(space := filter (\<lambda>sp. \<not> ptoGone ls now sp) (sent ls space))"
    and "bytesInFlight (fst (ptoExpiredFrames ls now space))
           = bytesInFlight ls - flight (filter (ptoGone ls now) (sent ls space))"
    and "largestAcked (fst (ptoExpiredFrames ls now space)) = largestAcked ls"
    and "snd (ptoExpiredFrames ls now space) = filter (\<lambda>f. f \<noteq> []) (map sp_frames (filter (ptoGone ls now) (sent ls space)))"
proof -
  have "(sent ls space = []) = False" "(sp_sent (hd (sent ls space)) \<ge> now - ptoTimeout ls) = False"
    using assms by (auto simp: ptoFires_def)
  note run = ptoExpiredFrames_def [of ls now space, unfolded this if_False Let_def dropPackets_eq prod.case,
      folded ptoGone_def]
  show "sent (fst (ptoExpiredFrames ls now space))
      = (sent ls)(space := filter (\<lambda>sp. \<not> ptoGone ls now sp) (sent ls space))"
    "bytesInFlight (fst (ptoExpiredFrames ls now space))
      = bytesInFlight ls - flight (filter (ptoGone ls now) (sent ls space))"
    "largestAcked (fst (ptoExpiredFrames ls now space)) = largestAcked ls"
    "snd (ptoExpiredFrames ls now space) = filter (\<lambda>f. f \<noteq> []) (map sp_frames (filter (ptoGone ls now) (sent ls space)))"
    by (simp_all add: run)
qed

lemma loss_step_inv: "loss_step s t \<Longrightarrow> loss_inv (fst s) (snd s) \<Longrightarrow> loss_inv (fst t) (snd t)"
proof (induction rule: loss_step.induct)
  case (sent n space sz ls now ackElicit frames)
  then have "loss_inv ls n" by simp
  from onPacketSent_inv [where space = space, OF this sent(1,2)] show ?case unfolding fst_conv snd_conv .
next
  case (ack ls n since space f d)
  then show ?case by (simp add: onAckReceived_inv)
next
  case (lost ls n now space)
  then show ?case
    by (auto simp: detectLostPackets_def detectLost_def dropPackets_eq Let_def intro: loss_inv_drop)
next
  case (pto ls n now space)
  then have "loss_inv ls n" by simp
  with ptoExpiredFrames_idle [of ls now space] ptoExpiredFrames_fires [of ls now space]
    loss_inv_drop [of ls n "fst (ptoExpiredFrames ls now space)" space "ptoGone ls now"]
  show ?case by (cases "ptoFires ls now space") simp_all
next
  case (discard ls n space)
  then have "loss_inv ls n" by simp
  then show ?case
    using loss_inv_drop [of ls n "discardSpace ls space" space "\<lambda>_. True"]
    by (simp add: discardSpace_def dropPackets_eq)
next
  case (reset ls n)
  then show ?case using loss_inv_frame [of ls n "resetForNewPath ls"] by (simp add: resetForNewPath_def)
next
  case (delay ls n d)
  then show ?case using loss_inv_frame [of ls n "setPeerMaxAckDelay ls d"] by (simp add: setPeerMaxAckDelay_def)
qed

lemma loss_inv_init: "loss_inv newQuicLossState (\<lambda>_. 0)"
  by (simp add: loss_inv_def space_inv_def newQuicLossState_def totalFlight_def)

lemma loss_reach_inv:
  "loss_step\<^sup>*\<^sup>* s t \<Longrightarrow> loss_inv (fst s) (snd s) \<Longrightarrow> loss_inv (fst t) (snd t)"
  by (induction rule: rtranclp_induct) (auto dest: loss_step_inv)

lemma totalFlight_nonneg: "loss_inv ls n \<Longrightarrow> 0 \<le> totalFlight ls"
  by (auto simp: totalFlight_def loss_inv_def space_inv_def list_all_iff
      intro!: add_nonneg_nonneg flight_nonneg)

text \<open>
  C14: in every state a connection reaches, by any interleaving of sends, acknowledgements, loss
  detection, probe timeouts, discarded spaces and path changes, \<open>bytesInFlight\<close> is the sum of
  the sizes of the tracked packets and is never negative, so the conversion to an unsigned number
  in \<open>canSend\<close> is exact; and each space's packets are in increasing order of their numbers.
\<close>

theorem loss_bytes_in_flight:
  assumes "loss_step\<^sup>*\<^sup>* (newQuicLossState, \<lambda>_. 0) (ls, n)"
  shows "bytesInFlight ls = (\<Sum>sp \<leftarrow> sent ls quicSpaceInitial @ sent ls quicSpaceHandshake @ sent ls quicSpaceAppData.
           sp_size sp)
    \<and> 0 \<le> bytesInFlight ls
    \<and> sorted_wrt (\<lambda>a b. sp_pn a < sp_pn b) (sent ls space)"
proof -
  have inv: "loss_inv ls n" using loss_reach_inv [OF assms] loss_inv_init by simp
  have "filter sp_inFlight (sent ls s) = sent ls s" for s
    using inv by (auto simp: loss_inv_def space_inv_def list_all_iff filter_id_conv)
  then have "flight (sent ls s) = sum_list (map sp_size (sent ls s))" for s by (simp add: flight_def)
  with inv totalFlight_nonneg [OF inv] show ?thesis
    by (simp add: loss_inv_def space_inv_def totalFlight_def)
qed

theorem loss_bytes_in_flight_witness:
  "\<exists>ls n. loss_step\<^sup>*\<^sup>* (newQuicLossState, \<lambda>_. 0) (ls, n) \<and> bytesInFlight ls = 1200
     \<and> (\<Sum>sp \<leftarrow> sent ls quicSpaceInitial @ sent ls quicSpaceHandshake @ sent ls quicSpaceAppData. sp_size sp) = 1200"
proof -
  define ls where "ls = onPacketSent newQuicLossState 5 quicSpaceAppData 0 1200 True [1]"
  have "loss_step (newQuicLossState, \<lambda>_. 0) (ls, (\<lambda>_. 0)(quicSpaceAppData := 1))"
    using loss_step.sent [of "\<lambda>_. 0" quicSpaceAppData 1200 newQuicLossState 5 True "[1]"] by (simp add: ls_def fun_upd_def)
  then have reach: "loss_step\<^sup>*\<^sup>* (newQuicLossState, \<lambda>_. 0) (ls, (\<lambda>_. 0)(quicSpaceAppData := 1))" by blast
  moreover have "bytesInFlight ls = 1200" by (simp add: ls_def onPacketSent_def newQuicLossState_def Let_def)
  ultimately show ?thesis using loss_bytes_in_flight [OF reach] by auto
qed

subsection \<open>From the receiver's ranges to the sender's packets\<close>

lemma ackSpans_gaps:
  "list_all wf_range (r # rs) \<Longrightarrow> sorted_wrt apart (r # rs) \<Longrightarrow>
   ackSpans (lo r) (ackGaps (lo r) rs) = map (\<lambda>r. (lo r, hi r)) rs"
proof (induction rs arbitrary: r)
  case (Cons s rs)
  then have wf: "wf_range r" "wf_range s" "apart r s" by auto
  then have "hi s \<le> lo r" "lo s \<le> hi s"
    by (auto simp: wf_range_def apart_def word_le_nat_alt)
  then have "\<not> lo r < lo r - hi s" "\<not> hi s < hi s - lo s"
    by (auto simp: word_le_nat_alt word_less_nat_alt unat_sub_if')
  with Cons show ?case by (simp add: Let_def)
qed simp

lemma inSpans_ranges:
  "inSpans (map (\<lambda>r. (lo r, hi r)) rs) sp \<longleftrightarrow> unat (sp_pn sp) \<in> pn_set rs"
  by (auto simp: inSpans_def inSpan_def list_ex_iff pn_set_def word_le_nat_alt)

lemma ackFrameSpans_ranges:
  assumes "list_all wf_range rs" and "sorted_wrt apart rs" and "rs \<noteq> []"
  shows "ackFrameSpans (ackFrameOf d rs) = map (\<lambda>r. (lo r, hi r)) rs"
proof -
  obtain r qs where "rs = r # qs" using assms(3) by (cases rs) auto
  with ackSpans_gaps [of r qs] assms show ?thesis
    by (simp add: ackFrameSpans_def ackFrameOf_def Let_def)
qed

text \<open>
  C1: acknowledgement end to end.  When a receiver whose ranges satisfy their invariant writes an
  ACK frame and the sender parses and handles it, the sender stops tracking exactly the packets
  whose numbers the receiver's ranges hold, in that space and in no other, and its count of bytes
  in flight falls by exactly their sizes.
\<close>

theorem ack_end_to_end:
  assumes "ack_inv s" and "ackRanges s = r # rs" and "ackDelay < 2 ^ 62" and "hi r < nextPN"
  shows "\<exists>f ls' b. quicParseFrames None np (quicAppendACKFrameRanges [] ackDelay (ackRanges s)) = ([OnACK f], True, None)
    \<and> onAckReceived ls since space f d nextPN = (ls', Inr b)
    \<and> sent ls' = (sent ls)(space := filter (\<lambda>sp. unat (sp_pn sp) \<notin> pn_set (ackRanges s)) (sent ls space))
    \<and> bytesInFlight ls' = bytesInFlight ls
         - flight (filter (\<lambda>sp. unat (sp_pn sp) \<in> pn_set (ackRanges s)) (sent ls space))"
proof -
  let ?rs = "ackRanges s" and ?f = "ackFrameOf ackDelay (ackRanges s)"
  have wf: "list_all wf_range ?rs" "sorted_wrt apart ?rs" "?rs \<noteq> []" "length ?rs \<le> maxAckRanges"
    using assms(1,2) by (auto simp: ack_inv_def)
  obtain body where body: "quicAppendACKFrameRanges [] ackDelay ?rs = varint_bytes quicFrameACK @ body"
    "quicParseFrameBody quicFrameACK body = Inr (Some (OnACK ?f), [])"
    using parseACK_ranges [OF wf assms(3), of "[]"] by auto
  have parse: "quicParseFrames None np (quicAppendACKFrameRanges [] ackDelay ?rs) = ([OnACK ?f], True, None)"
    unfolding body(1)
    by (subst quicParseFrames_step [OF _ _ _ body(2)])
      (simp_all add: quicFrame_types consFrame_def quicIsProbingFrame_def)
  have "ack_firstRange ?f \<le> ack_largestAck ?f" "ack_largestAck ?f < nextPN"
    using assms(2,4) wf(1) by (auto simp: ackFrameOf_def wf_range_def word_le_nat_alt unat_sub_if')
  from onAckReceived_ok [OF this, of ls since space d] parse show ?thesis
    unfolding ackFrameSpans_ranges [OF wf(1-3)] inSpans_ranges by auto
qed

theorem ack_end_to_end_witness:
  "\<exists>f ls' b. quicParseFrames None False (quicAppendACKFrameRanges [] 3 [\<lparr>lo = 4, hi = 5\<rparr>, \<lparr>lo = 1, hi = 2\<rparr>]) = ([OnACK f], True, None)
    \<and> onAckReceived newQuicLossState (\<lambda>_. 7) quicSpaceAppData f 0 6 = (ls', Inr b)
    \<and> sent ls' = (sent newQuicLossState)(quicSpaceAppData :=
         filter (\<lambda>sp. unat (sp_pn sp) \<notin> pn_set [\<lparr>lo = 4, hi = 5\<rparr>, \<lparr>lo = 1, hi = 2\<rparr>]) (sent newQuicLossState quicSpaceAppData))"
proof -
  let ?s = "\<lparr>ackFloor = 0, ackRanges = [\<lparr>lo = 4, hi = 5\<rparr>, \<lparr>lo = 1, hi = 2\<rparr>]\<rparr>"
  have "ack_inv ?s" by (simp add: ack_inv_def wf_range_def apart_def maxAckRanges_def)
  from ack_end_to_end [OF this, of "\<lparr>lo = 4, hi = 5\<rparr>" "[\<lparr>lo = 1, hi = 2\<rparr>]" 3 6 False newQuicLossState "\<lambda>_. 7" quicSpaceAppData 0]
  show ?thesis by (simp del: pn_set_simps) blast
qed

subsection \<open>Loss detection\<close>

lemma packetLost_le: "packetLost ls now space sp \<Longrightarrow> sint (sp_pn sp) \<le> largestAcked ls space"
  by (simp add: packetLost_def)

lemma space_sint_mono:
  assumes "space_inv ls n space" and "sent ls space = sp # sps" and "sp' \<in> set (sp # sps)"
  shows "sint (sp_pn sp) \<le> sint (sp_pn sp')"
proof -
  have "sp_pn x \<le> 2 ^ 62" if "x \<in> set (sp # sps)" for x
    using assms(1,2) that by (auto simp: space_inv_def list_all_iff intro: order_less_imp_le order_less_le_trans)
  with assms show ?thesis by (auto simp: space_inv_def sint_small word_less_def intro: less_imp_le)
qed

text \<open>
  C15: the flag that \<open>onAckReceived\<close> returns is a sound shortcut.  In a reachable state, when it is
  false, loss detection in that space would change nothing and report no lost frame, so skipping
  it is harmless.
\<close>

theorem loss_possible_sound:
  assumes "loss_step\<^sup>*\<^sup>* (newQuicLossState, \<lambda>_. 0) (ls, n)"
    and "onAckReceived ls since space ack d (n space) = (ls', Inr False)"
    and "ack_firstRange ack \<le> ack_largestAck ack"
  shows "detectLostPackets ls' now space = (ls', [])"
proof -
  have "loss_step (ls, n) (ls', n)" using loss_step.ack [of ls n since space ack d] assms(2) by simp
  with assms(1) have "loss_step\<^sup>*\<^sup>* (newQuicLossState, \<lambda>_. 0) (ls', n)" by simp
  from loss_reach_inv [OF this] loss_inv_init have inv: "space_inv ls' n space" by (simp add: loss_inv_def)
  have "ack_largestAck ack < n space"
    using assms(2,3) by (auto simp: onAckReceived_def split: if_splits)
  from onAckReceived_ok [OF assms(3) this, of ls since space d] assms(2)
  have "sent ls' space = [] \<or> sint (sp_pn (hd (sent ls' space))) > largestAcked ls' space" by force
  then have "\<not> packetLost ls' now space sp" if "sp \<in> set (sent ls' space)" for sp
    using that space_sint_mono [OF inv, of "hd (sent ls' space)" "tl (sent ls' space)" sp] packetLost_le [of ls' now space sp]
    by (cases "sent ls' space") auto
  then have "filter (packetLost ls' now space) (sent ls' space) = []"
    "filter (\<lambda>sp. \<not> packetLost ls' now space sp) (sent ls' space) = sent ls' space"
    by (auto simp: filter_empty_conv filter_id_conv)
  then show ?thesis
    by (simp add: detectLostPackets_def detectLost_def dropPackets_eq)
qed

theorem loss_possible_sound_witness:
  "\<exists>ls n ls'. loss_step\<^sup>*\<^sup>* (newQuicLossState, \<lambda>_. 0) (ls, n)
     \<and> onAckReceived ls (\<lambda>_. 9) quicSpaceAppData (ackFrameOf 0 [\<lparr>lo = 0, hi = 0\<rparr>]) 0 (n quicSpaceAppData) = (ls', Inr False)
     \<and> detectLostPackets ls' 50 quicSpaceAppData = (ls', [])"
proof -
  define ls where "ls = onPacketSent newQuicLossState 5 quicSpaceAppData 0 1200 True [1]"
  define n :: "quicSpace \<Rightarrow> u64" where "n = (\<lambda>_. 0)(quicSpaceAppData := 1)"
  define f where "f = ackFrameOf 0 [\<lparr>lo = 0, hi = 0\<rparr>]"
  have "loss_step (newQuicLossState, \<lambda>_. 0) (ls, n)"
    using loss_step.sent [of "\<lambda>_. 0" quicSpaceAppData 1200 newQuicLossState 5 True "[1]"]
    by (simp add: ls_def n_def fun_upd_def)
  then have reach: "loss_step\<^sup>*\<^sup>* (newQuicLossState, \<lambda>_. 0) (ls, n)" by blast
  have f: "ack_firstRange f \<le> ack_largestAck f" "ack_largestAck f < n quicSpaceAppData"
    "ackFrameSpans f = [(0, 0)]"
    by (simp_all add: f_def ackFrameOf_def n_def ackFrameSpans_def)
  have "sent ls quicSpaceAppData = [\<lparr>sp_pn = 0, sp_sent = 5, sp_size = 1200, sp_ackElicit = True,
      sp_frames = [1], sp_inFlight = True\<rparr>]"
    by (simp add: ls_def onPacketSent_def newQuicLossState_def Let_def)
  with onAckReceived_ok [OF f(1,2), of ls "\<lambda>_. 9" quicSpaceAppData 0] f(3)
  obtain ls' where ok: "onAckReceived ls (\<lambda>_. 9) quicSpaceAppData f 0 (n quicSpaceAppData) = (ls', Inr False)"
    by (auto simp: inSpan_def)
  from loss_possible_sound [OF reach ok f(1), of 50] reach ok show ?thesis unfolding f_def by blast
qed


definition lossExample :: quicLossState where
  "lossExample = newQuicLossState\<lparr>sent := (\<lambda>_. [\<lparr>sp_pn = 1, sp_sent = 5, sp_size = 100, sp_ackElicit = True,
     sp_frames = [7], sp_inFlight = True\<rparr>]), largestAcked := (\<lambda>_. 9), bytesInFlight := 100\<rparr>"




subsection \<open>The ring of send times\<close>

text \<open>
  The log holds the last 128 of the entries recorded so far; \<open>recorded\<close> is the full history a
  sequence of calls would leave, which drops a call at the same time as the last one.
\<close>

fun recorded :: "int \<Rightarrow> (u64 \<times> int) list \<Rightarrow> quicSendTime list" where
  "recorded t [] = []"
| "recorded t ((pn, at) # rest) =
     (if at = t then recorded t rest else \<lparr>sti_pn = pn, sti_at = at\<rparr> # recorded at rest)"

definition log_rep :: "quicSendTime list \<Rightarrow> quicSendTimeLog \<Rightarrow> bool" where
  "log_rep hist l \<longleftrightarrow> log_written l = length hist \<and> length (log_entries l) = quicSendTimeLogEntries
     \<and> (\<forall>i. i < length hist \<and> length hist \<le> i + quicSendTimeLogEntries
          \<longrightarrow> log_entries l ! (i mod quicSendTimeLogEntries) = hist ! i)"

lemma log_rep_record:
  assumes "log_rep hist l" and "at \<noteq> log_lastAt l"
  shows "log_rep (hist @ [\<lparr>sti_pn = pn, sti_at = at\<rparr>]) (sendTimeLog_record l pn at)"
proof -
  let ?l = "sendTimeLog_record l pn at" and ?e = "\<lparr>sti_pn = pn, sti_at = at\<rparr>" and ?n = quicSendTimeLogEntries
  have l: "log_written ?l = length hist + 1" "log_entries ?l = (log_entries l)[length hist mod ?n := ?e]"
    "length (log_entries l) = ?n"
    using assms by (auto simp: sendTimeLog_record_def log_rep_def)
  have "log_entries ?l ! (i mod ?n) = (hist @ [?e]) ! i"
    if i: "i < length (hist @ [?e])" "length (hist @ [?e]) \<le> i + ?n" for i
  proof (cases "i = length hist")
    case True
    then show ?thesis using l(3) by (simp add: l(2) quicSendTimeLogEntries_def)
  next
    case False
    with i have lt: "i < length hist" "length hist < i + 128" by (auto simp: quicSendTimeLogEntries_def)
    then have "\<not> 128 dvd length hist - i" by (auto dest: dvd_imp_le)
    then have "length hist mod 128 \<noteq> i mod 128" using lt(1) mod_eq_dvd_iff_nat [of i "length hist" 128] by simp
    with assms(1) lt show ?thesis by (simp add: l(2) log_rep_def quicSendTimeLogEntries_def nth_append)
  qed
  with l show ?thesis by (simp add: log_rep_def)
qed

lemma log_rep_run:
  "log_rep hist l \<Longrightarrow>
   log_rep (hist @ recorded (log_lastAt l) calls) (foldl (\<lambda>l (pn, at). sendTimeLog_record l pn at) l calls)"
proof (induction calls arbitrary: hist l)
  case (Cons c calls)
  obtain pn at where c: "c = (pn, at)" by fastforce
  show ?case
  proof (cases "at = log_lastAt l")
    case True
    with Cons show ?thesis by (simp add: c sendTimeLog_record_def)
  next
    case False
    from Cons.IH [OF log_rep_record [OF Cons.prems False]] False show ?thesis
      by (simp add: c sendTimeLog_record_def)
  qed
qed simp

lemma sentAt_loop_eq:
  assumes "log_rep hist l" and "i \<le> length hist" and "k \<le> i" and "length hist \<le> i - k + quicSendTimeLogEntries"
  shows "sentAt_loop k (log_entries l) i pn
    = map_option sti_at (find (\<lambda>e. sti_pn e \<le> pn) (rev (drop (i - k) (take i hist))))"
  using assms(2-4)
proof (induction k arbitrary: i)
  case (Suc k)
  then obtain j where i: "i = Suc j" by (cases i) auto
  with Suc.prems assms(1) have e: "log_entries l ! (j mod quicSendTimeLogEntries) = hist ! j"
    by (auto simp: log_rep_def)
  have "drop (j - k) (take (Suc j) hist) = drop (j - k) (take j hist) @ [hist ! j]"
    using Suc.prems i by (simp add: take_Suc_conv_app_nth)
  with Suc.IH [of j] Suc.prems i e show ?case by (simp add: Let_def)
qed simp

text \<open>
  C18: the ring buffer of send times answers as the unbounded history would, restricted to its
  last 128 entries: \<open>sentAt\<close> finds the most recent of these whose packet number is at most the
  one asked for, for every sequence of recorded sends.
\<close>

theorem sendTimeLog_refines_history:
  "sendTimeLog_sentAt (foldl (\<lambda>l (pn, at). sendTimeLog_record l pn at) quicSendTimeLogZero calls) pn
   = map_option sti_at (find (\<lambda>e. sti_pn e \<le> pn) (take 128 (rev (recorded 0 calls))))"
proof -
  let ?h = "recorded 0 calls"
  let ?l = "foldl (\<lambda>l (pn, at). sendTimeLog_record l pn at) quicSendTimeLogZero calls"
  have "log_rep [] quicSendTimeLogZero"
    by (simp add: log_rep_def quicSendTimeLogZero_def)
  from log_rep_run [OF this, of calls] have rep: "log_rep ?h ?l" by (simp add: quicSendTimeLogZero_def)
  then have w: "log_written ?l = length ?h" by (simp add: log_rep_def)
  let ?k = "length ?h - (length ?h - min (length ?h) quicSendTimeLogEntries)"
  have "sentAt_loop ?k (log_entries ?l) (length ?h) pn
      = map_option sti_at (find (\<lambda>e. sti_pn e \<le> pn) (rev (drop (length ?h - ?k) (take (length ?h) ?h))))"
    by (rule sentAt_loop_eq [OF rep]) auto
  moreover have "length ?h - ?k = length ?h - 128" by (simp add: quicSendTimeLogEntries_def)
  moreover have "rev (drop (length ?h - 128) ?h) = take 128 (rev ?h)"
    by (cases "128 \<le> length ?h") (simp_all add: rev_drop)
  ultimately have "sentAt_loop ?k (log_entries ?l) (length ?h) pn
      = map_option sti_at (find (\<lambda>e. sti_pn e \<le> pn) (take 128 (rev ?h)))" by (simp only: take_all order_refl)
  then show ?thesis unfolding sendTimeLog_sentAt_def Let_def w .
qed

subsection \<open>The round-trip estimate\<close>

lemma sdiv_nonneg: "0 \<le> a \<Longrightarrow> 0 < b \<Longrightarrow> a sdiv b = a div (b :: int)"
  by (cases "a = 0") (simp_all add: signed_divide_int_def)

definition rtt_inv :: "quicLossState \<Rightarrow> bool" where
  "rtt_inv ls \<longleftrightarrow> 0 \<le> minRTT ls \<and> minRTT ls \<le> smoothedRTT ls \<and> 0 \<le> rttVar ls
     \<and> (if firstRTTDone ls then quicTimerGranularity \<le> minRTT ls else minRTT ls = 0)"



end
