(* ===== verification/Quic_OOO.thy ===== *)
theory Quic_OOO
  imports Alos_Prelude
begin

text \<open>
  The list of out-of-order segments of a stream, \<open>core/quic_ooo_list.go\<close>: a list cut into chunks
  of at most 64 segments, with positions that name a chunk and an index in it.  The theory shows
  that it behaves as one flat list: every operation is the corresponding list operation at the
  flat index of its position.  A pointer to a segment is modelled by its position.  The buffers
  that the code keeps for reuse (\<open>inline\<close>, \<open>spare\<close>) hold no segments and are left out.
\<close>

record quicOOOSegment =
  seg_off :: nat
  seg_data :: "byte list"

definition seg_end :: "quicOOOSegment \<Rightarrow> nat" where
  "seg_end seg = seg_off seg + length (seg_data seg)"

definition quicOOOChunkLen :: nat where "quicOOOChunkLen = 64"

record quicOOOPos =
  pos_chunk :: nat
  pos_idx :: nat

record quicOOOList =
  ol_chunks :: "quicOOOSegment list list"
  ol_count :: nat

definition oooEmpty :: quicOOOList where "oooEmpty = \<lparr>ol_chunks = [], ol_count = 0\<rparr>"

definition ooo_len :: "quicOOOList \<Rightarrow> nat" where "ooo_len l = ol_count l"

definition ooo_last :: "quicOOOList \<Rightarrow> quicOOOSegment" where
  "ooo_last l = (let ch = ol_chunks l ! (length (ol_chunks l) - 1) in ch ! (length ch - 1))"

definition endPos :: "quicOOOList \<Rightarrow> quicOOOPos" where
  "endPos l = \<lparr>pos_chunk = length (ol_chunks l), pos_idx = 0\<rparr>"

text \<open>Go's \<open>sort.Search\<close>: binary search for the least index that satisfies a monotone test.\<close>

function sort_search :: "(nat \<Rightarrow> bool) \<Rightarrow> nat \<Rightarrow> nat \<Rightarrow> nat" where
  "sort_search f i j =
     (if i < j then let h = (i + j) div 2 in if \<not> f h then sort_search f (h + 1) j else sort_search f i h
      else i)"
  by pat_completeness auto
termination by (relation "measure (\<lambda>(f, i, j). j - i)") (auto simp: Let_def)

declare sort_search.simps [simp del]

definition firstEndingAfter :: "quicOOOList \<Rightarrow> nat \<Rightarrow> quicOOOPos" where
  "firstEndingAfter l off =
     (if ol_count l = 0 \<or> seg_end (ooo_last l) \<le> off then endPos l
      else
        let c = sort_search (\<lambda>c. let ch = ol_chunks l ! c in seg_end (ch ! (length ch - 1)) > off) 0 (length (ol_chunks l));
            ch = ol_chunks l ! c
        in \<lparr>pos_chunk = c, pos_idx = sort_search (\<lambda>i. seg_end (ch ! i) > off) 0 (length ch)\<rparr>)"

definition ooo_at :: "quicOOOList \<Rightarrow> quicOOOPos \<Rightarrow> quicOOOSegment option" where
  "ooo_at l p = (if pos_chunk p \<ge> length (ol_chunks l) then None
                 else Some (ol_chunks l ! pos_chunk p ! pos_idx p))"

definition ooo_before :: "quicOOOList \<Rightarrow> quicOOOPos \<Rightarrow> quicOOOPos option" where
  "ooo_before l p =
     (if pos_idx p > 0 then Some (p\<lparr>pos_idx := pos_idx p - 1\<rparr>)
      else if pos_chunk p = 0 then None
      else Some \<lparr>pos_chunk = pos_chunk p - 1, pos_idx = length (ol_chunks l ! (pos_chunk p - 1)) - 1\<rparr>)"

definition ooo_next :: "quicOOOList \<Rightarrow> quicOOOPos \<Rightarrow> quicOOOPos" where
  "ooo_next l p =
     (if pos_idx p + 1 < length (ol_chunks l ! pos_chunk p) then p\<lparr>pos_idx := pos_idx p + 1\<rparr>
      else \<lparr>pos_chunk = pos_chunk p + 1, pos_idx = 0\<rparr>)"

text \<open>Assignment through a pointer to a segment.\<close>

definition ooo_set :: "quicOOOList \<Rightarrow> quicOOOPos \<Rightarrow> quicOOOSegment \<Rightarrow> quicOOOList" where
  "ooo_set l p seg =
     l\<lparr>ol_chunks := (ol_chunks l)[pos_chunk p := (ol_chunks l ! pos_chunk p)[pos_idx p := seg]]\<rparr>"

definition slices_insert :: "'a list \<Rightarrow> nat \<Rightarrow> 'a \<Rightarrow> 'a list" where
  "slices_insert xs i x = take i xs @ x # drop i xs"

definition ooo_split :: "quicOOOList \<Rightarrow> quicOOOPos \<Rightarrow> quicOOOList \<times> quicOOOPos" where
  "ooo_split l p =
     (let half = quicOOOChunkLen div 2;
          ch = ol_chunks l ! pos_chunk p;
          chunks = (ol_chunks l)[pos_chunk p := take half ch];
          l = l\<lparr>ol_chunks := slices_insert chunks (pos_chunk p + 1) (drop half ch)\<rparr>
      in if pos_idx p > half then (l, \<lparr>pos_chunk = pos_chunk p + 1, pos_idx = pos_idx p - half\<rparr>)
         else (l, p))"

definition ooo_insert :: "quicOOOList \<Rightarrow> quicOOOPos \<Rightarrow> quicOOOSegment \<Rightarrow> quicOOOList \<times> quicOOOPos" where
  "ooo_insert l p seg =
     (let l = l\<lparr>ol_count := ol_count l + 1\<rparr>
      in if length (ol_chunks l) = 0 then (l\<lparr>ol_chunks := [[seg]]\<rparr>, \<lparr>pos_chunk = 0, pos_idx = 0\<rparr>)
         else
           let atEnd = (pos_chunk p = length (ol_chunks l));
               p = (if atEnd then \<lparr>pos_chunk = pos_chunk p - 1, pos_idx = length (ol_chunks l ! (pos_chunk p - 1))\<rparr> else p)
           in if atEnd \<and> pos_idx p = quicOOOChunkLen
              then (l\<lparr>ol_chunks := ol_chunks l @ [[seg]]\<rparr>, \<lparr>pos_chunk = pos_chunk p + 1, pos_idx = 0\<rparr>)
              else
                let (l, p) = (if length (ol_chunks l ! pos_chunk p) = quicOOOChunkLen then ooo_split l p else (l, p))
                in (l\<lparr>ol_chunks := (ol_chunks l)[pos_chunk p := slices_insert (ol_chunks l ! pos_chunk p) (pos_idx p) seg]\<rparr>, p))"

fun dropFrontLoop :: "nat \<Rightarrow> quicOOOSegment list list \<Rightarrow> quicOOOSegment list list" where
  "dropFrontLoop k [] = []"
| "dropFrontLoop k (ch # rest) =
     (if k = 0 then ch # rest
      else if k < length ch then drop k ch # rest
      else if rest = [] then []
      else dropFrontLoop (k - length ch) rest)"

definition ooo_dropFront :: "quicOOOList \<Rightarrow> nat \<Rightarrow> quicOOOList" where
  "ooo_dropFront l k = \<lparr>ol_chunks = dropFrontLoop k (ol_chunks l), ol_count = ol_count l - k\<rparr>"

subsection \<open>The flat list\<close>

definition flat :: "quicOOOList \<Rightarrow> quicOOOSegment list" where "flat l = concat (ol_chunks l)"

definition pos_index :: "quicOOOList \<Rightarrow> quicOOOPos \<Rightarrow> nat" where
  "pos_index l p = length (concat (take (pos_chunk p) (ol_chunks l))) + pos_idx p"

definition chunk_ok :: "quicOOOSegment list \<Rightarrow> bool" where
  "chunk_ok ch \<longleftrightarrow> ch \<noteq> [] \<and> length ch \<le> quicOOOChunkLen"

definition ooo_inv :: "quicOOOList \<Rightarrow> bool" where
  "ooo_inv l \<longleftrightarrow> list_all chunk_ok (ol_chunks l) \<and> ol_count l = length (flat l)"

definition pos_ok :: "quicOOOList \<Rightarrow> quicOOOPos \<Rightarrow> bool" where
  "pos_ok l p \<longleftrightarrow> (if pos_chunk p < length (ol_chunks l) then pos_idx p < length (ol_chunks l ! pos_chunk p)
                  else p = endPos l)"

lemma concat_split:
  assumes "c < length cs"
  shows "concat cs = concat (take c cs) @ cs ! c @ concat (drop (Suc c) cs)"
  using assms by (metis append_take_drop_id Cons_nth_drop_Suc concat.simps(2) concat_append)

lemma concat_update:
  assumes "c < length cs"
  shows "concat (cs[c := ch]) = concat (take c cs) @ ch @ concat (drop (Suc c) cs)"
  using assms by (simp add: upd_conv_take_nth_drop)

lemma ooo_at_flat:
  assumes "pos_ok l p"
  shows "ooo_at l p = (if pos_index l p < length (flat l) then Some (flat l ! pos_index l p) else None)"
proof (cases "pos_chunk p < length (ol_chunks l)")
  case True
  with assms concat_split [OF True] show ?thesis
    by (simp add: ooo_at_def pos_ok_def pos_index_def flat_def nth_append)
next
  case False
  with assms show ?thesis by (simp add: ooo_at_def pos_ok_def pos_index_def flat_def endPos_def)
qed

lemma pos_index_less:
  "pos_ok l p \<Longrightarrow> pos_index l p < length (flat l) \<longleftrightarrow> pos_chunk p < length (ol_chunks l)"
  using concat_split [of "pos_chunk p" "ol_chunks l"]
  by (auto simp: pos_ok_def pos_index_def flat_def endPos_def split: if_splits)

lemma ooo_inv_chunk: "ooo_inv l \<Longrightarrow> c < length (ol_chunks l) \<Longrightarrow> ol_chunks l ! c \<noteq> [] \<and> length (ol_chunks l ! c) \<le> 64"
  by (simp add: ooo_inv_def list_all_length chunk_ok_def quicOOOChunkLen_def)

lemma ooo_next_flat:
  assumes "ooo_inv l" and "pos_ok l p" and "pos_index l p < length (flat l)"
  shows "pos_ok l (ooo_next l p)" and "pos_index l (ooo_next l p) = Suc (pos_index l p)"
proof -
  have c: "pos_chunk p < length (ol_chunks l)" using assms pos_index_less by blast
  have i: "pos_idx p < length (ol_chunks l ! pos_chunk p)" using assms(2) c by (simp add: pos_ok_def)
  show "pos_ok l (ooo_next l p)"
    using c i ooo_inv_chunk [OF assms(1), of "Suc (pos_chunk p)"] by (auto simp: pos_ok_def ooo_next_def endPos_def)
  show "pos_index l (ooo_next l p) = Suc (pos_index l p)"
    using c i by (auto simp: ooo_next_def pos_index_def take_Suc_conv_app_nth)
qed

lemma ooo_before_flat:
  assumes "ooo_inv l" and "pos_ok l p"
  shows "case ooo_before l p of None \<Rightarrow> pos_index l p = 0
         | Some q \<Rightarrow> pos_ok l q \<and> Suc (pos_index l q) = pos_index l p"
proof (cases "pos_idx p > 0")
  case True
  with assms(2) show ?thesis
    by (auto simp: ooo_before_def pos_ok_def pos_index_def endPos_def split: if_splits)
next
  case False
  show ?thesis
  proof (cases "pos_chunk p")
    case 0
    with False show ?thesis by (simp add: ooo_before_def pos_index_def)
  next
    case (Suc c)
    with assms(2) have c: "c < length (ol_chunks l)" by (auto simp: pos_ok_def endPos_def split: if_splits)
    from ooo_inv_chunk [OF assms(1) c] c Suc False show ?thesis
      by (simp add: ooo_before_def pos_ok_def pos_index_def take_Suc_conv_app_nth)
  qed
qed

lemma pos_cong:
  assumes "map length (ol_chunks l) = map length (ol_chunks l')"
  shows "pos_index l p = pos_index l' p" and "pos_ok l p = pos_ok l' p"
proof -
  have "length (concat (take k (ol_chunks l))) = length (concat (take k (ol_chunks l')))" for k
    using assms by (simp add: length_concat take_map [symmetric])
  then show "pos_index l p = pos_index l' p" by (simp add: pos_index_def)
  have len: "length (ol_chunks l) = length (ol_chunks l')" using assms by (metis length_map)
  moreover have "length (ol_chunks l ! c) = length (ol_chunks l' ! c)" if "c < length (ol_chunks l)" for c
    using assms that len by (metis nth_map)
  ultimately show "pos_ok l p = pos_ok l' p" by (auto simp: pos_ok_def endPos_def)
qed

lemma ooo_set_flat:
  assumes "ooo_inv l" and "pos_ok l p" and "pos_index l p < length (flat l)"
  shows "flat (ooo_set l p seg) = (flat l)[pos_index l p := seg]" and "ooo_inv (ooo_set l p seg)"
    and "pos_ok (ooo_set l p seg) q = pos_ok l q" and "pos_index (ooo_set l p seg) q = pos_index l q"
proof -
  let ?c = "pos_chunk p" and ?cs = "ol_chunks l"
  have c: "?c < length ?cs" using assms pos_index_less by blast
  have i: "pos_idx p < length (?cs ! ?c)" using assms(2) c by (simp add: pos_ok_def)
  have len: "map length (ol_chunks (ooo_set l p seg)) = map length ?cs"
    using c by (simp add: ooo_set_def map_update list_update_same_conv)
  then show "pos_ok (ooo_set l p seg) q = pos_ok l q" "pos_index (ooo_set l p seg) q = pos_index l q"
    using pos_cong by blast+
  show flat: "flat (ooo_set l p seg) = (flat l)[pos_index l p := seg]"
    using c i concat_split [OF c]
    by (simp add: flat_def ooo_set_def concat_update pos_index_def list_update_append)
  have "list_all chunk_ok (?cs[?c := (?cs ! ?c)[pos_idx p := seg]])"
    using assms(1) c by (auto simp: ooo_inv_def list_all_length chunk_ok_def nth_list_update)
  with assms(1) flat show "ooo_inv (ooo_set l p seg)" by (simp add: ooo_inv_def ooo_set_def)
qed

text \<open>A full chunk is split in two; the flat list and the flat index do not change.\<close>

lemma ooo_split_flat:
  assumes "list_all chunk_ok (ol_chunks l)" and "pos_chunk p < length (ol_chunks l)" and "pos_idx p \<le> 64"
    and "length (ol_chunks l ! pos_chunk p) = 64" and "ooo_split l p = (l', p')"
  shows "flat l' = flat l" and "list_all chunk_ok (ol_chunks l')" and "ol_count l' = ol_count l"
    and "pos_index l' p' = pos_index l p" and "pos_chunk p' < length (ol_chunks l')"
    and "pos_idx p' \<le> length (ol_chunks l' ! pos_chunk p')" and "length (ol_chunks l' ! pos_chunk p') = 32"
proof -
  define c where "c = pos_chunk p"
  define cs where "cs = ol_chunks l"
  have c: "c < length cs" and ch: "length (cs ! c) = 64" using assms by (simp_all add: c_def cs_def)
  have l': "ol_chunks l' = take c cs @ take 32 (cs ! c) # drop 32 (cs ! c) # drop (Suc c) cs"
    "ol_count l' = ol_count l"
    using assms(5) c
    by (auto simp: ooo_split_def slices_insert_def Let_def c_def [symmetric] cs_def [symmetric]
        quicOOOChunkLen_def take_update_swap upd_conv_take_nth_drop split: if_splits)
  have p': "p' = (if pos_idx p > 32 then \<lparr>pos_chunk = Suc c, pos_idx = pos_idx p - 32\<rparr> else p)"
    using assms(5) by (auto simp: ooo_split_def Let_def c_def quicOOOChunkLen_def split: if_splits)
  show "flat l' = flat l" "ol_count l' = ol_count l"
    using concat_split [OF c] by (simp_all add: flat_def l' cs_def [symmetric] del: append_take_drop_id)
      (simp flip: append_assoc)
  have "list_all chunk_ok cs" using assms(1) by (simp add: cs_def)
  then have "list_all chunk_ok (take c cs)" "list_all chunk_ok (drop (Suc c) cs)"
    by (auto simp: list_all_iff dest: in_set_takeD in_set_dropD)
  moreover have "chunk_ok (take 32 (cs ! c))" "chunk_ok (drop 32 (cs ! c))"
    using ch by (auto simp: chunk_ok_def quicOOOChunkLen_def)
  ultimately show "list_all chunk_ok (ol_chunks l')" by (simp add: l')
  show "pos_index l' p' = pos_index l p"
    using c ch by (auto simp: pos_index_def l' p' c_def [symmetric] cs_def [symmetric])
  show "pos_chunk p' < length (ol_chunks l')" "length (ol_chunks l' ! pos_chunk p') = 32"
    "pos_idx p' \<le> length (ol_chunks l' ! pos_chunk p')"
    using c ch assms(3) by (auto simp: l' p' c_def [symmetric] nth_append)
qed

lemma insert_in_chunk:
  assumes "pos_chunk p < length (ol_chunks l)" and "pos_idx p \<le> length (ol_chunks l ! pos_chunk p)"
    and "length (ol_chunks l ! pos_chunk p) < 64" and "list_all chunk_ok (ol_chunks l)"
    and l': "l' = l\<lparr>ol_chunks := (ol_chunks l)[pos_chunk p := slices_insert (ol_chunks l ! pos_chunk p) (pos_idx p) seg]\<rparr>"
  shows "flat l' = slices_insert (flat l) (pos_index l p) seg" and "list_all chunk_ok (ol_chunks l')"
    and "pos_ok l' p" and "pos_index l' p = pos_index l p" and "ol_count l' = ol_count l"
proof -
  note c = assms(1) and i = assms(2)
  show "flat l' = slices_insert (flat l) (pos_index l p) seg"
    using c i concat_split [OF c] by (simp add: l' flat_def concat_update slices_insert_def pos_index_def)
  show "pos_index l' p = pos_index l p" "ol_count l' = ol_count l" by (simp_all add: l' pos_index_def)
  show "pos_ok l' p" using c i by (simp add: l' pos_ok_def slices_insert_def)
  show "list_all chunk_ok (ol_chunks l')"
    using assms(3,4) c i by (auto simp: l' list_all_length chunk_ok_def slices_insert_def nth_list_update quicOOOChunkLen_def)
qed

lemma split_then_insert:
  assumes ok: "list_all chunk_ok (ol_chunks l)" and c: "pos_chunk p < length (ol_chunks l)"
    and i: "pos_idx p \<le> length (ol_chunks l ! pos_chunk p)"
    and sp: "(if length (ol_chunks l ! pos_chunk p) = quicOOOChunkLen then ooo_split l p else (l, p)) = (m, q)"
    and l': "l' = m\<lparr>ol_chunks := (ol_chunks m)[pos_chunk q := slices_insert (ol_chunks m ! pos_chunk q) (pos_idx q) seg]\<rparr>"
  shows "flat l' = slices_insert (flat l) (pos_index l p) seg \<and> list_all chunk_ok (ol_chunks l')
    \<and> pos_ok l' q \<and> pos_index l' q = pos_index l p \<and> ol_count l' = ol_count l"
proof (cases "length (ol_chunks l ! pos_chunk p) = 64")
  case True
  with sp i have "ooo_split l p = (m, q)" "pos_idx p \<le> 64" by (auto simp: quicOOOChunkLen_def)
  note s = ooo_split_flat [OF ok c this(2) True this(1)]
  have "length (ol_chunks m ! pos_chunk q) < 64" using s(7) by simp
  note ins = insert_in_chunk [OF s(5,6) this s(2) l']
  show ?thesis using ins s by simp
next
  case False
  with sp have m: "m = l" "q = p" by (auto simp: quicOOOChunkLen_def)
  have "length (ol_chunks l ! pos_chunk p) < 64"
    using ok c False by (fastforce simp: list_all_length chunk_ok_def quicOOOChunkLen_def)
  note ins = insert_in_chunk [OF c i this ok l' [unfolded m]]
  show ?thesis using ins m by simp
qed

lemma ooo_insert_flat:
  assumes inv: "ooo_inv l" and ok: "pos_ok l p" and ins: "ooo_insert l p seg = (l', p')"
  shows "flat l' = slices_insert (flat l) (pos_index l p) seg" and "ooo_inv l'"
    and "pos_ok l' p'" and "pos_index l' p' = pos_index l p"
proof -
  define l1 where "l1 = l\<lparr>ol_count := ol_count l + 1\<rparr>"
  have l1: "ol_chunks l1 = ol_chunks l" "ol_count l1 = Suc (length (flat l))" "flat l1 = flat l"
    "pos_index l1 = pos_index l" "list_all chunk_ok (ol_chunks l)"
    using inv by (auto simp: l1_def ooo_inv_def flat_def pos_index_def)
  let ?P = "flat l' = slices_insert (flat l) (pos_index l p) seg \<and> list_all chunk_ok (ol_chunks l')
    \<and> pos_ok l' p' \<and> pos_index l' p' = pos_index l p \<and> ol_count l' = Suc (length (flat l))"
  let ?atEnd = "pos_chunk p = length (ol_chunks l)"
  define q where "q = (if ?atEnd then \<lparr>pos_chunk = pos_chunk p - 1, pos_idx = length (ol_chunks l ! (pos_chunk p - 1))\<rparr> else p)"
  have run: "ooo_insert l p seg =
     (if length (ol_chunks l) = 0 then (l1\<lparr>ol_chunks := [[seg]]\<rparr>, \<lparr>pos_chunk = 0, pos_idx = 0\<rparr>)
      else if ?atEnd \<and> pos_idx q = quicOOOChunkLen
      then (l1\<lparr>ol_chunks := ol_chunks l @ [[seg]]\<rparr>, \<lparr>pos_chunk = pos_chunk q + 1, pos_idx = 0\<rparr>)
      else case (if length (ol_chunks l1 ! pos_chunk q) = quicOOOChunkLen then ooo_split l1 q else (l1, q)) of (l, p) \<Rightarrow>
        (l\<lparr>ol_chunks := (ol_chunks l)[pos_chunk p := slices_insert (ol_chunks l ! pos_chunk p) (pos_idx p) seg]\<rparr>, p))"
    unfolding ooo_insert_def Let_def l1_def q_def by simp
  consider (empty) "ol_chunks l = []" | (grow) "ol_chunks l \<noteq> []" "?atEnd \<and> pos_idx q = quicOOOChunkLen"
    | (mid) "ol_chunks l \<noteq> []" "\<not> (?atEnd \<and> pos_idx q = quicOOOChunkLen)" by blast
  then have ?P
  proof cases
    case empty
    with ins ok l1 show ?thesis
      by (auto simp: run pos_ok_def endPos_def pos_index_def flat_def slices_insert_def chunk_ok_def
          quicOOOChunkLen_def)
  next
    case grow
    then have r: "l' = l1\<lparr>ol_chunks := ol_chunks l @ [[seg]]\<rparr>" "p' = \<lparr>pos_chunk = length (ol_chunks l), pos_idx = 0\<rparr>"
      using ins by (auto simp: run q_def)
    from grow ok l1 show ?thesis
      by (auto simp: r flat_def slices_insert_def pos_ok_def pos_index_def endPos_def chunk_ok_def quicOOOChunkLen_def)
  next
    case mid
    then obtain n where n: "length (ol_chunks l) = Suc n" by (cases "ol_chunks l") auto
    have qc: "pos_chunk q < length (ol_chunks l1)" and qi: "pos_idx q \<le> length (ol_chunks l1 ! pos_chunk q)"
      and qx: "pos_index l1 q = pos_index l p"
      using ok n concat_split [of n "ol_chunks l"] by (auto simp: l1 q_def pos_ok_def endPos_def pos_index_def take_Suc_conv_app_nth split: if_splits)
    obtain m q' where sp: "(if length (ol_chunks l1 ! pos_chunk q) = quicOOOChunkLen then ooo_split l1 q else (l1, q)) = (m, q')"
      by fastforce
    have "l' = m\<lparr>ol_chunks := (ol_chunks m)[pos_chunk q' := slices_insert (ol_chunks m ! pos_chunk q') (pos_idx q') seg]\<rparr>"
      "p' = q'"
      using ins mid unfolding run sp by auto
    with split_then_insert [OF _ qc qi sp this(1)] l1 qx show ?thesis by simp
  qed
  then show "flat l' = slices_insert (flat l) (pos_index l p) seg" "ooo_inv l'" "pos_ok l' p'" "pos_index l' p' = pos_index l p"
    by (auto simp: ooo_inv_def slices_insert_def)
qed

lemma dropFrontLoop_flat:
  assumes "list_all chunk_ok cs" and "k \<le> length (concat cs)"
  shows "concat (dropFrontLoop k cs) = drop k (concat cs)" and "list_all chunk_ok (dropFrontLoop k cs)"
  using assms by (induction k cs rule: dropFrontLoop.induct) (auto simp: chunk_ok_def)

lemma ooo_dropFront_flat:
  assumes "ooo_inv l" and "k \<le> length (flat l)"
  shows "flat (ooo_dropFront l k) = drop k (flat l)" and "ooo_inv (ooo_dropFront l k)"
  using assms dropFrontLoop_flat [of "ol_chunks l" k] by (auto simp: ooo_inv_def flat_def ooo_dropFront_def)

lemma sort_search_step:
  "i < j \<Longrightarrow> sort_search f i j = (if f ((i + j) div 2) then sort_search f i ((i + j) div 2)
     else sort_search f ((i + j) div 2 + 1) j)"
  "\<not> i < j \<Longrightarrow> sort_search f i j = i"
  by (subst sort_search.simps; simp add: Let_def)+

lemma sort_search_spec:
  assumes "\<forall>a b. i \<le> a \<and> a \<le> b \<and> b < j \<and> f a \<longrightarrow> f b" and "i \<le> j"
  shows "i \<le> sort_search f i j \<and> sort_search f i j \<le> j
    \<and> (\<forall>k. i \<le> k \<and> k < sort_search f i j \<longrightarrow> \<not> f k) \<and> (sort_search f i j < j \<longrightarrow> f (sort_search f i j))"
  using assms
proof (induction "j - i" arbitrary: i j rule: less_induct)
  case less
  show ?case
  proof (cases "i < j")
    case True
    define h where "h = (i + j) div 2"
    have h: "i \<le> h" "h < j" using True by (auto simp: h_def)
    have mono: "f b" if "i \<le> a" "a \<le> b" "b < j" "f a" for a b using less.prems(1) that by blast
    show ?thesis
    proof (cases "f h")
      case fh: True
      have eq: "sort_search f i j = sort_search f i h" using sort_search_step(1) [OF True] fh by (simp add: h_def)
      have "i \<le> sort_search f i h \<and> sort_search f i h \<le> h
          \<and> (\<forall>k. i \<le> k \<and> k < sort_search f i h \<longrightarrow> \<not> f k) \<and> (sort_search f i h < h \<longrightarrow> f (sort_search f i h))"
      proof (rule less.hyps)
        show "\<forall>a b. i \<le> a \<and> a \<le> b \<and> b < h \<and> f a \<longrightarrow> f b" using mono h(2) less_trans by blast
      qed (use h in auto)
      with fh h show ?thesis unfolding eq by (cases "sort_search f i h < h") auto
    next
      case fh: False
      have eq: "sort_search f i j = sort_search f (h + 1) j" using sort_search_step(1) [OF True] fh by (simp add: h_def)
      have ih: "h + 1 \<le> sort_search f (h + 1) j \<and> sort_search f (h + 1) j \<le> j
          \<and> (\<forall>k. h + 1 \<le> k \<and> k < sort_search f (h + 1) j \<longrightarrow> \<not> f k) \<and> (sort_search f (h + 1) j < j \<longrightarrow> f (sort_search f (h + 1) j))"
      proof (rule less.hyps)
        show "\<forall>a b. h + 1 \<le> a \<and> a \<le> b \<and> b < j \<and> f a \<longrightarrow> f b" using mono h(1) by (meson add_leD1 le_trans)
      qed (use h in auto)
      have "\<not> f k" if "i \<le> k" "k < sort_search f (h + 1) j" for k
        using that mono [of k h] h fh ih by (cases "k \<le> h") auto
      with ih h show ?thesis unfolding eq by auto
    qed
  next
    case False
    with less.prems(2) show ?thesis by (auto simp: sort_search_step(2))
  qed
qed

definition ends_sorted :: "quicOOOSegment list \<Rightarrow> bool" where
  "ends_sorted segs \<longleftrightarrow> sorted_wrt (\<lambda>a b. seg_end a \<le> seg_end b) segs"

lemma ends_sorted_nth: "ends_sorted xs \<Longrightarrow> i \<le> j \<Longrightarrow> j < length xs \<Longrightarrow> seg_end (xs ! i) \<le> seg_end (xs ! j)"
  by (cases "i = j") (auto simp: ends_sorted_def sorted_wrt_iff_nth_less)

text \<open>The flat index of the last segment of a chunk.\<close>

lemma chunk_last_flat:
  assumes "ooo_inv l" and "c < length (ol_chunks l)"
  defines "k \<equiv> length (concat (take (Suc c) (ol_chunks l))) - 1"
  shows "ol_chunks l ! c ! (length (ol_chunks l ! c) - 1) = flat l ! k" and "k < length (flat l)"
    and "k = length (concat (take c (ol_chunks l))) + (length (ol_chunks l ! c) - 1)"
proof -
  from ooo_inv_chunk [OF assms(1,2)] obtain xs x where ch: "ol_chunks l ! c = xs @ [x]"
    by (metis append_butlast_last_id)
  show k: "k = length (concat (take c (ol_chunks l))) + (length (ol_chunks l ! c) - 1)"
    using assms(2) ch by (simp add: k_def take_Suc_conv_app_nth)
  have "flat l = concat (take c (ol_chunks l)) @ (xs @ [x]) @ concat (drop (Suc c) (ol_chunks l))"
    using concat_split [OF assms(2)] by (simp only: flat_def ch)
  then show "ol_chunks l ! c ! (length (ol_chunks l ! c) - 1) = flat l ! k" "k < length (flat l)"
    by (simp_all add: k ch nth_append)
qed

lemma length_concat_take_mono: "a \<le> b \<Longrightarrow> length (concat (take a cs)) \<le> length (concat (take b cs))"
  by (auto simp: le_iff_add take_add)

lemma ooo_last_flat:
  assumes "ooo_inv l" and "ol_count l \<noteq> 0"
  shows "ooo_last l = flat l ! (length (flat l) - 1)" and "ol_chunks l \<noteq> []"
proof -
  show ne: "ol_chunks l \<noteq> []" using assms by (auto simp: ooo_inv_def flat_def)
  then have c: "length (ol_chunks l) - 1 < length (ol_chunks l)" and "Suc (length (ol_chunks l) - 1) = length (ol_chunks l)"
    by (cases "ol_chunks l"; simp)+
  with chunk_last_flat(1) [OF assms(1) c] show "ooo_last l = flat l ! (length (flat l) - 1)"
    by (simp add: ooo_last_def Let_def flat_def)
qed

lemma pos_index_endPos [simp]: "pos_index l (endPos l) = length (flat l)" "pos_ok l (endPos l)"
  by (simp_all add: pos_index_def endPos_def flat_def pos_ok_def)

text \<open>The two searches of \<open>firstEndingAfter\<close>, over the chunks and in the chunk found.\<close>

lemma firstEndingAfter_search:
  assumes inv: "ooo_inv l" and sorted: "ends_sorted (flat l)" and ne: "ol_count l \<noteq> 0" and gt: "off < seg_end (ooo_last l)"
  defines "f \<equiv> \<lambda>c. off < seg_end (ol_chunks l ! c ! (length (ol_chunks l ! c) - 1))"
  defines "c \<equiv> sort_search f 0 (length (ol_chunks l))"
  defines "i \<equiv> sort_search (\<lambda>i. off < seg_end (ol_chunks l ! c ! i)) 0 (length (ol_chunks l ! c))"
  shows "c < length (ol_chunks l)" and "\<forall>c' < c. \<not> f c'"
    and "i < length (ol_chunks l ! c)" and "\<forall>i' < i. seg_end (ol_chunks l ! c ! i') \<le> off" and "off < seg_end (ol_chunks l ! c ! i)"
proof -
  have nth: "ol_chunks l ! c' ! i' = flat l ! (length (concat (take c' (ol_chunks l))) + i')"
    "length (concat (take c' (ol_chunks l))) + i' < length (flat l)"
    if "c' < length (ol_chunks l)" "i' < length (ol_chunks l ! c')" for c' i'
    using that concat_split [OF that(1)] by (auto simp: flat_def nth_append)
  have "f b" if "a \<le> b" "b < length (ol_chunks l)" "f a" for a b
  proof -
    have "seg_end (ol_chunks l ! a ! (length (ol_chunks l ! a) - 1)) \<le> seg_end (ol_chunks l ! b ! (length (ol_chunks l ! b) - 1))"
      using chunk_last_flat [OF inv, of a] chunk_last_flat [OF inv, of b] that
        length_concat_take_mono [of "Suc a" "Suc b" "ol_chunks l"]
      by (auto intro!: ends_sorted_nth [OF sorted])
    with that(3) show ?thesis by (simp add: f_def)
  qed
  then have "\<forall>a b. 0 \<le> a \<and> a \<le> b \<and> b < length (ol_chunks l) \<and> f a \<longrightarrow> f b" by blast
  from sort_search_spec [OF this le0]
  have c: "c \<le> length (ol_chunks l)" "\<forall>c' < c. \<not> f c'" "c < length (ol_chunks l) \<longrightarrow> f c"
    by (simp_all add: c_def)
  have "f (length (ol_chunks l) - 1)" using gt by (simp add: f_def ooo_last_def Let_def)
  then have "\<not> length (ol_chunks l) - 1 < c" using c(2) by blast
  then show cl: "c < length (ol_chunks l)" using ooo_last_flat(2) [OF inv ne] by (cases "ol_chunks l") auto
  show "\<forall>c' < c. \<not> f c'" by fact
  note ch = ooo_inv_chunk [OF inv cl]
  have "off < seg_end (ol_chunks l ! c ! b)" if "a \<le> b" "b < length (ol_chunks l ! c)" "off < seg_end (ol_chunks l ! c ! a)" for a b
  proof -
    have "seg_end (ol_chunks l ! c ! a) \<le> seg_end (ol_chunks l ! c ! b)"
      using that nth [OF cl, of a] nth [OF cl, of b] by (auto intro!: ends_sorted_nth [OF sorted])
    with that(3) show ?thesis by simp
  qed
  then have "\<forall>a b. 0 \<le> a \<and> a \<le> b \<and> b < length (ol_chunks l ! c) \<and> off < seg_end (ol_chunks l ! c ! a)
      \<longrightarrow> off < seg_end (ol_chunks l ! c ! b)" by blast
  from sort_search_spec [OF this le0]
  have i: "\<forall>i' < i. \<not> off < seg_end (ol_chunks l ! c ! i')" "i < length (ol_chunks l ! c) \<longrightarrow> off < seg_end (ol_chunks l ! c ! i)"
    "i \<le> length (ol_chunks l ! c)"
    by (simp_all add: i_def)
  have "f c" using c(3) cl by simp
  then have "\<not> length (ol_chunks l ! c) - 1 < i" using i(1) by (auto simp: f_def)
  with ch show il: "i < length (ol_chunks l ! c)" by (cases "ol_chunks l ! c") auto
  show "\<forall>i' < i. seg_end (ol_chunks l ! c ! i') \<le> off" "off < seg_end (ol_chunks l ! c ! i)"
    using i il by (auto simp: not_less)
qed

lemma firstEndingAfter_flat:
  assumes inv: "ooo_inv l" and sorted: "ends_sorted (flat l)"
  shows "pos_ok l (firstEndingAfter l off)"
    and "\<forall>j < pos_index l (firstEndingAfter l off). seg_end (flat l ! j) \<le> off"
    and "pos_index l (firstEndingAfter l off) < length (flat l) \<Longrightarrow>
           off < seg_end (flat l ! pos_index l (firstEndingAfter l off))"
proof -
  let ?p = "firstEndingAfter l off" and ?cs = "ol_chunks l"
  let ?Q = "pos_ok l ?p \<and> (\<forall>j < pos_index l ?p. seg_end (flat l ! j) \<le> off)
    \<and> (pos_index l ?p < length (flat l) \<longrightarrow> off < seg_end (flat l ! pos_index l ?p))"
  have ?Q
  proof (cases "ol_count l = 0 \<or> seg_end (ooo_last l) \<le> off")
    case True
    then have p: "?p = endPos l" by (simp add: firstEndingAfter_def)
    have "seg_end (flat l ! j) \<le> off" if j: "j < length (flat l)" for j
    proof -
      have "ol_count l \<noteq> 0" using inv j by (auto simp: ooo_inv_def)
      with True ooo_last_flat(1) [OF inv this] have "seg_end (flat l ! (length (flat l) - 1)) \<le> off" by simp
      with ends_sorted_nth [OF sorted, of j "length (flat l) - 1"] j show ?thesis by fastforce
    qed
    then show ?thesis by (simp add: p)
  next
    case False
    then have ne: "ol_count l \<noteq> 0" and gt: "off < seg_end (ooo_last l)" by auto
    note srch = firstEndingAfter_search [OF inv sorted ne gt]
    define c where "c = sort_search (\<lambda>c. off < seg_end (?cs ! c ! (length (?cs ! c) - 1))) 0 (length ?cs)"
    define i where "i = sort_search (\<lambda>i. off < seg_end (?cs ! c ! i)) 0 (length (?cs ! c))"
    note srch = srch [folded c_def, folded i_def]
    have p: "?p = \<lparr>pos_chunk = c, pos_idx = i\<rparr>"
      using False by (simp add: firstEndingAfter_def Let_def c_def i_def)
    let ?b = "length (concat (take c ?cs))"
    have fl: "flat l ! (?b + k) = ?cs ! c ! k" if "k < length (?cs ! c)" for k
      using that concat_split [OF srch(1)] by (simp add: flat_def nth_append)
    have "seg_end (flat l ! j) \<le> off" if j: "j < ?b + i" for j
    proof (cases "j < ?b")
      case True
      then obtain c' where c': "c = Suc c'" by (cases c) auto
      with srch(1) have "c' < length ?cs" by simp
      note last = chunk_last_flat [OF inv this]
      have "seg_end (flat l ! j) \<le> seg_end (?cs ! c' ! (length (?cs ! c') - 1))"
        unfolding last(1) by (rule ends_sorted_nth [OF sorted _ last(2)]) (use True c' in simp)
      also have "\<dots> \<le> off" using srch(2) c' by (simp add: not_less)
      finally show ?thesis .
    next
      case False
      with j fl [of "j - ?b"] srch(3,4) show ?thesis by auto
    qed
    moreover have "pos_ok l ?p" "pos_index l ?p = ?b + i" using srch by (simp_all add: p pos_ok_def pos_index_def)
    ultimately show ?thesis using fl [OF srch(3)] srch(5) by simp
  qed
  then show "pos_ok l ?p" "\<forall>j < pos_index l ?p. seg_end (flat l ! j) \<le> off"
    "pos_index l ?p < length (flat l) \<Longrightarrow> off < seg_end (flat l ! pos_index l ?p)" by auto
qed

subsection \<open>The interface the stream relies on\<close>

text \<open>
  A sequence with positions: an abstraction to a list, the flat index of a position, and the laws
  of access, movement, assignment and insertion.
\<close>

locale positioned_list =
  fixes abs :: "'l \<Rightarrow> 'a list"
    and linv :: "'l \<Rightarrow> bool"
    and ok :: "'l \<Rightarrow> 'p \<Rightarrow> bool"
    and idx :: "'l \<Rightarrow> 'p \<Rightarrow> nat"
    and at :: "'l \<Rightarrow> 'p \<Rightarrow> 'a option"
    and nxt :: "'l \<Rightarrow> 'p \<Rightarrow> 'p"
    and ins :: "'l \<Rightarrow> 'p \<Rightarrow> 'a \<Rightarrow> 'l \<times> 'p"
  assumes at_law: "linv l \<Longrightarrow> ok l p \<Longrightarrow> at l p = (if idx l p < length (abs l) then Some (abs l ! idx l p) else None)"
    and idx_law: "linv l \<Longrightarrow> ok l p \<Longrightarrow> idx l p \<le> length (abs l)"
    and next_law: "linv l \<Longrightarrow> ok l p \<Longrightarrow> idx l p < length (abs l) \<Longrightarrow> ok l (nxt l p) \<and> idx l (nxt l p) = Suc (idx l p)"
    and insert_law: "linv l \<Longrightarrow> ok l p \<Longrightarrow> linv (fst (ins l p x)) \<and> ok (fst (ins l p x)) (snd (ins l p x))
      \<and> abs (fst (ins l p x)) = slices_insert (abs l) (idx l p) x
      \<and> idx (fst (ins l p x)) (snd (ins l p x)) = idx l p"
begin

lemma at_inserted:
  assumes "linv l" and "ok l p"
  shows "at (fst (ins l p x)) (snd (ins l p x)) = Some x"
  using insert_law [OF assms, of x] idx_law [OF assms] by (simp add: at_law slices_insert_def nth_append)

lemma next_inserted:
  fixes x :: 'a
  assumes "linv l" and "ok l p"
  defines "l' \<equiv> fst (ins l p x)" and "p' \<equiv> nxt (fst (ins l p x)) (snd (ins l p x))"
  shows "ok l' p'" and "idx l' p' = Suc (idx l p)" and "at l' p' = at l p"
proof -
  note i = insert_law [OF assms(1,2), of x] and n = idx_law [OF assms(1,2)]
  then have "ok l' p' \<and> idx l' p' = Suc (idx l p)"
    using next_law [of l' "snd (ins l p x)"] by (simp add: l'_def p'_def slices_insert_def)
  then show "ok l' p'" "idx l' p' = Suc (idx l p)" by simp_all
  with i n assms(1,2) show "at l' p' = at l p"
    by (auto simp: at_law l'_def p'_def slices_insert_def nth_append)
qed

lemma at_None: "linv l \<Longrightarrow> ok l p \<Longrightarrow> at l p = None \<longleftrightarrow> idx l p = length (abs l)"
  using idx_law [of l p] by (simp add: at_law)

end

lemma pos_index_le: "pos_ok l p \<Longrightarrow> pos_index l p \<le> length (flat l)"
  using concat_split [of "pos_chunk p" "ol_chunks l"]
  by (auto simp: pos_ok_def pos_index_def flat_def endPos_def split: if_splits)

interpretation ool: positioned_list flat ooo_inv pos_ok pos_index ooo_at ooo_next ooo_insert
proof (unfold_locales, goal_cases)
  case (1 l p)
  then show ?case by (simp add: ooo_at_flat)
next
  case (2 l p)
  then show ?case by (simp add: pos_index_le)
next
  case (3 l p)
  then show ?case using ooo_next_flat by blast
next
  case (4 l p x)
  then show ?case using ooo_insert_flat [OF 4 surjective_pairing] by blast
qed

text \<open>
  C22: inserting a segment into the chunked list at a position is insertion into the flat list at
  its index, chunk splits included; the position returned holds the new segment, the one after it
  holds what the old position held, and no chunk is empty or above its capacity.
\<close>

theorem ooo_insert_refines:
  assumes "ooo_inv l" and "pos_ok l p"
  shows "case ooo_insert l p seg of (l', p') \<Rightarrow>
      ooo_inv l' \<and> flat l' = take (pos_index l p) (flat l) @ seg # drop (pos_index l p) (flat l)
      \<and> ooo_at l' p' = Some seg \<and> ooo_at l' (ooo_next l' p') = ooo_at l p"
  using ool.insert_law [OF assms] ool.at_inserted [OF assms] ool.next_inserted(3) [OF assms]
  by (simp add: case_prod_beta slices_insert_def)

theorem ooo_insert_refines_witness:
  "let l = \<lparr>ol_chunks = [map (\<lambda>i. \<lparr>seg_off = 10 * i, seg_data = [1]\<rparr>) [0..<64]], ol_count = 64\<rparr>;
       l' = fst (ooo_insert l \<lparr>pos_chunk = 0, pos_idx = 40\<rparr> \<lparr>seg_off = 395, seg_data = [2]\<rparr>)
   in ooo_inv l \<and> ooo_inv l' \<and> map length (ol_chunks l') = [32, 33]"
proof -
  let ?l = "\<lparr>ol_chunks = [map (\<lambda>i. \<lparr>seg_off = 10 * i, seg_data = [1]\<rparr>) [0..<64]], ol_count = 64\<rparr>"
  let ?p = "\<lparr>pos_chunk = 0, pos_idx = 40\<rparr>" and ?seg = "\<lparr>seg_off = 395, seg_data = [2]\<rparr>"
  have inv: "ooo_inv ?l" by (simp add: ooo_inv_def chunk_ok_def flat_def quicOOOChunkLen_def)
  have "pos_ok ?l ?p" by (simp add: pos_ok_def)
  from ooo_insert_refines [OF inv this, of ?seg] have "ooo_inv (fst (ooo_insert ?l ?p ?seg))"
    by (simp add: case_prod_beta)
  moreover have "map length (ol_chunks (fst (ooo_insert ?l ?p ?seg))) = [32, 33]"
    by (simp add: ooo_insert_def ooo_split_def slices_insert_def Let_def quicOOOChunkLen_def)
  ultimately show ?thesis using inv by (simp add: Let_def)
qed

end
