(* ===== verification/Body_Budget.thy ===== *)
theory Body_Budget
  imports Alos_Prelude
begin

text \<open>
  The budget for buffered request bodies, \<open>core/server.go\<close>: a server-wide count of body bytes in
  flight and, per connection, the part reserved for it.  A negative limit turns the budget off.
  The atomic counters are modelled one operation at a time, so the compare-and-swap loop of
  \<open>tryReserveBodyBytes\<close> succeeds in its first round.
\<close>

record bodyBudget =
  maxInFlightBodyBytes :: int
  maxBodySize :: int
  inFlightBodyBytes :: int

definition bodyBudgetConnShareDivisor :: int where "bodyBudgetConnShareDivisor = 8"
definition bodyBudgetPressureDivisor :: int where "bodyBudgetPressureDivisor = 2"
definition bodyBudgetAddPathMaxLimit :: int where "bodyBudgetAddPathMaxLimit = 2 ^ 40"

definition tryReserveBodyBytes :: "bodyBudget \<Rightarrow> int \<Rightarrow> bodyBudget \<times> bool" where
  "tryReserveBodyBytes b n =
     (if n \<le> 0 \<or> maxInFlightBodyBytes b < 0 then (b, True)
      else
        let limit = maxInFlightBodyBytes b
        in if n > limit then (b, False)
           else if limit \<le> bodyBudgetAddPathMaxLimit then
             (let b' = b\<lparr>inFlightBodyBytes := inFlightBodyBytes b + n\<rparr>
              in if inFlightBodyBytes b' > limit
                 then (b'\<lparr>inFlightBodyBytes := inFlightBodyBytes b' - n\<rparr>, False)
                 else (b', True))
           else
             (let used = inFlightBodyBytes b
              in if n > limit - used then (b, False)
                 else (b\<lparr>inFlightBodyBytes := used + n\<rparr>, True)))"

definition releaseBodyBytes :: "bodyBudget \<Rightarrow> int \<Rightarrow> bodyBudget" where
  "releaseBodyBytes b n =
     (if n \<le> 0 \<or> maxInFlightBodyBytes b < 0 then b
      else
        let b' = b\<lparr>inFlightBodyBytes := inFlightBodyBytes b - n\<rparr>
        in if inFlightBodyBytes b' < 0 then b'\<lparr>inFlightBodyBytes := inFlightBodyBytes b' + n\<rparr> else b')"

definition connBodyShare :: "bodyBudget \<Rightarrow> int" where
  "connBodyShare b =
     (let limit = maxInFlightBodyBytes b
      in if maxBodySize b < 0 then limit
         else min (max (limit div bodyBudgetConnShareDivisor) (maxBodySize b)) limit)"

definition bodyBudgetUnderPressure :: "bodyBudget \<Rightarrow> int \<Rightarrow> bool" where
  "bodyBudgetUnderPressure b n \<longleftrightarrow>
     inFlightBodyBytes b + n > maxInFlightBodyBytes b div bodyBudgetPressureDivisor"

text \<open>The connection's counter is the second component of the state.\<close>

definition tryReserveConnBodyBytes :: "bodyBudget \<Rightarrow> int \<Rightarrow> int \<Rightarrow> (bodyBudget \<times> int) \<times> bool" where
  "tryReserveConnBodyBytes b connReserved n =
     (if n \<le> 0 \<or> maxInFlightBodyBytes b < 0 then ((b, connReserved), True)
      else
        let connReserved' = connReserved + n
        in if connReserved' > connBodyShare b \<and> bodyBudgetUnderPressure b n
           then ((b, connReserved' - n), False)
           else
             case tryReserveBodyBytes b n of (b', ok) \<Rightarrow>
               if \<not> ok then ((b', connReserved' - n), False) else ((b', connReserved'), True))"

definition releaseConnBodyBytes :: "bodyBudget \<Rightarrow> int \<Rightarrow> int \<Rightarrow> bodyBudget \<times> int" where
  "releaseConnBodyBytes b connReserved n =
     (if n \<le> 0 \<or> maxInFlightBodyBytes b < 0 then (b, connReserved)
      else (releaseBodyBytes b n, connReserved - n))"

text \<open>Both paths of \<open>tryReserveBodyBytes\<close> make the same decision.\<close>

lemma tryReserveBodyBytes_eq:
  "0 < n \<Longrightarrow> 0 \<le> maxInFlightBodyBytes b \<Longrightarrow> tryReserveBodyBytes b n =
    (if n \<le> maxInFlightBodyBytes b \<and> inFlightBodyBytes b + n \<le> maxInFlightBodyBytes b
     then (b\<lparr>inFlightBodyBytes := inFlightBodyBytes b + n\<rparr>, True) else (b, False))"
  by (cases b) (auto simp: tryReserveBodyBytes_def Let_def)

lemma releaseBodyBytes_eq:
  "0 < n \<Longrightarrow> 0 \<le> maxInFlightBodyBytes b \<Longrightarrow> releaseBodyBytes b n =
    (if n \<le> inFlightBodyBytes b then b\<lparr>inFlightBodyBytes := inFlightBodyBytes b - n\<rparr> else b)"
  by (cases b) (auto simp: releaseBodyBytes_def Let_def)

lemma tryReserveConnBodyBytes_cases:
  assumes "tryReserveConnBodyBytes b c n = ((b', c'), ok)" and "0 \<le> maxInFlightBodyBytes b"
  shows "b' = b \<and> c' = c \<and> (ok \<longrightarrow> n \<le> 0)
    \<or> ok \<and> 0 < n \<and> inFlightBodyBytes b + n \<le> maxInFlightBodyBytes b \<and> c' = c + n
       \<and> b' = b\<lparr>inFlightBodyBytes := inFlightBodyBytes b + n\<rparr>"
  using assms
  by (cases "0 < n") (auto simp: tryReserveConnBodyBytes_def tryReserveBodyBytes_eq Let_def split: if_splits)

lemma releaseConnBodyBytes_cases:
  assumes "releaseConnBodyBytes b c n = (b', c')" and "0 \<le> maxInFlightBodyBytes b" and "n \<le> inFlightBodyBytes b"
  shows "n \<le> 0 \<and> b' = b \<and> c' = c
    \<or> 0 < n \<and> c' = c - n \<and> b' = b\<lparr>inFlightBodyBytes := inFlightBodyBytes b - n\<rparr>"
  using assms
  by (cases "0 < n") (auto simp: releaseConnBodyBytes_def releaseBodyBytes_eq split: if_splits)

subsection \<open>Many connections\<close>

text \<open>
  All connections of a server share the budget.  The invariant: the bytes in flight are the sum
  of what the connections hold, no connection holds a negative amount, and the sum is within the
  limit.  A connection releases only what it holds.
\<close>

definition budget_inv :: "bodyBudget \<Rightarrow> int list \<Rightarrow> bool" where
  "budget_inv b conns \<longleftrightarrow> 0 \<le> maxInFlightBodyBytes b \<and> inFlightBodyBytes b = sum_list conns
     \<and> list_all (\<lambda>c. 0 \<le> c) conns \<and> inFlightBodyBytes b \<le> maxInFlightBodyBytes b"

inductive budget_step :: "bodyBudget \<times> int list \<Rightarrow> bodyBudget \<times> int list \<Rightarrow> bool" where
  reserve: "i < length cs \<Longrightarrow> tryReserveConnBodyBytes b (cs ! i) n = ((b', c'), ok) \<Longrightarrow>
    budget_step (b, cs) (b', cs[i := c'])"
| release: "i < length cs \<Longrightarrow> n \<le> cs ! i \<Longrightarrow> releaseConnBodyBytes b (cs ! i) n = (b', c') \<Longrightarrow>
    budget_step (b, cs) (b', cs[i := c'])"
| opened: "budget_step (b, cs) (b, cs @ [0])"

lemma sum_list_update_int: "i < length cs \<Longrightarrow> sum_list (cs[i := c]) = sum_list cs - cs ! i + (c :: int)"
  by (induction cs arbitrary: i) (auto split: nat.splits)

lemma sum_list_nth_le: "list_all (\<lambda>c. 0 \<le> c) cs \<Longrightarrow> i < length cs \<Longrightarrow> cs ! i \<le> sum_list (cs :: int list)"
proof (induction cs arbitrary: i)
  case (Cons c cs)
  then have "0 \<le> sum_list cs" by (auto simp: list_all_iff intro: sum_list_nonneg)
  with Cons show ?case by (cases i) (auto simp: add_increasing)
qed simp

lemma budget_inv_update:
  assumes "budget_inv b cs" and "i < length cs" and "0 \<le> cs ! i + d" and "inFlightBodyBytes b + d \<le> maxInFlightBodyBytes b"
  shows "budget_inv (b\<lparr>inFlightBodyBytes := inFlightBodyBytes b + d\<rparr>) (cs[i := cs ! i + d])"
  using assms by (simp add: budget_inv_def sum_list_update_int list_all_length nth_list_update)

lemma budget_step_inv:
  "budget_step s t \<Longrightarrow> budget_inv (fst s) (snd s) \<Longrightarrow>
   budget_inv (fst t) (snd t) \<and> maxInFlightBodyBytes (fst t) = maxInFlightBodyBytes (fst s)"
proof (induction rule: budget_step.induct)
  case (reserve i cs b n b' c' ok)
  then have inv: "budget_inv b cs" "0 \<le> maxInFlightBodyBytes b" "0 \<le> cs ! i" by (auto simp: budget_inv_def list_all_length)
  from tryReserveConnBodyBytes_cases [OF reserve(2) inv(2)] show ?case
  proof (elim disjE conjE)
    assume "0 < n" "inFlightBodyBytes b + n \<le> maxInFlightBodyBytes b" "c' = cs ! i + n"
      "b' = b\<lparr>inFlightBodyBytes := inFlightBodyBytes b + n\<rparr>"
    with budget_inv_update [OF inv(1) reserve(1), of n] inv(3) show ?thesis by simp
  qed (use inv in simp)
next
  case (release i cs n b b' c')
  then have inv: "budget_inv b cs" "0 \<le> maxInFlightBodyBytes b" "n \<le> inFlightBodyBytes b" "inFlightBodyBytes b \<le> maxInFlightBodyBytes b"
    using sum_list_nth_le [of cs i] by (auto simp: budget_inv_def)
  from releaseConnBodyBytes_cases [OF release(3) inv(2,3)] show ?case
  proof (elim disjE conjE)
    assume "0 < n" "c' = cs ! i - n" "b' = b\<lparr>inFlightBodyBytes := inFlightBodyBytes b - n\<rparr>"
    with budget_inv_update [OF inv(1) release(1), of "- n"] inv(4) release(2) show ?thesis by simp
  qed (use inv in simp)
next
  case (opened b cs)
  then show ?case by (simp add: budget_inv_def)
qed




end
