(* ===== verification/Quic_Stream.thy ===== *)
theory Quic_Stream
  imports Quic_Frame Quic_OOO Body_Budget "HOL-Library.Monad_Syntax"
begin

text \<open>
  Streams, \<open>core/quic_stream.go\<close>: reassembly of the received data with flow control and the
  budget for buffered bytes, and the send buffer.  Offsets are natural numbers: they come from
  variable-length integers below \<open>2 ^ 62\<close> and the lengths of packet payloads, so the code's
  64-bit sums do not wrap.  A stream's connection and server are always present.  The channel
  that wakes a blocked reader carries no data and is left out.
\<close>

definition quicMinOOOSegmentCap :: nat where "quicMinOOOSegmentCap = 256"
definition quicOOOWindowBytesPerGap :: nat where "quicOOOWindowBytesPerGap = 1200"
definition quicOOOSegmentOverhead :: nat where "quicOOOSegmentOverhead = 64"

datatype quicOOOResult = QuicOOOStored | QuicOOODropped | QuicOOOTooManyGaps

definition quicRecvAccepted :: u32 where "quicRecvAccepted = 1"
definition quicRecvEndOfData :: u32 where "quicRecvEndOfData = 2"
definition quicRecvViolation :: u32 where "quicRecvViolation = 4"
definition quicRecvRejected :: u32 where "quicRecvRejected = 8"
definition quicRecvFinalSizeError :: u32 where "quicRecvFinalSizeError = 16"

lemmas quicRecv_flags = quicRecvAccepted_def quicRecvEndOfData_def quicRecvViolation_def
  quicRecvRejected_def quicRecvFinalSizeError_def

definition quicStreamIsLocal :: "u64 \<Rightarrow> bool \<Rightarrow> bool" where
  "quicStreamIsLocal sid isServer =
     (let initiator = sid AND 0x01 in if isServer then initiator = 1 else initiator = 0)"

definition quicStreamIsBidi :: "u64 \<Rightarrow> bool" where
  "quicStreamIsBidi sid \<longleftrightarrow> sid AND 0x02 = 0"

text \<open>The part of the connection that a stream's receive side uses.\<close>

record quicRecvEnv =
  recvFlowUsed :: nat
  recvFlowLimit :: nat
  bodyReserved :: int
  budget :: bodyBudget

definition consumeRecvFlowCredit :: "quicRecvEnv \<Rightarrow> nat \<Rightarrow> quicRecvEnv \<times> bool" where
  "consumeRecvFlowCredit env n =
     (let env = env\<lparr>recvFlowUsed := recvFlowUsed env + n\<rparr> in (env, recvFlowUsed env \<le> recvFlowLimit env))"

record quicStream =
  recvBuf :: "byte list"
  recvOOO :: quicOOOList
  oooBytes :: nat
  recvMax :: nat
  recvOff :: nat
  recvFin :: bool
  recvFinSeen :: bool
  recvFinOff :: nat
  recvClosed :: bool
  recvOverflow :: bool
  maxRecv :: nat
  recvWindow :: nat
  recvGranted :: nat
  recvAccounted :: int
  recvReset :: bool
  sendBuf :: "byte list"
  sendOff :: nat
  sendFin :: bool
  sendClosed :: bool
  sendReset :: bool
  stalledSend :: int

text \<open>\<open>getPooledStream\<close>: the window and the cap come from the server's configuration.\<close>

definition quicStreamRecvFrameSlack :: int where "quicStreamRecvFrameSlack = 16 * 1024"

definition quicStreamRecvCap :: "int \<Rightarrow> int \<Rightarrow> nat \<Rightarrow> nat" where
  "quicStreamRecvCap maxBody maxHeader window =
     (if maxBody < 0 then 2 ^ 62
      else
        let capBytes = nat (maxBody + maxHeader + quicStreamRecvFrameSlack)
        in if capBytes < window then window else capBytes)"

definition getPooledStream :: "int \<Rightarrow> int \<Rightarrow> nat \<Rightarrow> quicStream" where
  "getPooledStream maxBody maxHeader window =
     \<lparr>recvBuf = [], recvOOO = oooEmpty, oooBytes = 0, recvMax = 0, recvOff = 0, recvFin = False,
      recvFinSeen = False, recvFinOff = 0, recvClosed = False, recvOverflow = False,
      maxRecv = quicStreamRecvCap maxBody maxHeader window, recvWindow = window, recvGranted = window,
      recvAccounted = 0, recvReset = False,
      sendBuf = [], sendOff = 0, sendFin = False, sendClosed = False, sendReset = False, stalledSend = 0\<rparr>"

subsection \<open>Reservations\<close>

definition outstanding :: "quicStream \<Rightarrow> nat" where
  "outstanding s = length (recvBuf s) + oooBytes s"

definition stream_reserve :: "quicStream \<Rightarrow> quicRecvEnv \<Rightarrow> nat \<Rightarrow> (quicStream \<times> quicRecvEnv) \<times> bool" where
  "stream_reserve s env n =
     (if n = 0 then ((s, env), True)
      else if outstanding s + n > maxRecv s then ((s, env), False)
      else
        case tryReserveConnBodyBytes (budget env) (bodyReserved env) (int n) of ((b, r), ok) \<Rightarrow>
          let env = env\<lparr>budget := b, bodyReserved := r\<rparr>
          in if \<not> ok then ((s, env), False)
             else ((s\<lparr>recvAccounted := recvAccounted s + int n\<rparr>, env), True))"

definition releaseReserved :: "quicStream \<Rightarrow> quicRecvEnv \<Rightarrow> nat \<Rightarrow> quicStream \<times> quicRecvEnv" where
  "releaseReserved s env n =
     (if n = 0 then (s, env)
      else
        case releaseConnBodyBytes (budget env) (bodyReserved env) (int n) of (b, r) \<Rightarrow>
          let env = env\<lparr>budget := b, bodyReserved := r\<rparr>;
              acc = recvAccounted s - int n
          in (s\<lparr>recvAccounted := (if acc < 0 then 0 else acc)\<rparr>, env))"

definition reserveSegmentOverhead :: "quicStream \<Rightarrow> quicRecvEnv \<Rightarrow> (quicStream \<times> quicRecvEnv) \<times> bool" where
  "reserveSegmentOverhead s env =
     (case tryReserveConnBodyBytes (budget env) (bodyReserved env) (int quicOOOSegmentOverhead) of ((b, r), ok) \<Rightarrow>
        let env = env\<lparr>budget := b, bodyReserved := r\<rparr>
        in if \<not> ok then ((s, env), False)
           else ((s\<lparr>recvAccounted := recvAccounted s + int quicOOOSegmentOverhead\<rparr>, env), True))"

definition appendContig :: "quicStream \<Rightarrow> quicRecvEnv \<Rightarrow> byte list \<Rightarrow> (quicStream \<times> quicRecvEnv) \<times> bool" where
  "appendContig s env data =
     (case stream_reserve s env (length data) of ((s, env), ok) \<Rightarrow>
        if \<not> ok then ((s, env), False)
        else ((s\<lparr>recvBuf := recvBuf s @ data, recvOff := recvOff s + length data\<rparr>, env), True))"

definition oooSegmentCap :: "quicStream \<Rightarrow> nat" where
  "oooSegmentCap s = max quicMinOOOSegmentCap (recvWindow s div quicOOOWindowBytesPerGap)"

subsection \<open>Out-of-order data\<close>

definition gapEndOf :: "quicOOOSegment option \<Rightarrow> nat \<Rightarrow> nat" where
  "gapEndOf seg endOff = (case seg of None \<Rightarrow> endOff | Some sg \<Rightarrow> if seg_off sg < endOff then seg_off sg else endOff)"

definition opensAt :: "quicOOOList \<Rightarrow> quicOOOPos \<Rightarrow> nat \<Rightarrow> bool" where
  "opensAt l first off =
     (case ooo_before l first of None \<Rightarrow> True | Some prev \<Rightarrow> map_option seg_end (ooo_at l prev) \<noteq> Some off)"

partial_function (option) oooNewBytesLoop ::
    "quicOOOList \<Rightarrow> quicOOOPos \<Rightarrow> nat \<Rightarrow> nat \<Rightarrow> quicOOOPos \<Rightarrow> nat \<Rightarrow> nat \<Rightarrow> bool \<Rightarrow> (nat \<times> bool) option" where
  "oooNewBytesLoop l first off endOff p pos newBytes opensSegment =
     (if pos < endOff then
        let seg = ooo_at l p;
            gapEnd = gapEndOf seg endOff;
            opensSegment = (if gapEnd > pos \<and> pos = off then opensAt l first off else opensSegment);
            newBytes = (if gapEnd > pos then newBytes + (gapEnd - pos) else newBytes)
        in case seg of
             None \<Rightarrow> Some (newBytes, opensSegment)
           | Some sg \<Rightarrow>
               if seg_off sg \<ge> endOff then Some (newBytes, opensSegment)
               else oooNewBytesLoop l first off endOff (ooo_next l p) (seg_end sg) newBytes opensSegment
      else Some (newBytes, opensSegment))"

definition oooNewBytes :: "quicOOOList \<Rightarrow> quicOOOPos \<Rightarrow> nat \<Rightarrow> nat \<Rightarrow> (nat \<times> bool) option" where
  "oooNewBytes l first off endOff = oooNewBytesLoop l first off endOff first off 0 False"

text \<open>One round of the second loop: the gap before the segment at \<open>p\<close> is filled.\<close>

definition fillGap ::
    "byte list \<Rightarrow> nat \<Rightarrow> quicOOOList \<Rightarrow> quicOOOPos \<Rightarrow> nat \<Rightarrow> nat \<Rightarrow> quicOOOPos option \<Rightarrow> quicOOOList \<times> quicOOOPos" where
  "fillGap data off l p pos gapEnd prev =
     (if gapEnd > pos then
        let piece = take (gapEnd - pos) (drop (pos - off) data);
            extend = (case prev of None \<Rightarrow> None
                      | Some q \<Rightarrow> (case ooo_at l q of None \<Rightarrow> None
                                   | Some sg \<Rightarrow> if seg_end sg = pos then Some (q, sg) else None))
        in case extend of
             Some (q, sg) \<Rightarrow> (ooo_set l q (sg\<lparr>seg_data := seg_data sg @ piece\<rparr>), p)
           | None \<Rightarrow>
               (case ooo_insert l p \<lparr>seg_off = pos, seg_data = piece\<rparr> of (l, p) \<Rightarrow> (l, ooo_next l p))
      else (l, p))"

partial_function (option) insertOOOLoop ::
    "byte list \<Rightarrow> nat \<Rightarrow> nat \<Rightarrow> quicOOOList \<Rightarrow> quicOOOPos \<Rightarrow> nat \<Rightarrow> quicOOOPos option \<Rightarrow> quicOOOList option" where
  "insertOOOLoop data off endOff l p pos prev =
     (if pos < endOff then
        case fillGap data off l p pos (gapEndOf (ooo_at l p) endOff) prev of (l, p) \<Rightarrow>
          (case ooo_at l p of
             None \<Rightarrow> Some l
           | Some sg \<Rightarrow>
               if seg_off sg \<ge> endOff then Some l
               else insertOOOLoop data off endOff l (ooo_next l p) (seg_end sg) (Some p))
      else Some l)"

definition insertOOO ::
    "quicStream \<Rightarrow> quicRecvEnv \<Rightarrow> nat \<Rightarrow> byte list \<Rightarrow> ((quicStream \<times> quicRecvEnv) \<times> nat \<times> quicOOOResult) option" where
  "insertOOO s env off data =
     (let endOff = off + length data;
          first = firstEndingAfter (recvOOO s) off
      in do {
        (newBytes, opensSegment) \<leftarrow> oooNewBytes (recvOOO s) first off endOff;
        if newBytes = 0 then Some ((s, env), 0, QuicOOOStored)
        else if opensSegment \<and> ooo_len (recvOOO s) \<ge> oooSegmentCap s then Some ((s, env), 0, QuicOOOTooManyGaps)
        else
          case stream_reserve s env newBytes of ((s, env), ok) \<Rightarrow>
            if \<not> ok then Some ((s, env), 0, QuicOOODropped)
            else
              case (if opensSegment then reserveSegmentOverhead s env else ((s, env), True)) of ((s, env), ok) \<Rightarrow>
                if \<not> ok then Some (releaseReserved s env newBytes, 0, QuicOOODropped)
                else do {
                  l \<leftarrow> insertOOOLoop data off endOff (recvOOO s) first off (ooo_before (recvOOO s) first);
                  Some ((s\<lparr>recvOOO := l, oooBytes := oooBytes s + newBytes\<rparr>, env), newBytes, QuicOOOStored)
                }
      })"

lemma releaseReserved_frame [simp]:
  "recvOOO (fst (releaseReserved s env n)) = recvOOO s" "recvBuf (fst (releaseReserved s env n)) = recvBuf s"
  "recvOff (fst (releaseReserved s env n)) = recvOff s" "oooBytes (fst (releaseReserved s env n)) = oooBytes s"
  by (simp_all add: releaseReserved_def Let_def split: prod.splits)

text \<open>One round of \<open>coalesceOOO\<close>: a segment that starts at or below the contiguous end is taken over.\<close>

definition takeSegment :: "quicStream \<Rightarrow> quicRecvEnv \<Rightarrow> quicOOOSegment \<Rightarrow> quicStream \<times> quicRecvEnv" where
  "takeSegment s env seg =
     (let s = s\<lparr>oooBytes := oooBytes s - length (seg_data seg)\<rparr>
      in case releaseReserved s env quicOOOSegmentOverhead of (s, env) \<Rightarrow>
           if seg_end seg \<le> recvOff s then releaseReserved s env (length (seg_data seg))
           else
             let start = recvOff s - seg_off seg
             in case releaseReserved s env start of (s, env) \<Rightarrow>
                  (s\<lparr>recvBuf := recvBuf s @ drop start (seg_data seg), recvOff := seg_end seg\<rparr>, env))"

lemma takeSegment_frame [simp]:
  "recvOOO (fst (takeSegment s env seg)) = recvOOO s"
  "recvBuf (fst (takeSegment s env seg)) = recvBuf s @ drop (recvOff s - seg_off seg) (if seg_end seg \<le> recvOff s then [] else seg_data seg)"
  "recvOff (fst (takeSegment s env seg)) = max (recvOff s) (seg_end seg)"
  "oooBytes (fst (takeSegment s env seg)) = oooBytes s - length (seg_data seg)"
  using releaseReserved_frame [of "s\<lparr>oooBytes := oooBytes s - length (seg_data seg)\<rparr>" env quicOOOSegmentOverhead]
  by (auto simp: takeSegment_def Let_def case_prod_beta)

function coalesceLoop ::
    "quicStream \<Rightarrow> quicRecvEnv \<Rightarrow> quicOOOPos \<Rightarrow> nat \<Rightarrow> (quicStream \<times> quicRecvEnv) \<times> nat" where
  "coalesceLoop s env p consumed =
     (if consumed < ooo_len (recvOOO s) then
        case ooo_at (recvOOO s) p of
          None \<Rightarrow> ((s, env), consumed)
        | Some seg \<Rightarrow>
            if seg_off seg > recvOff s then ((s, env), consumed)
            else
              case takeSegment s env seg of (s', env') \<Rightarrow>
                coalesceLoop s' env' (ooo_next (recvOOO s) p) (consumed + 1)
      else ((s, env), consumed))"
  by pat_completeness auto
termination
  by (relation "measure (\<lambda>(s, env, p, consumed). ooo_len (recvOOO s) - consumed)")
    (auto dest!: arg_cong [where f = fst])

declare coalesceLoop.simps [simp del]

definition coalesceOOO :: "quicStream \<Rightarrow> quicRecvEnv \<Rightarrow> quicStream \<times> quicRecvEnv" where
  "coalesceOOO s env =
     (case coalesceLoop s env \<lparr>pos_chunk = 0, pos_idx = 0\<rparr> 0 of ((s, env), consumed) \<Rightarrow>
        if consumed > 0 then (s\<lparr>recvOOO := ooo_dropFront (recvOOO s) consumed\<rparr>, env) else (s, env))"

subsection \<open>Frames\<close>

definition violatesFinalSizeLocked :: "quicStream \<Rightarrow> nat \<Rightarrow> bool \<Rightarrow> bool" where
  "violatesFinalSizeLocked s endOff fin =
     (if recvFinSeen s then endOff > recvFinOff s \<or> fin \<and> endOff \<noteq> recvFinOff s
      else fin \<and> endOff < recvMax s)"

definition rejectRecvLocked :: "quicStream \<Rightarrow> quicStream \<times> u32" where
  "rejectRecvLocked s = (s\<lparr>recvClosed := True\<rparr>, quicRecvRejected)"

text \<open>The part of \<open>handleStreamFrame\<close> that stores the data; \<open>None\<close> in the third place is a rejection.\<close>

definition storeStreamData ::
    "quicStream \<Rightarrow> quicRecvEnv \<Rightarrow> nat \<Rightarrow> byte list \<Rightarrow> ((quicStream \<times> quicRecvEnv) \<times> nat option) option" where
  "storeStreamData s env off data =
     (if length data > 0 \<and> off + length data > recvOff s then
        let (off, data) = (if off < recvOff s then (recvOff s, drop (recvOff s - off) data) else (off, data))
        in if off = recvOff s then
             case appendContig s env data of ((s, env), ok) \<Rightarrow>
               if \<not> ok then Some ((s, env), None)
               else Some (if ooo_len (recvOOO s) > 0 then coalesceOOO s env else (s, env), Some (length data))
           else do {
             ((s, env), n, result) \<leftarrow> insertOOO s env off data;
             Some ((s, env), if result = QuicOOOStored then Some n else None)
           }
      else Some ((s, env), Some 0))"

definition finishStreamFrame :: "quicStream \<Rightarrow> nat \<Rightarrow> bool \<Rightarrow> quicStream \<times> u32" where
  "finishStreamFrame s endOff fin =
     (let s = (if fin then s\<lparr>recvFinSeen := True, recvFinOff := endOff\<rparr> else s);
          s = (if recvFinSeen s \<and> recvOff s \<ge> recvFinOff s then s\<lparr>recvFin := True\<rparr> else s);
          s = (if \<not> recvFin s \<and> recvOff s \<ge> maxRecv s then s\<lparr>recvOverflow := True, recvFin := True\<rparr> else s)
      in (s, if recvFin s then quicRecvAccepted OR quicRecvEndOfData else quicRecvAccepted))"

definition handleStreamFrame ::
    "quicStream \<Rightarrow> quicRecvEnv \<Rightarrow> nat \<Rightarrow> byte list \<Rightarrow> bool \<Rightarrow> ((quicStream \<times> quicRecvEnv) \<times> nat \<times> u32) option" where
  "handleStreamFrame s env off data fin =
     (if recvClosed s \<or> recvOverflow s then Some ((s, env), 0, 0)
      else
        let endOff = off + length data
        in if endOff > recvGranted s then Some ((s, env), 0, quicRecvViolation)
           else if violatesFinalSizeLocked s endOff fin then Some ((s, env), 0, quicRecvFinalSizeError)
           else
             case (if endOff > recvMax s then consumeRecvFlowCredit env (endOff - recvMax s) else (env, True)) of
               (env, ok) \<Rightarrow>
                 if \<not> ok then Some ((s, env), 0, quicRecvViolation)
                 else do {
                   let s = (if endOff > recvMax s then s\<lparr>recvMax := endOff\<rparr> else s);
                   ((s, env), accepted) \<leftarrow> storeStreamData s env off data;
                   case accepted of
                     None \<Rightarrow> (case rejectRecvLocked s of (s, flags) \<Rightarrow> Some ((s, env), 0, flags))
                   | Some n \<Rightarrow> (case finishStreamFrame s endOff fin of (s, flags) \<Rightarrow> Some ((s, env), n, flags))
                 })"

definition receivedExtent :: "quicStream \<Rightarrow> nat \<times> nat" where
  "receivedExtent s =
     (if ooo_len (recvOOO s) > 0 then seg_end (ooo_last (recvOOO s)) else recvOff s, recvOff s + oooBytes s)"

definition unreceivedCredit :: "quicStream \<Rightarrow> nat" where
  "unreceivedCredit s =
     (let unique = snd (receivedExtent s) in if recvGranted s \<le> unique then 0 else recvGranted s - unique)"

definition streamCreditToGrant :: "quicStream \<Rightarrow> quicStream \<times> nat" where
  "streamCreditToGrant s =
     (if recvFinSeen s \<or> recvGranted s \<ge> maxRecv s \<or> recvOff s + recvWindow s div 2 \<le> recvGranted s then (s, 0)
      else
        let grant = recvOff s + recvWindow s;
            grant = (if grant > maxRecv s then maxRecv s else grant)
        in (s\<lparr>recvGranted := grant\<rparr>, grant))"

datatype quicResetError = QuicErrFinalSize | QuicErrFlowControl

definition applyPeerReset ::
    "quicStream \<Rightarrow> quicRecvEnv \<Rightarrow> nat \<Rightarrow> (quicStream \<times> quicRecvEnv) \<times> (quicResetError + nat)" where
  "applyPeerReset s env finalSize =
     (case receivedExtent s of (highest, unique) \<Rightarrow>
        if recvFinSeen s \<and> finalSize \<noteq> recvFinOff s \<or> finalSize < max highest (recvMax s)
        then ((s, env), Inl QuicErrFinalSize)
        else if finalSize > recvGranted s then ((s, env), Inl QuicErrFlowControl)
        else
          case (if finalSize > recvMax s then consumeRecvFlowCredit env (finalSize - recvMax s) else (env, True)) of
            (env, ok) \<Rightarrow>
              if \<not> ok then ((s, env), Inl QuicErrFlowControl)
              else
                let s = (if finalSize > recvMax s then s\<lparr>recvMax := finalSize\<rparr> else s)
                in if recvReset s then ((s, env), Inr 0)
                   else ((s\<lparr>recvReset := True, recvFinSeen := True, recvFinOff := finalSize, recvClosed := True\<rparr>, env),
                         Inr (finalSize - unique)))"

subsection \<open>Reading\<close>

definition takeReceived :: "quicStream \<Rightarrow> quicRecvEnv \<Rightarrow> (quicStream \<times> quicRecvEnv) \<times> byte list \<times> bool" where
  "takeReceived s env =
     (let data = recvBuf s
      in (releaseReserved (s\<lparr>recvBuf := []\<rparr>) env (length data), data, recvFin s))"

text \<open>\<open>Read\<close> with room for \<open>n\<close> bytes; \<open>None\<close> is a call that blocks, the flag is \<open>io.EOF\<close>.\<close>

definition stream_Read :: "quicStream \<Rightarrow> nat \<Rightarrow> (quicStream \<times> byte list \<times> bool) option" where
  "stream_Read s n =
     (if length (recvBuf s) > 0 then
        let data = take n (recvBuf s);
            s = s\<lparr>recvBuf := drop n (recvBuf s)\<rparr>
        in Some (s, data, recvFin s \<and> length (recvBuf s) = 0)
      else if recvFin s then Some (s, [], True)
      else if recvClosed s then Some (s, [], True)
      else None)"

definition stream_readAll :: "quicStream \<Rightarrow> (quicStream \<times> byte list) option" where
  "stream_readAll s =
     (if recvFin s \<or> recvClosed s then Some (s\<lparr>recvBuf := []\<rparr>, recvBuf s) else None)"

subsection \<open>Writing\<close>

datatype quicWriteError = ErrStreamClosed

definition stream_Write :: "quicStream \<Rightarrow> byte list \<Rightarrow> quicWriteError + quicStream" where
  "stream_Write s data =
     (if sendClosed s \<or> sendFin s then Inl ErrStreamClosed else Inr (s\<lparr>sendBuf := sendBuf s @ data\<rparr>))"

definition setSendBuf :: "quicStream \<Rightarrow> byte list \<Rightarrow> quicStream" where
  "setSendBuf s data = (let s = (if \<not> sendClosed s then s\<lparr>sendBuf := data\<rparr> else s) in s\<lparr>sendFin := True\<rparr>)"

definition sendBufDrained :: "quicStream \<Rightarrow> bool" where
  "sendBufDrained s \<longleftrightarrow> length (sendBuf s) = 0"

definition stream_FinishWrite :: "quicStream \<Rightarrow> quicStream" where
  "stream_FinishWrite s = s\<lparr>sendFin := True\<rparr>"

definition releaseStalledLocked :: "quicStream \<Rightarrow> int \<Rightarrow> quicStream" where
  "releaseStalledLocked s n = (if n \<le> 0 then s else s\<lparr>stalledSend := stalledSend s - n\<rparr>)"

definition stream_Close :: "quicStream \<Rightarrow> quicStream" where
  "stream_Close s =
     (let s = s\<lparr>recvClosed := True, sendClosed := True, sendBuf := []\<rparr> in releaseStalledLocked s (stalledSend s))"

definition drainSendBuf :: "quicStream \<Rightarrow> nat \<Rightarrow> quicStream \<times> byte list \<times> nat \<times> bool" where
  "drainSendBuf s maxBytes =
     (if sendReset s then (s, [], sendOff s, False)
      else if length (sendBuf s) = 0 then (s, [], sendOff s, sendFin s \<and> \<not> sendClosed s)
      else
        let n = min (length (sendBuf s)) maxBytes;
            data = take n (sendBuf s);
            off = sendOff s;
            s = s\<lparr>sendBuf := drop n (sendBuf s), sendOff := sendOff s + n\<rparr>;
            s = (if stalledSend s > 0 then releaseStalledLocked s (min (int n) (stalledSend s)) else s)
        in (s, data, off, sendFin s \<and> length (sendBuf s) = 0))"

definition resetSend :: "quicStream \<Rightarrow> quicStream \<times> nat \<times> bool" where
  "resetSend s =
     (if sendReset s then (s, sendOff s, False)
      else
        let s = s\<lparr>sendReset := True, sendClosed := True, sendBuf := []\<rparr>
        in (releaseStalledLocked s (stalledSend s), sendOff s, True))"

definition beginStalledAccounting :: "quicStream \<Rightarrow> quicStream \<times> int" where
  "beginStalledAccounting s =
     (let pending = int (length (sendBuf s)) - stalledSend s
      in if pending \<le> 0 then (s, 0) else (s\<lparr>stalledSend := stalledSend s + pending\<rparr>, pending))"

subsection \<open>A list seen from a position\<close>

text \<open>\<open>at_pos l p xs ys\<close>: position \<open>p\<close> of the chunked list \<open>l\<close> stands between \<open>xs\<close> and \<open>ys\<close>.\<close>

definition at_pos :: "quicOOOList \<Rightarrow> quicOOOPos \<Rightarrow> quicOOOSegment list \<Rightarrow> quicOOOSegment list \<Rightarrow> bool" where
  "at_pos l p xs ys \<longleftrightarrow> ooo_inv l \<and> pos_ok l p \<and> flat l = xs @ ys \<and> pos_index l p = length xs"

lemma at_pos_at: "at_pos l p xs ys \<Longrightarrow> ooo_at l p = (case ys of [] \<Rightarrow> None | y # _ \<Rightarrow> Some y)"
  by (auto simp: at_pos_def ooo_at_flat split: list.splits)

lemma at_pos_next: "at_pos l p xs (y # ys) \<Longrightarrow> at_pos l (ooo_next l p) (xs @ [y]) ys"
  using ooo_next_flat [of l p] by (auto simp: at_pos_def)

lemma at_pos_insert:
  assumes "at_pos l p xs ys" and "ooo_insert l p sg = (l', p')"
  shows "at_pos l' (ooo_next l' p') (xs @ [sg]) ys"
  using ooo_insert_flat [of l p sg l' p'] ooo_next_flat [of l' p'] assms
  by (auto simp: at_pos_def slices_insert_def)

lemma at_pos_set:
  assumes "at_pos l q xs (x # ys)" and "at_pos l p (xs @ [x]) ys"
  shows "at_pos (ooo_set l q x') p (xs @ [x']) ys" and "at_pos (ooo_set l q x') q xs (x' # ys)"
  using ooo_set_flat [of l q x'] assms by (auto simp: at_pos_def)

definition prev_ok :: "quicOOOList \<Rightarrow> quicOOOPos option \<Rightarrow> quicOOOPos \<Rightarrow> quicOOOSegment list \<Rightarrow> quicOOOSegment list \<Rightarrow> bool" where
  "prev_ok l prev p xs ys \<longleftrightarrow> (case prev of None \<Rightarrow> xs = []
     | Some q \<Rightarrow> xs \<noteq> [] \<and> at_pos l q (butlast xs) (last xs # ys))"

lemma prev_ok_before:
  assumes "at_pos l p xs ys"
  shows "prev_ok l (ooo_before l p) p xs ys"
proof (cases "ooo_before l p")
  case None
  with assms ooo_before_flat [of l p] show ?thesis by (auto simp: at_pos_def prev_ok_def)
next
  case (Some q)
  with assms ooo_before_flat [of l p] have "pos_ok l q" "Suc (pos_index l q) = length xs" by (auto simp: at_pos_def)
  moreover from this have "xs = butlast xs @ [last xs]" by (cases xs) auto
  ultimately show ?thesis using assms Some
    by (auto simp: at_pos_def prev_ok_def)
qed

lemma prev_ok_next: "at_pos l p xs (y # ys) \<Longrightarrow> prev_ok l (Some p) (ooo_next l p) (xs @ [y]) ys"
  by (simp add: prev_ok_def)

subsection \<open>Segments and offsets\<close>

definition seg_cov :: "quicOOOSegment \<Rightarrow> nat set" where
  "seg_cov sg = {seg_off sg..<seg_end sg}"

definition cov :: "quicOOOSegment list \<Rightarrow> nat set" where
  "cov segs = (\<Union>sg \<in> set segs. seg_cov sg)"

definition segs_wf :: "quicOOOSegment list \<Rightarrow> bool" where
  "segs_wf segs \<longleftrightarrow> sorted_wrt (\<lambda>a b. seg_end a \<le> seg_off b) segs \<and> list_all (\<lambda>sg. seg_data sg \<noteq> []) segs"

lemma cov_simps [simp]: "cov [] = {}" "cov (sg # segs) = seg_cov sg \<union> cov segs" "cov (xs @ ys) = cov xs \<union> cov ys"
  by (auto simp: cov_def)

lemma finite_cov [simp]: "finite (cov segs)"
  by (simp add: cov_def seg_cov_def)

lemma card_seg_cov [simp]: "card (seg_cov sg) = length (seg_data sg)"
  by (simp add: seg_cov_def seg_end_def)

lemma segs_wf_simps [simp]:
  "segs_wf []" "segs_wf (sg # segs) \<longleftrightarrow> seg_data sg \<noteq> [] \<and> list_all (\<lambda>b. seg_end sg \<le> seg_off b) segs \<and> segs_wf segs"
  "segs_wf (xs @ ys) \<longleftrightarrow> segs_wf xs \<and> segs_wf ys \<and> list_all (\<lambda>a. list_all (\<lambda>b. seg_end a \<le> seg_off b) ys) xs"
  by (auto simp: segs_wf_def sorted_wrt_append list_all_iff)

lemma seg_off_less_end: "seg_data sg \<noteq> [] \<Longrightarrow> seg_off sg < seg_end sg"
  by (simp add: seg_end_def)

lemma segs_wf_ends: "segs_wf segs \<Longrightarrow> ends_sorted segs"
  by (induction segs) (auto simp: ends_sorted_def list_all_iff seg_end_def intro: le_trans)

lemma cov_below: "list_all (\<lambda>sg. seg_end sg \<le> n) xs \<Longrightarrow> x \<in> cov xs \<Longrightarrow> x < n"
  by (auto simp: cov_def seg_cov_def list_all_iff dest: order_less_le_trans)

lemma cov_above: "list_all (\<lambda>sg. n \<le> seg_off sg) ys \<Longrightarrow> x \<in> cov ys \<Longrightarrow> n \<le> x"
  by (auto simp: cov_def seg_cov_def list_all_iff dest: order_trans)

text \<open>What the loops keep: everything before the position ends at or before \<open>pos\<close>, everything from it on after.\<close>

definition walk_ok :: "nat \<Rightarrow> quicOOOSegment list \<Rightarrow> quicOOOSegment list \<Rightarrow> bool" where
  "walk_ok pos xs ys \<longleftrightarrow> segs_wf (xs @ ys) \<and> list_all (\<lambda>sg. seg_end sg \<le> pos) xs \<and> list_all (\<lambda>sg. pos < seg_end sg) ys"

lemma walk_ok_next: "walk_ok pos xs (y # ys) \<Longrightarrow> walk_ok (seg_end y) (xs @ [y]) ys"
proof -
  assume w: "walk_ok pos xs (y # ys)"
  have "seg_end y < seg_end sg" if "sg \<in> set ys" for sg
  proof -
    have "seg_end y \<le> seg_off sg" "seg_data sg \<noteq> []" using w that by (auto simp: walk_ok_def segs_wf_def list_all_iff sorted_wrt_append)
    with seg_off_less_end [of sg] show ?thesis by linarith
  qed
  moreover have "seg_end sg \<le> seg_end y" if "sg \<in> set xs" for sg
    using w that by (auto simp: walk_ok_def list_all_iff intro: less_imp_le order_le_less_trans)
  ultimately show ?thesis using w by (simp add: walk_ok_def list_all_iff)
qed

lemma walk_ok_cov:
  "walk_ok pos xs ys \<Longrightarrow> x \<in> cov xs \<Longrightarrow> x < pos"
  "walk_ok pos xs (y # ys) \<Longrightarrow> x \<in> cov ys \<Longrightarrow> seg_end y \<le> x"
  "walk_ok pos xs (y # ys) \<Longrightarrow> seg_off y < seg_end y \<and> pos < seg_end y"
  using cov_below [of pos xs x] cov_above [of "seg_end y" ys x] by (auto simp: walk_ok_def seg_off_less_end)

lemma walk_ok_Nil: "walk_ok pos xs [] \<Longrightarrow> {pos..<e} - cov (xs @ []) = {pos..<e} \<and> pos \<notin> cov (xs @ [])"
  using walk_ok_cov(1) by fastforce

lemma walk_ok_Cons:
  assumes "walk_ok pos xs (y # ys)" and "pos < e"
  shows "seg_off y \<ge> e \<Longrightarrow> {pos..<e} - cov (xs @ y # ys) = {pos..<e}"
    and "seg_off y < e \<Longrightarrow> {pos..<e} - cov (xs @ y # ys) = {pos..<seg_off y} \<union> ({seg_end y..<e} - cov ((xs @ [y]) @ ys))"
    and "pos \<in> cov (xs @ y # ys) \<longleftrightarrow> seg_off y \<le> pos"
proof -
  note c = walk_ok_cov(1) [OF assms(1)] walk_ok_cov(2,3) [OF assms(1)]
  show "{pos..<e} - cov (xs @ y # ys) = {pos..<e}" if "seg_off y \<ge> e"
    using that c by (fastforce simp: seg_cov_def)
  show "{pos..<e} - cov (xs @ y # ys) = {pos..<seg_off y} \<union> ({seg_end y..<e} - cov ((xs @ [y]) @ ys))" if "seg_off y < e"
    using that c by (fastforce simp: seg_cov_def)
  show "pos \<in> cov (xs @ y # ys) \<longleftrightarrow> seg_off y \<le> pos"
    using c by (fastforce simp: seg_cov_def)
qed

lemma oooNewBytesLoop_step:
  assumes "pos < e"
  shows "ooo_at l p = None \<Longrightarrow> oooNewBytesLoop l first off e p pos nb op
      = Some (nb + (e - pos), if pos = off then opensAt l first off else op)"
    and "ooo_at l p = Some y \<Longrightarrow> seg_off y \<ge> e \<Longrightarrow> oooNewBytesLoop l first off e p pos nb op
      = Some (nb + (e - pos), if pos = off then opensAt l first off else op)"
    and "ooo_at l p = Some y \<Longrightarrow> seg_off y < e \<Longrightarrow> oooNewBytesLoop l first off e p pos nb op
      = oooNewBytesLoop l first off e (ooo_next l p) (seg_end y) (nb + (seg_off y - pos))
          (if pos < seg_off y \<and> pos = off then opensAt l first off else op)"
  using assms by (subst oooNewBytesLoop.simps; simp add: gapEndOf_def Let_def)+

lemma oooNewBytesLoop_spec:
  assumes "at_pos l p xs ys" and "walk_ok pos xs ys" and "off \<le> pos"
  shows "oooNewBytesLoop l first off e p pos nb op = Some (nb + card ({pos..<e} - cov (flat l)),
    if pos = off \<and> off < e \<and> off \<notin> cov (flat l) then opensAt l first off else op)"
  using assms
proof (induction ys arbitrary: xs p pos nb op)
  case Nil
  then have "flat l = xs @ []" by (simp add: at_pos_def)
  moreover have "oooNewBytesLoop l first off e p pos nb op = Some (nb, op)" if "\<not> pos < e"
    using that by (subst oooNewBytesLoop.simps) simp
  ultimately show ?case using walk_ok_Nil [OF Nil(2), of e] at_pos_at [OF Nil(1)]
    by (cases "pos < e") (auto simp: oooNewBytesLoop_step(1))
next
  case (Cons y ys)
  have fl: "flat l = xs @ y # ys" using Cons.prems(1) by (simp add: at_pos_def)
  have at: "ooo_at l p = Some y" using at_pos_at [OF Cons.prems(1)] by simp
  have y: "seg_off y < seg_end y" "pos < seg_end y" using walk_ok_cov(3) [OF Cons.prems(2)] by auto
  note IH = Cons.IH [OF at_pos_next [OF Cons.prems(1)] walk_ok_next [OF Cons.prems(2)]]
  consider (past) "\<not> pos < e" | (far) "pos < e" "seg_off y \<ge> e" | (near) "pos < e" "seg_off y < e" by linarith
  then show ?case
  proof cases
    case past
    then show ?thesis using Cons.prems(3) by (subst oooNewBytesLoop.simps) auto
  next
    case far
    note wc = walk_ok_Cons [OF Cons.prems(2) far(1)]
    with far at fl show ?thesis by (auto simp: oooNewBytesLoop_step(2))
  next
    case near
    note wc = walk_ok_Cons [OF Cons.prems(2) near(1)]
    have "card ({pos..<e} - cov (flat l)) = (seg_off y - pos) + card ({seg_end y..<e} - cov (flat l))"
      unfolding fl wc(2) [OF near(2)] using y(1) by (subst card_Un_disjoint) auto
    moreover have "oooNewBytesLoop l first off e (ooo_next l p) (seg_end y) nb' op'
        = Some (nb' + card ({seg_end y..<e} - cov (flat l)), op')" for nb' op'
      using IH [of nb' op'] Cons.prems(3) y(2) by simp
    moreover have "pos \<notin> cov (flat l) \<longleftrightarrow> pos < seg_off y" unfolding fl wc(3) by (simp add: not_le)
    ultimately show ?thesis
      using near by (cases "pos = off") (auto simp: oooNewBytesLoop_step(3) [OF _ at])
  qed
qed

definition seg_match :: "(nat \<Rightarrow> byte) \<Rightarrow> quicOOOSegment \<Rightarrow> bool" where
  "seg_match content sg \<longleftrightarrow> seg_data sg = map content [seg_off sg..<seg_end sg]"

text \<open>A property of segments that both ways of filling a gap establish for the segment they write.\<close>

definition gap_written :: "(nat \<Rightarrow> byte) \<Rightarrow> nat \<Rightarrow> quicOOOSegment list \<Rightarrow> quicOOOSegment list \<Rightarrow> bool" where
  "gap_written content r xs xs' \<longleftrightarrow>
     (list_all (seg_match content) xs \<longrightarrow> list_all (seg_match content) xs') \<and> (list_all (\<lambda>sg. r < seg_off sg) xs \<longrightarrow> list_all (\<lambda>sg. r < seg_off sg) xs')"

lemma upt_split: "i \<le> j \<Longrightarrow> j \<le> k \<Longrightarrow> [i..<k] = [i..<j] @ [j..<k]"
  using upt_add_eq_append [of i j "k - j"] by simp

lemma piece_match:
  assumes "data = map content [off..<off + length data]" and "off \<le> pos" and "g \<le> off + length data" and "pos \<le> g"
  shows "take (g - pos) (drop (pos - off) data) = map content [pos..<g]"
proof -
  have "take (g - pos) (drop (pos - off) (map content [off..<off + length data])) = map content [pos..<g]"
    using assms(2-4) by (simp add: drop_map take_map)
  with assms(1) show ?thesis by simp
qed

lemma gapEnd_bounds:
  assumes "walk_ok pos xs ys" and "g = gapEndOf (case ys of [] \<Rightarrow> None | y # _ \<Rightarrow> Some y) e"
  shows "g \<le> e" and "list_all (\<lambda>sg. g \<le> seg_off sg) ys"
proof -
  show "g \<le> e" by (simp add: assms(2) gapEndOf_def split: list.splits)
  show "list_all (\<lambda>sg. g \<le> seg_off sg) ys"
  proof (cases ys)
    case (Cons y zs)
    with assms have "g \<le> seg_off y" "seg_off y < seg_end y" "list_all (\<lambda>sg. seg_end y \<le> seg_off sg) zs"
      by (auto simp: gapEndOf_def walk_ok_def seg_off_less_end)
    with Cons show ?thesis by (auto simp: list_all_iff)
  qed simp
qed

lemma fillGap_spec:
  assumes at: "at_pos l p xs ys" and w: "walk_ok pos xs ys" and pr: "prev_ok l prev p xs ys"
    and g: "g = gapEndOf (ooo_at l p) e" and e: "e = off + length data" "off \<le> pos" "pos < e"
    and data: "data = map content [off..<e]" and r: "r < pos"
    and run: "fillGap data off l p pos g prev = (l', p')"
  shows "\<exists>xs'. at_pos l' p' xs' ys \<and> segs_wf (xs' @ ys) \<and> list_all (\<lambda>sg. seg_end sg \<le> max pos g) xs'
    \<and> cov xs' = cov xs \<union> {pos..<g} \<and> gap_written content r xs xs'
    \<and> length xs' = (if pos < g \<and> \<not> (xs \<noteq> [] \<and> seg_end (last xs) = pos) then Suc (length xs) else length xs)"
proof (cases "pos < g")
  case False
  with run at w show ?thesis by (intro exI [of _ xs]) (auto simp: fillGap_def walk_ok_def gap_written_def list_all_iff)
next
  case True
  have gb: "g \<le> e" "list_all (\<lambda>sg. g \<le> seg_off sg) ys"
    using gapEnd_bounds [OF w] g at_pos_at [OF at] by simp_all
  define piece where "piece = take (g - pos) (drop (pos - off) data)"
  have d: "data = map content [off..<off + length data]" using data unfolding e(1) .
  have pm: "piece = map content [pos..<g]"
    unfolding piece_def by (rule piece_match [OF d e(2)]) (use gb(1) e(1) True in simp_all)
  then have pl: "length piece = g - pos" by simp
  show ?thesis
  proof (cases "xs \<noteq> [] \<and> seg_end (last xs) = pos")
    case ext: True
    then obtain q where q: "prev = Some q" "at_pos l q (butlast xs) (last xs # ys)"
      using pr by (auto simp: prev_ok_def split: option.splits)
    define sg where "sg = last xs"
    define sg' where "sg' = sg\<lparr>seg_data := seg_data sg @ piece\<rparr>"
    have xs: "xs = butlast xs @ [sg]" using ext by (simp add: sg_def)
    have "ooo_at l q = Some sg" using at_pos_at [OF q(2)] by (simp add: sg_def)
    with run True ext q(1) have l': "l' = ooo_set l q sg'" "p' = p"
      by (auto simp: fillGap_def Let_def sg_def [symmetric] sg'_def piece_def)
    have at': "at_pos l' p' (butlast xs @ [sg']) ys"
      unfolding l' by (rule at_pos_set(1) [OF q(2)]) (use at xs sg_def in simp)
    have sg': "seg_off sg' = seg_off sg" "seg_end sg' = g" "seg_end sg = pos" "seg_off sg \<le> pos"
      using ext True pl by (auto simp: sg'_def sg_def seg_end_def)
    have wf: "segs_wf (butlast xs @ [sg])" "segs_wf ys" "list_all (\<lambda>a. list_all (\<lambda>b. seg_end a \<le> seg_off b) ys) (butlast xs)"
      "list_all (\<lambda>a. seg_end a \<le> pos) (butlast xs)" "seg_data sg' \<noteq> []"
      using w True pl by (subst (asm) xs; auto simp: walk_ok_def list_all_iff sg'_def)+
    have m: "seg_match content sg'" if "seg_match content sg"
      using that True sg' pm by (simp add: seg_match_def sg'_def upt_split [of "seg_off sg" pos g])
    have "cov (butlast xs @ [sg']) = cov (butlast xs @ [sg]) \<union> {pos..<g}" using sg' True by (auto simp: seg_cov_def)
    moreover have "segs_wf ((butlast xs @ [sg']) @ ys)" using wf sg' gb(2) by (auto simp: list_all_iff)
    moreover have "list_all (\<lambda>sg. seg_end sg \<le> max pos g) (butlast xs @ [sg'])"
      using wf(4) sg' True by (auto simp: list_all_iff)
    moreover have "gap_written content r (butlast xs @ [sg]) (butlast xs @ [sg'])"
      using m sg' by (simp add: gap_written_def)
    ultimately show ?thesis
      using at' ext xs by (intro exI [of _ "butlast xs @ [sg']"]) auto
  next
    case ins: False
    define sg where "sg = \<lparr>seg_off = pos, seg_data = piece\<rparr>"
    have "(case prev of None \<Rightarrow> None | Some q \<Rightarrow> (case ooo_at l q of None \<Rightarrow> None
        | Some sg \<Rightarrow> if seg_end sg = pos then Some (q, sg) else None)) = None"
    proof (cases prev)
      case (Some q)
      with pr have "xs \<noteq> []" "at_pos l q (butlast xs) (last xs # ys)" by (auto simp: prev_ok_def)
      with Some ins at_pos_at [OF this(2)] show ?thesis by auto
    qed simp
    moreover obtain l1 p1 where i: "ooo_insert l p sg = (l1, p1)" by fastforce
    ultimately have l': "l' = l1" "p' = ooo_next l1 p1"
      using run True by (auto simp: fillGap_def Let_def sg_def piece_def)
    have at': "at_pos l' p' (xs @ [sg]) ys" unfolding l' by (rule at_pos_insert [OF at i])
    have sg: "seg_off sg = pos" "seg_end sg = g" "seg_data sg \<noteq> []" "seg_match content sg"
      using True pl pm by (auto simp: sg_def seg_end_def seg_match_def)
    have "segs_wf ((xs @ [sg]) @ ys)" using w sg gb(2) by (auto simp: walk_ok_def list_all_iff)
    moreover have "cov (xs @ [sg]) = cov xs \<union> {pos..<g}" using sg by (simp add: seg_cov_def)
    moreover have "list_all (\<lambda>sg. seg_end sg \<le> max pos g) (xs @ [sg])"
      using w sg by (auto simp: walk_ok_def list_all_iff)
    moreover have "gap_written content r xs (xs @ [sg])" using sg r by (simp add: gap_written_def)
    ultimately show ?thesis using at' True ins by (intro exI [of _ "xs @ [sg]"]) auto
  qed
qed

definition adjacent :: "quicOOOSegment list \<Rightarrow> nat \<Rightarrow> bool" where
  "adjacent xs pos \<longleftrightarrow> xs \<noteq> [] \<and> seg_end (last xs) = pos"

lemma walk_ok_filled:
  assumes "segs_wf (xs' @ y # ys)" and "list_all (\<lambda>sg. seg_end sg \<le> max pos g) xs'" and "walk_ok pos xs (y # ys)" and "g \<le> seg_off y"
  shows "walk_ok (seg_end y) (xs' @ [y]) ys"
proof -
  have "max pos g \<le> seg_end y" using walk_ok_cov(3) [OF assms(3)] assms(4) by simp
  then have "list_all (\<lambda>sg. seg_end sg \<le> seg_end y) xs'" using assms(2) by (auto simp: list_all_iff)
  with walk_ok_next [OF assms(3)] assms(1) show ?thesis by (simp add: walk_ok_def)
qed

lemma insertOOOLoop_spec:
  assumes "at_pos l p xs ys" and "walk_ok pos xs ys" and "prev_ok l prev p xs ys" and "off \<le> pos" and "r < off"
    and e: "e = off + length data" and data: "data = map content [off..<e]"
  shows "\<exists>l'. insertOOOLoop data off e l p pos prev = Some l' \<and> ooo_inv l' \<and> segs_wf (flat l')
    \<and> cov (flat l') = cov (flat l) \<union> {pos..<e} \<and> gap_written content r (flat l) (flat l')
    \<and> length (flat l') = length (flat l) + (if pos < e \<and> pos < gapEndOf (ooo_at l p) e \<and> \<not> adjacent xs pos then 1 else 0)"
  using assms(1-4)
proof (induction ys arbitrary: l p xs pos prev)
  case Nil
  note at = at_pos_at [OF Nil(1)]
  have fl: "flat l = xs" "ooo_inv l" "segs_wf xs" using Nil(1,2) by (auto simp: at_pos_def walk_ok_def)
  show ?case
  proof (cases "pos < e")
    case True
    have g: "e = gapEndOf (ooo_at l p) e" using at by (simp add: gapEndOf_def)
    obtain l' p' where f: "fillGap data off l p pos e prev = (l', p')" by fastforce
    have rp: "r < pos" using Nil(4) assms(5) by simp
    from fillGap_spec [OF Nil(1-3) g e Nil(4) True data rp f] obtain xs' where
      x: "at_pos l' p' xs' []" "segs_wf xs'" "cov xs' = cov xs \<union> {pos..<e}" "gap_written content r xs xs'"
      "length xs' = (if pos < e \<and> \<not> adjacent xs pos then Suc (length xs) else length xs)"
      by (auto simp: adjacent_def)
    have "insertOOOLoop data off e l p pos prev = Some l'"
      using True f at_pos_at [OF x(1)] by (subst insertOOOLoop.simps) (simp flip: g)
    with x fl True g show ?thesis by (auto simp: at_pos_def)
  next
    case False
    with fl show ?thesis by (subst insertOOOLoop.simps) (simp add: gap_written_def)
  qed
next
  case (Cons y ys)
  note at = at_pos_at [OF Cons.prems(1)]
  have fl: "flat l = xs @ y # ys" "ooo_inv l" "segs_wf (xs @ y # ys)" using Cons.prems(1,2) by (auto simp: at_pos_def walk_ok_def)
  show ?case
  proof (cases "pos < e")
    case True
    define g where "g = gapEndOf (ooo_at l p) e"
    obtain l' p' where f: "fillGap data off l p pos g prev = (l', p')" by fastforce
    have rp: "r < pos" using Cons.prems(4) assms(5) by simp
    from fillGap_spec [OF Cons.prems(1-3) g_def e Cons.prems(4) True data rp f] obtain xs' where
      at': "at_pos l' p' xs' (y # ys)" and wf: "segs_wf (xs' @ y # ys)" and le: "list_all (\<lambda>sg. seg_end sg \<le> max pos g) xs'"
      and cv: "cov xs' = cov xs \<union> {pos..<g}" and gw: "gap_written content r xs xs'"
      and len: "length xs' = (if pos < g \<and> \<not> adjacent xs pos then Suc (length xs) else length xs)"
      by (auto simp: adjacent_def)
    have gw': "gap_written content r (flat l) (flat l')" and fl': "flat l' = xs' @ y # ys" and inv': "ooo_inv l'"
      using gw at' fl by (auto simp: gap_written_def at_pos_def)
    have aty: "ooo_at l' p' = Some y" using at_pos_at [OF at'] by simp
    show ?thesis
    proof (cases "seg_off y < e")
      case lt: True
      then have g: "g = seg_off y" using at by (simp add: g_def gapEndOf_def)
      have y: "seg_off y < seg_end y" "pos < seg_end y" using walk_ok_cov(3) [OF Cons.prems(2)] by auto
      obtain l'' where IH: "insertOOOLoop data off e l' (ooo_next l' p') (seg_end y) (Some p') = Some l''"
        "ooo_inv l''" "segs_wf (flat l'')" "cov (flat l'') = cov (flat l') \<union> {seg_end y..<e}"
        "gap_written content r (flat l') (flat l'')" "length (flat l'') = length (flat l')"
        using Cons.IH [OF at_pos_next [OF at'] walk_ok_filled [OF wf le Cons.prems(2)] prev_ok_next [OF at']] Cons.prems(4) y g
        by (auto simp: adjacent_def)
      have "cov (flat l'') = cov (flat l) \<union> {pos..<e}"
        unfolding IH(4) fl' fl using y lt True by (auto simp: cv g seg_cov_def)
      moreover have "gap_written content r (flat l) (flat l'')" using gw' IH(5) by (simp add: gap_written_def)
      ultimately show ?thesis
        using True f aty lt IH(1-3,6) len fl fl' g by (subst insertOOOLoop.simps) (auto simp: g_def [symmetric])
    next
      case False
      then have g: "g = e" using at by (simp add: g_def gapEndOf_def)
      have "cov (flat l') = cov (flat l) \<union> {pos..<e}" by (auto simp: fl fl' cv g)
      with True f aty False wf len fl fl' gw' inv' g show ?thesis
        by (subst insertOOOLoop.simps) (auto simp: g_def [symmetric])
    qed
  next
    case False
    with fl show ?thesis by (subst insertOOOLoop.simps) (simp add: gap_written_def)
  qed
qed

end
