(* ===== verification/Quic_Reassembly.thy ===== *)
theory Quic_Reassembly
  imports Quic_Stream
begin

text \<open>
  Correctness of the receive side of streams, and of the send buffer that feeds it.  The theory
  proves one invariant for every history of a stream: the buffer holds exactly the contiguous
  prefix of the peer's data, the segments behind it are disjoint, in order and hold the peer's
  bytes, the byte counts and the reservations against the server's budget are exact, and flow
  control and the final size are respected.
\<close>

subsection \<open>The receive invariant\<close>

lemma stream_reserve_eq:
  "stream_reserve s env n = ((s', env'), ok) \<Longrightarrow>
   s' = s\<lparr>recvAccounted := recvAccounted s + (if ok then int n else 0)\<rparr>"
  by (auto simp: stream_reserve_def Let_def split: if_splits prod.splits)

lemma reserveSegmentOverhead_eq:
  "reserveSegmentOverhead s env = ((s', env'), ok) \<Longrightarrow>
   s' = s\<lparr>recvAccounted := recvAccounted s + (if ok then 64 else 0)\<rparr>"
  by (auto simp: reserveSegmentOverhead_def Let_def quicOOOSegmentOverhead_def split: if_splits prod.splits)

lemma releaseReserved_eq:
  "0 \<le> recvAccounted s \<Longrightarrow> releaseReserved s env n = (s', env') \<Longrightarrow>
   s' = s\<lparr>recvAccounted := max 0 (recvAccounted s - int n)\<rparr>"
  by (auto simp: releaseReserved_def Let_def max_def split: if_splits prod.splits)

text \<open>
  \<open>content\<close> is the peer's data: the byte at each offset.  \<open>base\<close> is the number of bytes that the
  reader has taken out of the buffer so far.
\<close>

abbreviation segs :: "quicStream \<Rightarrow> quicOOOSegment list" where
  "segs s \<equiv> flat (recvOOO s)"

definition ooo_ok :: "(nat \<Rightarrow> byte) \<Rightarrow> quicStream \<Rightarrow> bool" where
  "ooo_ok content s \<longleftrightarrow> ooo_inv (recvOOO s) \<and> segs_wf (segs s) \<and> list_all (seg_match content) (segs s)
     \<and> oooBytes s = card (cov (segs s))"

definition acct_ok :: "quicStream \<Rightarrow> bool" where
  "acct_ok s \<longleftrightarrow> recvAccounted s = int (length (recvBuf s) + oooBytes s + 64 * length (segs s))"

definition recv_inv :: "(nat \<Rightarrow> byte) \<Rightarrow> nat \<Rightarrow> quicStream \<Rightarrow> bool" where
  "recv_inv content base s \<longleftrightarrow> ooo_ok content s \<and> list_all (\<lambda>sg. recvOff s < seg_off sg) (segs s)
     \<and> base \<le> recvOff s \<and> recvBuf s = map content [base..<recvOff s]
     \<and> recvOff s \<le> recvMax s \<and> cov (segs s) \<subseteq> {..<recvMax s}
     \<and> length (segs s) \<le> oooSegmentCap s \<and> acct_ok s"

definition received :: "quicStream \<Rightarrow> nat set" where
  "received s = {..<recvOff s} \<union> cov (segs s)"

lemma firstEndingAfter_walk:
  fixes off :: nat
  assumes "ooo_inv l" and "segs_wf (flat l)"
  defines "xs \<equiv> take (pos_index l (firstEndingAfter l off)) (flat l)"
    and "ys \<equiv> drop (pos_index l (firstEndingAfter l off)) (flat l)"
  shows "at_pos l (firstEndingAfter l off) xs ys" and "walk_ok off xs ys"
proof -
  note f = firstEndingAfter_flat [OF assms(1) segs_wf_ends [OF assms(2)], of off]
  let ?i = "pos_index l (firstEndingAfter l off)"
  have le: "?i \<le> length (flat l)" using pos_index_le [OF f(1)] .
  show "at_pos l (firstEndingAfter l off) xs ys" using assms(1) f(1) le by (simp add: at_pos_def xs_def ys_def)
  have "seg_end sg \<le> off" if "sg \<in> set xs" for sg
    using that f(2) le by (auto simp: xs_def in_set_conv_nth)
  moreover have "off < seg_end sg" if sg: "sg \<in> set ys" for sg
  proof -
    obtain j where "j < length ys" "ys ! j = sg" using sg by (auto simp: in_set_conv_nth)
    then have j: "sg = flat l ! (?i + j)" "?i + j < length (flat l)" using le by (auto simp: ys_def)
    then have "off < seg_end (flat l ! ?i)" using f(3) by simp
    also have "\<dots> \<le> seg_end sg" using ends_sorted_nth [OF segs_wf_ends [OF assms(2)], of ?i "?i + j"] j by simp
    finally show ?thesis .
  qed
  ultimately show "walk_ok off xs ys" using assms(2) by (simp add: walk_ok_def list_all_iff xs_def ys_def del: segs_wf_simps)
qed

lemma opensAt_adjacent:
  assumes "at_pos l first xs ys"
  shows "opensAt l first off \<longleftrightarrow> \<not> adjacent xs off"
proof (cases "ooo_before l first")
  case None
  with prev_ok_before [OF assms] show ?thesis by (simp add: opensAt_def prev_ok_def adjacent_def)
next
  case (Some q)
  with prev_ok_before [OF assms] have "xs \<noteq> []" "at_pos l q (butlast xs) (last xs # ys)" by (auto simp: prev_ok_def)
  with Some at_pos_at [OF this(2)] show ?thesis by (simp add: opensAt_def adjacent_def)
qed

text \<open>What a successful insertion does to the list of segments.\<close>

lemma insertOOO_list:
  assumes inv: "ooo_inv l" and wf: "segs_wf (flat l)" and "r < off"
    and data: "data = map content [off..<off + length data]" "data \<noteq> []"
  defines "first \<equiv> firstEndingAfter l off" and "e \<equiv> off + length data"
  defines "opens \<equiv> off \<notin> cov (flat l) \<and> opensAt l first off"
  shows "oooNewBytes l first off e = Some (card ({off..<e} - cov (flat l)), opens)"
    and "\<exists>l'. insertOOOLoop data off e l first off (ooo_before l first) = Some l' \<and> ooo_inv l' \<and> segs_wf (flat l')
      \<and> cov (flat l') = cov (flat l) \<union> {off..<e} \<and> gap_written content r (flat l) (flat l')
      \<and> length (flat l') = length (flat l) + (if opens then 1 else 0)"
proof -
  let ?i = "pos_index l first"
  note at = firstEndingAfter_walk(1) [OF inv wf, of off, folded first_def]
  note w = firstEndingAfter_walk(2) [OF inv wf, of off, folded first_def]
  have fl: "flat l = take ?i (flat l) @ drop ?i (flat l)" by simp
  have lt: "off < e" using data(2) by (simp add: e_def)
  show "oooNewBytes l first off e = Some (card ({off..<e} - cov (flat l)), opens)"
    using oooNewBytesLoop_spec [OF at w order_refl] lt by (simp add: oooNewBytes_def opens_def)
  have "off < gapEndOf (ooo_at l first) e \<longleftrightarrow> off \<notin> cov (flat l)"
  proof (cases "drop ?i (flat l)")
    case Nil
    with walk_ok_Nil [of off "take ?i (flat l)"] w fl at_pos_at [OF at] lt show ?thesis by (simp add: gapEndOf_def)
  next
    case (Cons y ys)
    have "off \<in> cov (flat l) \<longleftrightarrow> seg_off y \<le> off"
      using walk_ok_Cons(3) [OF w [unfolded Cons] lt] fl unfolding Cons by simp
    with Cons at_pos_at [OF at] lt show ?thesis by (auto simp: gapEndOf_def)
  qed
  then have op: "(off < e \<and> off < gapEndOf (ooo_at l first) e \<and> \<not> adjacent (take ?i (flat l)) off) \<longleftrightarrow> opens"
    using lt opensAt_adjacent [OF at] by (simp add: opens_def)
  have ee: "e = off + length data" by (simp add: e_def)
  have dd: "data = map content [off..<e]" using data(1) unfolding ee .
  show "\<exists>l'. insertOOOLoop data off e l first off (ooo_before l first) = Some l' \<and> ooo_inv l' \<and> segs_wf (flat l')
      \<and> cov (flat l') = cov (flat l) \<union> {off..<e} \<and> gap_written content r (flat l) (flat l')
      \<and> length (flat l') = length (flat l) + (if opens then 1 else 0)"
    using insertOOOLoop_spec [OF at w prev_ok_before [OF at] order_refl assms(3) ee dd] unfolding op .
qed

definition ooo_stored :: "(nat \<Rightarrow> byte) \<Rightarrow> quicStream \<Rightarrow> nat set \<Rightarrow> quicStream \<Rightarrow> bool" where
  "ooo_stored content s new s' \<longleftrightarrow> ooo_ok content s' \<and> list_all (\<lambda>sg. recvOff s < seg_off sg) (segs s')
     \<and> cov (segs s') = cov (segs s) \<union> new \<and> length (segs s') \<le> oooSegmentCap s \<and> acct_ok s'
     \<and> s' = s\<lparr>recvOOO := recvOOO s', oooBytes := oooBytes s', recvAccounted := recvAccounted s'\<rparr>"

lemma card_new_zero: "card ({a..<b :: nat} - C) = 0 \<longleftrightarrow> {a..<b} \<subseteq> C"
  by auto

lemma ooo_stored_insert:
  assumes ok: "ooo_ok content s" and fwd: "list_all (\<lambda>sg. recvOff s < seg_off sg) (segs s)" and ac: "acct_ok s"
    and l': "ooo_inv l'" "segs_wf (flat l')" "cov (flat l') = cov (segs s) \<union> new" "gap_written content (recvOff s) (segs s) (flat l')"
      "length (flat l') = length (segs s) + (if opens then 1 else 0)"
    and cap: "length (flat l') \<le> oooSegmentCap s" and fin: "finite new"
  shows "ooo_stored content s new
    (s\<lparr>recvAccounted := recvAccounted s + int (card (new - cov (segs s))) + (if opens then 64 else 0),
       recvOOO := l', oooBytes := oooBytes s + card (new - cov (segs s))\<rparr>)"
proof -
  have "card (cov (segs s) \<union> new) = card (cov (segs s)) + card (new - cov (segs s))"
    using fin card_Un_disjoint [of "cov (segs s)" "new - cov (segs s)"] by simp
  with assms show ?thesis
    by (auto simp: ooo_stored_def ooo_ok_def gap_written_def acct_ok_def)
qed

lemma insertOOO_spec:
  assumes ok: "ooo_ok content s" and fwd: "list_all (\<lambda>sg. recvOff s < seg_off sg) (segs s)" and ac: "acct_ok s"
    and cap: "length (segs s) \<le> oooSegmentCap s" and off: "recvOff s < off"
    and data: "data = map content [off..<off + length data]" "data \<noteq> []"
  shows "\<exists>s' env' n res. insertOOO s env off data = Some ((s', env'), n, res)
    \<and> (if res = QuicOOOStored then ooo_stored content s {off..<off + length data} s'
          \<and> n = card ({off..<off + length data} - cov (segs s)) else s' = s)"
proof -
  define e where "e = off + length data"
  define first where "first = firstEndingAfter (recvOOO s) off"
  define opens where "opens = (off \<notin> cov (segs s) \<and> opensAt (recvOOO s) first off)"
  define nb where "nb = card ({off..<e} - cov (segs s))"
  have inv: "ooo_inv (recvOOO s)" "segs_wf (segs s)" using ok by (auto simp: ooo_ok_def)
  note il = insertOOO_list [OF inv off data, folded e_def first_def, folded opens_def]
  have nbs: "oooNewBytes (recvOOO s) first off e = Some (nb, opens)" using il(1) by (simp add: nb_def)
  from il(2) obtain l' where loop: "insertOOOLoop data off e (recvOOO s) first off (ooo_before (recvOOO s) first) = Some l'"
    and l': "ooo_inv l'" "segs_wf (flat l')" "cov (flat l') = cov (segs s) \<union> {off..<e}" "gap_written content (recvOff s) (segs s) (flat l')"
      "length (flat l') = length (segs s) + (if opens then 1 else 0)" by blast
  note run = insertOOO_def [of s env off data, unfolded Let_def, folded e_def first_def, unfolded nbs, simplified]
  have len: "ooo_len (recvOOO s) = length (segs s)" and acc: "0 \<le> recvAccounted s"
    using inv(1) ac by (simp_all add: ooo_len_def ooo_inv_def acct_ok_def)
  let ?R = "\<lambda>s' n res. if res = QuicOOOStored then ooo_stored content s {off..<e} s' \<and> n = nb else s' = s"
  have "\<exists>s' env' n res. insertOOO s env off data = Some ((s', env'), n, res) \<and> ?R s' n res"
  proof (cases "nb = 0 \<or> opens \<and> ooo_len (recvOOO s) \<ge> oooSegmentCap s")
    case True
    have "cov (segs s) \<union> {off..<e} = cov (segs s)" if "nb = 0"
      using that card_new_zero [of off e "cov (segs s)"] by (auto simp: nb_def)
    with True ok fwd ac cap show ?thesis by (auto simp: run ooo_stored_def)
  next
    case False
    obtain s1 env1 ok1 where r1: "stream_reserve s env nb = ((s1, env1), ok1)" by (metis surj_pair)
    note s1 = stream_reserve_eq [OF r1]
    show ?thesis
    proof (cases ok1)
      case True
      obtain s2 env2 ok2 where r2: "(if opens then reserveSegmentOverhead s1 env1 else ((s1, env1), True)) = ((s2, env2), ok2)"
        by (metis surj_pair)
      have s2: "s2 = s\<lparr>recvAccounted := recvAccounted s + int nb + (if ok2 \<and> opens then 64 else 0)\<rparr>"
        using r2 reserveSegmentOverhead_eq [of s1 env1 s2 env2 ok2] s1 True by (auto split: if_splits)
      show ?thesis
      proof (cases ok2)
        case ok2: True
        have "length (flat l') \<le> oooSegmentCap s" using False cap l'(5) len by auto
        from ooo_stored_insert [OF ok fwd ac l' this] r1 r2 True ok2 False s2 loop show ?thesis
          by (cases opens) (simp_all add: run nb_def)
      next
        case no: False
        obtain s3 env3 where r3: "releaseReserved s2 env2 nb = (s3, env3)" by fastforce
        have "s3 = s" using releaseReserved_eq [OF _ r3] s2 acc no by simp
        with r1 r2 r3 True no False show ?thesis by (simp add: run)
      qed
    next
      case no: False
      with r1 s1 False show ?thesis by (simp add: run)
    qed
  qed
  then show ?thesis unfolding e_def nb_def .
qed

text \<open>The state in the middle of \<open>coalesceOOO\<close>, with the segments \<open>ys\<close> still to visit.\<close>

definition mid_ok :: "(nat \<Rightarrow> byte) \<Rightarrow> nat \<Rightarrow> quicStream \<Rightarrow> quicOOOSegment list \<Rightarrow> bool" where
  "mid_ok content base s ys \<longleftrightarrow> base \<le> recvOff s \<and> recvBuf s = map content [base..<recvOff s] \<and> segs_wf ys
     \<and> list_all (seg_match content) ys \<and> oooBytes s = card (cov ys)
     \<and> recvAccounted s = int (length (recvBuf s) + oooBytes s + 64 * length ys)"

lemma takeSegment_accounted:
  assumes "length (seg_data seg) \<le> oooBytes s" and "seg_off seg \<le> recvOff s" and "seg_data seg \<noteq> []"
    and "recvAccounted s = int (length (recvBuf s) + oooBytes s + 64 * Suc n)"
  shows "\<exists>env' buf. takeSegment s env seg = (s\<lparr>recvBuf := buf, recvOff := max (recvOff s) (seg_end seg),
      oooBytes := oooBytes s - length (seg_data seg), recvAccounted := int (length buf + (oooBytes s - length (seg_data seg)) + 64 * n)\<rparr>, env')
    \<and> buf = recvBuf s @ drop (recvOff s - seg_off seg) (if seg_end seg \<le> recvOff s then [] else seg_data seg)"
proof -
  define s0 where "s0 = s\<lparr>oooBytes := oooBytes s - length (seg_data seg)\<rparr>"
  obtain s1 env1 where r1: "releaseReserved s0 env quicOOOSegmentOverhead = (s1, env1)" by fastforce
  have s1: "s1 = s0\<lparr>recvAccounted := recvAccounted s - 64\<rparr>"
    using releaseReserved_eq [OF _ r1] assms(4) by (simp add: s0_def quicOOOSegmentOverhead_def)
  obtain s2 env2 where r2: "releaseReserved s1 env1 (if seg_end seg \<le> recvOff s then length (seg_data seg) else recvOff s - seg_off seg) = (s2, env2)"
    by fastforce
  have le: "(if seg_end seg \<le> recvOff s then length (seg_data seg) else recvOff s - seg_off seg) \<le> length (seg_data seg)"
    using assms(2) by (auto simp: seg_end_def)
  have s2: "s2 = s1\<lparr>recvAccounted := recvAccounted s1 - int (if seg_end seg \<le> recvOff s then length (seg_data seg) else recvOff s - seg_off seg)\<rparr>"
    using releaseReserved_eq [OF _ r2] assms(1,4) le s1 by (auto simp: s0_def)
  show ?thesis
  proof (cases "seg_end seg \<le> recvOff s")
    case True
    with r1 r2 s1 s2 assms show ?thesis
      by (auto simp: takeSegment_def Let_def s0_def [symmetric]) (simp add: s0_def)
  next
    case False
    have off: "recvOff s1 = recvOff s" "recvOff s0 = recvOff s" by (simp_all add: s1 s0_def)
    have run: "takeSegment s env seg = (s2\<lparr>recvBuf := recvBuf s2 @ drop (recvOff s - seg_off seg) (seg_data seg), recvOff := seg_end seg\<rparr>, env2)"
      using r1 r2 False by (simp add: takeSegment_def Let_def s0_def [symmetric] off)
    have "recvAccounted s2 = int (length (recvBuf s @ drop (recvOff s - seg_off seg) (seg_data seg))
        + (oooBytes s - length (seg_data seg)) + 64 * n)"
      using False assms by (simp add: s2 s1 s0_def seg_end_def)
    then show ?thesis unfolding run using False by (cases s) (auto simp: s2 s1 s0_def max_def)
  qed
qed

lemma coalesceLoop_spec:
  assumes "at_pos (recvOOO s) p xs ys" and "mid_ok content base s ys"
  shows "\<exists>s' env' k. coalesceLoop s env p (length xs) = ((s', env'), length xs + k) \<and> k \<le> length ys
    \<and> mid_ok content base s' (drop k ys) \<and> list_all (\<lambda>sg. recvOff s' < seg_off sg) (drop k ys)
    \<and> {..<recvOff s'} \<union> cov (drop k ys) = {..<recvOff s} \<union> cov ys \<and> recvOff s \<le> recvOff s'
    \<and> s' = s\<lparr>recvBuf := recvBuf s', recvOff := recvOff s', oooBytes := oooBytes s', recvAccounted := recvAccounted s'\<rparr>"
  using assms
proof (induction ys arbitrary: s env p xs)
  case Nil
  have "ooo_len (recvOOO s) = length xs" using Nil(1) by (simp add: at_pos_def ooo_len_def ooo_inv_def)
  with Nil(2) show ?case by (subst coalesceLoop.simps) auto
next
  case (Cons y ys)
  have len: "length xs < ooo_len (recvOOO s)" using Cons.prems(1) by (simp add: at_pos_def ooo_len_def ooo_inv_def)
  have aty: "ooo_at (recvOOO s) p = Some y" using at_pos_at [OF Cons.prems(1)] by simp
  have wf: "segs_wf (y # ys)" and bytes: "oooBytes s = card (cov (y # ys))" using Cons.prems(2) by (auto simp: mid_ok_def)
  have y: "seg_off y < seg_end y" and ys: "list_all (\<lambda>sg. seg_end y \<le> seg_off sg) ys"
    using wf by (auto simp: seg_off_less_end)
  show ?case
  proof (cases "seg_off y > recvOff s")
    case True
    have "list_all (\<lambda>sg. recvOff s < seg_off sg) (y # ys)" using True y ys by (auto simp: list_all_iff)
    then show ?thesis
      using len aty True Cons.prems(2) by (subst coalesceLoop.simps) (auto intro!: exI [of _ s])
  next
    case False
    have disj: "seg_cov y \<inter> cov ys = {}" using cov_above [OF ys] by (fastforce simp: seg_cov_def)
    then have card: "oooBytes s = length (seg_data y) + card (cov ys)"
      using bytes by (simp add: card_Un_disjoint seg_cov_def) (simp add: seg_end_def)
    have "\<exists>env' buf. takeSegment s env y = (s\<lparr>recvBuf := buf, recvOff := max (recvOff s) (seg_end y),
        oooBytes := oooBytes s - length (seg_data y), recvAccounted := int (length buf + (oooBytes s - length (seg_data y)) + 64 * length ys)\<rparr>, env')
      \<and> buf = recvBuf s @ drop (recvOff s - seg_off y) (if seg_end y \<le> recvOff s then [] else seg_data y)"
      by (rule takeSegment_accounted) (use False card wf Cons.prems(2) in \<open>auto simp: mid_ok_def\<close>)
    then obtain env1 s1 buf where t: "takeSegment s env y = (s1, env1)"
      and s1: "s1 = s\<lparr>recvBuf := buf, recvOff := max (recvOff s) (seg_end y), oooBytes := oooBytes s - length (seg_data y),
        recvAccounted := int (length buf + (oooBytes s - length (seg_data y)) + 64 * length ys)\<rparr>"
      and buf: "buf = recvBuf s @ drop (recvOff s - seg_off y) (if seg_end y \<le> recvOff s then [] else seg_data y)" by blast
    have "seg_match content y" "base \<le> recvOff s" "recvBuf s = map content [base..<recvOff s]"
      using Cons.prems(2) by (auto simp: mid_ok_def)
    then have "buf = map content [base..<max (recvOff s) (seg_end y)]"
      using False unfolding buf
      by (auto simp: seg_match_def drop_map upt_split [of base "recvOff s" "seg_end y"] max_def)
    moreover have "oooBytes s - length (seg_data y) = card (cov ys)" using card by simp
    moreover have "base \<le> recvOff s" "segs_wf ys" "list_all (seg_match content) ys" using Cons.prems(2) by (auto simp: mid_ok_def)
    ultimately have mid: "mid_ok content base s1 ys" by (simp add: mid_ok_def s1 le_max_iff_disj)
    have at: "at_pos (recvOOO s1) (ooo_next (recvOOO s) p) (xs @ [y]) ys"
      using at_pos_next [OF Cons.prems(1)] by (simp add: s1)
    obtain s' env' k where IH: "coalesceLoop s1 env1 (ooo_next (recvOOO s) p) (length (xs @ [y])) = ((s', env'), length (xs @ [y]) + k)"
      "k \<le> length ys" "mid_ok content base s' (drop k ys)" "list_all (\<lambda>sg. recvOff s' < seg_off sg) (drop k ys)"
      "{..<recvOff s'} \<union> cov (drop k ys) = {..<recvOff s1} \<union> cov ys" "recvOff s1 \<le> recvOff s'"
      "s' = s1\<lparr>recvBuf := recvBuf s', recvOff := recvOff s', oooBytes := oooBytes s', recvAccounted := recvAccounted s'\<rparr>"
      using Cons.IH [OF at mid, of env1] by blast
    have step: "coalesceLoop s env p (length xs) = coalesceLoop s1 env1 (ooo_next (recvOOO s) p) (length (xs @ [y]))"
      using len aty False t by (subst coalesceLoop.simps) simp
    have "{..<recvOff s1} \<union> cov ys = {..<recvOff s} \<union> cov (y # ys)" using False by (auto simp: s1 seg_cov_def)
    moreover have "s' = s\<lparr>recvBuf := recvBuf s', recvOff := recvOff s', oooBytes := oooBytes s', recvAccounted := recvAccounted s'\<rparr>"
      using IH(7) unfolding s1 by simp
    moreover have "recvOff s \<le> recvOff s'" using IH(6) by (simp add: s1)
    ultimately show ?thesis
      using IH(1-5) step by (intro exI [of _ s'] exI [of _ env'] exI [of _ "Suc k"]) simp
  qed
qed

lemma ooo_at_start: "ooo_inv l \<Longrightarrow> at_pos l \<lparr>pos_chunk = 0, pos_idx = 0\<rparr> [] (flat l)"
  using ooo_inv_chunk [of l 0] by (auto simp: at_pos_def pos_ok_def pos_index_def endPos_def)

lemma coalesceOOO_spec:
  assumes "ooo_inv (recvOOO s)" and "mid_ok content base s (segs s)"
  shows "\<exists>s' env'. coalesceOOO s env = (s', env') \<and> ooo_ok content s' \<and> list_all (\<lambda>sg. recvOff s' < seg_off sg) (segs s')
    \<and> received s' = received s \<and> base \<le> recvOff s' \<and> recvBuf s' = map content [base..<recvOff s'] \<and> recvOff s \<le> recvOff s'
    \<and> length (segs s') \<le> length (segs s) \<and> acct_ok s'
    \<and> s' = s\<lparr>recvBuf := recvBuf s', recvOff := recvOff s', oooBytes := oooBytes s', recvAccounted := recvAccounted s', recvOOO := recvOOO s'\<rparr>"
proof -
  from coalesceLoop_spec [OF ooo_at_start [OF assms(1)] assms(2), of env] obtain s1 env1 k where
    l: "coalesceLoop s env \<lparr>pos_chunk = 0, pos_idx = 0\<rparr> 0 = ((s1, env1), k)" and k: "k \<le> length (segs s)"
    and mid: "mid_ok content base s1 (drop k (segs s))" and fwd: "list_all (\<lambda>sg. recvOff s1 < seg_off sg) (drop k (segs s))"
    and rec: "{..<recvOff s1} \<union> cov (drop k (segs s)) = {..<recvOff s} \<union> cov (segs s)" "recvOff s \<le> recvOff s1"
    and s1: "s1 = s\<lparr>recvBuf := recvBuf s1, recvOff := recvOff s1, oooBytes := oooBytes s1, recvAccounted := recvAccounted s1\<rparr>" by auto
  have ooo: "recvOOO s1 = recvOOO s" by (subst s1) simp
  define s2 where "s2 = (if k > 0 then s1\<lparr>recvOOO := ooo_dropFront (recvOOO s1) k\<rparr> else s1)"
  have run: "coalesceOOO s env = (s2, env1)" using l by (simp add: coalesceOOO_def s2_def)
  have segs: "segs s2 = drop k (segs s)" "ooo_inv (recvOOO s2)"
    using ooo_dropFront_flat [OF assms(1) k] assms(1) ooo by (auto simp: s2_def)
  have keep: "recvOff s2 = recvOff s1" "recvBuf s2 = recvBuf s1" "oooBytes s2 = oooBytes s1" "recvAccounted s2 = recvAccounted s1"
    by (simp_all add: s2_def)
  have "ooo_ok content s2" "acct_ok s2" "base \<le> recvOff s2" "recvBuf s2 = map content [base..<recvOff s2]"
    using mid segs by (auto simp: mid_ok_def ooo_ok_def acct_ok_def keep)
  moreover have "s2 = s\<lparr>recvBuf := recvBuf s2, recvOff := recvOff s2, oooBytes := oooBytes s2, recvAccounted := recvAccounted s2, recvOOO := recvOOO s2\<rparr>"
    unfolding keep by (subst s2_def, subst (1 2) s1) (simp add: s2_def ooo)
  ultimately show ?thesis using run fwd rec k by (simp add: segs keep received_def)
qed

text \<open>Only the five fields of the reassembly buffer differ.\<close>

definition same_ctl :: "quicStream \<Rightarrow> quicStream \<Rightarrow> bool" where
  "same_ctl s s' \<longleftrightarrow> (\<exists>buf off bytes acc l. s' = s\<lparr>recvBuf := buf, recvOff := off, oooBytes := bytes, recvAccounted := acc, recvOOO := l\<rparr>)"

lemma same_ctl_fields:
  assumes "same_ctl s s'"
  shows "recvMax s' = recvMax s" "oooSegmentCap s' = oooSegmentCap s" "recvGranted s' = recvGranted s" "maxRecv s' = maxRecv s"
    "recvFinSeen s' = recvFinSeen s" "recvFinOff s' = recvFinOff s" "recvFin s' = recvFin s" "recvClosed s' = recvClosed s"
    "recvOverflow s' = recvOverflow s"
  using assms by (auto simp: same_ctl_def oooSegmentCap_def)

lemma appendContig_eq:
  assumes "appendContig s env data = ((s', env'), ok)"
  shows "s' = (if ok then s\<lparr>recvBuf := recvBuf s @ data, recvOff := recvOff s + length data,
      recvAccounted := recvAccounted s + int (length data)\<rparr> else s)"
  using assms by (cases s) (auto simp: appendContig_def dest!: stream_reserve_eq split: prod.splits if_splits)

lemma store_contig:
  assumes inv: "recv_inv content base s" and data: "data = map content [recvOff s..<recvOff s + length data]"
    and mx: "recvOff s + length data \<le> recvMax s" and run: "appendContig s env data = ((s1, env1), True)"
    and fin: "(s', env') = (if ooo_len (recvOOO s1) > 0 then coalesceOOO s1 env1 else (s1, env1))"
  shows "recv_inv content base s'" and "received s' = received s \<union> {..<recvOff s + length data}"
    and "same_ctl s s'" and "recvOff s \<le> recvOff s'"
proof -
  have s1: "s1 = s\<lparr>recvBuf := recvBuf s @ data, recvOff := recvOff s + length data,
      recvAccounted := recvAccounted s + int (length data)\<rparr>" using appendContig_eq [OF run] by simp
  have buf: "recvBuf s @ data = map content [base..<recvOff s + length data]"
    using inv data by (metis recv_inv_def le_add1 map_append upt_split)
  have ok: "ooo_ok content s" "base \<le> recvOff s" "acct_ok s" "length (segs s) \<le> oooSegmentCap s" "cov (segs s) \<subseteq> {..<recvMax s}"
    using inv by (auto simp: recv_inv_def)
  have lb: "length (recvBuf s) = recvOff s - base" using inv by (simp add: recv_inv_def)
  have mid: "mid_ok content base s1 (segs s1)" and oi: "ooo_inv (recvOOO s1)"
    using ok buf lb by (auto simp: mid_ok_def ooo_ok_def acct_ok_def s1)
  have rec: "received s1 = received s \<union> {..<recvOff s + length data}" by (auto simp: received_def s1)
  let ?Q = "ooo_ok content s' \<and> list_all (\<lambda>sg. recvOff s' < seg_off sg) (segs s')
    \<and> received s' = received s1 \<and> base \<le> recvOff s' \<and> recvBuf s' = map content [base..<recvOff s'] \<and> recvOff s1 \<le> recvOff s'
    \<and> length (segs s') \<le> length (segs s1) \<and> acct_ok s' \<and> same_ctl s s'"
  have q: ?Q
  proof (cases "ooo_len (recvOOO s1) > 0")
    case True
    with fin coalesceOOO_spec [OF oi mid, of env1] obtain
      c: "ooo_ok content s'" "list_all (\<lambda>sg. recvOff s' < seg_off sg) (segs s')" "received s' = received s1" "base \<le> recvOff s'"
      "recvBuf s' = map content [base..<recvOff s']" "recvOff s1 \<le> recvOff s'" "length (segs s') \<le> length (segs s1)" "acct_ok s'"
      "s' = s1\<lparr>recvBuf := recvBuf s', recvOff := recvOff s', oooBytes := oooBytes s', recvAccounted := recvAccounted s', recvOOO := recvOOO s'\<rparr>"
      by auto
    have "same_ctl s s'" unfolding same_ctl_def using c(9) unfolding s1 by (simp, blast)
    with c(1-8) show ?thesis by blast
  next
    case False
    then have "segs s1 = []" using oi by (simp add: ooo_len_def ooo_inv_def)
    moreover have "same_ctl s s1" unfolding s1 same_ctl_def by (cases s) auto
    ultimately show ?thesis using fin False mid oi by (auto simp: mid_ok_def ooo_ok_def acct_ok_def)
  qed
  have "received s' \<subseteq> {..<recvMax s}" using q rec ok(5) mx inv by (auto simp: received_def recv_inv_def)
  then have "recvOff s' \<le> recvMax s" "cov (segs s') \<subseteq> {..<recvMax s}" by (simp_all add: received_def)
  with q ok(4) same_ctl_fields(1,2) [of s s'] show "recv_inv content base s'" by (auto simp: recv_inv_def s1)
  show "received s' = received s \<union> {..<recvOff s + length data}" "same_ctl s s'" "recvOff s \<le> recvOff s'"
    using q rec by (auto simp: s1)
qed

lemma storeStreamData_spec:
  assumes inv: "recv_inv content base s" and data: "data = map content [off..<off + length data]" and mx: "off + length data \<le> recvMax s"
  shows "\<exists>s' env' acc. storeStreamData s env off data = Some ((s', env'), acc)
    \<and> (case acc of None \<Rightarrow> s' = s | Some n \<Rightarrow> recv_inv content base s' \<and> same_ctl s s' \<and> recvOff s \<le> recvOff s'
          \<and> received s' = received s \<union> {off..<off + length data})"
proof (cases "length data > 0 \<and> off + length data > recvOff s")
  case False
  then have "received s \<union> {off..<off + length data} = received s" by (auto simp: received_def)
  moreover have "same_ctl s s" by (cases s) (auto simp: same_ctl_def)
  ultimately show ?thesis using False inv by (auto simp: storeStreamData_def)
next
  case True
  show ?thesis
  proof (cases "off \<le> recvOff s")
    case contig: True
    define d where "d = drop (recvOff s - off) data"
    have len: "recvOff s + length d = off + length data" using True contig by (simp add: d_def)
    have "d = drop (recvOff s - off) (map content [off..<off + length data])" unfolding d_def using data by simp
    then have d: "d = map content [recvOff s..<recvOff s + length d]" using contig unfolding len by (simp add: drop_map)
    obtain s1 env1 ok where ap: "appendContig s env d = ((s1, env1), ok)" by (metis surj_pair)
    obtain s' env' where fin: "(s', env') = (if ooo_len (recvOOO s1) > 0 then coalesceOOO s1 env1 else (s1, env1))"
      by (metis surj_pair)
    have run: "storeStreamData s env off data = Some (if ok then ((s', env'), Some (length d)) else ((s1, env1), None))"
      using True contig ap fin by (auto simp: storeStreamData_def d_def Let_def)
    show ?thesis
    proof (cases ok)
      case ok: True
      have "recvOff s + length d \<le> recvMax s" "appendContig s env d = ((s1, env1), True)" using mx len ap ok by simp_all
      note st = store_contig [OF inv d this fin, unfolded len]
      have "received s \<union> {..<off + length data} = received s \<union> {off..<off + length data}"
        using contig by (auto simp: received_def)
      with st run ok show ?thesis by simp
    next
      case False
      with run appendContig_eq [OF ap] show ?thesis by simp
    qed
  next
    case False
    have i: "ooo_ok content s" "list_all (\<lambda>sg. recvOff s < seg_off sg) (segs s)" "acct_ok s" "length (segs s) \<le> oooSegmentCap s"
      using inv by (auto simp: recv_inv_def)
    have ro: "recvOff s < off" and ne: "data \<noteq> []" using False True by auto
    from insertOOO_spec [OF i ro data ne, of env] obtain s' env' n res where
      io: "insertOOO s env off data = Some ((s', env'), n, res)"
      and r: "if res = QuicOOOStored then ooo_stored content s {off..<off + length data} s'
          \<and> n = card ({off..<off + length data} - cov (segs s)) else s' = s" by blast
    have run: "storeStreamData s env off data = Some ((s', env'), if res = QuicOOOStored then Some n else None)"
      using True False io by (simp add: storeStreamData_def)
    show ?thesis
    proof (cases "res = QuicOOOStored")
      case st: True
      with r have o: "ooo_ok content s'" "list_all (\<lambda>sg. recvOff s < seg_off sg) (segs s')" "cov (segs s') = cov (segs s) \<union> {off..<off + length data}"
        "length (segs s') \<le> oooSegmentCap s" "acct_ok s'"
        "s' = s\<lparr>recvOOO := recvOOO s', oooBytes := oooBytes s', recvAccounted := recvAccounted s'\<rparr>"
        by (auto simp: ooo_stored_def)
      obtain l b a where s': "s' = s\<lparr>recvOOO := l, oooBytes := b, recvAccounted := a\<rparr>" using o(6) by blast
      have sc: "same_ctl s s'" unfolding s' same_ctl_def by (cases s) auto
      have keep: "recvOff s' = recvOff s" "recvBuf s' = recvBuf s" by (simp_all add: s')
      have "received s' = received s \<union> {off..<off + length data}" using o(3) by (auto simp: received_def keep)
      moreover have "recv_inv content base s'"
        using o(1-5) same_ctl_fields(1,2) [OF sc] inv mx by (auto simp: recv_inv_def keep)
      ultimately show ?thesis using run st sc keep by simp
    next
      case False
      with run r show ?thesis by simp
    qed
  qed
qed

subsection \<open>Flow control and the final size\<close>

definition ctl_inv :: "quicStream \<Rightarrow> bool" where
  "ctl_inv s \<longleftrightarrow> recvMax s \<le> recvGranted s \<and> (recvFinSeen s \<longrightarrow> recvMax s \<le> recvFinOff s)
     \<and> (recvFin s \<and> \<not> recvOverflow s \<longrightarrow> recvFinSeen s \<and> recvFinOff s \<le> recvOff s)"

definition stream_inv :: "(nat \<Rightarrow> byte) \<Rightarrow> nat \<Rightarrow> quicStream \<Rightarrow> bool" where
  "stream_inv content base s \<longleftrightarrow> recv_inv content base s \<and> ctl_inv s"

lemma recv_inv_cong:
  assumes "recv_inv content base s" and "recvBuf s' = recvBuf s" "recvOOO s' = recvOOO s" "oooBytes s' = oooBytes s" "recvOff s' = recvOff s"
    "recvAccounted s' = recvAccounted s" "recvWindow s' = recvWindow s" and "recvMax s \<le> recvMax s'"
  shows "recv_inv content base s'"
  using assms by (auto simp: recv_inv_def ooo_ok_def acct_ok_def oooSegmentCap_def)

lemma finishStreamFrame_frame:
  assumes "finishStreamFrame s e fin = (s', flags)"
  shows "recvBuf s' = recvBuf s" "recvOOO s' = recvOOO s" "oooBytes s' = oooBytes s" "recvOff s' = recvOff s"
    "recvAccounted s' = recvAccounted s" "recvWindow s' = recvWindow s" "recvMax s' = recvMax s" "recvGranted s' = recvGranted s"
    "flags AND quicRecvAccepted \<noteq> 0" "recvFinSeen s' \<longleftrightarrow> recvFinSeen s \<or> fin" "recvFinOff s' = (if fin then e else recvFinOff s)"
    "recvFin s' \<and> \<not> recvOverflow s' \<Longrightarrow> recvFin s \<or> recvFinSeen s' \<and> recvFinOff s' \<le> recvOff s"
    "recvOverflow s \<Longrightarrow> recvOverflow s'"
proof -
  have s': "s' = fst (finishStreamFrame s e fin)" "flags = snd (finishStreamFrame s e fin)" by (simp_all add: assms)
  show "recvBuf s' = recvBuf s" "recvOOO s' = recvOOO s" "oooBytes s' = oooBytes s" "recvOff s' = recvOff s"
    "recvAccounted s' = recvAccounted s" "recvWindow s' = recvWindow s" "recvMax s' = recvMax s" "recvGranted s' = recvGranted s"
    "flags AND quicRecvAccepted \<noteq> 0" "recvFinSeen s' \<longleftrightarrow> recvFinSeen s \<or> fin" "recvFinOff s' = (if fin then e else recvFinOff s)"
    "recvOverflow s \<Longrightarrow> recvOverflow s'"
    by (simp_all add: s' finishStreamFrame_def Let_def quicRecv_flags)
  show "recvFin s' \<and> \<not> recvOverflow s' \<Longrightarrow> recvFin s \<or> recvFinSeen s' \<and> recvFinOff s' \<le> recvOff s"
    by (cases fin) (simp_all add: s' finishStreamFrame_def Let_def split: if_splits)
qed

lemma finishStreamFrame_ctl:
  assumes "finishStreamFrame s e fin = (s', flags)" and "ctl_inv s" and "fin \<longrightarrow> recvMax s \<le> e \<and> (recvFinSeen s \<longrightarrow> e = recvFinOff s)"
  shows "ctl_inv s'"
proof -
  note f = finishStreamFrame_frame [OF assms(1)]
  have "recvFinSeen s' \<and> recvFinOff s' \<le> recvOff s" if x: "recvFin s'" "\<not> recvOverflow s'"
  proof (cases "recvFin s")
    case True
    with assms(2,3) x(2) f(10,11,13) show ?thesis by (auto simp: ctl_inv_def)
  next
    case False
    with x f(12) show ?thesis by blast
  qed
  with assms(2,3) f show ?thesis by (auto simp: ctl_inv_def)
qed

lemma handleStreamFrame_spec:
  assumes inv: "stream_inv content base s" and data: "data = map content [off..<off + length data]"
  shows "\<exists>s' env' n flags. handleStreamFrame s env off data fin = Some ((s', env'), n, flags) \<and> stream_inv content base s'
    \<and> received s' = received s \<union> (if flags AND quicRecvAccepted \<noteq> 0 then {off..<off + length data} else {})
    \<and> recvOff s \<le> recvOff s'
    \<and> (recvFinSeen s' \<longrightarrow> recvFinSeen s \<and> recvFinOff s' = recvFinOff s \<or> fin \<and> recvFinOff s' = off + length data)"
proof -
  let ?e = "off + length data"
  consider (early) "recvClosed s \<or> recvOverflow s \<or> ?e > recvGranted s \<or> violatesFinalSizeLocked s ?e fin"
    | (go) "\<not> recvClosed s" "\<not> recvOverflow s" "?e \<le> recvGranted s" "\<not> violatesFinalSizeLocked s ?e fin" by linarith
  then show ?thesis
  proof cases
    case early
    then show ?thesis using inv by (auto simp: handleStreamFrame_def Let_def quicRecv_flags)
  next
    case go
    obtain env1 ok where cr: "(if ?e > recvMax s then consumeRecvFlowCredit env (?e - recvMax s) else (env, True)) = (env1, ok)"
      by fastforce
    define s1 where "s1 = (if ?e > recvMax s then s\<lparr>recvMax := ?e\<rparr> else s)"
    show ?thesis
    proof (cases ok)
      case False
      then show ?thesis using inv go cr by (auto simp: handleStreamFrame_def Let_def quicRecv_flags)
    next
      case True
      have s1: "recvMax s1 = max (recvMax s) ?e" "received s1 = received s" "recvOff s1 = recvOff s" by (auto simp: s1_def received_def)
      have inv1: "recv_inv content base s1"
        by (rule recv_inv_cong [of content base s]) (use inv in \<open>auto simp: stream_inv_def s1_def\<close>)
      have ctl1: "ctl_inv s1" and fin1: "fin \<longrightarrow> recvMax s1 \<le> ?e \<and> (recvFinSeen s1 \<longrightarrow> ?e = recvFinOff s1)"
        using inv go by (auto simp: stream_inv_def ctl_inv_def s1_def violatesFinalSizeLocked_def split: if_splits)
      from storeStreamData_spec [OF inv1 data, of env1] obtain s2 env2 acc where
        st: "storeStreamData s1 env1 off data = Some ((s2, env2), acc)"
        and r: "case acc of None \<Rightarrow> s2 = s1 | Some n \<Rightarrow> recv_inv content base s2 \<and> same_ctl s1 s2 \<and> recvOff s1 \<le> recvOff s2
            \<and> received s2 = received s1 \<union> {off..<?e}" by (auto simp: s1)
      have run: "handleStreamFrame s env off data fin = (case acc of
            None \<Rightarrow> (case rejectRecvLocked s2 of (s, flags) \<Rightarrow> Some ((s, env2), 0, flags))
          | Some n \<Rightarrow> (case finishStreamFrame s2 ?e fin of (s, flags) \<Rightarrow> Some ((s, env2), n, flags)))"
        using go cr True st by (simp add: handleStreamFrame_def Let_def not_less s1_def)
      show ?thesis
      proof (cases acc)
        case None
        with r have s2: "s2 = s1" by simp
        have "recv_inv content base (s1\<lparr>recvClosed := True\<rparr>)" by (rule recv_inv_cong [OF inv1]) simp_all
        with ctl1 have "stream_inv content base (s1\<lparr>recvClosed := True\<rparr>)" by (simp add: stream_inv_def ctl_inv_def)
        moreover have "recvFinSeen s1 = recvFinSeen s" "recvFinOff s1 = recvFinOff s" by (simp_all add: s1_def)
        ultimately show ?thesis using None run s1 by (auto simp: s2 rejectRecvLocked_def quicRecv_flags received_def)
      next
        case (Some n)
        with r have r2: "recv_inv content base s2" "same_ctl s1 s2" "recvOff s1 \<le> recvOff s2" "received s2 = received s1 \<union> {off..<?e}" by auto
        obtain s3 flags where f: "finishStreamFrame s2 ?e fin = (s3, flags)" by fastforce
        note ff = finishStreamFrame_frame [OF f] and sc = same_ctl_fields [OF r2(2)]
        have "ctl_inv s2" using ctl1 r2(3) sc by (auto simp: ctl_inv_def)
        then have "ctl_inv s3" by (rule finishStreamFrame_ctl [OF f]) (use fin1 sc in simp)
        moreover have "recv_inv content base s3" by (rule recv_inv_cong [OF r2(1)]) (simp_all add: ff)
        moreover have "recvFinSeen s1 = recvFinSeen s" "recvFinOff s1 = recvFinOff s" by (simp_all add: s1_def)
        ultimately show ?thesis using Some run f ff r2(3,4) s1 sc(5,6) by (auto simp: stream_inv_def received_def)
      qed
    qed
  qed
qed

subsection \<open>Every history of a stream\<close>

text \<open>The steps of a stream's receive side; the last component counts the bytes handed to the reader.\<close>

inductive stream_step :: "(nat \<Rightarrow> byte) \<Rightarrow> quicStream \<times> quicRecvEnv \<times> nat \<Rightarrow> quicStream \<times> quicRecvEnv \<times> nat \<Rightarrow> bool"
  for content :: "nat \<Rightarrow> byte" where
  frame: "data = map content [off..<off + length data] \<Longrightarrow> handleStreamFrame s env off data fin = Some ((s', env'), n, flags) \<Longrightarrow>
    stream_step content (s, env, base) (s', env', base)"
| take_received: "takeReceived s env = ((s', env'), data, fin) \<Longrightarrow> stream_step content (s, env, base) (s', env', base + length data)"
| grant: "streamCreditToGrant s = (s', g) \<Longrightarrow> stream_step content (s, env, base) (s', env, base)"
| peer_reset: "applyPeerReset s env finalSize = ((s', env'), r) \<Longrightarrow> stream_step content (s, env, base) (s', env', base)"
| other_conns: "stream_step content (s, env, base) (s, env', base)"

lemma takeReceived_inv:
  assumes inv: "stream_inv content base s" and run: "takeReceived s env = ((s', env'), data, fin)"
  shows "stream_inv content (base + length data) s'" and "data = map content [base..<base + length data]"
proof -
  have d: "data = recvBuf s" and rel: "releaseReserved (s\<lparr>recvBuf := []\<rparr>) env (length data) = (s', env')"
    using run by (auto simp: takeReceived_def Let_def)
  have b: "base \<le> recvOff s" "recvBuf s = map content [base..<recvOff s]" "acct_ok s" using inv by (auto simp: stream_inv_def recv_inv_def)
  have len: "base + length data = recvOff s" using b by (simp add: d)
  show "data = map content [base..<base + length data]" unfolding len using b(2) d by simp
  have "s' = s\<lparr>recvBuf := [], recvAccounted := recvAccounted s - int (length data)\<rparr>"
    using releaseReserved_eq [OF _ rel] b(3) by (simp add: acct_ok_def d)
  with inv b len show "stream_inv content (base + length data) s'"
    by (auto simp: stream_inv_def recv_inv_def ctl_inv_def ooo_ok_def acct_ok_def d oooSegmentCap_def)
qed

lemma streamCreditToGrant_inv:
  assumes "stream_inv content base s" and "streamCreditToGrant s = (s', g)"
  shows "stream_inv content base s'" and "recvGranted s \<le> recvGranted s'"
proof -
  have g: "recvGranted s \<le> recvGranted s'" and s': "s' = s\<lparr>recvGranted := recvGranted s'\<rparr>"
    using assms(2) by (auto simp: streamCreditToGrant_def Let_def split: if_splits)
  obtain x where x: "s' = s\<lparr>recvGranted := x\<rparr>" using s' by blast
  have "recv_inv content base s'"
    unfolding x by (rule recv_inv_cong [of content base s]) (use assms(1) in \<open>simp_all add: stream_inv_def\<close>)
  then show "stream_inv content base s'" using assms(1) g by (auto simp: stream_inv_def ctl_inv_def x)
  show "recvGranted s \<le> recvGranted s'" by (rule g)
qed

lemma stream_unique_le:
  assumes "recv_inv content base s"
  shows "snd (receivedExtent s) \<le> max (fst (receivedExtent s)) (recvMax s)"
proof -
  have b: "oooBytes s = card (cov (segs s))" "recvOff s \<le> recvMax s" "cov (segs s) \<subseteq> {..<recvMax s}"
    using assms by (auto simp: recv_inv_def ooo_ok_def)
  have "list_all (\<lambda>sg. recvOff s \<le> seg_off sg) (segs s)" using assms by (simp add: recv_inv_def list_all_iff less_imp_le)
  from cov_above [OF this] b(3) have c: "cov (segs s) \<subseteq> {recvOff s..<recvMax s}" by fastforce
  have "card (cov (segs s)) \<le> recvMax s - recvOff s" using card_mono [OF _ c] by simp
  with b show ?thesis by (simp add: receivedExtent_def)
qed

lemma applyPeerReset_cases:
  assumes "applyPeerReset s env finalSize = ((s', env'), r)"
  shows "s' = s \<or> recvMax s \<le> finalSize \<and> finalSize \<le> recvGranted s \<and> (recvFinSeen s \<longrightarrow> finalSize = recvFinOff s)
    \<and> (let s1 = (if finalSize > recvMax s then s\<lparr>recvMax := finalSize\<rparr> else s)
       in s' = s1 \<or> s' = s1\<lparr>recvReset := True, recvFinSeen := True, recvFinOff := finalSize, recvClosed := True\<rparr>)"
proof -
  obtain highest unique where ex: "receivedExtent s = (highest, unique)" by fastforce
  obtain env1 ok where cr: "(if finalSize > recvMax s then consumeRecvFlowCredit env (finalSize - recvMax s) else (env, True)) = (env1, ok)"
    by fastforce
  define s1 where "s1 = (if finalSize > recvMax s then s\<lparr>recvMax := finalSize\<rparr> else s)"
  note run = assms [unfolded applyPeerReset_def Let_def ex prod.case cr, folded s1_def]
  show ?thesis
  proof (cases "recvFinSeen s \<and> finalSize \<noteq> recvFinOff s \<or> finalSize < max highest (recvMax s) \<or> finalSize > recvGranted s \<or> \<not> ok")
    case True
    then have "s' = s" using run by (auto split: if_splits)
    then show ?thesis by simp
  next
    case False
    with run have "s' = s1 \<or> s' = s1\<lparr>recvReset := True, recvFinSeen := True, recvFinOff := finalSize, recvClosed := True\<rparr>"
      by (auto split: if_splits)
    with False show ?thesis by (auto simp: s1_def [symmetric] Let_def)
  qed
qed

lemma applyPeerReset_inv:
  assumes inv: "stream_inv content base s" and run: "applyPeerReset s env finalSize = ((s', env'), r)"
  shows "stream_inv content base s'" and "received s' = received s"
proof -
  define s1 where "s1 = (if finalSize > recvMax s then s\<lparr>recvMax := finalSize\<rparr> else s)"
  have r1: "recv_inv content base s1"
    by (rule recv_inv_cong [of content base s]) (use inv in \<open>simp_all add: stream_inv_def s1_def\<close>)
  have keep: "recvOff s1 = recvOff s" "recvOOO s1 = recvOOO s" by (simp_all add: s1_def)
  from applyPeerReset_cases [OF run] consider (same) "s' = s"
    | (upd) "recvMax s \<le> finalSize" "finalSize \<le> recvGranted s" "recvFinSeen s \<longrightarrow> finalSize = recvFinOff s"
      "s' = s1 \<or> s' = s1\<lparr>recvReset := True, recvFinSeen := True, recvFinOff := finalSize, recvClosed := True\<rparr>"
    by (auto simp: Let_def s1_def)
  then have "stream_inv content base s' \<and> received s' = received s"
  proof cases
    case same
    with inv show ?thesis by simp
  next
    case upd
    have c1: "ctl_inv s1" using inv upd(1-3) by (auto simp: stream_inv_def ctl_inv_def s1_def)
    have m: "recvMax s1 = finalSize" using upd(1) by (simp add: s1_def)
    let ?s2 = "s1\<lparr>recvReset := True, recvFinSeen := True, recvFinOff := finalSize, recvClosed := True\<rparr>"
    have "recv_inv content base ?s2" by (rule recv_inv_cong [OF r1]) simp_all
    moreover have "recvFin s1 \<and> \<not> recvOverflow s1 \<longrightarrow> finalSize \<le> recvOff s1"
      using c1 upd(3) by (auto simp: ctl_inv_def s1_def split: if_splits)
    ultimately have "stream_inv content base ?s2" using c1 m by (simp add: stream_inv_def ctl_inv_def)
    with upd(4) r1 c1 keep show ?thesis by (auto simp: stream_inv_def received_def)
  qed
  then show "stream_inv content base s'" "received s' = received s" by auto
qed

lemma stream_step_inv:
  "stream_step content a b \<Longrightarrow> stream_inv content (snd (snd a)) (fst a) \<Longrightarrow> stream_inv content (snd (snd b)) (fst b)"
proof (induction rule: stream_step.induct)
  case (frame data off s env fin s' env' n flags base)
  then have "stream_inv content base s" by simp
  from handleStreamFrame_spec [OF this frame(1), of env fin] frame(2) show ?case by auto
next
  case (take_received s env s' env' data fin base)
  then show ?case using takeReceived_inv(1) by simp
next
  case (grant s s' g env base)
  then show ?case using streamCreditToGrant_inv(1) by simp
next
  case (peer_reset s env finalSize s' env' r base)
  then show ?case using applyPeerReset_inv(1) by simp
qed simp

lemma recvOff_not_received: "recv_inv content base s \<Longrightarrow> recvOff s \<notin> received s"
  using cov_above [of "Suc (recvOff s)" "segs s" "recvOff s"] by (auto simp: received_def recv_inv_def list_all_iff Suc_le_eq)

lemma stream_inv_init: "stream_inv content 0 (getPooledStream mb mh w)"
  by (simp add: stream_inv_def recv_inv_def ctl_inv_def getPooledStream_def ooo_ok_def ooo_inv_def oooEmpty_def flat_def
      acct_ok_def oooSegmentCap_def)

lemma stream_reach_inv:
  "(stream_step content)\<^sup>*\<^sup>* a b \<Longrightarrow> stream_inv content (snd (snd a)) (fst a) \<Longrightarrow> stream_inv content (snd (snd b)) (fst b)"
  by (induction rule: rtranclp_induct) (auto dest: stream_step_inv)


definition envExample :: quicRecvEnv where
  "envExample = \<lparr>recvFlowUsed = 0, recvFlowLimit = 1000, bodyReserved = 0,
     budget = \<lparr>maxInFlightBodyBytes = 10000, maxBodySize = 500, inFlightBodyBytes = 0\<rparr>\<rparr>"

lemmas stream_eval = handleStreamFrame_def storeStreamData_def finishStreamFrame_def violatesFinalSizeLocked_def
  consumeRecvFlowCredit_def appendContig_def stream_reserve_def outstanding_def tryReserveConnBodyBytes_def tryReserveBodyBytes_def
  connBodyShare_def bodyBudgetUnderPressure_def ooo_len_def getPooledStream_def quicStreamRecvCap_def quicStreamRecvFrameSlack_def
  envExample_def oooEmpty_def bodyBudgetConnShareDivisor_def bodyBudgetPressureDivisor_def bodyBudgetAddPathMaxLimit_def


subsection \<open>From one end to the other\<close>

type_synonym streamFrame = "nat \<times> byte list \<times> bool"

text \<open>The frames a sender cuts out of its buffer, one call of \<open>drainSendBuf\<close> per size.\<close>

fun drainFrames :: "quicStream \<Rightarrow> nat list \<Rightarrow> quicStream \<times> streamFrame list" where
  "drainFrames s [] = (s, [])"
| "drainFrames s (m # ms) =
     (case drainSendBuf s m of (s, data, off, fin) \<Rightarrow>
        case drainFrames s ms of (s, fs) \<Rightarrow> (s, (off, data, fin) # fs))"

text \<open>A receiver handling a list of frames; the second result lists the frames it accepted.\<close>

fun recvFrames :: "quicStream \<Rightarrow> quicRecvEnv \<Rightarrow> streamFrame list \<Rightarrow> ((quicStream \<times> quicRecvEnv) \<times> streamFrame list) option" where
  "recvFrames s env [] = Some ((s, env), [])"
| "recvFrames s env ((off, data, fin) # fs) =
     do {
       ((s, env), n, flags) \<leftarrow> handleStreamFrame s env off data fin;
       (r, acc) \<leftarrow> recvFrames s env fs;
       Some (r, if flags AND quicRecvAccepted \<noteq> 0 then (off, data, fin) # acc else acc)
     }"

definition frames_cov :: "streamFrame list \<Rightarrow> nat set" where
  "frames_cov fs = (\<Union>(off, data, fin) \<in> set fs. {off..<off + length data})"

definition frame_of :: "byte list \<Rightarrow> streamFrame \<Rightarrow> bool" where
  "frame_of w f \<longleftrightarrow> (case f of (off, data, fin) \<Rightarrow>
     off + length data \<le> length w \<and> (\<forall>i < length data. data ! i = w ! (off + i)) \<and> (fin \<longrightarrow> off + length data = length w))"

lemma drainSendBuf_frame:
  assumes "sendBuf s = drop (sendOff s) w" and "sendOff s \<le> length w" and "drainSendBuf s m = (s', data, off, fin)"
  shows "frame_of w (off, data, fin)" and "sendBuf s' = drop (sendOff s') w" and "sendOff s' \<le> length w"
proof -
  define n where "n = min (length (sendBuf s)) m"
  have rel: "sendBuf (releaseStalledLocked s k) = sendBuf s" "sendOff (releaseStalledLocked s k) = sendOff s" for s k
    by (simp_all add: releaseStalledLocked_def)
  have "frame_of w (off, data, fin) \<and> sendBuf s' = drop (sendOff s') w \<and> sendOff s' \<le> length w"
  proof (cases "sendReset s \<or> length (sendBuf s) = 0")
    case True
    with assms show ?thesis by (auto simp: drainSendBuf_def frame_of_def split: if_splits)
  next
    case False
    have "data = take n (sendBuf s)" "off = sendOff s" "sendBuf s' = drop n (sendBuf s)" "sendOff s' = sendOff s + n"
      "fin \<Longrightarrow> length (sendBuf s') = 0"
      using assms(3) False by (auto simp: drainSendBuf_def Let_def n_def rel split: if_splits)
    moreover have "n \<le> length w - sendOff s" using assms(1) by (simp add: n_def)
    ultimately show ?thesis using assms(1,2) by (auto simp: frame_of_def add.commute)
  qed
  then show "frame_of w (off, data, fin)" "sendBuf s' = drop (sendOff s') w" "sendOff s' \<le> length w" by auto
qed

lemma drainFrames_frames:
  assumes "sendBuf s = drop (sendOff s) w" and "sendOff s \<le> length w" and "drainFrames s ms = (s', fs)"
  shows "list_all (frame_of w) fs"
  using assms
proof (induction s ms arbitrary: s' fs rule: drainFrames.induct)
  case (2 s m ms)
  obtain s1 data off fin where d: "drainSendBuf s m = (s1, data, off, fin)" by (metis surj_pair)
  note f = drainSendBuf_frame [OF "2.prems"(1,2) d]
  obtain s2 gs where r: "drainFrames s1 ms = (s2, gs)" by fastforce
  from "2.IH" [OF d [symmetric] refl refl f(2,3) r] f(1) "2.prems"(3) d r show ?case by auto
qed simp

lemma frame_of_content:
  assumes "frame_of w (off, data, fin)"
  shows "data = map (\<lambda>i. if i < length w then w ! i else 0) [off..<off + length data]"
proof (rule nth_equalityI)
  fix i assume "i < length data"
  then show "data ! i = map (\<lambda>i. if i < length w then w ! i else 0) [off..<off + length data] ! i"
    using assms by (simp add: frame_of_def)
qed simp

lemma recvFrames_spec:
  assumes "stream_inv (\<lambda>i. if i < length w then w ! i else 0) base s" and "list_all (frame_of w) fs"
    and "recvFinSeen s \<longrightarrow> recvFinOff s = length w"
  shows "\<exists>s' env' acc. recvFrames s env fs = Some ((s', env'), acc) \<and> stream_inv (\<lambda>i. if i < length w then w ! i else 0) base s'
    \<and> received s' = received s \<union> frames_cov acc \<and> set acc \<subseteq> set fs \<and> (recvFinSeen s' \<longrightarrow> recvFinOff s' = length w)"
  using assms
proof (induction fs arbitrary: s env)
  case (Cons f fs)
  obtain off data fin where f: "f = (off, data, fin)" by (metis surj_pair)
  have fw: "frame_of w (off, data, fin)" using Cons.prems f by simp
  from handleStreamFrame_spec [OF Cons.prems(1) frame_of_content [OF fw], of env fin] obtain s1 env1 n flags where
    h: "handleStreamFrame s env off data fin = Some ((s1, env1), n, flags)" "stream_inv (\<lambda>i. if i < length w then w ! i else 0) base s1"
    "received s1 = received s \<union> (if flags AND quicRecvAccepted \<noteq> 0 then {off..<off + length data} else {})"
    "recvFinSeen s1 \<longrightarrow> recvFinSeen s \<and> recvFinOff s1 = recvFinOff s \<or> fin \<and> recvFinOff s1 = off + length data" by blast
  have "recvFinSeen s1 \<longrightarrow> recvFinOff s1 = length w" using h(4) Cons.prems(3) fw by (auto simp: frame_of_def)
  from Cons.IH [OF h(2) _ this, of env1] Cons.prems(2) obtain s' env' acc where
    r: "recvFrames s1 env1 fs = Some ((s', env'), acc)" "stream_inv (\<lambda>i. if i < length w then w ! i else 0) base s'"
    "received s' = received s1 \<union> frames_cov acc" "set acc \<subseteq> set fs" "recvFinSeen s' \<longrightarrow> recvFinOff s' = length w" by auto
  show ?case
    using h(1,3) r by (cases "flags AND quicRecvAccepted = 0") (auto simp: f frames_cov_def)
qed (simp add: frames_cov_def)

text \<open>
  C21: a transfer over a network that loses, repeats and reorders packets.  A sender's buffer
  \<open>w\<close> is cut into frames of any sizes; a fresh receiver handles any list made of these frames.
  The receiver always finishes, what it holds for the reader is a prefix of \<open>w\<close>, namely up to the
  first byte that no accepted frame covers, and if it reports the end of the data without an
  overflow it holds all of \<open>w\<close>.
\<close>

theorem stream_transfer:
  assumes "sendBuf sender = w" and "sendOff sender = 0" and "drainFrames sender sizes = (sender', frames)"
    and "list_all (\<lambda>f. f \<in> set frames) fs"
  shows "\<exists>s env' acc. recvFrames (getPooledStream maxBody maxHeader window) env fs = Some ((s, env'), acc)
    \<and> recvBuf s = take (recvOff s) w \<and> recvOff s \<le> length w \<and> recvOff s \<notin> frames_cov acc \<and> {..<recvOff s} \<subseteq> frames_cov acc
    \<and> (recvFin s \<and> \<not> recvOverflow s \<longrightarrow> recvBuf s = w)"
proof -
  let ?c = "\<lambda>i. if i < length w then w ! i else 0"
  let ?s0 = "getPooledStream maxBody maxHeader window"
  have "list_all (frame_of w) frames" using drainFrames_frames [OF _ _ assms(3), of w] assms(1,2) by simp
  then have fw: "list_all (frame_of w) fs" using assms(4) by (auto simp: list_all_iff)
  have "recvFinSeen ?s0 \<longrightarrow> recvFinOff ?s0 = length w" by (simp add: getPooledStream_def)
  from recvFrames_spec [OF stream_inv_init fw this, of env] obtain s env' acc where
    r: "recvFrames ?s0 env fs = Some ((s, env'), acc)" "stream_inv ?c 0 s" "received s = received ?s0 \<union> frames_cov acc"
    "set acc \<subseteq> set fs" "recvFinSeen s \<longrightarrow> recvFinOff s = length w" by blast
  have inv: "recv_inv ?c 0 s" "ctl_inv s" using r(2) by (auto simp: stream_inv_def)
  have cov: "received s = frames_cov acc" using r(3) by (simp add: received_def getPooledStream_def oooEmpty_def flat_def)
  have "frames_cov acc \<subseteq> {..<length w}"
    using fw r(4) by (fastforce simp: frames_cov_def frame_of_def list_all_iff)
  then have le: "recvOff s \<le> length w" using cov by (auto simp: received_def)
  have buf: "recvBuf s = take (recvOff s) w"
  proof -
    have "recvBuf s = map ?c [0..<recvOff s]" using inv(1) by (simp add: recv_inv_def)
    also have "\<dots> = take (recvOff s) w" using le by (intro nth_equalityI) auto
    finally show ?thesis .
  qed
  have "recvOff s = length w" if "recvFin s" "\<not> recvOverflow s"
    using that inv(2) r(5) le by (auto simp: ctl_inv_def)
  with buf have "recvFin s \<and> \<not> recvOverflow s \<longrightarrow> recvBuf s = w" by auto
  moreover have "recvOff s \<notin> frames_cov acc" "{..<recvOff s} \<subseteq> frames_cov acc"
    using recvOff_not_received [OF inv(1)] unfolding cov [symmetric] by (auto simp: received_def)
  ultimately show ?thesis using r(1) buf le by blast
qed

definition senderExample :: quicStream where
  "senderExample = (getPooledStream 500 100 1000)\<lparr>sendBuf := [10, 11, 12, 13], sendFin := True\<rparr>"

lemma sender_example_frames: "snd (drainFrames senderExample [2, 9]) = [(0, [10, 11], False), (2, [12, 13], True)]"
  by (simp add: senderExample_def drainSendBuf_def getPooledStream_def releaseStalledLocked_def sendBufDrained_def Let_def)

theorem stream_transfer_witness:
  "\<exists>s env' acc. recvFrames (getPooledStream 500 100 1000) envExample [(2, [12, 13], True), (0, [10, 11], False), (2, [12, 13], True)]
      = Some ((s, env'), acc) \<and> recvBuf s = take (recvOff s) [10, 11, 12, 13]"
proof -
  have "drainFrames senderExample [2, 9] = (fst (drainFrames senderExample [2, 9]), [(0, [10, 11], False), (2, [12, 13], True)])"
    by (simp only: sender_example_frames [symmetric] prod.collapse)
  from stream_transfer [of senderExample "[10, 11, 12, 13]", OF _ _ this,
      of "[(2, [12, 13], True), (0, [10, 11], False), (2, [12, 13], True)]" 500 100 1000 envExample]
  show ?thesis by (auto simp: senderExample_def getPooledStream_def)
qed

lemmas stream_ooo_eval =
  insertOOO_def oooNewBytes_def firstEndingAfter_def reserveSegmentOverhead_def oooSegmentCap_def endPos_def
  ooo_at_def ooo_last_def fillGap_def gapEndOf_def opensAt_def ooo_insert_def ooo_next_def coalesceOOO_def
  takeSegment_def seg_end_def ooo_set_def ooo_split_def slices_insert_def releaseReserved_def ooo_dropFront_def
  quicOOOChunkLen_def Let_def ooo_before_def quicMinOOOSegmentCap_def quicOOOWindowBytesPerGap_def
  quicOOOSegmentOverhead_def releaseConnBodyBytes_def releaseBodyBytes_def dropFrontLoop.simps
  oooNewBytesLoop.simps insertOOOLoop.simps coalesceLoop.simps


end
