(* ===== verification/Hpack_Int.thy ===== *)
theory Hpack_Int
  imports Alos_Prelude
begin

text \<open>
  HPACK integers, \<open>EncodeInt\<close> and \<open>HpackDecodeInt\<close> of \<open>core/hpack.go\<close>, on 64-bit words.  The reader
  is compared with a reference reader over the natural numbers, which has no overflow: it returns
  the number that reader finds when it fits 64 bits and has at most ten continuation bytes, and
  fails otherwise.  Every 64-bit value written with a prefix of one to eight bits is read back.
\<close>

section \<open>Model\<close>

function encodeIntLoop :: "byte list \<Rightarrow> u64 \<Rightarrow> byte list" where
  "encodeIntLoop buf val =
     (if val \<ge> 128 then encodeIntLoop (buf @ [ucast (val AND 0x7f) OR 0x80]) (drop_bit 7 val)
      else buf @ [ucast val])"
  by auto
termination
  by (relation "measure (\<lambda>(_, val). unat val)") (auto simp: word_le_nat_alt unat_drop_bit_div)

declare encodeIntLoop.simps [simp del]

definition maxFirst :: "nat \<Rightarrow> u64" where
  "maxFirst prefixBits = push_bit prefixBits 1 - 1"

definition EncodeInt :: "byte list \<Rightarrow> byte \<Rightarrow> nat \<Rightarrow> u64 \<Rightarrow> byte list" where
  "EncodeInt buf prefix prefixBits val =
     (if val < maxFirst prefixBits then buf @ [prefix OR ucast val]
      else encodeIntLoop (buf @ [prefix OR ucast (maxFirst prefixBits)]) (val - maxFirst prefixBits))"

text \<open>The loop of \<open>HpackDecodeInt\<close> over the bytes after the first; \<open>i\<close> is the index of the next byte.\<close>

fun decodeIntLoop :: "byte list \<Rightarrow> nat \<Rightarrow> u64 \<Rightarrow> nat \<Rightarrow> u64 \<times> nat" where
  "decodeIntLoop [] m val i = (0, 0)"
| "decodeIntLoop (b # bs) m val i =
     (if m > 63 \<or> ucast (b AND 0x7f) > drop_bit m (NOT 0 - val) then (0, 0)
      else
        let val = val + push_bit m (ucast (b AND 0x7f)) in
        if b AND 0x80 = 0 then (val, i + 1) else decodeIntLoop bs (m + 7) val (i + 1))"

text \<open>
  The pair \<open>(0, 0)\<close> is the failure result.  The source's test \<open>prefixBits-1 > 7\<close> on an unsigned byte
  holds for 0 and for more than 8.
\<close>

definition HpackDecodeInt :: "byte list \<Rightarrow> nat \<Rightarrow> u64 \<times> nat" where
  "HpackDecodeInt data prefixBits =
     (if length data = 0 \<or> prefixBits = 0 \<or> prefixBits > 8 then (0, 0)
      else
        let mask = push_bit prefixBits 1 - 1 :: byte;
            val = ucast (data ! 0 AND mask) :: u64 in
        if val < ucast mask then (val, 1)
        else decodeIntLoop (tl data) 0 val 1)"

section \<open>The reference reader over the natural numbers\<close>

fun refIntLoop :: "byte list \<Rightarrow> (nat \<times> nat) option" where
  "refIntLoop [] = None"
| "refIntLoop (b # bs) =
     (if b AND 0x80 = 0 then Some (unat (b AND 0x7f), 1)
      else map_option (\<lambda>(v, n). (unat (b AND 0x7f) + 128 * v, n + 1)) (refIntLoop bs))"

definition refInt :: "byte list \<Rightarrow> nat \<Rightarrow> (nat \<times> nat) option" where
  "refInt data N =
     (if data = [] then None
      else if unat (data ! 0) mod 2 ^ N < 2 ^ N - 1 then Some (unat (data ! 0) mod 2 ^ N, 1)
      else map_option (\<lambda>(v, n). (2 ^ N - 1 + v, n + 1)) (refIntLoop (tl data)))"

section \<open>The digits\<close>

lemma byte_low7: "unat (b AND 0x7f :: byte) = unat b mod 128"
  using unat_and_mask [of b 7] by simp

lemma unat_maxFirst: "N \<le> 8 \<Longrightarrow> unat (maxFirst N) = 2 ^ N - 1"
  unfolding maxFirst_def by (rule unat_mask_word) simp

lemma digit_fits:
  assumes "m \<le> 63"
  shows "(ucast (d :: byte) > drop_bit m (NOT 0 - val :: u64)) \<longleftrightarrow> 2 ^ 64 \<le> unat val + 2 ^ m * unat d"
proof -
  have "unat (NOT 0 - val) = 2 ^ 64 - 1 - unat val"
    using unsigned_less [of val, where 'a = nat] by (simp add: unat_sub_if' unsigned_minus_1_eq_mask mask_eq_exp_minus_1)
  then have "(ucast d > drop_bit m (NOT 0 - val :: u64)) \<longleftrightarrow> (2 ^ 64 - 1 - unat val) div 2 ^ m < unat d"
    by (simp add: word_less_nat_alt unat_drop_bit_div unat_ucast_up)
  also have "\<dots> \<longleftrightarrow> 2 ^ 64 - 1 - unat val < unat d * 2 ^ m" by (simp add: div_less_iff_less_mult)
  also have "\<dots> \<longleftrightarrow> 2 ^ 64 \<le> unat val + 2 ^ m * unat d"
  proof -
    have "unat val < 2 ^ 64" using unsigned_less [of val, where 'a = nat] by simp
    then show ?thesis unfolding mult.commute [of "unat d"] by linarith
  qed
  finally show ?thesis .
qed

lemma unat_add_digit:
  assumes "m \<le> 63" and "unat val + 2 ^ m * unat d < 2 ^ 64"
  shows "unat (val + push_bit m (ucast (d :: byte)) :: u64) = unat val + 2 ^ m * unat d"
proof -
  have "2 ^ m * unat d < 2 ^ 64" using assms by linarith
  then have "unat (push_bit m (ucast d) :: u64) = 2 ^ m * unat d"
    by (simp add: unat_push_bit_mod unat_ucast_up mult.commute)
  with assms show ?thesis by (simp add: unat_word_ariths(1))
qed


lemma decodeIntLoop_ref:
  assumes "m mod 7 = 0" and "unat val + 2 ^ m * k < 2 ^ 64"
  shows "decodeIntLoop bs m val i =
    (case refIntLoop bs of
       None \<Rightarrow> (0, 0)
     | Some (v, n) \<Rightarrow> if m + 7 * n \<le> 70 \<and> unat val + 2 ^ m * v < 2 ^ 64 then (of_nat (unat val + 2 ^ m * v), i + n) else (0, 0))"
  using assms
proof (induction bs arbitrary: m val i k)
  case (Cons b bs)
  let ?d = "unat (b AND 0x7f)" and ?val = "val + push_bit m (ucast (b AND 0x7f))"
  consider (stop) "m > 63 \<or> 2 ^ 64 \<le> unat val + 2 ^ m * ?d" | (go) "m \<le> 63" "unat val + 2 ^ m * ?d < 2 ^ 64"
    by linarith
  then show ?case
  proof cases
    case stop
    then have "decodeIntLoop (b # bs) m val i = (0, 0)" using digit_fits [of m val "b AND 0x7f"] by auto
    moreover have "\<not> (m + 7 * n \<le> 70 \<and> unat val + 2 ^ m * v < 2 ^ 64)" if r: "refIntLoop (b # bs) = Some (v, n)" for v n
    proof -
      have "?d \<le> v" "1 \<le> n" using r by (auto split: if_splits)
      then have "2 ^ m * ?d \<le> 2 ^ m * v" by simp
      moreover have "m + 7 * n > 70" if "m > 63" using that Cons.prems(1) \<open>1 \<le> n\<close> by presburger
      ultimately show ?thesis using stop by linarith
    qed
    ultimately show ?thesis by (auto simp del: decodeIntLoop.simps refIntLoop.simps split: option.splits)
  next
    case go
    note u = unat_add_digit [OF go]
    have w: "of_nat (unat ?val) = ?val" by simp
    have step: "decodeIntLoop (b # bs) m val i = (if b AND 0x80 = 0 then (?val, i + 1) else decodeIntLoop bs (m + 7) ?val (i + 1))"
      using digit_fits [OF go(1), of val "b AND 0x7f"] go by (simp add: Let_def)
    show ?thesis
    proof (cases "b AND 0x80 = 0")
      case True
      with step go w u Cons.prems(1) show ?thesis by (simp del: of_nat_add of_nat_mult)
    next
      case False
      have "unat ?val + 2 ^ (m + 7) * 0 < 2 ^ 64" using u go(2) by simp
      note ih = Cons.IH [OF _ this, of "i + 1"]
      have e: "unat ?val + 2 ^ (m + 7) * v = unat val + 2 ^ m * (?d + 128 * v)" for v
        unfolding u by (simp add: power_add algebra_simps)
      have "(m + 7) mod 7 = 0" using Cons.prems(1) by presburger
      from ih [OF this] False step show ?thesis
        unfolding e by (auto simp del: of_nat_add of_nat_mult split: option.splits)
    qed
  qed
qed simp

lemma decodeInt_ref:
  assumes "1 \<le> N" and "N \<le> 8"
  shows "HpackDecodeInt data N =
    (case refInt data N of
       None \<Rightarrow> (0, 0)
     | Some (v, n) \<Rightarrow> if v < 2 ^ 64 \<and> n \<le> 11 then (of_nat v, n) else (0, 0))"
proof (cases data)
  case (Cons b bs)
  let ?mask = "push_bit N 1 - 1 :: byte" and ?p = "unat b mod 2 ^ N"
  let ?val = "ucast (b AND ?mask) :: u64"
  have val: "unat ?val = ?p" by (simp add: unat_ucast_up unat_and_mask del: push_bit_of_1)
  have mask: "unat (ucast ?mask :: u64) = 2 ^ N - 1" using assms by (simp add: unat_ucast_up unat_mask_word del: push_bit_of_1)
  have p: "?p < 2 ^ N" by simp
  have "(2::nat) ^ N \<le> 2 ^ 64" using assms(2) by (intro power_increasing) auto
  with p have small: "?p < 2 ^ 64" by (rule order_less_le_trans)
  have vw: "?val = of_nat ?p" unfolding val [symmetric] by simp
  show ?thesis
  proof (cases "?p < 2 ^ N - 1")
    case True
    then have "?val < ucast ?mask" using val mask by (simp only: word_less_nat_alt)
    with True small assms vw show ?thesis
      by (simp add: HpackDecodeInt_def refInt_def Cons Let_def del: push_bit_of_1 of_nat_mod of_nat_unat)
  next
    case False
    then have "\<not> ?val < ucast ?mask" using val mask by (simp only: word_less_nat_alt not_False_eq_True)
    then have "HpackDecodeInt data N = decodeIntLoop bs 0 ?val 1"
      using assms by (simp add: HpackDecodeInt_def Cons Let_def del: push_bit_of_1)
    moreover have "?p = 2 ^ N - 1" using False p by linarith
    moreover note decodeIntLoop_ref [of 0 ?val 0 bs 1]
    ultimately show ?thesis
      using False small val by (simp add: refInt_def Cons del: push_bit_of_1) (auto split: option.splits)
  qed
qed (simp add: HpackDecodeInt_def refInt_def)

section \<open>The writer\<close>

lemma encodeIntLoop_prepend: "encodeIntLoop (p @ buf) v = p @ encodeIntLoop buf v"
proof (induction buf v rule: encodeIntLoop.induct)
  case (1 buf v)
  then show ?case
    using encodeIntLoop.simps [of "p @ buf" v] encodeIntLoop.simps [of buf v] by (cases "v \<ge> 128") auto
qed

lemma encodeIntLoop_append: "encodeIntLoop buf v = buf @ encodeIntLoop [] v"
  using encodeIntLoop_prepend [of buf "[]" v] by simp

lemma EncodeInt_append: "EncodeInt buf p N v = buf @ EncodeInt [] p N v"
  by (simp add: EncodeInt_def) (metis append_assoc encodeIntLoop_prepend append_Nil2 encodeIntLoop_append)

lemma EncodeInt_hd: "EncodeInt [] p N v = (p OR ucast (min v (maxFirst N))) # tl (EncodeInt [] p N v)"
  by (subst encodeIntLoop_append [of "[_]"] EncodeInt_def)+ (auto simp: EncodeInt_def min_def encodeIntLoop_append [of "[_]"])

text \<open>The reference reader reads back what the writer wrote.\<close>

lemma refIntLoop_encode:
  "refIntLoop (encodeIntLoop [] v @ rest) = Some (unat v, length (encodeIntLoop [] v))"
proof (induction "unat v" arbitrary: v rule: less_induct)
  case less
  let ?b = "ucast (v AND 0x7f) OR 0x80 :: byte"
  show ?case
  proof (cases "v \<ge> 128")
    case True
    have "encodeIntLoop [] v = ?b # encodeIntLoop [] (drop_bit 7 v)"
      using True by (subst encodeIntLoop.simps) (simp add: encodeIntLoop_append [of "[_]"])
    moreover have "unat (drop_bit 7 v) < unat v" using True by (simp add: unat_drop_bit_div word_le_nat_alt)
    moreover have "?b AND 0x80 \<noteq> 0"
    proof -
      have "bit (?b AND 0x80) 7" by (simp add: bit_simps)
      then show ?thesis by (metis bit_0_eq bot_apply bot_bool_def)
    qed
    moreover have "unat (?b AND 0x7f) = unat v mod 128"
    proof -
      have "?b AND 0x7f = ucast (v AND 0x7f) AND 0x7f" unfolding byte_consts(2,3) by (rule or_exp_low)
      also have "unat (\<dots>) = unat v mod 128" 
        using unat_and_mask [of v 7] take_bit_nat_eq_self [of "unat v mod 128" 8]
          mod_less_divisor [of 128 "unat v"] by (simp add: byte_low7 unsigned_ucast_eq)
      finally show ?thesis .
    qed
    ultimately show ?thesis using less by (simp add: unat_drop_bit_div)
  next
    case False
    then have "unat v < 128" by (simp add: word_le_nat_alt)
    moreover have "(ucast v :: byte) AND 0x80 = 0"
      using \<open>unat v < 128\<close> bit_less_exp [of v 7 7] unfolding byte_consts(3) by (intro and_exp_0) (auto simp: bit_ucast_iff)
    moreover have "take_bit 8 (unat v) = unat v" using \<open>unat v < 128\<close> by (intro take_bit_nat_eq_self) simp
    ultimately show ?thesis using False
      by (subst (1 2) encodeIntLoop.simps) (simp add: byte_low7 unsigned_ucast_eq)
  qed
qed

lemma length_encodeIntLoop_pow: "unat v < 128 ^ Suc k \<Longrightarrow> length (encodeIntLoop [] v) \<le> Suc k"
proof (induction k arbitrary: v)
  case (Suc k)
  have "unat (drop_bit 7 v) < 128 ^ Suc k" using Suc.prems by (simp add: unat_drop_bit_div div_less_iff_less_mult)
  from Suc.IH [OF this] show ?case
    by (subst encodeIntLoop.simps) (simp add: encodeIntLoop_append [of "[_]"])
qed (subst encodeIntLoop.simps, simp add: word_le_nat_alt)

lemma length_encodeIntLoop: "length (encodeIntLoop [] v) \<le> 10"
proof -
  have "unat v < 2 ^ 64" using unsigned_less [of v, where 'a = nat] by simp
  then have "unat v < 128 ^ Suc 9" by simp
  from length_encodeIntLoop_pow [OF this] show ?thesis by simp
qed

lemma decodeInt_encodeInt:
  assumes "1 \<le> N" and "N \<le> 8" and "prefix AND (push_bit N 1 - 1) = 0"
  shows "HpackDecodeInt (EncodeInt [] prefix N v @ rest) N = (v, length (EncodeInt [] prefix N v))"
proof -
  have low: "unat (prefix OR ucast w :: byte) mod 2 ^ N = unat w" if "unat (w::u64) < 2 ^ N" for w
  proof -
    have "(prefix OR ucast w) AND (push_bit N 1 - 1) = ucast w AND (push_bit N 1 - 1)"
      using assms(3) by (simp only: bit.conj_disj_distrib2 or.left_neutral)
    then have "unat (prefix OR ucast w) mod 2 ^ N = unat (ucast w :: byte) mod 2 ^ N"
      using unat_and_mask [of "prefix OR ucast w" N] unat_and_mask [of "ucast w :: byte" N] by simp
    moreover have "take_bit 8 (unat w) = unat w"
    proof -
      have "(2::nat) ^ N \<le> 2 ^ 8" using assms(2) by (rule power_increasing) simp
      with that show ?thesis by (simp add: take_bit_nat_eq_self_iff)
    qed
    ultimately show ?thesis using that by (simp add: unsigned_ucast_eq)
  qed
  have v: "unat v < 2 ^ 64" using unsigned_less [of v, where 'a = nat] by simp
  have max: "unat (maxFirst N) = 2 ^ N - 1" using assms(2) by (rule unat_maxFirst)
  show ?thesis
  proof (cases "v < maxFirst N")
    case True
    then have "unat v < 2 ^ N - 1" using max by (simp add: word_less_nat_alt)
    with True low [of v] v show ?thesis
      by (simp add: decodeInt_ref [OF assms(1,2)] refInt_def EncodeInt_def)
  next
    case False
    then have "unat (v - maxFirst N) = unat v - (2 ^ N - 1)" and "2 ^ N - 1 \<le> unat v"
      using max by (simp_all add: unat_sub word_le_nat_alt not_less)
    moreover have "unat (prefix OR ucast (maxFirst N) :: byte) mod 2 ^ N = 2 ^ N - 1"
      using low [of "maxFirst N"] max by simp
    ultimately show ?thesis
      using False v length_encodeIntLoop [of "v - maxFirst N"]
      by (simp add: decodeInt_ref [OF assms(1,2)] refInt_def EncodeInt_def encodeIntLoop_append [of "[_]"] refIntLoop_encode)
  qed
qed

section \<open>Properties\<close>

text \<open>
  C27: the reader of HPACK integers agrees with the reader over the natural numbers: it returns that
  reader's number and byte count when the number fits 64 bits and has at most ten bytes after the
  first, and the failure result in every other case.  In particular no sum wraps around.
\<close>

theorem HpackDecodeInt_exact:
  assumes "1 \<le> N" and "N \<le> 8"
  shows "HpackDecodeInt data N =
    (case refInt data N of
       None \<Rightarrow> (0, 0)
     | Some (v, n) \<Rightarrow> if v < 2 ^ 64 \<and> n \<le> 11 then (of_nat v, n) else (0, 0))"
  using assms by (rule decodeInt_ref)

theorem HpackDecodeInt_exact_witness: "HpackDecodeInt [31, 154, 10] 5 = (1337, 3)"
  using HpackDecodeInt_exact [of 5 "[31, 154, 10]"] by (simp add: refInt_def)

text \<open>
  C28: every 64-bit value written with a prefix of one to eight bits, under any flag bits that leave
  the prefix free, is read back with exactly the bytes written consumed, whatever follows.
\<close>

theorem HpackDecodeInt_EncodeInt:
  assumes "1 \<le> N" and "N \<le> 8" and "prefix AND (push_bit N 1 - 1) = 0"
  shows "HpackDecodeInt (EncodeInt [] prefix N v @ rest) N = (v, length (EncodeInt [] prefix N v))"
  using assms by (rule decodeInt_encodeInt)

theorem HpackDecodeInt_EncodeInt_witness: "HpackDecodeInt (EncodeInt [] 0x20 5 4096 @ [1, 2]) 5 = (4096, length (EncodeInt [] 0x20 5 4096))"
  by (rule HpackDecodeInt_EncodeInt) simp_all

end
