(* ===== verification/Hpack_Huffman_Code.thy ===== *)
theory Hpack_Huffman_Code
  imports Alos_Prelude "HOL-Library.Sublist" "HOL-Library.Multiset"
begin

text \<open>
  The Huffman code of HPACK, the table \<open>huffmanCodes\<close> of \<open>core/hpack.go\<close>, entry by entry, and the facts
  about it on which the encoder and the decoder rest: the codes have 5 to 30 bits, none of them
  consists of ones only, and no code is a prefix of another.  Bit strings are lists of booleans,
  most significant bit first.
\<close>

section \<open>The table\<close>

definition huffmanCodes :: "(u32 \<times> nat) list" where
  "huffmanCodes = [
    (0x1ff8, 13), (0x7fffd8, 23), (0xfffffe2, 28), (0xfffffe3, 28), (0xfffffe4, 28), (0xfffffe5, 28),
    (0xfffffe6, 28), (0xfffffe7, 28), (0xfffffe8, 28), (0xffffea, 24), (0x3ffffffc, 30), (0xfffffe9, 28),
    (0xfffffea, 28), (0x3ffffffd, 30), (0xfffffeb, 28), (0xfffffec, 28), (0xfffffed, 28), (0xfffffee, 28),
    (0xfffffef, 28), (0xffffff0, 28), (0xffffff1, 28), (0xffffff2, 28), (0x3ffffffe, 30), (0xffffff3, 28),
    (0xffffff4, 28), (0xffffff5, 28), (0xffffff6, 28), (0xffffff7, 28), (0xffffff8, 28), (0xffffff9, 28),
    (0xffffffa, 28), (0xffffffb, 28), (0x14, 6), (0x3f8, 10), (0x3f9, 10), (0xffa, 12), (0x1ff9, 13),
    (0x15, 6), (0xf8, 8), (0x7fa, 11), (0x3fa, 10), (0x3fb, 10), (0xf9, 8), (0x7fb, 11), (0xfa, 8),
    (0x16, 6), (0x17, 6), (0x18, 6), (0x0, 5), (0x1, 5), (0x2, 5), (0x19, 6), (0x1a, 6), (0x1b, 6),
    (0x1c, 6), (0x1d, 6), (0x1e, 6), (0x1f, 6), (0x5c, 7), (0xfb, 8), (0x7ffc, 15), (0x20, 6), (0xffb, 12),
    (0x3fc, 10), (0x1ffa, 13), (0x21, 6), (0x5d, 7), (0x5e, 7), (0x5f, 7), (0x60, 7), (0x61, 7), (0x62, 7),
    (0x63, 7), (0x64, 7), (0x65, 7), (0x66, 7), (0x67, 7), (0x68, 7), (0x69, 7), (0x6a, 7), (0x6b, 7),
    (0x6c, 7), (0x6d, 7), (0x6e, 7), (0x6f, 7), (0x70, 7), (0x71, 7), (0x72, 7), (0xfc, 8), (0x73, 7),
    (0xfd, 8), (0x1ffb, 13), (0x7fff0, 19), (0x1ffc, 13), (0x3ffc, 14), (0x22, 6), (0x7ffd, 15), (0x3, 5),
    (0x23, 6), (0x4, 5), (0x24, 6), (0x5, 5), (0x25, 6), (0x26, 6), (0x27, 6), (0x6, 5), (0x74, 7),
    (0x75, 7), (0x28, 6), (0x29, 6), (0x2a, 6), (0x7, 5), (0x2b, 6), (0x76, 7), (0x2c, 6), (0x8, 5),
    (0x9, 5), (0x2d, 6), (0x77, 7), (0x78, 7), (0x79, 7), (0x7a, 7), (0x7b, 7), (0x7ffe, 15), (0x7fc, 11),
    (0x3ffd, 14), (0x1ffd, 13), (0xffffffc, 28), (0xfffe6, 20), (0x3fffd2, 22), (0xfffe7, 20),
    (0xfffe8, 20), (0x3fffd3, 22), (0x3fffd4, 22), (0x3fffd5, 22), (0x7fffd9, 23), (0x3fffd6, 22),
    (0x7fffda, 23), (0x7fffdb, 23), (0x7fffdc, 23), (0x7fffdd, 23), (0x7fffde, 23), (0xffffeb, 24),
    (0x7fffdf, 23), (0xffffec, 24), (0xffffed, 24), (0x3fffd7, 22), (0x7fffe0, 23), (0xffffee, 24),
    (0x7fffe1, 23), (0x7fffe2, 23), (0x7fffe3, 23), (0x7fffe4, 23), (0x1fffdc, 21), (0x3fffd8, 22),
    (0x7fffe5, 23), (0x3fffd9, 22), (0x7fffe6, 23), (0x7fffe7, 23), (0xffffef, 24), (0x3fffda, 22),
    (0x1fffdd, 21), (0xfffe9, 20), (0x3fffdb, 22), (0x3fffdc, 22), (0x7fffe8, 23), (0x7fffe9, 23),
    (0x1fffde, 21), (0x7fffea, 23), (0x3fffdd, 22), (0x3fffde, 22), (0xfffff0, 24), (0x1fffdf, 21),
    (0x3fffdf, 22), (0x7fffeb, 23), (0x7fffec, 23), (0x1fffe0, 21), (0x1fffe1, 21), (0x3fffe0, 22),
    (0x1fffe2, 21), (0x7fffed, 23), (0x3fffe1, 22), (0x7fffee, 23), (0x7fffef, 23), (0xfffea, 20),
    (0x3fffe2, 22), (0x3fffe3, 22), (0x3fffe4, 22), (0x7ffff0, 23), (0x3fffe5, 22), (0x3fffe6, 22),
    (0x7ffff1, 23), (0x3ffffe0, 26), (0x3ffffe1, 26), (0xfffeb, 20), (0x7fff1, 19), (0x3fffe7, 22),
    (0x7ffff2, 23), (0x3fffe8, 22), (0x1ffffec, 25), (0x3ffffe2, 26), (0x3ffffe3, 26), (0x3ffffe4, 26),
    (0x7ffffde, 27), (0x7ffffdf, 27), (0x3ffffe5, 26), (0xfffff1, 24), (0x1ffffed, 25), (0x7fff2, 19),
    (0x1fffe3, 21), (0x3ffffe6, 26), (0x7ffffe0, 27), (0x7ffffe1, 27), (0x3ffffe7, 26), (0x7ffffe2, 27),
    (0xfffff2, 24), (0x1fffe4, 21), (0x1fffe5, 21), (0x3ffffe8, 26), (0x3ffffe9, 26), (0xffffffd, 28),
    (0x7ffffe3, 27), (0x7ffffe4, 27), (0x7ffffe5, 27), (0xfffec, 20), (0xfffff3, 24), (0xfffed, 20),
    (0x1fffe6, 21), (0x3fffe9, 22), (0x1fffe7, 21), (0x1fffe8, 21), (0x7ffff3, 23), (0x3fffea, 22),
    (0x3fffeb, 22), (0x1ffffee, 25), (0x1ffffef, 25), (0xfffff4, 24), (0xfffff5, 24), (0x3ffffea, 26),
    (0x7ffff4, 23), (0x3ffffeb, 26), (0x7ffffe6, 27), (0x3ffffec, 26), (0x3ffffed, 26), (0x7ffffe7, 27),
    (0x7ffffe8, 27), (0x7ffffe9, 27), (0x7ffffea, 27), (0x7ffffeb, 27), (0xffffffe, 28), (0x7ffffec, 27),
    (0x7ffffed, 27), (0x7ffffee, 27), (0x7ffffef, 27), (0x7fffff0, 27), (0x3ffffee, 26), (0x3fffffff, 30)]"

definition code_of :: "byte \<Rightarrow> u32" where
  "code_of c = fst (huffmanCodes ! unat c)"

definition bits_of :: "byte \<Rightarrow> nat" where
  "bits_of c = snd (huffmanCodes ! unat c)"

section \<open>Words as bit strings\<close>

definition word_bits :: "nat \<Rightarrow> 'a::len word \<Rightarrow> bool list" where
  "word_bits k w = map (bit w) (rev [0..<k])"

definition code_bits :: "byte \<Rightarrow> bool list" where
  "code_bits c = word_bits (bits_of c) (code_of c)"

lemma length_word_bits [simp]: "length (word_bits k w) = k"
  by (simp add: word_bits_def)

lemma nth_word_bits: "i < k \<Longrightarrow> word_bits k w ! i = bit w (k - 1 - i)"
  by (simp add: word_bits_def rev_nth)

lemma word_bits_eq_iff: "word_bits k v = word_bits k w \<longleftrightarrow> (\<forall>i < k. bit v i = bit w i)"
  by (auto simp: word_bits_def)

lemma word_bits_0 [simp]: "word_bits 0 w = []"
  by (simp add: word_bits_def)

lemma word_bits_append:
  assumes "\<And>i. bit y i \<Longrightarrow> i < n" and "m + n \<le> LENGTH('a)"
  shows "word_bits (m + n) (push_bit n x OR y :: 'a::len word) = word_bits m x @ word_bits n y"
proof (rule nth_equalityI)
  fix i assume i: "i < length (word_bits (m + n) (push_bit n x OR y))"
  show "word_bits (m + n) (push_bit n x OR y) ! i = (word_bits m x @ word_bits n y) ! i"
  proof (cases "i < m")
    case True
    then have "m + n - 1 - i = n + (m - 1 - i)" by simp
    moreover from this have "\<not> bit y (m + n - 1 - i)" using assms(1) by (metis not_add_less1)
    ultimately show ?thesis using True assms(2) by (auto simp: nth_word_bits nth_append bit_or_iff bit_push_bit_iff)
  next
    case False
    then have "n - 1 - (i - m) = m + n - 1 - i" "m + n - 1 - i < n" using i by auto
    with False i assms show ?thesis by (auto simp: nth_word_bits nth_append bit_or_iff bit_push_bit_iff)
  qed
qed simp

lemma take_word_bits: "k \<le> n \<Longrightarrow> take k (word_bits n w) = word_bits k (drop_bit (n - k) w)"
  by (rule nth_equalityI) (auto simp: nth_word_bits bit_drop_bit_eq intro!: arg_cong [where f = "bit w"])

lemma drop_word_bits: "k \<le> n \<Longrightarrow> drop k (word_bits n w) = word_bits (n - k) w"
  by (rule nth_equalityI) (auto simp: nth_word_bits intro!: arg_cong [where f = "bit w"])

lemma word_bits_mask [simp]: "word_bits k (w AND (push_bit k 1 - 1)) = word_bits k w"
  by (auto simp: word_bits_eq_iff mask_eq_exp_minus_1 [symmetric] bit_and_iff bit_mask_iff dest: bit_imp_le_length)

lemma word_bits_ucast: "k \<le> LENGTH('b) \<Longrightarrow> word_bits k (ucast w :: 'b::len word) = word_bits k (w :: 'a::len word)"
  by (auto simp: word_bits_eq_iff bit_ucast_iff)

lemma word_bits_inj: "word_bits LENGTH('a) v = word_bits LENGTH('a) w \<Longrightarrow> v = (w :: 'a::len word)"
  by (auto simp: word_bits_eq_iff intro: bit_word_eqI)

section \<open>The code is prefix-free\<close>

text \<open>The numbers below \<open>2 ^ 30\<close> whose leading bits are a given code, as an interval.\<close>

definition code_interval :: "u32 \<times> nat \<Rightarrow> int \<times> int" where
  "code_interval e = (uint (fst e) * 2 ^ (30 - snd e), (uint (fst e) + 1) * 2 ^ (30 - snd e))"

lemma length_huffmanCodes: "length huffmanCodes = 257"
  by (simp add: huffmanCodes_def)

lemma code_ranges: "list_all (\<lambda>(c, b). 5 \<le> b \<and> b \<le> 30 \<and> unat c < 2 ^ b - 1) (take 256 huffmanCodes)"
  by (simp add: huffmanCodes_def)


fun separated_from :: "int \<Rightarrow> (int \<times> int) list \<Rightarrow> bool" where
  "separated_from b [] \<longleftrightarrow> True"
| "separated_from b (x # xs) \<longleftrightarrow> b \<le> fst x \<and> fst x < snd x \<and> separated_from (snd x) xs"

lemma codes_separated: "separated_from 0 (sort_key fst (map code_interval (take 256 huffmanCodes)))"
  by code_simp


lemma separated_from_sorted:
  "separated_from b xs \<Longrightarrow> sorted_wrt (\<lambda>x y. snd x \<le> fst y) xs \<and> (\<forall>x \<in> set xs. b \<le> fst x \<and> fst x < snd x)"
  by (induction xs arbitrary: b) fastforce+

lemma separated_from_distinct: "separated_from b xs \<Longrightarrow> distinct xs"
  by (induction xs arbitrary: b) (fastforce dest: separated_from_sorted)+

lemma intervals_disjoint:
  assumes "separated_from 0 (sort_key fst xs)" and "i < length xs" and "j < length xs" and "i \<noteq> j"
  shows "snd (xs ! i) \<le> fst (xs ! j) \<or> snd (xs ! j) \<le> fst (xs ! i)"
proof -
  let ?ys = "sort_key fst xs"
  have "distinct xs" using separated_from_distinct [OF assms(1)] by simp
  then have "xs ! i \<noteq> xs ! j" using assms by (simp add: nth_eq_iff_index_eq)
  moreover obtain p q where "p < length ?ys" "q < length ?ys" "?ys ! p = xs ! i" "?ys ! q = xs ! j"
    using assms by (metis in_set_conv_nth nth_mem set_sort)
  ultimately show ?thesis
    using separated_from_sorted [OF assms(1)] by (metis linorder_neqE_nat sorted_wrt_nth_less)
qed

lemma code_nth: "huffmanCodes ! unat c = (code_of c, bits_of c)"
  by (simp add: code_of_def bits_of_def)

lemma byte_lt: "unat (c :: byte) < 256"
  using unsigned_less [of c, where 'a = nat] by simp

lemma code_range: "5 \<le> bits_of c" "bits_of c \<le> 30" "unat (code_of c) < 2 ^ bits_of c - 1"
proof -
  have "huffmanCodes ! unat c \<in> set (take 256 huffmanCodes)"
    using byte_lt [of c] by (auto simp: in_set_conv_nth length_huffmanCodes)
  then show "5 \<le> bits_of c" "bits_of c \<le> 30" "unat (code_of c) < 2 ^ bits_of c - 1"
    using code_ranges by (auto simp: list_all_iff code_nth)
qed

lemma bit_code_of: "bit (code_of c) i \<Longrightarrow> i < bits_of c"
  using bit_less_exp [of "code_of c" "bits_of c" i] code_range(3) [of c] by simp

lemma length_code_bits [simp]: "length (code_bits c) = bits_of c"
  by (simp add: code_bits_def)

lemma code_intervals:
  "a \<noteq> b \<Longrightarrow> snd (code_interval (code_of a, bits_of a)) \<le> fst (code_interval (code_of b, bits_of b))
     \<or> snd (code_interval (code_of b, bits_of b)) \<le> fst (code_interval (code_of a, bits_of a))"
  using intervals_disjoint [OF codes_separated, of "unat a" "unat b"] byte_lt [of a] byte_lt [of b]
  by (simp add: length_huffmanCodes code_nth word_unat_eq_iff)

lemma code_bits_prefix_free:
  assumes "prefix (code_bits a) (code_bits b)"
  shows "a = b"
proof (rule ccontr)
  assume "a \<noteq> b"
  let ?k = "bits_of a" and ?n = "bits_of b"
  have le: "?k \<le> ?n" using prefix_length_le [OF assms] by simp
  have "take ?k (code_bits b) = code_bits a" using assms by (metis append_eq_conv_conj length_code_bits prefixE)
  then have eq: "word_bits ?k (drop_bit (?n - ?k) (code_of b)) = word_bits ?k (code_of a)"
    using le by (simp add: code_bits_def take_word_bits)
  have "drop_bit (?n - ?k) (code_of b) = code_of a"
  proof (rule bit_word_eqI)
    fix i
    show "bit (drop_bit (?n - ?k) (code_of b)) i = bit (code_of a) i"
    proof (cases "i < ?k")
      case False
      then show ?thesis using bit_code_of [of a i] bit_code_of [of b "?n - ?k + i"] le by (auto simp: bit_drop_bit_eq)
    qed (use eq in \<open>simp add: word_bits_eq_iff\<close>)
  qed
  then have "unat (code_of b) div 2 ^ (?n - ?k) = unat (code_of a)" by (metis unat_drop_bit_div)
  then have div: "uint (code_of a) = uint (code_of b) div 2 ^ (?n - ?k)"
    by (metis of_nat_div of_nat_numeral of_nat_power of_nat_unat)
  define d where "d = (2::int) ^ (?n - ?k)"
  define e where "e = (2::int) ^ (30 - ?n)"
  have pow: "2 ^ (30 - ?k) = d * e"
    using le code_range(2) [of b] by (simp add: d_def e_def power_add [symmetric])
  have pos: "d > 0" "e > 0" by (simp_all add: d_def e_def)
  have "uint (code_of a) * d \<le> uint (code_of b)" "uint (code_of b) < (uint (code_of a) + 1) * d"
    unfolding div d_def [symmetric] distrib_right
    using div_mod_decomp_int [of "uint (code_of b)" d] pos_mod_bound [OF pos(1), of "uint (code_of b)"]
      pos_mod_sign [OF pos(1), of "uint (code_of b)"] by linarith+
  then have "uint (code_of a) * d * e \<le> uint (code_of b) * e" "(uint (code_of b)) * e < (uint (code_of a) + 1) * d * e"
    using pos(2) by simp_all
  moreover have "(uint (code_of b) + 1) * e = uint (code_of b) * e + e" by (simp add: algebra_simps)
  ultimately show False
    using code_intervals [OF \<open>a \<noteq> b\<close>] pos(2) unfolding code_interval_def fst_conv snd_conv pow e_def [symmetric] mult.assoc [symmetric]
    by linarith
qed

lemma code_bits_unique:
  assumes "prefix (code_bits a) xs" and "prefix (code_bits b) xs"
  shows "a = b"
  using assms prefix_same_cases code_bits_prefix_free by metis

text \<open>No code is a prefix of a string of ones, so padding with ones is never a symbol.\<close>

lemma code_bits_not_ones: "False \<in> set (code_bits c)"
proof (rule ccontr)
  assume "False \<notin> set (code_bits c)"
  then have "bit (code_of c) i" if "i < bits_of c" for i using that by (force simp: code_bits_def word_bits_def)
  then have "code_of c = mask (bits_of c)" using bit_code_of by (auto intro!: bit_word_eqI simp: bit_mask_iff dest: bit_imp_le_length)
  moreover have "unat (mask (bits_of c) :: u32) = 2 ^ bits_of c - 1"
    using unat_mask_word [of "bits_of c", where 'a = 32] code_range(2) [of c] by (simp add: mask_eq_exp_minus_1)
  ultimately show False using code_range(3) [of c] by simp
qed

section \<open>Encoded strings\<close>

definition enc_bits :: "gostring \<Rightarrow> bool list" where
  "enc_bits s = concat (map code_bits s)"

lemma enc_bits_simps [simp]:
  "enc_bits [] = []" "enc_bits (c # s) = code_bits c @ enc_bits s" "enc_bits (s @ t) = enc_bits s @ enc_bits t"
  by (simp_all add: enc_bits_def)

definition no_code :: "bool list \<Rightarrow> bool" where
  "no_code xs \<longleftrightarrow> (\<forall>c. \<not> prefix (code_bits c) xs)"

lemma no_code_ones: "False \<notin> set xs \<Longrightarrow> no_code xs"
  unfolding no_code_def by (metis code_bits_not_ones set_mono_prefix subsetD)

lemma no_code_short: "length xs < 5 \<Longrightarrow> no_code xs"
  unfolding no_code_def using code_range(1) prefix_length_le by (metis length_code_bits not_less le_trans)

text \<open>Two decompositions of a string into codes and a rest agree, up to where one of them stops.\<close>

lemma enc_bits_cancel:
  "enc_bits s @ u = enc_bits t @ v \<Longrightarrow> (\<exists>r. t = s @ r \<and> u = enc_bits r @ v) \<or> (\<exists>r. s = t @ r \<and> v = enc_bits r @ u)"
proof (induction s arbitrary: t)
  case (Cons c s)
  show ?case
  proof (cases t)
    case t: (Cons d t')
    have "prefix (code_bits c) (enc_bits (c # s) @ u)" by simp
    then have "prefix (code_bits c) (enc_bits t @ v)" by (simp only: Cons.prems)
    moreover have "prefix (code_bits d) (enc_bits t @ v)" using t by simp
    ultimately have "c = d" by (rule code_bits_unique)
    with Cons.prems t Cons.IH [of t'] show ?thesis by auto
  qed (use Cons.prems in auto)
qed simp

end
