(* ===== verification/Hpack_Huffman.thy ===== *)
theory Hpack_Huffman
  imports Hpack_Huffman_Code
begin

text \<open>
  Huffman strings, \<open>hpackHuffmanEncodedLen\<close>, \<open>hpackHuffmanAppend\<close>, \<open>buildHuffmanDecodeTable\<close>,
  \<open>huffmanLookup\<close>, \<open>hpackHuffmanDecode\<close> and \<open>hpackHuffmanDecodeInto\<close> of \<open>core/hpack.go\<close>.  The bit
  buffers are 64-bit words, as in the source.  The decoder accepts exactly the strings the
  encoder writes and returns what was encoded; the announced length is the length written.
\<close>

section \<open>Encoder\<close>

definition huffBitLen :: "byte \<Rightarrow> nat" where
  "huffBitLen c = snd (huffmanCodes ! unat c)"

text \<open>The two loops of \<open>hpackHuffmanEncodedLen\<close>, four bytes at a time and then one.\<close>

fun encodedLenLoop :: "nat \<Rightarrow> gostring \<Rightarrow> nat" where
  "encodedLenLoop bits (a # b # c # d # s) =
     encodedLenLoop (bits + (huffBitLen a + huffBitLen b + huffBitLen c + huffBitLen d)) s"
| "encodedLenLoop bits (a # s) = encodedLenLoop (bits + huffBitLen a) s"
| "encodedLenLoop bits [] = bits"

definition hpackHuffmanEncodedLen :: "gostring \<Rightarrow> nat" where
  "hpackHuffmanEncodedLen s = (encodedLenLoop 0 s + 7) div 8"

fun huffFlush :: "byte list \<Rightarrow> u64 \<Rightarrow> nat \<Rightarrow> byte list \<times> nat" where
  "huffFlush dst cur nbits =
     (if nbits \<ge> 8 then huffFlush (dst @ [ucast (drop_bit (nbits - 8) cur)]) cur (nbits - 8) else (dst, nbits))"

declare huffFlush.simps [simp del]

fun huffAppendLoop :: "byte list \<Rightarrow> u64 \<Rightarrow> nat \<Rightarrow> gostring \<Rightarrow> byte list" where
  "huffAppendLoop dst cur nbits [] =
     (if nbits > 0 then dst @ [ucast (push_bit (8 - nbits) cur OR drop_bit nbits 0xff)] else dst)"
| "huffAppendLoop dst cur nbits (c # s) =
     (let entry = huffmanCodes ! unat c;
          cur = push_bit (snd entry) cur OR ucast (fst entry)
      in case huffFlush dst cur (nbits + snd entry) of (dst, nbits) \<Rightarrow> huffAppendLoop dst cur nbits s)"

definition hpackHuffmanAppend :: "byte list \<Rightarrow> gostring \<Rightarrow> byte list" where
  "hpackHuffmanAppend dst s = huffAppendLoop dst 0 0 s"

section \<open>Decoding tables and lookup\<close>

type_synonym huffPrimEntry = "byte \<times> nat"
type_synonym huffLongEntry = "u32 \<times> byte"
type_synonym huffTables = "huffPrimEntry list \<times> huffLongEntry list list"

definition fillPrimary :: "byte \<Rightarrow> nat \<Rightarrow> huffPrimEntry list \<Rightarrow> nat \<Rightarrow> huffPrimEntry list" where
  "fillPrimary symb bits tab idx =
     (if idx < 256 \<and> (snd (tab ! idx) = 0 \<or> bits < snd (tab ! idx)) then tab[idx := (symb, bits)] else tab)"

definition addSymbol :: "huffTables \<Rightarrow> nat \<Rightarrow> huffTables" where
  "addSymbol t symb =
     (let (code, bits) = huffmanCodes ! symb in
      if bits \<le> 8 then
        let base = unat code * 2 ^ (8 - bits) in
        (foldl (fillPrimary (of_nat symb) bits) (fst t) (map ((+) base) [0..<2 ^ (8 - bits)]), snd t)
      else (fst t, (snd t)[bits := snd t ! bits @ [(code, of_nat symb)]]))"

definition buildHuffmanDecodeTable :: huffTables where
  "buildHuffmanDecodeTable = foldl addSymbol (replicate 256 (0, 0), replicate 31 []) [0..<256]"

definition huffPrimary :: "huffPrimEntry list" where "huffPrimary = fst buildHuffmanDecodeTable"
definition huffLong :: "huffLongEntry list list" where "huffLong = snd buildHuffmanDecodeTable"

definition hpackHuffmanMaxCodeBits :: nat where "hpackHuffmanMaxCodeBits = 30"

text \<open>The loop over the groups of long codes, from length \<open>b\<close> on.\<close>

function huffLongLoop :: "u64 \<Rightarrow> nat \<Rightarrow> nat \<Rightarrow> byte \<times> nat" where
  "huffLongLoop bits nbits b =
     (if b \<le> nbits \<and> b \<le> hpackHuffmanMaxCodeBits then
        case find (\<lambda>g. fst g = ucast (drop_bit (nbits - b) bits)) (huffLong ! b) of
          Some g \<Rightarrow> (snd g, b)
        | None \<Rightarrow> huffLongLoop bits nbits (b + 1)
      else (0, 0))"
  by auto
termination by (relation "measure (\<lambda>(_, nbits, b). nbits + 1 - b)") auto

declare huffLongLoop.simps [simp del]

definition huffmanLookup :: "u64 \<Rightarrow> nat \<Rightarrow> byte \<times> nat" where
  "huffmanLookup bits nbits =
     (if nbits \<ge> 8 then
        let e = huffPrimary ! unat (ucast (drop_bit (nbits - 8) bits) :: byte) in
        if snd e > 0 then e else huffLongLoop bits nbits 9
      else
        let e = huffPrimary ! unat (ucast (push_bit (8 - nbits) bits) :: byte) in
        if snd e > 0 \<and> snd e \<le> nbits then e else (0, 0))"

section \<open>Decoder\<close>

text \<open>The inner loop: symbols are taken off the buffer while one is complete.\<close>

function huffDrain :: "byte list \<Rightarrow> u64 \<Rightarrow> nat \<Rightarrow> (byte list \<times> u64 \<times> nat) option" where
  "huffDrain dst bits nbits =
     (if nbits \<ge> 5 then
        case huffmanLookup bits nbits of (decoded, codeLen) \<Rightarrow>
          if codeLen = 0 then (if nbits \<ge> hpackHuffmanMaxCodeBits then None else Some (dst, bits, nbits))
          else huffDrain (dst @ [decoded]) (bits AND (push_bit (nbits - codeLen) 1 - 1)) (nbits - codeLen)
      else Some (dst, bits, nbits))"
  by auto
termination by (relation "measure (\<lambda>(_, _, nbits). nbits)") auto

declare huffDrain.simps [simp del]

fun huffDecodeLoop :: "byte list \<Rightarrow> u64 \<Rightarrow> nat \<Rightarrow> byte list \<Rightarrow> byte list option" where
  "huffDecodeLoop dst bits nbits [] =
     (if nbits > 7 \<or> nbits > 0 \<and> bits \<noteq> push_bit nbits 1 - 1 then None else Some dst)"
| "huffDecodeLoop dst bits nbits (b # src) =
     (case huffDrain dst (push_bit 8 bits OR ucast b) (nbits + 8) of
        None \<Rightarrow> None
      | Some (dst, bits, nbits) \<Rightarrow> huffDecodeLoop dst bits nbits src)"

definition hpackHuffmanDecode :: "byte list \<Rightarrow> gostring option" where
  "hpackHuffmanDecode src = huffDecodeLoop [] 0 0 src"

section \<open>The encoder writes the bits of the codes, padded with ones\<close>

definition bytes_bits :: "byte list \<Rightarrow> bool list" where
  "bytes_bits bs = concat (map (word_bits 8) bs)"

lemma bytes_bits_simps [simp]:
  "bytes_bits [] = []" "bytes_bits (b # bs) = word_bits 8 b @ bytes_bits bs" "bytes_bits (xs @ ys) = bytes_bits xs @ bytes_bits ys"
  by (simp_all add: bytes_bits_def)

lemma length_bytes_bits [simp]: "length (bytes_bits bs) = 8 * length bs"
  by (induction bs) auto

lemma bytes_bits_inj: "bytes_bits xs = bytes_bits ys \<Longrightarrow> xs = ys"
proof (induction xs arbitrary: ys)
  case (Cons x xs)
  then have "length ys = Suc (length xs)" by (metis length_bytes_bits length_Cons mult_cancel1 zero_neq_numeral)
  then obtain y ys' where "ys = y # ys'" by (cases ys) auto
  with Cons show ?case using word_bits_inj [of x y] by simp
next
  case Nil
  then show ?case by (metis length_0_conv length_bytes_bits mult_eq_0_iff zero_neq_numeral)
qed

lemma top_byte_bits: "8 \<le> n \<Longrightarrow> word_bits 8 (ucast (drop_bit (n - 8) w) :: byte) @ word_bits (n - 8) w = word_bits n (w :: u64)"
  using take_word_bits [of 8 n w] drop_word_bits [of 8 n w] append_take_drop_id [of 8 "word_bits n w"]
  by (simp add: word_bits_ucast)

lemma huffFlush_spec:
  "huffFlush dst cur nbits = (dst', n) \<Longrightarrow> n < 8 \<and> bytes_bits dst' @ word_bits n cur = bytes_bits dst @ word_bits nbits cur"
proof (induction dst cur nbits rule: huffFlush.induct)
  case (1 dst cur nbits)
  show ?case
  proof (cases "nbits \<ge> 8")
    case True
    then show ?thesis using 1 top_byte_bits [OF True, of cur] by (subst (asm) (2) huffFlush.simps) simp
  next
    case False
    then show ?thesis using 1 by (subst (asm) (2) huffFlush.simps) simp
  qed
qed

lemma word_bits_ones: "n \<le> LENGTH('a) \<Longrightarrow> word_bits n (mask n :: 'a::len word) = replicate n True"
  by (rule nth_equalityI) (auto simp: nth_word_bits bit_mask_iff)

lemma pad_bits:
  assumes "n < 8"
  shows "word_bits 8 (ucast (push_bit (8 - n) cur OR drop_bit n 0xff :: u64) :: byte) = word_bits n cur @ replicate (8 - n) True"
proof -
  have "drop_bit n 0xff = (mask (8 - n) :: u64)"
  proof -
    have "drop_bit n (mask 8 :: u64) = mask (8 - n)"
      by (rule bit_word_eqI) (auto simp: bit_drop_bit_eq bit_mask_iff)
    moreover have "(0xff :: u64) = mask 8" by (simp add: mask_numeral)
    ultimately show ?thesis by (simp only:)
  qed
  moreover have "word_bits (n + (8 - n)) (push_bit (8 - n) cur OR mask (8 - n) :: u64) = word_bits n cur @ word_bits (8 - n) (mask (8 - n) :: u64)"
    using assms by (intro word_bits_append) (auto simp: bit_mask_iff)
  ultimately show ?thesis using assms by (simp add: word_bits_ucast word_bits_ones)
qed

definition pad_len :: "nat \<Rightarrow> nat" where
  "pad_len n = (8 - n mod 8) mod 8"

lemma pad_len_unique: "p \<le> 7 \<Longrightarrow> (n + p) mod 8 = 0 \<Longrightarrow> p = pad_len n"
proof -
  define r where "r = n mod 8"
  assume p: "p \<le> 7" and "(n + p) mod 8 = 0"
  then have "8 dvd r + p" unfolding r_def by (simp add: dvd_eq_mod_eq_0 mod_simps)
  then obtain k where k: "r + p = 8 * k" by (auto simp: dvd_def)
  moreover have "r < 8" by (simp add: r_def)
  ultimately have "k = 0 \<or> k = 1" using p by linarith
  then show ?thesis 
  proof
    assume "k = 1"
    then have "8 - r = p" using k by simp
    then show ?thesis unfolding pad_len_def r_def [symmetric] using p by simp
  qed (use k in \<open>simp add: pad_len_def r_def [symmetric]\<close>)
qed

lemma huffAppendLoop_bits:
  "nbits < 8 \<Longrightarrow> bytes_bits (huffAppendLoop dst cur nbits s)
     = bytes_bits dst @ word_bits nbits cur @ enc_bits s @ replicate (pad_len (nbits + length (enc_bits s))) True"
proof (induction s arbitrary: dst cur nbits)
  case Nil
  then show ?case by (cases "nbits = 0") (simp_all add: pad_bits pad_len_def)
next
  case (Cons c s)
  let ?cur = "push_bit (bits_of c) cur OR ucast (code_of c) :: u64"
  obtain dst' n where f: "huffFlush dst ?cur (nbits + bits_of c) = (dst', n)" by fastforce
  from huffFlush_spec [OF f] have n: "n < 8" and eq: "bytes_bits dst' @ word_bits n ?cur = bytes_bits dst @ word_bits (nbits + bits_of c) ?cur" by auto
  have "word_bits (nbits + bits_of c) ?cur = word_bits nbits cur @ word_bits (bits_of c) (ucast (code_of c) :: u64)"
    using Cons.prems code_range(2) [of c] by (intro word_bits_append) (auto simp: bit_ucast_iff dest: bit_code_of)
  also have "\<dots> = word_bits nbits cur @ code_bits c"
    using code_range(2) [of c] by (simp add: code_bits_def word_bits_ucast)
  finally have all: "bytes_bits dst' @ word_bits n ?cur = bytes_bits dst @ word_bits nbits cur @ code_bits c" using eq by simp
  have "8 * length dst' + n = 8 * length dst + (nbits + bits_of c)" using arg_cong [OF all, of length] by simp
  then have "n + length (enc_bits s) + 8 * length dst' = nbits + (bits_of c + length (enc_bits s)) + 8 * length dst" by simp
  then have "(n + length (enc_bits s)) mod 8 = (nbits + (bits_of c + length (enc_bits s))) mod 8"
    by (metis mod_mult_self2)
  then have pad: "pad_len (n + length (enc_bits s)) = pad_len (nbits + length (enc_bits (c # s)))" by (simp add: pad_len_def)
  have "huffAppendLoop dst cur nbits (c # s) = huffAppendLoop dst' ?cur n s" using f by (simp add: code_nth Let_def)
  then have "bytes_bits (huffAppendLoop dst cur nbits (c # s)) = (bytes_bits dst' @ word_bits n ?cur) @ enc_bits s @ replicate (pad_len (n + length (enc_bits s))) True"
    using Cons.IH [OF n] by simp
  then show ?case unfolding all pad by simp
qed

lemma hpackHuffmanAppend_bits:
  "bytes_bits (hpackHuffmanAppend dst s) = bytes_bits dst @ enc_bits s @ replicate (pad_len (length (enc_bits s))) True"
  using huffAppendLoop_bits [of 0 dst 0 s] by (simp add: hpackHuffmanAppend_def)

lemma hpackHuffmanAppend_dst: "hpackHuffmanAppend dst s = dst @ hpackHuffmanAppend [] s"
  by (rule bytes_bits_inj) (simp add: hpackHuffmanAppend_bits)

lemma encodedLenLoop_sum: "encodedLenLoop n s = n + length (enc_bits s)"
  by (induction n s rule: encodedLenLoop.induct) (auto simp: huffBitLen_def code_nth)

section \<open>The tables hold the codes\<close>

lemma bit_unat_word: "bit (unat (w :: 'a::len word)) i = bit w i"
  by (auto simp: bit_unsigned_iff dest: bit_imp_le_length)

lemma word_bits_unat:
  assumes "unat (v :: 'a::len word) < 2 ^ k" and "unat (w :: 'b::len word) < 2 ^ k"
  shows "word_bits k v = word_bits k w \<longleftrightarrow> unat v = unat w"
proof
  assume eq: "word_bits k v = word_bits k w"
  show "unat v = unat w"
  proof (rule bit_eqI)
    fix i
    have "\<not> bit v i \<and> \<not> bit w i" if "\<not> i < k" using that bit_less_exp [OF assms(1)] bit_less_exp [OF assms(2)] by blast
    moreover have "bit v i = bit w i" if "i < k"
    proof -
      have "word_bits k v ! (k - 1 - i) = word_bits k w ! (k - 1 - i)" using eq by simp
      then show ?thesis using that by (simp add: nth_word_bits)
    qed
    ultimately show "bit (unat v) i = bit (unat w) i" unfolding bit_unat_word by blast
  qed
next
  assume "unat v = unat w"
  then have "bit v i = bit w i" for i unfolding bit_unat_word [symmetric] by simp
  then show "word_bits k v = word_bits k w" by (simp add: word_bits_def)
qed

lemma code_lt: "unat (code_of c) < 2 ^ bits_of c"
  using code_range(3) [of c] by simp

lemma prefix_take_iff: "length p \<le> n \<Longrightarrow> prefix p (take n xs) \<longleftrightarrow> prefix p xs"
  by (metis append_eq_conv_conj min_absorb1 prefix_def take_is_prefix take_take)

lemma prefix_code_iff:
  assumes "unat (w :: 'a::len word) < 2 ^ n" and "bits_of c \<le> n"
  shows "prefix (code_bits c) (word_bits n w) \<longleftrightarrow> unat w div 2 ^ (n - bits_of c) = unat (code_of c)"
proof -
  have "prefix (code_bits c) (word_bits n w) \<longleftrightarrow> take (bits_of c) (word_bits n w) = code_bits c"
    by (metis append_eq_conv_conj length_code_bits prefixE take_is_prefix)
  also have "\<dots> \<longleftrightarrow> word_bits (bits_of c) (drop_bit (n - bits_of c) w) = word_bits (bits_of c) (code_of c)"
    using assms(2) by (simp add: take_word_bits code_bits_def)
  also have "\<dots> \<longleftrightarrow> unat (drop_bit (n - bits_of c) w) = unat (code_of c)"
  proof (rule word_bits_unat)
    have "(2::nat) ^ n = 2 ^ bits_of c * 2 ^ (n - bits_of c)" using assms(2) by (simp add: power_add [symmetric])
    then show "unat (drop_bit (n - bits_of c) w) < 2 ^ bits_of c"
      using assms(1) by (simp add: unat_drop_bit_div div_less_iff_less_mult)
  qed (rule code_lt)
  finally show ?thesis by (simp add: unat_drop_bit_div)
qed

definition short_match :: "byte \<Rightarrow> byte \<Rightarrow> bool" where
  "short_match c w \<longleftrightarrow> bits_of c \<le> 8 \<and> prefix (code_bits c) (word_bits 8 w)"

lemma short_match_iff: "bits_of c \<le> 8 \<Longrightarrow> short_match c w \<longleftrightarrow>
    unat w \<in> set (map ((+) (unat (code_of c) * 2 ^ (8 - bits_of c))) [0..<2 ^ (8 - bits_of c)])"
proof -
  let ?p = "(2::nat) ^ (8 - bits_of c)" and ?b = "unat (code_of c)"
  assume le: "bits_of c \<le> 8"
  have "short_match c w \<longleftrightarrow> unat w div ?p = ?b"
    using prefix_code_iff [of w 8 c] byte_lt [of w] le by (simp add: short_match_def)
  also have "\<dots> \<longleftrightarrow> ?b * ?p \<le> unat w \<and> unat w < ?b * ?p + ?p"
  proof
    assume d: "unat w div ?p = ?b"
    show "?b * ?p \<le> unat w \<and> unat w < ?b * ?p + ?p"
      unfolding d [symmetric] using dividend_less_div_times [of ?p "unat w"] by simp
  qed (intro div_nat_eqI, auto simp: mult.commute)
  also have "\<dots> \<longleftrightarrow> unat w \<in> set (map ((+) (?b * ?p)) [0..<?p])"
    by (auto simp: image_iff intro!: bexI [of _ "unat w - ?b * ?p"])
  finally show ?thesis .
qed

definition primary_ok :: "nat \<Rightarrow> huffPrimEntry list \<Rightarrow> bool" where
  "primary_ok n tab \<longleftrightarrow> length tab = 256
     \<and> (\<forall>w. (\<forall>c. unat c < n \<and> short_match c w \<longrightarrow> tab ! unat w = (c, bits_of c))
          \<and> ((\<forall>c. unat c < n \<longrightarrow> \<not> short_match c w) \<longrightarrow> tab ! unat w = (0, 0)))"

definition long_ok :: "nat \<Rightarrow> huffLongEntry list list \<Rightarrow> bool" where
  "long_ok n tab \<longleftrightarrow> length tab = 31
     \<and> (\<forall>b \<in> {9..30}. set (tab ! b) = {(code_of c, c) |c. unat c < n \<and> bits_of c = b})"

lemma foldl_fillPrimary:
  assumes "length tab = 256" and "\<forall>i \<in> set is. i < 256 \<and> snd (tab ! i) = 0" and "distinct is"
  shows "length (foldl (fillPrimary c b) tab is) = 256
    \<and> (\<forall>j < 256. foldl (fillPrimary c b) tab is ! j = (if j \<in> set is then (c, b) else tab ! j))"
  using assms
proof (induction "is" arbitrary: tab)
  case (Cons i "is")
  have f: "fillPrimary c b tab i = tab[i := (c, b)]" using Cons.prems by (simp add: fillPrimary_def)
  have "length (tab[i := (c, b)]) = 256" "\<forall>k \<in> set is. k < 256 \<and> snd (tab[i := (c, b)] ! k) = 0" "distinct is"
    using Cons.prems by (auto simp: nth_list_update)
  from Cons.IH [OF this] show ?case using Cons.prems by (auto simp: f nth_list_update)
qed simp

lemma less_Suc_unat: "unat d < Suc (unat c) \<longleftrightarrow> unat d < unat c \<or> d = (c :: 'a::len word)"
  by (auto simp: less_Suc_eq word_unat_eq_iff)

lemma addSymbol_ok:
  fixes c :: byte
  assumes "primary_ok (unat c) (fst t)" and "long_ok (unat c) (snd t)"
  shows "primary_ok (Suc (unat c)) (fst (addSymbol t (unat c))) \<and> long_ok (Suc (unat c)) (snd (addSymbol t (unat c)))"
proof (cases "bits_of c \<le> 8")
  case True
  let ?is = "map ((+) (unat (code_of c) * 2 ^ (8 - bits_of c))) [0..<2 ^ (8 - bits_of c)]"
  let ?tab = "foldl (fillPrimary c (bits_of c)) (fst t) ?is"
  have add: "addSymbol t (unat c) = (?tab, snd t)" using True by (simp add: addSymbol_def code_nth)
  have "(unat (code_of c) + 1) * 2 ^ (8 - bits_of c) \<le> 2 ^ bits_of c * 2 ^ (8 - bits_of c)"
    using code_lt [of c] by (intro mult_right_mono) auto
  also have "\<dots> = 256" using True by (simp add: power_add [symmetric])
  finally have in256: "i < 256" if "i \<in> set ?is" for i using that by auto
  have free: "snd (fst t ! i) = 0" if i: "i \<in> set ?is" for i
  proof -
    have u: "unat (of_nat i :: byte) = i" using in256 [OF i] by (simp add: unat_of_nat)
    then have m: "short_match c (of_nat i)" using short_match_iff [OF True, of "of_nat i"] i by simp
    have "\<not> short_match d (of_nat i)" if "unat d < unat c" for d
      using that m code_bits_unique [of c "word_bits 8 (of_nat i :: byte)" d] by (auto simp: short_match_def)
    then show ?thesis using assms(1) u unfolding primary_ok_def by (metis snd_conv)
  qed
  have "distinct ?is" by (simp add: distinct_map)
  with foldl_fillPrimary [of "fst t" ?is c "bits_of c"] in256 free assms(1)
  have l: "length ?tab = 256" and v: "\<forall>j < 256. ?tab ! j = (if j \<in> set ?is then (c, bits_of c) else fst t ! j)"
    by (auto simp: primary_ok_def)
  have v': "?tab ! unat w = (if short_match c w then (c, bits_of c) else fst t ! unat w)" for w :: byte
    using v byte_lt [of w] short_match_iff [OF True, of w] by simp
  have "primary_ok (Suc (unat c)) ?tab"
    unfolding primary_ok_def
  proof (intro conjI allI impI l)
    fix w d assume "unat d < Suc (unat c) \<and> short_match d w"
    then show "?tab ! unat w = (d, bits_of d)"
      using v' [of w] assms(1) code_bits_unique [of c "word_bits 8 w" d]
      by (auto simp: primary_ok_def short_match_def less_Suc_unat)
  next
    fix w assume "\<forall>d. unat d < Suc (unat c) \<longrightarrow> \<not> short_match d w"
    then show "?tab ! unat w = (0, 0)" using v' [of w] assms(1) by (simp add: primary_ok_def less_Suc_unat)
  qed
  moreover have "long_ok (Suc (unat c)) (snd t)"
    using assms(2) True unfolding long_ok_def by (auto simp: less_Suc_unat)
  ultimately show ?thesis by (simp add: add)
next
  case False
  then have add: "addSymbol t (unat c) = (fst t, (snd t)[bits_of c := snd t ! bits_of c @ [(code_of c, c)]])"
    by (simp add: addSymbol_def code_nth)
  have "primary_ok (Suc (unat c)) (fst t)"
    using assms(1) False unfolding primary_ok_def short_match_def by (metis less_Suc_unat)
  moreover have "long_ok (Suc (unat c)) ((snd t)[bits_of c := snd t ! bits_of c @ [(code_of c, c)]])"
    using assms(2) False code_range(2) [of c] unfolding long_ok_def
    by (auto simp: nth_list_update less_Suc_unat)
  ultimately show ?thesis by (simp add: add)
qed

lemma tables_ok: "n \<le> 256 \<Longrightarrow> primary_ok n (fst (foldl addSymbol (replicate 256 (0, 0), replicate 31 []) [0..<n]))
    \<and> long_ok n (snd (foldl addSymbol (replicate 256 (0, 0), replicate 31 []) [0..<n]))"
proof (induction n)
  case 0
  show ?case using byte_lt by (auto simp: primary_ok_def long_ok_def)
next
  case (Suc n)
  then have "unat (of_nat n :: byte) = n" by (simp add: unat_of_nat)
  with Suc addSymbol_ok [of "of_nat n" "foldl addSymbol (replicate 256 (0, 0), replicate 31 []) [0..<n]"] show ?case by simp
qed

lemma huffPrimary_ok: "primary_ok 256 huffPrimary" and huffLong_ok: "long_ok 256 huffLong"
  using tables_ok [of 256] by (simp_all add: huffPrimary_def huffLong_def buildHuffmanDecodeTable_def)

lemma huffPrimary_match: "short_match c w \<Longrightarrow> huffPrimary ! unat w = (c, bits_of c)"
  using huffPrimary_ok byte_lt [of c] unfolding primary_ok_def by blast

lemma huffPrimary_none: "(\<And>c. \<not> short_match c w) \<Longrightarrow> huffPrimary ! unat w = (0, 0)"
  using huffPrimary_ok unfolding primary_ok_def by blast

lemma huffLong_set: "9 \<le> b \<Longrightarrow> b \<le> 30 \<Longrightarrow> set (huffLong ! b) = {(code_of c, c) |c. bits_of c = b}"
  using huffLong_ok byte_lt unfolding long_ok_def by auto

section \<open>Lookup finds the code in front\<close>

text \<open>What \<open>huffmanLookup\<close> returns on a buffer that holds the bits \<open>xs\<close>.\<close>

definition lookup_ok :: "bool list \<Rightarrow> byte \<times> nat \<Rightarrow> bool" where
  "lookup_ok xs e \<longleftrightarrow> (\<forall>c. prefix (code_bits c) xs \<longrightarrow> e = (c, bits_of c)) \<and> (no_code xs \<longrightarrow> e = (0, 0))"

lemma huffLongLoop_ok:
  assumes "unat x < 2 ^ nbits" and "9 \<le> b" and "\<And>c. prefix (code_bits c) (word_bits nbits x) \<Longrightarrow> b \<le> bits_of c"
  shows "lookup_ok (word_bits nbits x) (huffLongLoop x nbits b)"
  using assms(2,3)
proof (induction "31 - b" arbitrary: b)
  case 0
  have "\<not> prefix (code_bits c) (word_bits nbits x)" for c using "0.hyps" "0.prems"(2) [of c] code_range(2) [of c] by auto
  moreover have "huffLongLoop x nbits b = (0, 0)" using "0.hyps" by (subst huffLongLoop.simps) (simp add: hpackHuffmanMaxCodeBits_def)
  ultimately show ?case by (simp add: lookup_ok_def)
next
  case (Suc k)
  let ?find = "find (\<lambda>g. fst g = ucast (drop_bit (nbits - b) x)) (huffLong ! b)"
  show ?case
  proof (cases "b \<le> nbits")
    case False
    then have "\<not> prefix (code_bits c) (word_bits nbits x)" for c
      using Suc.prems(2) [of c] prefix_length_le [of "code_bits c" "word_bits nbits x"] by auto
    moreover have "huffLongLoop x nbits b = (0, 0)" using False by (subst huffLongLoop.simps) simp
    ultimately show ?thesis by (simp add: lookup_ok_def)
  next
    case True
    have b: "b \<le> 30" using Suc.hyps by simp
    have small: "unat (drop_bit (nbits - b) x) < 2 ^ b"
    proof -
      have "(2::nat) ^ nbits = 2 ^ b * 2 ^ (nbits - b)" using True by (simp add: power_add [symmetric])
      then show ?thesis using assms(1) by (simp add: unat_drop_bit_div div_less_iff_less_mult)
    qed
    have "(2::nat) ^ b \<le> 2 ^ 32" using b by (intro power_increasing) auto
    with small have cast: "unat (ucast (drop_bit (nbits - b) x) :: u32) = unat x div 2 ^ (nbits - b)"
      by (simp add: unsigned_ucast_eq take_bit_nat_eq_self unat_drop_bit_div)
    have hit: "prefix (code_bits c) (word_bits nbits x) \<longleftrightarrow> code_of c = ucast (drop_bit (nbits - b) x)" if "bits_of c = b" for c
      using prefix_code_iff [OF assms(1), of c] that True cast by (auto simp: word_unat_eq_iff)
    have loop: "huffLongLoop x nbits b = (case ?find of Some g \<Rightarrow> (snd g, b) | None \<Rightarrow> huffLongLoop x nbits (b + 1))"
      using True b by (subst huffLongLoop.simps) (simp add: hpackHuffmanMaxCodeBits_def)
    note group = huffLong_set [OF Suc.prems(1) b]
    show ?thesis
    proof (cases ?find)
      case None
      then have "\<not> prefix (code_bits c) (word_bits nbits x)" if "bits_of c = b" for c
        using hit [OF that] group that by (force simp: find_None_iff)
      then have "b + 1 \<le> bits_of c" if "prefix (code_bits c) (word_bits nbits x)" for c
        using Suc.prems(2) [OF that] that by (metis Suc_eq_plus1 le_neq_implies_less Suc_leI)
      with Suc.hyps(1) [of "b + 1"] Suc.hyps(2) Suc.prems(1) show ?thesis by (simp add: loop None)
    next
      case (Some g)
      then have "g \<in> set (huffLong ! b)" "fst g = ucast (drop_bit (nbits - b) x)" by (auto simp: find_Some_iff)
      then obtain c where g: "g = (code_of c, c)" and c: "bits_of c = b" "prefix (code_bits c) (word_bits nbits x)"
        using group hit by auto
      have "huffLongLoop x nbits b = (c, bits_of c)" by (simp add: loop Some g c(1))
      with c(2) code_bits_unique show ?thesis unfolding lookup_ok_def no_code_def by metis
    qed
  qed
qed

lemma huffmanLookup_ok:
  assumes "unat x < 2 ^ nbits"
  shows "lookup_ok (word_bits nbits x) (huffmanLookup x nbits)"
proof (cases "nbits \<ge> 8")
  case True
  let ?w = "ucast (drop_bit (nbits - 8) x) :: byte"
  have w: "word_bits 8 ?w = take 8 (word_bits nbits x)" using True by (simp add: take_word_bits word_bits_ucast)
  have m: "short_match c ?w \<longleftrightarrow> bits_of c \<le> 8 \<and> prefix (code_bits c) (word_bits nbits x)" for c
    using prefix_take_iff [of "code_bits c" 8 "word_bits nbits x"] by (auto simp: short_match_def w)
  show ?thesis
  proof (cases "\<exists>c. short_match c ?w")
    case t: True
    then obtain c where c: "short_match c ?w" by blast
    then have "huffmanLookup x nbits = (c, bits_of c)"
      using True huffPrimary_match [OF c] code_range(1) [of c] by (simp add: huffmanLookup_def Let_def)
    moreover have "prefix (code_bits c) (word_bits nbits x)" using c m by blast
    ultimately show ?thesis using code_bits_unique unfolding lookup_ok_def no_code_def by metis
  next
    case False
    then have "huffmanLookup x nbits = huffLongLoop x nbits 9"
      using True huffPrimary_none [of ?w] by (simp add: huffmanLookup_def Let_def)
    moreover have "9 \<le> bits_of c" if "prefix (code_bits c) (word_bits nbits x)" for c
      using False m [of c] that by (metis not_less_eq_eq eval_nat_numeral(3) less_eq_Suc_le not_le numeral_nat(2) Suc_numeral semiring_norm(5))
    ultimately show ?thesis using huffLongLoop_ok [OF assms, of 9] by simp
  qed
next
  case False
  let ?w = "ucast (push_bit (8 - nbits) x) :: byte"
  have "word_bits (nbits + (8 - nbits)) (push_bit (8 - nbits) x OR 0) = word_bits nbits x @ word_bits (8 - nbits) (0 :: u64)"
    using False by (intro word_bits_append) auto
  then have w: "word_bits 8 ?w = word_bits nbits x @ word_bits (8 - nbits) (0 :: u64)" using False by (simp add: word_bits_ucast)
  have pre: "prefix (code_bits c) (word_bits nbits x) \<longleftrightarrow> bits_of c \<le> nbits \<and> short_match c ?w" for c
  proof -
    have "prefix (code_bits c) (word_bits 8 ?w) \<longleftrightarrow> prefix (code_bits c) (word_bits nbits x)" if "bits_of c \<le> nbits"
      using prefix_take_iff [of "code_bits c" nbits "word_bits 8 ?w"] that by (simp add: w)
    then show ?thesis using False prefix_length_le [of "code_bits c" "word_bits nbits x"] by (auto simp: short_match_def)
  qed
  show ?thesis
  proof (cases "\<exists>c. short_match c ?w")
    case t: True
    then obtain c where c: "short_match c ?w" by blast
    have l: "huffmanLookup x nbits = (if bits_of c \<le> nbits then (c, bits_of c) else (0, 0))"
      using False huffPrimary_match [OF c] code_range(1) [of c] by (simp add: huffmanLookup_def Let_def)
    have u: "d = c" if "prefix (code_bits d) (word_bits nbits x)" for d
      using that c pre code_bits_unique [of d "word_bits 8 ?w" c] unfolding short_match_def by blast
    show ?thesis using l pre [of c] c u unfolding lookup_ok_def no_code_def by (metis (full_types))
  next
    case n: False
    then have "huffmanLookup x nbits = (0, 0)" using False huffPrimary_none [of ?w] by (simp add: huffmanLookup_def Let_def)
    then show ?thesis using n pre by (simp add: lookup_ok_def)
  qed
qed

section \<open>The decoder parses the bits\<close>

lemma huffDrain_spec:
  assumes "unat x < 2 ^ nbits"
  shows "(case huffDrain dst x nbits of
     None \<Rightarrow> \<exists>s r. word_bits nbits x = enc_bits s @ r \<and> no_code r \<and> 30 \<le> length r
   | Some (dst', y, m) \<Rightarrow> \<exists>s. dst' = dst @ s \<and> word_bits nbits x = enc_bits s @ word_bits m y
       \<and> no_code (word_bits m y) \<and> unat y < 2 ^ m \<and> m < 30)"
  using assms
proof (induction nbits arbitrary: dst x rule: less_induct)
  case (less nbits)
  note ok = huffmanLookup_ok [OF less.prems]
  show ?case
  proof (cases "nbits \<ge> 5 \<and> \<not> no_code (word_bits nbits x)")
    case False
    then have n: "no_code (word_bits nbits x)" using no_code_short [of "word_bits nbits x"] by auto
    then have "huffmanLookup x nbits = (0, 0)" using ok by (simp add: lookup_ok_def)
    then have "huffDrain dst x nbits = (if nbits \<ge> 30 then None else Some (dst, x, nbits))"
      by (subst huffDrain.simps) (simp add: hpackHuffmanMaxCodeBits_def split: prod.splits)
    with n less.prems show ?thesis by (auto intro: exI [of _ "[]"])
  next
    case True
    then obtain c where c: "prefix (code_bits c) (word_bits nbits x)" by (auto simp: no_code_def)
    let ?m = "nbits - bits_of c" and ?y = "x AND (push_bit (nbits - bits_of c) 1 - 1)"
    have b: "bits_of c \<le> nbits" using prefix_length_le [OF c] by simp
    have e: "huffmanLookup x nbits = (c, bits_of c)" using ok c by (simp add: lookup_ok_def)
    have split: "word_bits nbits x = code_bits c @ word_bits ?m ?y"
    proof -
      have "word_bits nbits x = code_bits c @ drop (bits_of c) (word_bits nbits x)"
        using c by (metis append_eq_conv_conj length_code_bits prefixE)
      then show ?thesis unfolding drop_word_bits [OF b] word_bits_mask .
    qed
    have "unat ?y < 2 ^ ?m" unfolding unat_and_mask by simp
    moreover have "?m < nbits" using b code_range(1) [of c] by simp
    moreover have "huffDrain dst x nbits = huffDrain (dst @ [c]) ?y ?m"
      using True e code_range(1) [of c] by (subst huffDrain.simps) simp
    ultimately show ?thesis using less.IH [of ?m ?y "dst @ [c]"] unfolding split
      by (auto split: option.splits intro: exI [of _ "c # _"]) (metis append_Cons append_assoc enc_bits_simps(2) append_Nil)+
  qed
qed

lemma no_code_enc: "no_code (enc_bits s @ r) \<Longrightarrow> s = []"
proof (cases s)
  case (Cons c s')
  then have "prefix (code_bits c) (enc_bits s @ r)" by simp
  then show "no_code (enc_bits s @ r) \<Longrightarrow> s = []" by (simp add: no_code_def)
qed

lemma huffDecodeLoop_spec:
  assumes "unat x < 2 ^ nbits" and "nbits < 30" and "no_code (word_bits nbits x)"
  shows "huffDecodeLoop dst x nbits src = Some t \<longleftrightarrow>
    (\<exists>s pad. t = dst @ s \<and> word_bits nbits x @ bytes_bits src = enc_bits s @ pad \<and> length pad \<le> 7 \<and> False \<notin> set pad)"
  using assms
proof (induction src arbitrary: dst x nbits)
  case Nil
  have ones: "x = push_bit nbits 1 - 1 \<longleftrightarrow> False \<notin> set (word_bits nbits x)"
  proof
    assume "x = push_bit nbits 1 - 1"
    then have "x = mask nbits" by (simp add: mask_eq_exp_minus_1)
    then show "False \<notin> set (word_bits nbits x)" using Nil.prems(2) by (simp add: word_bits_ones)
  next
    assume "False \<notin> set (word_bits nbits x)"
    then have "bit x i" if "i < nbits" for i using that by (force simp: word_bits_def)
    moreover have "i < nbits" if "bit x i" for i using that bit_less_exp [OF Nil.prems(1)] by blast
    ultimately have "x = mask nbits" by (auto intro!: bit_word_eqI simp: bit_mask_iff)
    then show "x = push_bit nbits 1 - 1" by (simp add: mask_eq_exp_minus_1)
  qed
  have un: "s = [] \<and> pad = word_bits nbits x" if "word_bits nbits x = enc_bits s @ pad" for s pad
    using that Nil.prems(3) no_code_enc [of s pad] by simp
  show ?case
  proof
    assume "huffDecodeLoop dst x nbits [] = Some t"
    then have "t = dst" "nbits \<le> 7" "nbits = 0 \<or> x = push_bit nbits 1 - 1" by (auto split: if_splits simp del: push_bit_of_1)
    then show "\<exists>s pad. t = dst @ s \<and> word_bits nbits x @ bytes_bits [] = enc_bits s @ pad \<and> length pad \<le> 7 \<and> False \<notin> set pad"
      using ones by (auto intro!: exI [of _ "[]"])
  next
    assume "\<exists>s pad. t = dst @ s \<and> word_bits nbits x @ bytes_bits [] = enc_bits s @ pad \<and> length pad \<le> 7 \<and> False \<notin> set pad"
    then obtain s pad where p: "t = dst @ s" "word_bits nbits x = enc_bits s @ pad" "length pad \<le> 7" "False \<notin> set pad" by auto
    then have "t = dst" "nbits \<le> 7" "False \<notin> set (word_bits nbits x)" using un [OF p(2)] length_word_bits [of nbits x] by auto
    then show "huffDecodeLoop dst x nbits [] = Some t" using ones by (simp del: push_bit_of_1)
  qed
next
  case (Cons b src)
  let ?x = "push_bit 8 x OR ucast b"
  have bits: "word_bits (nbits + 8) ?x = word_bits nbits x @ word_bits 8 b"
  proof -
    have "word_bits (nbits + 8) ?x = word_bits nbits x @ word_bits 8 (ucast b :: u64)"
      using Cons.prems(2) by (intro word_bits_append) (auto simp: bit_ucast_byte)
    then show ?thesis by (simp add: word_bits_ucast)
  qed
  have "unat ?x < 2 ^ (nbits + 8)"
    using bit_less_exp [OF Cons.prems(1)]
    by (intro unat_less_expI) (auto simp: bit_or_iff bit_push_bit_iff bit_ucast_byte, fastforce)
  note spec = huffDrain_spec [OF this, of dst]
  show ?case
  proof (cases "huffDrain dst ?x (nbits + 8)")
    case None
    with spec obtain s r where r: "word_bits (nbits + 8) ?x = enc_bits s @ r" "no_code r" "30 \<le> length r" by auto
    have False if p: "word_bits nbits x @ bytes_bits (b # src) = enc_bits s' @ pad" "length pad \<le> 7" "False \<notin> set pad" for s' pad
    proof -
      have "word_bits nbits x @ bytes_bits (b # src) = word_bits (nbits + 8) ?x @ bytes_bits src" by (simp add: bits)
      with p(1) have "enc_bits s @ (r @ bytes_bits src) = enc_bits s' @ pad" by (simp only: r(1) append_assoc)
      from enc_bits_cancel [OF this] show False
      proof (elim disjE exE conjE)
        fix q assume q: "s' = s @ q" "r @ bytes_bits src = enc_bits q @ pad"
        show False
        proof (cases q)
          case Nil
          then have "length r + length (bytes_bits src) = length pad" using arg_cong [OF q(2), of length] by simp
          with p(2) r(3) show False by linarith
        next
          case (Cons c q')
          then have "prefix (code_bits c) (r @ bytes_bits src)" using q by simp
          then have "prefix (code_bits c) (take (length r) (r @ bytes_bits src))"
            using r(3) code_range(2) [of c] by (subst prefix_take_iff) simp_all
          with r(2) show False by (simp add: no_code_def)
        qed
      next
        fix q assume q: "s = s' @ q" "pad = enc_bits q @ r @ bytes_bits src"
        then have "length r \<le> length pad" by simp
        with r(3) p(2) show False by simp
      qed
    qed
    with None show ?thesis by auto
  next
    case (Some y)
    then obtain dst' z m where h: "huffDrain dst ?x (nbits + 8) = Some (dst', z, m)" by (cases y) auto
    with spec obtain s where s: "dst' = dst @ s" "word_bits (nbits + 8) ?x = enc_bits s @ word_bits m z" "no_code (word_bits m z)"
      "unat z < 2 ^ m" "m < 30" by auto
    have whole: "word_bits nbits x @ bytes_bits (b # src) = enc_bits s @ (word_bits m z @ bytes_bits src)"
    proof -
      have "word_bits nbits x @ bytes_bits (b # src) = word_bits (nbits + 8) ?x @ bytes_bits src" by (simp add: bits)
      then show ?thesis by (simp only: s(2) append_assoc)
    qed
    have "(\<exists>s' pad. t = dst @ s' \<and> enc_bits s @ (word_bits m z @ bytes_bits src) = enc_bits s' @ pad \<and> length pad \<le> 7 \<and> False \<notin> set pad) \<longleftrightarrow>
      (\<exists>q pad. t = dst' @ q \<and> word_bits m z @ bytes_bits src = enc_bits q @ pad \<and> length pad \<le> 7 \<and> False \<notin> set pad)"
    proof
      assume "\<exists>s' pad. t = dst @ s' \<and> enc_bits s @ (word_bits m z @ bytes_bits src) = enc_bits s' @ pad \<and> length pad \<le> 7 \<and> False \<notin> set pad"
      then obtain s' pad where p: "t = dst @ s'" "enc_bits s @ (word_bits m z @ bytes_bits src) = enc_bits s' @ pad" "length pad \<le> 7" "False \<notin> set pad" by blast
      from enc_bits_cancel [OF p(2)]
      show "\<exists>q pad. t = dst' @ q \<and> word_bits m z @ bytes_bits src = enc_bits q @ pad \<and> length pad \<le> 7 \<and> False \<notin> set pad"
      proof (elim disjE exE conjE)
        fix q assume "s' = s @ q" "word_bits m z @ bytes_bits src = enc_bits q @ pad"
        then show ?thesis using p s(1) by auto
      next
        fix q assume q: "s = s' @ q" "pad = enc_bits q @ word_bits m z @ bytes_bits src"
        then have "q = []" using no_code_ones [OF p(4)] no_code_enc by simp
        with q p s(1) show ?thesis by (auto intro!: exI [of _ "[]"])
      qed
    qed (use s(1) in force)
    then show ?thesis using Cons.IH [OF s(4,5,3), of dst'] h unfolding whole by simp
  qed
qed

lemma huffman_decode_iff: "hpackHuffmanDecode src = Some s \<longleftrightarrow> src = hpackHuffmanAppend [] s"
proof -
  have "no_code (word_bits 0 (0 :: u64))" by (intro no_code_short) simp
  then have "hpackHuffmanDecode src = Some s \<longleftrightarrow> (\<exists>pad. bytes_bits src = enc_bits s @ pad \<and> length pad \<le> 7 \<and> False \<notin> set pad)"
    using huffDecodeLoop_spec [of 0 0 "[]" src s] by (auto simp: hpackHuffmanDecode_def)
  also have "\<dots> \<longleftrightarrow> bytes_bits src = bytes_bits (hpackHuffmanAppend [] s)"
  proof
    assume "\<exists>pad. bytes_bits src = enc_bits s @ pad \<and> length pad \<le> 7 \<and> False \<notin> set pad"
    then obtain pad where p: "bytes_bits src = enc_bits s @ pad" "length pad \<le> 7" "False \<notin> set pad" by blast
    have "length (enc_bits s) + length pad = 8 * length src" using arg_cong [OF p(1), of length] by simp
    then have "length pad = pad_len (length (enc_bits s))" using p(2) by (intro pad_len_unique) simp_all
    moreover have "pad = replicate (length pad) True" using p(3) by (metis (full_types) replicate_eqI)
    ultimately show "bytes_bits src = bytes_bits (hpackHuffmanAppend [] s)" using p(1) by (simp add: hpackHuffmanAppend_bits)
  next
    assume "bytes_bits src = bytes_bits (hpackHuffmanAppend [] s)"
    then show "\<exists>pad. bytes_bits src = enc_bits s @ pad \<and> length pad \<le> 7 \<and> False \<notin> set pad"
      by (auto simp: hpackHuffmanAppend_bits pad_len_def intro!: exI [of _ "replicate _ True"])
  qed
  also have "\<dots> \<longleftrightarrow> src = hpackHuffmanAppend [] s" using bytes_bits_inj by blast
  finally show ?thesis .
qed

lemma hpackHuffmanDecode_Append [simp]: "hpackHuffmanDecode (hpackHuffmanAppend [] s) = Some s"
  by (simp add: huffman_decode_iff)

text \<open>The announced length is the number of bytes written.\<close>

lemma length_hpackHuffmanAppend: "length (hpackHuffmanAppend [] s) = hpackHuffmanEncodedLen s"
proof -
  have "8 * length (hpackHuffmanAppend [] s) = length (enc_bits s) + pad_len (length (enc_bits s))"
    using arg_cong [OF hpackHuffmanAppend_bits [of "[]" s], of length] by simp
  then show ?thesis unfolding pad_len_def by (simp add: hpackHuffmanEncodedLen_def encodedLenLoop_sum)
qed

section \<open>Properties\<close>

text \<open>
  C26: the Huffman decoder accepts exactly what the encoder writes.  For every input and every
  string, decoding the input gives the string if and only if the input is the encoding of the
  string; in particular encoding followed by decoding is the identity, and an input with a broken
  padding, a code cut off or the code of the end-of-string symbol is rejected.
\<close>

theorem huffman_decode_iff_encode: "hpackHuffmanDecode src = Some s \<longleftrightarrow> src = hpackHuffmanAppend [] s"
  by (rule huffman_decode_iff)

end
