(* ===== verification/Ascii_Utils.thy ===== *)
theory Ascii_Utils
  imports Alos_Prelude "HOL-Library.Sublist"
begin

text \<open>
  The byte-string helpers of \<open>core/utils.go\<close>: ASCII case folding, decimal and hexadecimal numbers,
  prefixes and trimming, IP and host checks, JSON strings.  The optimised routines are compared
  with the plain definition of what they compute; numbers are read back as written, and a JSON
  string is read back by a reference reader.
\<close>

abbreviation b8 :: "char \<Rightarrow> byte" where "b8 \<equiv> of_char"

section \<open>Case folding\<close>

definition asciiLower :: "byte \<Rightarrow> byte" where
  "asciiLower c = (if b8 CHR ''A'' \<le> c \<and> c \<le> b8 CHR ''Z'' then c + 0x20 else c)"

definition commonLowerHeaders :: "(gostring \<times> gostring) list" where
  "commonLowerHeaders = [
     (str ''Content-Type'', str ''content-type''),
     (str ''Content-Length'', str ''content-length''),
     (str ''Content-Encoding'', str ''content-encoding''),
     (str ''Content-Disposition'', str ''content-disposition''),
     (str ''Cache-Control'', str ''cache-control''),
     (str ''Set-Cookie'', str ''set-cookie''),
     (str ''Accept'', str ''accept''),
     (str ''Accept-Encoding'', str ''accept-encoding''),
     (str ''Accept-Language'', str ''accept-language''),
     (str ''Authorization'', str ''authorization''),
     (str ''Connection'', str ''connection''),
     (str ''Host'', str ''host''),
     (str ''Location'', str ''location''),
     (str ''Server'', str ''server''),
     (str ''Date'', str ''date''),
     (str ''ETag'', str ''etag''),
     (str ''Vary'', str ''vary''),
     (str ''X-Content-Type-Options'', str ''x-content-type-options''),
     (str ''X-Frame-Options'', str ''x-frame-options''),
     (str ''Access-Control-Allow-Origin'', str ''access-control-allow-origin''),
     (str ''Strict-Transport-Security'', str ''strict-transport-security''),
     (str ''Transfer-Encoding'', str ''transfer-encoding''),
     (str ''User-Agent'', str ''user-agent''),
     (str ''Referer'', str ''referer''),
     (str ''Cookie'', str ''cookie''),
     (str ''Upgrade'', str ''upgrade''),
     (str ''Origin'', str ''origin''),
     (str ''Sec-WebSocket-Key'', str ''sec-websocket-key''),
     (str ''Sec-WebSocket-Version'', str ''sec-websocket-version'')]"

definition ToLowerASCII :: "gostring \<Rightarrow> gostring" where
  "ToLowerASCII s =
     (case map_of commonLowerHeaders s of
        Some low \<Rightarrow> low
      | None \<Rightarrow> if list_ex (\<lambda>c. asciiLower c \<noteq> c) s then map asciiLower s else s)"

text \<open>The loops of \<open>EqualFoldASCII\<close>: eight bytes at a time, then one at a time.\<close>

fun equalFoldTail :: "gostring \<Rightarrow> gostring \<Rightarrow> bool" where
  "equalFoldTail (a # as) (b # bs) = (if asciiLower a \<noteq> asciiLower b then False else equalFoldTail as bs)"
| "equalFoldTail _ _ = True"

function equalFoldLoop :: "gostring \<Rightarrow> gostring \<Rightarrow> bool" where
  "equalFoldLoop a b =
     (if 8 \<le> length a then
        if list_ex (\<lambda>i. asciiLower (a ! i) \<noteq> asciiLower (b ! i)) [0..<8] then False
        else equalFoldLoop (drop 8 a) (drop 8 b)
      else equalFoldTail a b)"
  by auto
termination by (relation "measure (\<lambda>(a, _). length a)") auto

declare equalFoldLoop.simps [simp del]

definition EqualFoldASCII :: "gostring \<Rightarrow> gostring \<Rightarrow> bool" where
  "EqualFoldASCII a b = (if a = b then True else if length a \<noteq> length b then False else equalFoldLoop a b)"

definition headerNameIs :: "gostring \<Rightarrow> gostring \<Rightarrow> bool" where
  "headerNameIs name lower \<longleftrightarrow> length name = length lower \<and> list_all (\<lambda>i. asciiLower (name ! i) = lower ! i) [0..<length name]"

definition hasPrefix :: "gostring \<Rightarrow> gostring \<Rightarrow> bool" where
  "hasPrefix s p \<longleftrightarrow> length s \<ge> length p \<and> take (length p) s = p"

definition hasPrefixFold :: "gostring \<Rightarrow> gostring \<Rightarrow> bool" where
  "hasPrefixFold s p \<longleftrightarrow>
     \<not> length s < length p \<and> list_all (\<lambda>i. asciiLower (s ! i) = asciiLower (p ! i)) [0..<length p]"

lemma map_eq_iff_nth: "map f xs = map g ys \<longleftrightarrow> length xs = length ys \<and> (\<forall>i < length xs. f (xs ! i) = g (ys ! i))"
  by (subst list_eq_iff_nth_eq) auto

lemma commonLowerHeaders_lower: "list_all (\<lambda>(k, v). v = map asciiLower k) commonLowerHeaders"
  by (simp add: commonLowerHeaders_def asciiLower_def)

lemma ToLowerASCII_map: "ToLowerASCII s = map asciiLower s"
proof (cases "map_of commonLowerHeaders s")
  case None
  moreover have "map asciiLower s = s" if "\<not> list_ex (\<lambda>c. asciiLower c \<noteq> c) s"
    using that by (induction s) auto
  ultimately show ?thesis by (simp add: ToLowerASCII_def)
next
  case (Some low)
  then show ?thesis
    using commonLowerHeaders_lower by (auto simp: ToLowerASCII_def list_all_iff dest!: map_of_SomeD)
qed

lemma asciiLower_idem [simp]: "asciiLower (asciiLower c) = asciiLower c"
proof -
  have "\<not> (b8 CHR ''A'' \<le> c + 0x20 \<and> c + 0x20 \<le> b8 CHR ''Z'')" if "b8 CHR ''A'' \<le> c" "c \<le> b8 CHR ''Z''"
  proof -
    have "unat (c + 0x20) = unat c + 32" using that by (simp add: word_le_nat_alt unat_plus_if')
    then show ?thesis using that by (simp add: word_le_nat_alt)
  qed
  then show ?thesis by (auto simp: asciiLower_def)
qed

lemma equalFoldTail_iff: "length a = length b \<Longrightarrow> equalFoldTail a b \<longleftrightarrow> map asciiLower a = map asciiLower b"
  by (induction a b rule: equalFoldTail.induct) auto

lemma equalFoldLoop_iff: "length a = length b \<Longrightarrow> equalFoldLoop a b \<longleftrightarrow> map asciiLower a = map asciiLower b"
proof (induction a b rule: equalFoldLoop.induct)
  case (1 a b)
  show ?case
  proof (cases "8 \<le> length a")
    case True
    have "\<not> list_ex (\<lambda>i. asciiLower (a ! i) \<noteq> asciiLower (b ! i)) [0..<8]
        \<longleftrightarrow> map asciiLower (take 8 a) = map asciiLower (take 8 b)"
      
      unfolding map_eq_iff_nth list_ex_iff set_upt using True "1.prems" by (simp add: Bex_def)
    moreover have "map asciiLower a = map asciiLower b \<longleftrightarrow>
        map asciiLower (take 8 a) = map asciiLower (take 8 b) \<and> map asciiLower (drop 8 a) = map asciiLower (drop 8 b)"
    proof -
      have e: "map asciiLower x = map asciiLower (take 8 x) @ map asciiLower (drop 8 x)" for x by (simp flip: map_append)
      show ?thesis unfolding e [of a] e [of b] using "1.prems" by (intro append_eq_append_conv) simp
    qed
    ultimately show ?thesis using True "1.IH" "1.prems" by (subst equalFoldLoop.simps) (simp; blast)
  next
    case False
    then show ?thesis using 1 equalFoldTail_iff by (subst equalFoldLoop.simps) auto
  qed
qed

lemma EqualFoldASCII_iff: "EqualFoldASCII a b \<longleftrightarrow> map asciiLower a = map asciiLower b"
  using equalFoldLoop_iff [of a b] by (auto simp: EqualFoldASCII_def dest: map_eq_imp_length_eq)

lemma headerNameIs_iff: "headerNameIs name lower \<longleftrightarrow> map asciiLower name = lower"
proof -
  have "map asciiLower name = lower \<longleftrightarrow> length name = length lower \<and> (\<forall>i < length name. asciiLower (name ! i) = lower ! i)"
    using map_eq_iff_nth [of asciiLower name id lower] by simp
  then show ?thesis by (simp add: headerNameIs_def list_all_iff Ball_def)
qed

lemma hasPrefix_iff: "hasPrefix s p \<longleftrightarrow> prefix p s"
  unfolding hasPrefix_def by (metis append_eq_conv_conj prefix_def prefix_length_le take_is_prefix)

lemma hasPrefixFold_iff: "hasPrefixFold s p \<longleftrightarrow> prefix (map asciiLower p) (map asciiLower s)"
proof -
  have "prefix (map asciiLower p) (map asciiLower s) \<longleftrightarrow>
      length p \<le> length s \<and> take (length p) (map asciiLower s) = map asciiLower p"
    by (metis append_eq_conv_conj length_map prefix_def prefix_length_le take_is_prefix)
  also have "\<dots> \<longleftrightarrow> hasPrefixFold s p"
    unfolding take_map map_eq_iff_nth hasPrefixFold_def by (auto simp: list_all_iff)
  finally show ?thesis by simp
qed

text \<open>
  C30: the folding routines compute what they promise.  Lower-casing through the table of common
  header names and the copy loop is the byte-wise fold; the unrolled comparison, the comparison
  with a lower-case literal and the prefix test are equality and prefix of the folded strings.
\<close>

theorem case_folding_exact:
  "ToLowerASCII s = map asciiLower s \<and> (EqualFoldASCII s t \<longleftrightarrow> map asciiLower s = map asciiLower t)
   \<and> (headerNameIs s t \<longleftrightarrow> map asciiLower s = t) \<and> (hasPrefixFold s t \<longleftrightarrow> prefix (map asciiLower t) (map asciiLower s))"
  using ToLowerASCII_map EqualFoldASCII_iff headerNameIs_iff hasPrefixFold_iff by simp

section \<open>Numbers\<close>

text \<open>A fact about all bytes, from its 256 instances.\<close>

lemma byte_lt256: "unat (c :: byte) < 256"
  using unsigned_less [of c, where 'a = nat] by simp

lemma byte_cases: "list_all (\<lambda>k. P (word_of_int k)) [0..255] \<Longrightarrow> P (c :: byte)"
proof -
  assume all: "list_all (\<lambda>k. P (word_of_int k)) [0..255]"
  have "uint c < 256" using unsigned_less [of c, where 'a = int] by simp
  then have "uint c \<in> set [0..255]" unfolding set_upto atLeastAtMost_iff using uint_nonnegative [of c] by linarith
  with all have "P (word_of_int (uint c))" unfolding list_all_iff by blast
  then show ?thesis by simp
qed

definition digitVal :: "byte \<Rightarrow> byte" where
  "digitVal c = (if b8 CHR ''0'' \<le> c \<and> c \<le> b8 CHR ''9'' then c - b8 CHR ''0'' else 0xFF)"

definition maxParsedLength :: int where "maxParsedLength = 2 ^ 50"

fun parseUintLoop :: "int \<Rightarrow> gostring \<Rightarrow> int \<times> bool" where
  "parseUintLoop n [] = (n, True)"
| "parseUintLoop n (c # s) =
     (let d = digitVal c in
      if d = 0xFF then (0, False)
      else
        let n = n * 10 + uint d in
        if n < 0 \<or> n > maxParsedLength then (0, False) else parseUintLoop n s)"

definition parseUint :: "gostring \<Rightarrow> int \<times> bool" where
  "parseUint s = (if length s = 0 then (0, False) else parseUintLoop 0 s)"

definition hexValid :: "byte \<Rightarrow> bool" where
  "hexValid c \<longleftrightarrow> b8 CHR ''0'' \<le> c \<and> c \<le> b8 CHR ''9'' \<or> b8 CHR ''a'' \<le> c \<and> c \<le> b8 CHR ''f'' \<or> b8 CHR ''A'' \<le> c \<and> c \<le> b8 CHR ''F''"

definition hexLookup :: "byte \<Rightarrow> byte" where
  "hexLookup c =
     (if b8 CHR ''0'' \<le> c \<and> c \<le> b8 CHR ''9'' then c - b8 CHR ''0''
      else if b8 CHR ''a'' \<le> c \<and> c \<le> b8 CHR ''f'' then c - b8 CHR ''a'' + 10
      else if b8 CHR ''A'' \<le> c \<and> c \<le> b8 CHR ''F'' then c - b8 CHR ''A'' + 10
      else 0)"

fun parseHexLoop :: "int \<Rightarrow> byte list \<Rightarrow> int \<times> bool" where
  "parseHexLoop n [] = (n, True)"
| "parseHexLoop n (c # b) =
     (if \<not> hexValid c then (0, False)
      else
        let n = push_bit 4 n OR uint (hexLookup c) in
        if n < 0 \<or> n > maxParsedLength then (0, False) else parseHexLoop n b)"

definition parseHex64Bytes :: "byte list \<Rightarrow> int \<times> bool" where
  "parseHex64Bytes b = (if length b = 0 then (0, False) else parseHexLoop 0 b)"

text \<open>Two decimal digits as stored in memory by one little-endian 16-bit write.\<close>

definition digitPairs :: "u16 list" where
  "digitPairs = [
     0x3030, 0x3130, 0x3230, 0x3330, 0x3430, 0x3530, 0x3630, 0x3730, 0x3830, 0x3930,
     0x3031, 0x3131, 0x3231, 0x3331, 0x3431, 0x3531, 0x3631, 0x3731, 0x3831, 0x3931,
     0x3032, 0x3132, 0x3232, 0x3332, 0x3432, 0x3532, 0x3632, 0x3732, 0x3832, 0x3932,
     0x3033, 0x3133, 0x3233, 0x3333, 0x3433, 0x3533, 0x3633, 0x3733, 0x3833, 0x3933,
     0x3034, 0x3134, 0x3234, 0x3334, 0x3434, 0x3534, 0x3634, 0x3734, 0x3834, 0x3934,
     0x3035, 0x3135, 0x3235, 0x3335, 0x3435, 0x3535, 0x3635, 0x3735, 0x3835, 0x3935,
     0x3036, 0x3136, 0x3236, 0x3336, 0x3436, 0x3536, 0x3636, 0x3736, 0x3836, 0x3936,
     0x3037, 0x3137, 0x3237, 0x3337, 0x3437, 0x3537, 0x3637, 0x3737, 0x3837, 0x3937,
     0x3038, 0x3138, 0x3238, 0x3338, 0x3438, 0x3538, 0x3638, 0x3738, 0x3838, 0x3938,
     0x3039, 0x3139, 0x3239, 0x3339, 0x3439, 0x3539, 0x3639, 0x3739, 0x3839, 0x3939]"

definition store16 :: "u16 \<Rightarrow> byte list" where
  "store16 w = [ucast w, ucast (drop_bit 8 w)]"

text \<open>
  \<open>appendUint\<close> fills a buffer from its end; \<open>acc\<close> is the filled part.  The buffer of 20 bytes holds
  every number of 64 bits.
\<close>

function appendUintLoop :: "int \<Rightarrow> byte list \<Rightarrow> byte list" where
  "appendUintLoop n acc =
     (if n \<ge> 100 then appendUintLoop (n div 100) (store16 (digitPairs ! nat (n mod 100)) @ acc)
      else if n \<ge> 10 then store16 (digitPairs ! nat n) @ acc
      else (of_int n + b8 CHR ''0'') # acc)"
  by auto
termination by (relation "measure (\<lambda>(n, _). nat n)") auto

declare appendUintLoop.simps [simp del]

definition appendUint :: "byte list \<Rightarrow> int \<Rightarrow> byte list" where
  "appendUint dst n = (if n = 0 then dst @ [b8 CHR ''0''] else dst @ appendUintLoop n [])"

function appendHexLoop :: "int \<Rightarrow> byte list \<Rightarrow> byte list" where
  "appendHexLoop n acc =
     (if n > 0 then
        let d = of_int (n AND 0xf) :: byte in
        appendHexLoop (drop_bit 4 n) ((if d < 10 then d + b8 CHR ''0'' else d - 10 + b8 CHR ''a'') # acc)
      else acc)"
  by auto
termination by (relation "measure (\<lambda>(n, _). nat n)") (auto simp: drop_bit_eq_div)

declare appendHexLoop.simps [simp del]

definition appendHex :: "byte list \<Rightarrow> int \<Rightarrow> byte list" where
  "appendHex dst n = (if n = 0 then dst @ [b8 CHR ''0''] else dst @ appendHexLoop n [])"

text \<open>The value of a string of digits, and the readers as this value within their limit.\<close>

definition is_digit :: "byte \<Rightarrow> bool" where
  "is_digit c \<longleftrightarrow> b8 CHR ''0'' \<le> c \<and> c \<le> b8 CHR ''9''"

definition dec_val :: "int \<Rightarrow> byte list \<Rightarrow> int" where
  "dec_val n s = foldl (\<lambda>n c. n * 10 + uint (digitVal c)) n s"

definition hex_val :: "int \<Rightarrow> byte list \<Rightarrow> int" where
  "hex_val n s = foldl (\<lambda>n c. n * 16 + uint (hexLookup c)) n s"

lemma dec_val_simps [simp]: "dec_val n [] = n" "dec_val n (c # s) = dec_val (n * 10 + uint (digitVal c)) s"
  by (simp_all add: dec_val_def)

lemma hex_val_simps [simp]: "hex_val n [] = n" "hex_val n (c # s) = hex_val (n * 16 + uint (hexLookup c)) s"
  by (simp_all add: hex_val_def)

lemma dec_val_ge: "0 \<le> n \<Longrightarrow> n \<le> dec_val n s"
proof (induction s arbitrary: n)
  case (Cons c s)
  from Cons.IH [of "n * 10 + uint (digitVal c)"] Cons.prems show ?case
    using uint_nonnegative [of "digitVal c"] unfolding dec_val_simps by linarith
qed simp

lemma hex_val_ge: "0 \<le> n \<Longrightarrow> n \<le> hex_val n s"
proof (induction s arbitrary: n)
  case (Cons c s)
  from Cons.IH [of "n * 16 + uint (hexLookup c)"] Cons.prems show ?case
    using uint_nonnegative [of "hexLookup c"] unfolding hex_val_simps by linarith
qed simp

lemma digitVal_digit: "digitVal c = 0xFF \<longleftrightarrow> \<not> is_digit c"
proof -
  have "unat (c - 48) \<noteq> 255" if "48 \<le> c" "c \<le> 57" using that by (simp add: word_le_nat_alt unat_sub_if')
  then have "c - 48 \<noteq> 0xFF" if "48 \<le> c" "c \<le> 57" using that by fastforce
  then show ?thesis by (simp add: digitVal_def is_digit_def)
qed

lemma parseUintLoop_exact:
  "0 \<le> n \<Longrightarrow> n \<le> maxParsedLength \<Longrightarrow>
   parseUintLoop n s = (if list_all is_digit s \<and> dec_val n s \<le> maxParsedLength then (dec_val n s, True) else (0, False))"
proof (induction s arbitrary: n)
  case (Cons c s)
  let ?n = "n * 10 + uint (digitVal c)"
  have nn: "0 \<le> ?n" using Cons.prems uint_nonnegative [of "digitVal c"] by simp
  note ge = dec_val_ge [OF nn, of s]
  show ?case
  proof (cases "?n \<le> maxParsedLength")
    case True
    with Cons.IH [OF nn True] nn show ?thesis by (simp add: digitVal_digit Let_def)
  next
    case False
    with nn ge show ?thesis by (simp add: digitVal_digit Let_def)
  qed
qed simp

lemma parseUint_exact:
  "parseUint s = (if s \<noteq> [] \<and> list_all is_digit s \<and> dec_val 0 s \<le> maxParsedLength then (dec_val 0 s, True) else (0, False))"
  using parseUintLoop_exact [of 0 s] by (simp add: parseUint_def maxParsedLength_def)

lemma hexLookup_lt: "uint (hexLookup c) < 16"
  by (rule byte_cases [of "\<lambda>c. uint (hexLookup c) < 16"]) code_simp

lemma hex_step: "0 \<le> (n::int) \<Longrightarrow> push_bit 4 n OR uint (hexLookup c) = n * 16 + uint (hexLookup c)"
proof -
  have h: "take_bit 4 (uint (hexLookup c)) = uint (hexLookup c)"
    using hexLookup_lt [of c] by (simp add: take_bit_int_eq_self_iff)
  have "push_bit 4 n OR uint (hexLookup c) = push_bit 4 n + uint (hexLookup c)"
    by (subst h [symmetric], subst (2) h [symmetric])
      (rule disjunctive_add [symmetric], auto simp: bit_push_bit_iff bit_take_bit_iff)
  then show ?thesis by (simp add: push_bit_eq_mult)
qed

lemma parseHexLoop_exact:
  "0 \<le> n \<Longrightarrow> n \<le> maxParsedLength \<Longrightarrow>
   parseHexLoop n s = (if list_all hexValid s \<and> hex_val n s \<le> maxParsedLength then (hex_val n s, True) else (0, False))"
proof (induction s arbitrary: n)
  case (Cons c s)
  let ?n = "n * 16 + uint (hexLookup c)"
  have nn: "0 \<le> ?n" using Cons.prems uint_nonnegative [of "hexLookup c"] by simp
  note ge = hex_val_ge [OF nn, of s]
  show ?case
  proof (cases "?n \<le> maxParsedLength")
    case True
    with Cons.IH [OF nn True] nn show ?thesis by (simp add: hex_step [OF Cons.prems(1)] Let_def)
  next
    case False
    with nn ge show ?thesis by (simp add: hex_step [OF Cons.prems(1)] Let_def)
  qed
qed simp

lemma parseHex64Bytes_exact:
  "parseHex64Bytes s = (if s \<noteq> [] \<and> list_all hexValid s \<and> hex_val 0 s \<le> maxParsedLength then (hex_val 0 s, True) else (0, False))"
  using parseHexLoop_exact [of 0 s] by (simp add: parseHex64Bytes_def maxParsedLength_def)

text \<open>The writers produce digits of the right value.\<close>

lemma digit_pairs: "map store16 digitPairs = map (\<lambda>d. [word_of_int (48 + d div 10), word_of_int (48 + d mod 10)]) [0..99]"
  by code_simp

lemma digit_of_int: "0 \<le> d \<Longrightarrow> d < 10 \<Longrightarrow> is_digit (word_of_int (48 + d)) \<and> uint (digitVal (word_of_int (48 + d))) = d"
proof -
  have all: "list_all (\<lambda>d. is_digit (word_of_int (48 + d)) \<and> uint (digitVal (word_of_int (48 + d))) = d) [0..9]" by code_simp
  assume "0 \<le> d" "d < 10"
  then have "d \<in> set [0..9]" unfolding set_upto atLeastAtMost_iff by linarith
  with all show ?thesis unfolding list_all_iff by blast
qed

lemma store_pair:
  assumes "0 \<le> n" and "n < 100"
  shows "list_all is_digit (store16 (digitPairs ! nat n)) \<and> dec_val m (store16 (digitPairs ! nat n) @ acc) = dec_val (m * 100 + n) acc"
proof -
  have "store16 (digitPairs ! nat n) = map store16 digitPairs ! nat n" using assms by (intro nth_map [symmetric]) (simp add: digitPairs_def)
  also have "\<dots> = [word_of_int (48 + n div 10), word_of_int (48 + n mod 10)]"
    unfolding digit_pairs using assms nth_upto [of 0 "nat n" 99] by simp
  finally have s: "store16 (digitPairs ! nat n) = [word_of_int (48 + n div 10), word_of_int (48 + n mod 10)]" .
  have "0 \<le> n div 10" "n div 10 < 10" "0 \<le> n mod 10" "n mod 10 < 10" using assms by auto
  note d = digit_of_int [OF this(1,2)] digit_of_int [OF this(3,4)]
  have e: "(m * 10 + n div 10) * 10 + n mod 10 = m * 100 + n" by (simp add: algebra_simps)
  have "dec_val m (store16 (digitPairs ! nat n) @ acc) = dec_val ((m * 10 + n div 10) * 10 + n mod 10) acc"
    unfolding s append_Cons append_Nil dec_val_simps using d by (simp only:)
  then show ?thesis unfolding e unfolding s using d by simp
qed

lemma appendUintLoop_val:
  "0 \<le> n \<Longrightarrow> list_all is_digit acc \<Longrightarrow>
   list_all is_digit (appendUintLoop n acc) \<and> dec_val 0 (appendUintLoop n acc) = dec_val n acc \<and> appendUintLoop n acc \<noteq> []"
proof (induction n acc rule: appendUintLoop.induct)
  case (1 n acc)
  consider "n \<ge> 100" | "n < 100" "n \<ge> 10" | "n < 10" by linarith
  then show ?case
  proof cases
    case 1
    have m: "0 \<le> n mod 100" "n mod 100 < 100" by auto
    have "n div 100 * 100 + n mod 100 = n" by simp
    with "1.IH" [OF 1] "1.prems" 1 store_pair [OF m, of "n div 100" acc] show ?thesis
      by (subst (1 2 3) appendUintLoop.simps) simp
  next
    case 2
    with "1.prems" store_pair [of n 0 acc] show ?thesis
      by (subst (1 2 3) appendUintLoop.simps) (auto simp: store16_def)
  next
    case 3
    then have "appendUintLoop n acc = word_of_int (48 + n) # acc"
      using "1.prems" by (subst appendUintLoop.simps) (simp add: add.commute)
    with 3 "1.prems" digit_of_int [of n] show ?thesis by simp
  qed
qed

lemma parseUint_appendUint: "0 \<le> n \<Longrightarrow> n \<le> maxParsedLength \<Longrightarrow> parseUint (appendUint [] n) = (n, True)"
  using appendUintLoop_val [of n "[]"] by (auto simp: parseUint_exact appendUint_def is_digit_def digitVal_def maxParsedLength_def)

lemma hex_digit: "d < 16 \<Longrightarrow> let c = (if (of_nat d :: byte) < 10 then of_nat d + b8 CHR ''0'' else of_nat d - 10 + b8 CHR ''a'')
    in hexValid c \<and> uint (hexLookup c) = int d"
proof -
  have all: "list_all (\<lambda>d. let c = (if (of_nat d :: byte) < 10 then of_nat d + b8 CHR ''0'' else of_nat d - 10 + b8 CHR ''a'')
    in hexValid c \<and> uint (hexLookup c) = int d) [0..<16]" by code_simp
  assume "d < 16"
  then have "d \<in> set [0..<16]" unfolding set_upt atLeastLessThan_iff by simp
  with all show ?thesis unfolding list_all_iff by blast
qed

lemma appendHexLoop_val:
  "0 \<le> n \<Longrightarrow> list_all hexValid acc \<Longrightarrow>
   list_all hexValid (appendHexLoop n acc) \<and> hex_val 0 (appendHexLoop n acc) = hex_val n acc \<and> (0 < n \<or> acc \<noteq> [] \<longrightarrow> appendHexLoop n acc \<noteq> [])"
proof (induction n acc rule: appendHexLoop.induct)
  case (1 n acc)
  show ?case
  proof (cases "n > 0")
    case True
    let ?k = "nat (n mod 16)"
    let ?c = "if (of_nat ?k :: byte) < 10 then of_nat ?k + b8 CHR ''0'' else of_nat ?k - 10 + b8 CHR ''a''"
    have k: "?k < 16" by (simp add: nat_less_iff)
    have "n AND 0xf = n mod 16"
      using take_bit_eq_mask [of 4 n] by (simp add: mask_numeral take_bit_eq_mod)
    then have d: "(of_int (n AND 0xf) :: byte) = of_nat ?k" by simp
    have c: "hexValid ?c" "uint (hexLookup ?c) = n mod 16" using hex_digit [OF k] by (auto simp: Let_def)
    have l: "appendHexLoop n acc = appendHexLoop (n div 16) (?c # acc)"
      using True d by (subst appendHexLoop.simps) (simp add: Let_def drop_bit_eq_div)
    have e: "n div 16 * 16 + n mod 16 = n" by simp
    have "0 \<le> drop_bit 4 n" using "1.prems" by simp
    have "list_all hexValid (?c # acc)" using c "1.prems" by simp
    from "1.IH" [OF True refl] this show ?thesis
      unfolding d l using c e "1.prems" True by (simp add: drop_bit_eq_div)
  next
    case False
    with "1.prems" show ?thesis by (subst (1 2 3) appendHexLoop.simps) simp
  qed
qed

lemma parseHex_appendHex: "0 \<le> n \<Longrightarrow> n \<le> maxParsedLength \<Longrightarrow> parseHex64Bytes (appendHex [] n) = (n, True)"
  using appendHexLoop_val [of n "[]"] by (auto simp: parseHex64Bytes_exact appendHex_def hexValid_def hexLookup_def maxParsedLength_def)

text \<open>
  C31: decimal and hexadecimal lengths.  The readers accept exactly the non-empty digit strings whose
  value is at most \<open>2 ^ 50\<close> and return that value, so they cannot overflow; what \<open>appendUint\<close> and
  \<open>appendHex\<close> write for such a number is read back.
\<close>

theorem numbers_exact:
  "parseUint s = (if s \<noteq> [] \<and> list_all is_digit s \<and> dec_val 0 s \<le> 2 ^ 50 then (dec_val 0 s, True) else (0, False))
   \<and> parseHex64Bytes s = (if s \<noteq> [] \<and> list_all hexValid s \<and> hex_val 0 s \<le> 2 ^ 50 then (hex_val 0 s, True) else (0, False))
   \<and> (0 \<le> n \<and> n \<le> 2 ^ 50 \<longrightarrow> parseUint (appendUint [] n) = (n, True) \<and> parseHex64Bytes (appendHex [] n) = (n, True))"
  using parseUint_exact [of s] parseHex64Bytes_exact [of s] parseUint_appendUint [of n] parseHex_appendHex [of n]
  unfolding maxParsedLength_def by blast

theorem numbers_exact_witness: "parseUint (appendUint [] 70123) = (70123, True) \<and> parseHex64Bytes (appendHex [] 70123) = (70123, True)"
  using numbers_exact [of "[]" 70123] by simp

end
