(* ===== verification/Path_Utils.thy ===== *)
theory Path_Utils
  imports Ascii_Utils
begin

text \<open>
  Request paths, hosts and JSON strings, \<open>core/utils.go\<close>: \<open>splitPathQuery\<close>, \<open>sanitizeRequestPath\<close>,
  \<open>ValidateHost\<close>, \<open>trimASCIISpace\<close>, \<open>isValidIP\<close>, \<open>StatusText\<close> and \<open>AppendJSONString\<close>.  The main result is
  that a sanitized path is absolute, has no dot segments and no bytes that end a request line, and
  that sanitizing is idempotent.
\<close>

section \<open>Model\<close>

definition indexByte :: "gostring \<Rightarrow> byte \<Rightarrow> nat option" where
  "indexByte s c = (let i = length (takeWhile (\<lambda>x. x \<noteq> c) s) in if i < length s then Some i else None)"

definition splitPathQuery :: "gostring \<Rightarrow> gostring \<times> gostring" where
  "splitPathQuery raw =
     (case indexByte raw (b8 CHR ''?'') of
        Some i \<Rightarrow> (take i raw, drop (i + 1) raw)
      | None \<Rightarrow> (raw, []))"

definition cutAt :: "gostring \<Rightarrow> byte \<Rightarrow> gostring" where
  "cutAt path c = (case indexByte path c of Some i \<Rightarrow> take i path | None \<Rightarrow> path)"

fun containsDoubleSlash :: "gostring \<Rightarrow> bool" where
  "containsDoubleSlash (a # b # s) = (a = b8 CHR ''/'' \<and> b = b8 CHR ''/'' \<or> containsDoubleSlash (b # s))"
| "containsDoubleSlash _ = False"

fun needsSanitizeLoop :: "gostring \<Rightarrow> bool" where
  "needsSanitizeLoop (a # b # s) =
     (if a = b8 CHR ''/'' \<and> (b = b8 CHR ''/'' \<or> b = b8 CHR ''.'') then True else needsSanitizeLoop (b # s))"
| "needsSanitizeLoop _ = False"

definition pushSegment :: "gostring list \<Rightarrow> gostring \<Rightarrow> gostring list" where
  "pushSegment segments seg =
     (if seg = str ''.'' \<or> seg = [] then segments
      else if seg = str ''..'' then (if length segments > 0 then butlast segments else segments)
      else segments @ [seg])"

text \<open>The loop over the bytes after the leading slash; \<open>seg\<close> is the segment read so far.\<close>

fun segmentLoop :: "gostring list \<Rightarrow> gostring \<Rightarrow> gostring \<Rightarrow> gostring list" where
  "segmentLoop segments seg [] = pushSegment segments seg"
| "segmentLoop segments seg (c # rest) =
     (if c = b8 CHR ''/'' then segmentLoop (pushSegment segments seg) [] rest
      else segmentLoop segments (seg @ [c]) rest)"

definition joinSegments :: "gostring list \<Rightarrow> gostring" where
  "joinSegments segments = concat (map (\<lambda>seg. b8 CHR ''/'' # seg) segments)"

definition sanitizeSplitPath :: "gostring \<Rightarrow> gostring" where
  "sanitizeSplitPath p =
     (if length p = 0 then str ''/''
      else if p ! 0 = b8 CHR ''/'' \<and> indexByte p (b8 CHR ''.'') = None \<and> \<not> containsDoubleSlash p then p
      else if \<not> (p ! 0 \<noteq> b8 CHR ''/'' \<or> needsSanitizeLoop p) then p
      else
        let p = (if length p = 0 \<or> p ! 0 \<noteq> b8 CHR ''/'' then b8 CHR ''/'' # p else p);
            segments = segmentLoop [] [] (tl p)
        in if length segments = 0 then str ''/'' else joinSegments segments)"

definition sanitizeRequestPath :: "gostring \<Rightarrow> gostring" where
  "sanitizeRequestPath path =
     sanitizeSplitPath (fst (splitPathQuery (cutAt (cutAt (cutAt path 0) (b8 CHR 0x0D)) (b8 CHR 0x0A))))"

section \<open>Splitting at slashes\<close>

fun split_slash :: "gostring \<Rightarrow> gostring list" where
  "split_slash [] = [[]]"
| "split_slash (c # s) =
     (if c = b8 CHR ''/'' then [] # split_slash s
      else (c # hd (split_slash s)) # tl (split_slash s))"

lemma split_slash_ne [simp]: "split_slash s \<noteq> []"
  by (cases s) auto

lemma indexByte_None: "indexByte s c = None \<longleftrightarrow> c \<notin> set s"
proof -
  have "length (takeWhile (\<lambda>x. x \<noteq> c) s) < length s \<longleftrightarrow> c \<in> set s"
    by (induction s) auto
  then show ?thesis by (simp add: indexByte_def Let_def)
qed

lemma cutAt_takeWhile: "cutAt s c = takeWhile (\<lambda>x. x \<noteq> c) s"
proof -
  have "take (length (takeWhile (\<lambda>x. x \<noteq> c) s)) s = takeWhile (\<lambda>x. x \<noteq> c) s" by (metis takeWhile_eq_take)
  moreover have "takeWhile (\<lambda>x. x \<noteq> c) s = s" if "\<not> length (takeWhile (\<lambda>x. x \<noteq> c) s) < length s"
    using that by (metis linorder_not_less take_all takeWhile_eq_take)
  ultimately show ?thesis unfolding cutAt_def indexByte_def Let_def by (auto simp del: takeWhile_eq_all_conv)
qed

lemma fst_splitPathQuery: "fst (splitPathQuery s) = takeWhile (\<lambda>x. x \<noteq> b8 CHR ''?'') s"
  using cutAt_takeWhile [of s "b8 CHR ''?''"] by (auto simp: splitPathQuery_def cutAt_def split: option.splits)

lemma segmentLoop_split:
  "segmentLoop segs seg s = foldl pushSegment segs ((seg @ hd (split_slash s)) # tl (split_slash s))"
proof (induction segs seg s rule: segmentLoop.induct)
  case (2 segs seg c s)
  then show ?case by (cases "split_slash s") auto
qed simp

definition dot_segment :: "gostring \<Rightarrow> bool" where
  "dot_segment seg \<longleftrightarrow> seg = str ''.'' \<or> seg = str ''..''"

definition proper :: "gostring \<Rightarrow> bool" where
  "proper seg \<longleftrightarrow> seg \<noteq> [] \<and> \<not> dot_segment seg \<and> b8 CHR ''/'' \<notin> set seg"

lemma split_slash_no_slash: "list_all (\<lambda>seg. b8 CHR ''/'' \<notin> set seg) (split_slash s)"
proof (induction s)
  case (Cons c s)
  then show ?case by (cases "split_slash s") auto
qed simp

lemma pushSegment_proper:
  "list_all proper segs \<Longrightarrow> b8 CHR ''/'' \<notin> set seg \<Longrightarrow> list_all proper (pushSegment segs seg)"
  by (auto simp: pushSegment_def proper_def dot_segment_def list_all_iff dest: in_set_butlastD)

lemma foldl_pushSegment_proper:
  "list_all proper segs \<Longrightarrow> list_all (\<lambda>seg. b8 CHR ''/'' \<notin> set seg) xs \<Longrightarrow> list_all proper (foldl pushSegment segs xs)"
  by (induction xs arbitrary: segs) (simp_all add: pushSegment_proper)

lemma segmentLoop_proper: "list_all proper (segmentLoop [] [] s)"
  using foldl_pushSegment_proper [of "[]" "split_slash s"] split_slash_no_slash [of s] by (simp add: segmentLoop_split)

lemma foldl_pushSegment_id: "list_all proper xs \<Longrightarrow> foldl pushSegment segs xs = segs @ xs"
  by (induction xs arbitrary: segs) (auto simp: pushSegment_def proper_def dot_segment_def)

lemma split_slash_append: "b8 CHR ''/'' \<notin> set seg \<Longrightarrow> split_slash (seg @ s) = (seg @ hd (split_slash s)) # tl (split_slash s)"
  by (induction seg) auto

lemma split_slash_join: "list_all proper segs \<Longrightarrow> segs \<noteq> [] \<Longrightarrow> split_slash (joinSegments segs) = [] # segs"
proof (induction segs)
  case (Cons seg segs)
  show ?case
  proof (cases "segs = []")
    case True
    then show ?thesis using Cons.prems split_slash_append [of seg "[]"] by (simp add: joinSegments_def proper_def)
  next
    case False
    with Cons have "split_slash (joinSegments segs) = [] # segs" by simp
    with Cons.prems split_slash_append [of seg "joinSegments segs"] show ?thesis by (simp add: joinSegments_def proper_def)
  qed
qed simp

section \<open>Sanitized paths\<close>

lemma split_slash_set: "seg \<in> set (split_slash s) \<Longrightarrow> set seg \<subseteq> set s"
proof (induction s arbitrary: seg)
  case (Cons c s)
  then show ?case by (cases "split_slash s") (fastforce split: if_splits)+
qed simp

lemma tail_segments: "\<not> needsSanitizeLoop s \<Longrightarrow> list_all (\<lambda>seg. \<not> dot_segment seg) (tl (split_slash s))"
proof (induction s rule: needsSanitizeLoop.induct)
  case (1 a b s)
  show ?case
  proof (cases "a = b8 CHR ''/''")
    case True
    then have "b \<noteq> b8 CHR ''.''" "b \<noteq> b8 CHR ''/''" and n: "\<not> needsSanitizeLoop (b # s)" using "1.prems" by (auto split: if_splits)
    then have "\<not> dot_segment (hd (split_slash (b # s)))" by (auto simp: dot_segment_def)
    moreover have "list_all (\<lambda>seg. \<not> dot_segment seg) (tl (split_slash (b # s)))"
      using \<open>b \<noteq> b8 CHR ''.''\<close> \<open>b \<noteq> b8 CHR ''/''\<close> by (intro "1.IH" n) blast
    ultimately have "list_all (\<lambda>seg. \<not> dot_segment seg) (split_slash (b # s))" by (cases "split_slash (b # s)") auto
    with True show ?thesis by simp
  next
    case False
    then have "\<not> needsSanitizeLoop (b # s)" using "1.prems" by simp
    then have "list_all (\<lambda>seg. \<not> dot_segment seg) (tl (split_slash (b # s)))" using False by (intro "1.IH") blast+
    then show ?thesis using False by simp
  qed
qed (auto simp: dot_segment_def)

definition clean_path :: "gostring \<Rightarrow> bool" where
  "clean_path r \<longleftrightarrow> r \<noteq> [] \<and> hd r = b8 CHR ''/'' \<and> list_all (\<lambda>seg. \<not> dot_segment seg) (split_slash r)"

lemma clean_join: "list_all proper segs \<Longrightarrow> segs \<noteq> [] \<Longrightarrow> clean_path (joinSegments segs)"
  using split_slash_join [of segs] by (cases segs) (auto simp: clean_path_def joinSegments_def proper_def list_all_iff dot_segment_def)

lemma foldl_pushSegment_set:
  "\<Union> (set (map set (foldl pushSegment segs xs))) \<subseteq> \<Union> (set (map set segs)) \<union> \<Union> (set (map set xs))"
proof (induction xs arbitrary: segs)
  case (Cons x xs)
  have "\<Union> (set (map set (pushSegment segs x))) \<subseteq> \<Union> (set (map set segs)) \<union> set x"
    by (auto simp: pushSegment_def dest: in_set_butlastD)
  with Cons.IH [of "pushSegment segs x"] show ?case by auto
qed simp

lemma clean_slash: "clean_path (str ''/'')"
  by (simp add: clean_path_def dot_segment_def)

text \<open>The three shapes of a result.\<close>

lemma sanitizeSplitPath_cases:
  obtains (same) "sanitizeSplitPath p = p" "clean_path p"
  | (root) "sanitizeSplitPath p = str ''/''"
  | (joined) segs where "sanitizeSplitPath p = joinSegments segs" "list_all proper segs" "segs \<noteq> []"
      "\<Union> (set (map set segs)) \<subseteq> set p"
proof (cases "length p = 0 \<or> p ! 0 = b8 CHR ''/'' \<and> indexByte p (b8 CHR ''.'') = None \<and> \<not> containsDoubleSlash p
    \<or> \<not> (p ! 0 \<noteq> b8 CHR ''/'' \<or> needsSanitizeLoop p)")
  case True
  then have "sanitizeSplitPath p = p" if "p \<noteq> []" using that by (auto simp: sanitizeSplitPath_def)
  with True consider "p = []" | (a) "p \<noteq> []" "p ! 0 = b8 CHR ''/''" "b8 CHR ''.'' \<notin> set p" "sanitizeSplitPath p = p"
    | (b) "p \<noteq> []" "p ! 0 = b8 CHR ''/''" "\<not> needsSanitizeLoop p" "sanitizeSplitPath p = p"
    unfolding indexByte_None length_0_conv by blast
  then show ?thesis
  proof cases
    case a
    have "\<not> dot_segment seg" if "seg \<in> set (split_slash p)" for seg
      using split_slash_set [OF that] a(3) by (auto simp: dot_segment_def)
    with a show ?thesis by (intro same) (auto simp: clean_path_def list_all_iff hd_conv_nth)
  next
    case b
    then have "list_all (\<lambda>seg. \<not> dot_segment seg) (split_slash p)"
      using tail_segments [of p] by (cases p) (auto simp: dot_segment_def)
    with b show ?thesis by (intro same) (auto simp: clean_path_def hd_conv_nth)
  qed (auto intro: root simp: sanitizeSplitPath_def)
next
  case False
  let ?p = "if length p = 0 \<or> p ! 0 \<noteq> b8 CHR ''/'' then b8 CHR ''/'' # p else p"
  define t where "t = tl ?p"
  define segs where "segs = segmentLoop [] [] t"
  have r: "sanitizeSplitPath p = (if length segs = 0 then str ''/'' else joinSegments segs)"
    using False by (auto simp: sanitizeSplitPath_def Let_def segs_def t_def)
  have "segs = foldl pushSegment [] (split_slash t)"
    unfolding segs_def segmentLoop_split append_Nil by (metis list.collapse split_slash_ne)
  moreover have "\<Union> (set (map set (split_slash t))) \<subseteq> set t" unfolding set_map using split_slash_set [of _ t] by blast
  ultimately have "\<Union> (set (map set segs)) \<subseteq> set t" using foldl_pushSegment_set [of "[]" "split_slash t"] by simp
  moreover have "set t \<subseteq> set p" by (cases p) (auto simp: t_def)
  ultimately have sub: "\<Union> (set (map set segs)) \<subseteq> set p" by (rule order_trans)
  have "list_all proper segs" unfolding segs_def by (rule segmentLoop_proper)
  from joined [OF _ this _ sub] root r show ?thesis by (cases "segs = []") simp_all
qed

lemma sanitizeSplitPath_clean: "clean_path (sanitizeSplitPath p)"
  using clean_slash clean_join by (cases p rule: sanitizeSplitPath_cases) metis+

lemma sanitizeSplitPath_set: "set (sanitizeSplitPath p) \<subseteq> insert (b8 CHR ''/'') (set p)"
  by (cases p rule: sanitizeSplitPath_cases) (auto simp: joinSegments_def)

lemma sanitizeSplitPath_join:
  assumes "list_all proper segs" and "segs \<noteq> []"
  shows "sanitizeSplitPath (joinSegments segs) = joinSegments segs"
proof -
  obtain t where t: "joinSegments segs = b8 CHR ''/'' # t" using assms(2) by (cases segs) (auto simp: joinSegments_def)
  have "split_slash t = segs" using split_slash_join [OF assms] t by simp
  then have "segmentLoop [] [] t = segs"
    using foldl_pushSegment_id [OF assms(1), of "[]"] assms(2) unfolding segmentLoop_split by (metis append_Nil list.collapse)
  with assms(2) show ?thesis by (simp add: sanitizeSplitPath_def t)
qed

lemma sanitizeSplitPath_idem: "sanitizeSplitPath (sanitizeSplitPath p) = sanitizeSplitPath p"
  by (cases p rule: sanitizeSplitPath_cases) (simp_all add: sanitizeSplitPath_join, simp add: sanitizeSplitPath_def indexByte_None)

text \<open>
  C29: path traversal is impossible after sanitizing.  For every request target, the sanitized path
  starts with a slash, none of its segments is a single or a double dot, it contains no NUL, no
  line break and no query, and sanitizing it again changes nothing.
\<close>

theorem sanitizeRequestPath_safe:
  "clean_path (sanitizeRequestPath path)
   \<and> list_all (\<lambda>c. c \<noteq> 0 \<and> c \<noteq> b8 CHR 0x0D \<and> c \<noteq> b8 CHR 0x0A \<and> c \<noteq> b8 CHR ''?'') (sanitizeRequestPath path)
   \<and> sanitizeRequestPath (sanitizeRequestPath path) = sanitizeRequestPath path"
proof -
  let ?ok = "\<lambda>c. c \<noteq> 0 \<and> c \<noteq> b8 CHR 0x0D \<and> c \<noteq> b8 CHR 0x0A \<and> c \<noteq> b8 CHR ''?''"
  define q where "q = takeWhile (\<lambda>x. x \<noteq> b8 CHR ''?'') (takeWhile (\<lambda>x. x \<noteq> b8 CHR 0x0A) (takeWhile (\<lambda>x. x \<noteq> b8 CHR 0x0D) (takeWhile (\<lambda>x. x \<noteq> 0) path)))"
  have r: "sanitizeRequestPath path = sanitizeSplitPath q"
    by (simp add: sanitizeRequestPath_def cutAt_takeWhile fst_splitPathQuery q_def)
  define good where "good = ?ok"
  have "good c" if "c \<in> set q" for c using that unfolding q_def good_def by (auto dest!: set_takeWhileD)
  moreover have "good (b8 CHR ''/'')" by (simp add: good_def)
  ultimately have "\<forall>c \<in> set (sanitizeSplitPath q). good c" using sanitizeSplitPath_set [of q] by blast
  then have ok: "list_all ?ok (sanitizeSplitPath q)" unfolding list_all_iff good_def .
  have "takeWhile (\<lambda>x. x \<noteq> c) (sanitizeSplitPath q) = sanitizeSplitPath q" if "\<not> ?ok c" for c
    using that ok by (auto simp: list_all_iff)
  note id = this [of 0] this [of "b8 CHR 0x0D"] this [of "b8 CHR 0x0A"] this [of "b8 CHR ''?''"]
  from id have "sanitizeRequestPath (sanitizeSplitPath q) = sanitizeSplitPath (sanitizeSplitPath q)"
    by (simp add: sanitizeRequestPath_def cutAt_takeWhile fst_splitPathQuery del: takeWhile_eq_all_conv)
  with ok show ?thesis by (simp add: r sanitizeSplitPath_clean sanitizeSplitPath_idem)
qed

end
