(* ===== verification/Text_Utils.thy ===== *)
theory Text_Utils
  imports Path_Utils
begin

text \<open>
  The remaining string helpers of \<open>core/utils.go\<close>: JSON string literals, host validation, trimming,
  the shallow IP check and the reason phrases.
\<close>

section \<open>Model\<close>

definition HexDigit :: "byte \<Rightarrow> byte" where
  "HexDigit b = (if b < 10 then b8 CHR ''0'' + b else b8 CHR ''a'' + b - 10)"

definition jsonEscape :: "byte \<Rightarrow> byte list" where
  "jsonEscape c =
     (if c = b8 CHR 0x22 then [b8 CHR 0x5C, b8 CHR 0x22]
      else if c = b8 CHR 0x5C then [b8 CHR 0x5C, b8 CHR 0x5C]
      else if c = b8 CHR 0x0A then [b8 CHR 0x5C, b8 CHR ''n'']
      else if c = b8 CHR 0x0D then [b8 CHR 0x5C, b8 CHR ''r'']
      else if c = b8 CHR 0x09 then [b8 CHR 0x5C, b8 CHR ''t'']
      else [b8 CHR 0x5C, b8 CHR ''u'', b8 CHR ''0'', b8 CHR ''0'', HexDigit (drop_bit 4 c), HexDigit (c AND 0xf)])"

text \<open>The loop of \<open>AppendJSONString\<close>; \<open>pending\<close> is the slice \<open>s[last:i]\<close> not copied yet.\<close>

fun jsonLoop :: "byte list \<Rightarrow> byte list \<Rightarrow> gostring \<Rightarrow> byte list" where
  "jsonLoop dst pending [] = dst @ pending"
| "jsonLoop dst pending (c # s) =
     (if c \<ge> 0x20 \<and> c \<noteq> b8 CHR 0x22 \<and> c \<noteq> b8 CHR 0x5C then jsonLoop dst (pending @ [c]) s
      else jsonLoop (dst @ pending @ jsonEscape c) [] s)"

definition AppendJSONString :: "byte list \<Rightarrow> gostring \<Rightarrow> byte list" where
  "AppendJSONString dst s = jsonLoop (dst @ [b8 CHR 0x22]) [] s @ [b8 CHR 0x22]"

definition validHostChars :: gostring where
  "validHostChars = str ''abcdefghijklmnopqrstuvwxyzABCDEFGHIJKLMNOPQRSTUVWXYZ0123456789-._~%!$&'' @ [39]
     @ str ''()*+,;=:[]''"

definition invalidHostChar :: "byte \<Rightarrow> byte" where
  "invalidHostChar c = (if c \<in> set validHostChars then 0 else 1)"

fun validateHostTail :: "byte \<Rightarrow> gostring \<Rightarrow> byte" where
  "validateHostTail b0 [] = b0"
| "validateHostTail b0 (c # s) = validateHostTail (b0 OR invalidHostChar c) s"

fun validateHostLoop :: "byte \<Rightarrow> byte \<Rightarrow> byte \<Rightarrow> byte \<Rightarrow> gostring \<Rightarrow> byte" where
  "validateHostLoop b0 b1 b2 b3 (c0 # c1 # c2 # c3 # s) =
     validateHostLoop (b0 OR invalidHostChar c0) (b1 OR invalidHostChar c1) (b2 OR invalidHostChar c2) (b3 OR invalidHostChar c3) s"
| "validateHostLoop b0 b1 b2 b3 s = (validateHostTail b0 s OR b1 OR b2 OR b3)"

definition ValidateHost :: "gostring \<Rightarrow> bool" where
  "ValidateHost host \<longleftrightarrow> validateHostLoop 0 0 0 0 host = 0"

definition isASCIISpace :: "byte \<Rightarrow> bool" where
  "isASCIISpace c \<longleftrightarrow> c = b8 CHR '' '' \<or> c = b8 CHR 0x09 \<or> c = b8 CHR 0x0D \<or> c = b8 CHR 0x0A"

definition trimASCIISpace :: "gostring \<Rightarrow> gostring" where
  "trimASCIISpace s = rev (dropWhile isASCIISpace (rev (dropWhile isASCIISpace s)))"

definition isDigitChar :: "byte \<Rightarrow> bool" where
  "isDigitChar c \<longleftrightarrow> c \<ge> b8 CHR ''0'' \<and> c \<le> b8 CHR ''9''"

fun ipv6Loop :: "nat \<Rightarrow> gostring \<Rightarrow> bool" where
  "ipv6Loop colonCount [] = (colonCount \<ge> 2)"
| "ipv6Loop colonCount (c # s) =
     (if c = b8 CHR '':'' then ipv6Loop (colonCount + 1) s
      else if isDigitChar c \<or> c \<ge> b8 CHR ''a'' \<and> c \<le> b8 CHR ''f'' \<or> c \<ge> b8 CHR ''A'' \<and> c \<le> b8 CHR ''F'' \<or> c = b8 CHR ''.''
      then ipv6Loop colonCount s
      else False)"

definition isValidIPv6 :: "gostring \<Rightarrow> bool" where
  "isValidIPv6 s = ipv6Loop 0 s"

fun ipv4Loop :: "gostring \<Rightarrow> nat \<Rightarrow> nat \<Rightarrow> gostring \<Rightarrow> bool" where
  "ipv4Loop whole dotCount partLen [] = (dotCount = 3 \<and> partLen > 0 \<and> partLen \<le> 3)"
| "ipv4Loop whole dotCount partLen (c # s) =
     (if c = b8 CHR ''.'' then
        (if partLen = 0 \<or> partLen > 3 then False else ipv4Loop whole (dotCount + 1) 0 s)
      else if isDigitChar c then ipv4Loop whole dotCount (partLen + 1) s
      else if c = b8 CHR '':'' then isValidIPv6 whole
      else False)"

definition isValidIP :: "gostring \<Rightarrow> bool" where
  "isValidIP s = ipv4Loop s 0 0 s"

definition StatusText :: "int \<Rightarrow> gostring" where
  "StatusText code =
     (if code = 200 then str ''OK''
      else if code = 201 then str ''Created''
      else if code = 204 then str ''No Content''
      else if code = 206 then str ''Partial Content''
      else if code = 301 then str ''Moved Permanently''
      else if code = 302 then str ''Found''
      else if code = 304 then str ''Not Modified''
      else if code = 400 then str ''Bad Request''
      else if code = 401 then str ''Unauthorized''
      else if code = 403 then str ''Forbidden''
      else if code = 404 then str ''Not Found''
      else if code = 405 then str ''Method Not Allowed''
      else if code = 408 then str ''Request Timeout''
      else if code = 412 then str ''Precondition Failed''
      else if code = 413 then str ''Payload Too Large''
      else if code = 416 then str ''Range Not Satisfiable''
      else if code = 421 then str ''Misdirected Request''
      else if code = 429 then str ''Too Many Requests''
      else if code = 431 then str ''Request Header Fields Too Large''
      else if code = 500 then str ''Internal Server Error''
      else if code = 502 then str ''Bad Gateway''
      else if code = 503 then str ''Service Unavailable''
      else str ''Unknown'')"

section \<open>JSON strings\<close>

definition hex_digit_val :: "byte \<Rightarrow> byte option" where
  "hex_digit_val c = (if hexValid c then Some (hexLookup c) else None)"

text \<open>
  A reference reader of a JSON string literal after its opening quote: no control characters, the
  escapes of the grammar, and nothing after the closing quote.  Escapes of code points above 255,
  which the writer never emits, are rejected.
\<close>

fun json_read :: "byte list \<Rightarrow> gostring option" where
  "json_read [] = None"
| "json_read (c # r) =
     (if c = b8 CHR 0x22 then (if r = [] then Some [] else None)
      else if c < 0x20 then None
      else if c \<noteq> b8 CHR 0x5C then map_option ((#) c) (json_read r)
      else
        (case r of
           [] \<Rightarrow> None
         | e # r' \<Rightarrow>
             if e = b8 CHR 0x22 \<or> e = b8 CHR 0x5C \<or> e = b8 CHR ''/'' then map_option ((#) e) (json_read r')
             else if e = b8 CHR ''b'' then map_option ((#) 8) (json_read r')
             else if e = b8 CHR ''f'' then map_option ((#) 12) (json_read r')
             else if e = b8 CHR ''n'' then map_option ((#) 10) (json_read r')
             else if e = b8 CHR ''r'' then map_option ((#) 13) (json_read r')
             else if e = b8 CHR ''t'' then map_option ((#) 9) (json_read r')
             else if e = b8 CHR ''u'' then
               (case r' of
                  h1 # h2 # h3 # h4 # r'' \<Rightarrow>
                    if h1 = b8 CHR ''0'' \<and> h2 = b8 CHR ''0'' then
                      (case (hex_digit_val h3, hex_digit_val h4) of
                         (Some x, Some y) \<Rightarrow> map_option ((#) (x * 16 + y)) (json_read r'')
                       | _ \<Rightarrow> None)
                    else None
                | _ \<Rightarrow> None)
             else None))"

definition jsonByte :: "byte \<Rightarrow> byte list" where
  "jsonByte c = (if c \<ge> 0x20 \<and> c \<noteq> b8 CHR 0x22 \<and> c \<noteq> b8 CHR 0x5C then [c] else jsonEscape c)"

lemma jsonLoop_bytes: "jsonLoop dst pending s = dst @ pending @ concat (map jsonByte s)"
  by (induction dst pending s rule: jsonLoop.induct) (simp_all add: jsonByte_def)

lemma HexDigit_nibble: "unat b < 16 \<Longrightarrow> hex_digit_val (HexDigit b) = Some b \<and> HexDigit b \<ge> 0x20"
proof -
  have all: "list_all (\<lambda>k. hex_digit_val (HexDigit (word_of_int k)) = Some (word_of_int k) \<and> HexDigit (word_of_int k) \<ge> 0x20) [0..15]"
    by code_simp
  assume "unat b < 16"
  moreover have "int (unat b) = uint b" by simp
  ultimately have "uint b < 16" by linarith
  then have "uint b \<in> set [0..15]" unfolding set_upto atLeastAtMost_iff using uint_nonnegative [of b] by linarith
  with all have "hex_digit_val (HexDigit (word_of_int (uint b))) = Some (word_of_int (uint b)) \<and> HexDigit (word_of_int (uint b)) \<ge> 0x20"
    unfolding list_all_iff by blast
  then show ?thesis by simp
qed

lemma nibbles: "unat (drop_bit 4 c) < 16" "unat (c AND 0xf) < 16" "drop_bit 4 c * 16 + (c AND 0xf) = c" for c :: byte
proof -
  have d: "unat (drop_bit 4 c) = unat c div 16" using unat_drop_bit_div [of 4 c] by simp
  have m: "unat (c AND 0xf) = unat c mod 16" using unat_and_mask [of c 4] by simp
  show "unat (drop_bit 4 c) < 16" "unat (c AND 0xf) < 16" unfolding d m using byte_lt256 [of c] by auto
  show "drop_bit 4 c * 16 + (c AND 0xf) = c"
    using d m byte_lt256 [of c] by (simp add: word_unat_eq_iff unat_word_ariths)
qed

lemma HexDigit_ok:
  "hex_digit_val (HexDigit (drop_bit 4 c)) = Some (drop_bit 4 c)" "hex_digit_val (HexDigit (c AND 0xf)) = Some (c AND 0xf)"
  "HexDigit (drop_bit 4 c) \<ge> 0x20" "HexDigit (c AND 0xf) \<ge> 0x20" for c :: byte
  using HexDigit_nibble [OF nibbles(1)] HexDigit_nibble [OF nibbles(2)] by auto

lemma jsonEscape_printable: "list_all (\<lambda>x. x \<ge> 0x20) (jsonEscape c)"
  using HexDigit_ok(3,4) [of c] by (simp add: jsonEscape_def)

lemma json_read_byte: "json_read (jsonByte c @ r) = map_option ((#) c) (json_read r)"
  using HexDigit_ok [of c] nibbles(3) [of c] by (auto simp: jsonByte_def jsonEscape_def)

lemma json_read_bytes: "json_read (concat (map jsonByte s) @ [b8 CHR 0x22]) = Some s"
proof (induction s)
  case (Cons c s)
  then show ?case by (simp add: json_read_byte del: json_read.simps)
qed simp

text \<open>
  C32: JSON strings.  What \<open>AppendJSONString\<close> appends is an opening quote followed by a text that the
  reader of JSON string literals reads back as the original bytes, up to the end of the output,
  and it contains no control character.
\<close>

theorem AppendJSONString_roundtrip:
  "\<exists>body. AppendJSONString dst s = dst @ b8 CHR 0x22 # body \<and> json_read body = Some s \<and> list_all (\<lambda>c. c \<ge> 0x20) body"
proof (intro exI conjI)
  let ?body = "concat (map jsonByte s) @ [b8 CHR 0x22]"
  show "AppendJSONString dst s = dst @ b8 CHR 0x22 # ?body" by (simp add: AppendJSONString_def jsonLoop_bytes)
  show "json_read ?body = Some s" by (rule json_read_bytes)
  have "list_all (\<lambda>x. x \<ge> 0x20) (jsonByte c)" for c using jsonEscape_printable [of c] by (simp add: jsonByte_def)
  then show "list_all (\<lambda>c. c \<ge> 0x20) ?body" by (induction s) simp_all
qed

section \<open>Hosts\<close>

lemma validateHostTail_0: "validateHostTail b0 s = 0 \<longleftrightarrow> b0 = 0 \<and> list_all (\<lambda>c. c \<in> set validHostChars) s"
  by (induction s arbitrary: b0) (auto simp: invalidHostChar_def or_eq_0_iff)

lemma validateHostLoop_0: "validateHostLoop b0 b1 b2 b3 s = 0 \<longleftrightarrow>
    b0 = 0 \<and> b1 = 0 \<and> b2 = 0 \<and> b3 = 0 \<and> list_all (\<lambda>c. c \<in> set validHostChars) s"
  by (induction b0 b1 b2 b3 s rule: validateHostLoop.induct)
    (auto simp: invalidHostChar_def or_eq_0_iff validateHostTail_0)

lemma ValidateHost_iff: "ValidateHost host \<longleftrightarrow> list_all (\<lambda>c. c \<in> set validHostChars) host"
  by (simp add: ValidateHost_def validateHostLoop_0)

lemma valid_host_no_breaks: "ValidateHost host \<Longrightarrow> list_all (\<lambda>c. c > 0x20 \<and> c \<noteq> 0x7f) host"
proof -
  have "c > 0x20 \<and> c \<noteq> 0x7f" if "c \<in> set validHostChars" for c
    using that by (auto simp: validHostChars_def)
  then show "ValidateHost host \<Longrightarrow> ?thesis" by (auto simp: ValidateHost_iff list_all_iff)
qed

end
