(* ===== verification/Swar.thy ===== *)
theory Swar
  imports Text_Utils
begin

text \<open>
  Scanning eight bytes at a time in a 64-bit word: \<open>swarZeroBytes\<close>, \<open>wordHasLineBreak\<close>,
  \<open>containsLineBreak\<close> (\<open>core/utils.go\<close>), \<open>wordHasPathControl\<close>, \<open>isValidH2Path\<close> (\<open>core/hpack.go\<close>) and
  \<open>firstH1SpecialSWAR\<close> (\<open>core/h1scan.go\<close>).  Subtractions borrow across bytes, so a flag may be set for
  a byte that does not match, but only above a byte that does; every routine is shown equal to
  the byte-by-byte definition.
\<close>

section \<open>Model\<close>

definition swarOnes :: u64 where "swarOnes = 0x0101010101010101"
definition swarHigh :: u64 where "swarHigh = 0x8080808080808080"

definition swarZeroBytes :: "u64 \<Rightarrow> u64" where
  "swarZeroBytes v = (v - swarOnes) AND NOT v AND swarHigh"

definition wordHasLineBreak :: "u64 \<Rightarrow> u64 \<Rightarrow> bool" where
  "wordHasLineBreak w nulMask \<longleftrightarrow>
     swarZeroBytes (w XOR 0x0d * swarOnes) OR swarZeroBytes (w XOR 0x0a * swarOnes) OR (swarZeroBytes w AND nulMask) \<noteq> 0"

definition h2PathFirstValidByte :: byte where "h2PathFirstValidByte = 0x21"
definition h2PathDELByte :: byte where "h2PathDELByte = 0x7f"

definition wordHasPathControl :: "u64 \<Rightarrow> bool" where
  "wordHasPathControl w \<longleftrightarrow>
     ((w - 0x21 * swarOnes) AND NOT w AND swarHigh) OR swarZeroBytes (w XOR 0x7f * swarOnes) \<noteq> 0"

text \<open>\<open>binary.LittleEndian.Uint64\<close> of the first eight bytes.\<close>

fun le_int :: "byte list \<Rightarrow> int" where
  "le_int [] = 0"
| "le_int (b # bs) = uint b + 256 * le_int bs"

definition le_word :: "byte list \<Rightarrow> u64" where
  "le_word bs = word_of_int (le_int (take 8 bs))"

text \<open>Some word of the string satisfies \<open>P\<close>: those at \<open>i, i + 8, ...\<close> below \<open>last\<close>, then the one at \<open>last\<close>.\<close>

function anyWord :: "(u64 \<Rightarrow> bool) \<Rightarrow> byte list \<Rightarrow> nat \<Rightarrow> nat \<Rightarrow> bool" where
  "anyWord P b i lastOff =
     (if i < lastOff then (if P (le_word (drop i b)) then True else anyWord P b (i + 8) lastOff)
      else P (le_word (drop lastOff b)))"
  by auto
termination by (relation "measure (\<lambda>(_, _, i, lastOff). lastOff - i)") auto

declare anyWord.simps [simp del]

definition crlfInlineScanMax :: nat where "crlfInlineScanMax = 32"

definition containsLineBreak :: "gostring \<Rightarrow> u64 \<Rightarrow> bool" where
  "containsLineBreak s nulMask =
     (if length s > crlfInlineScanMax then
        indexByte s 0x0d \<noteq> None \<or> indexByte s 0x0a \<noteq> None \<or> nulMask \<noteq> 0 \<and> indexByte s 0 \<noteq> None
      else if length s < 8 then
        list_ex (\<lambda>c. c \<le> 0x0d \<and> (c = 0x0d \<or> c = 0x0a \<or> c = 0 \<and> nulMask \<noteq> 0)) s
      else anyWord (\<lambda>w. wordHasLineBreak w nulMask) s 0 (length s - 8))"

definition lineBreakCRLF :: u64 where "lineBreakCRLF = 0"
definition lineBreakCRLFNUL :: u64 where "lineBreakCRLFNUL = swarHigh"

definition containsCRLF :: "gostring \<Rightarrow> bool" where
  "containsCRLF s = containsLineBreak s lineBreakCRLF"

definition isValidH2Path :: "gostring \<Rightarrow> bool" where
  "isValidH2Path path =
     (if length path < 8 then list_all (\<lambda>c. \<not> (c < h2PathFirstValidByte \<or> c = h2PathDELByte)) path
      else \<not> anyWord wordHasPathControl path 0 (length path - 8))"

definition isH1Special :: "byte \<Rightarrow> bool" where
  "isH1Special c \<longleftrightarrow> c < 0x20 \<and> c \<noteq> b8 CHR 0x09 \<or> c = 0x7f"

definition trailingZeros64 :: "u64 \<Rightarrow> nat" where
  "trailingZeros64 m = length (takeWhile (\<lambda>j. \<not> bit m j) [0..<64])"

text \<open>The loop over the flags of one word, with the test of a flagged position; at most 64 flags, which is the fuel.\<close>

fun flagLoop :: "(nat \<Rightarrow> bool) \<Rightarrow> nat \<Rightarrow> nat \<Rightarrow> u64 \<Rightarrow> nat option" where
  "flagLoop hit 0 i m = None"
| "flagLoop hit (Suc fuel) i m =
     (if m \<noteq> 0 then
        let j = i + drop_bit 3 (trailingZeros64 m) in
        if hit j then Some j else flagLoop hit fuel i (m AND (m - 1))
      else None)"

definition wordFlags :: "u64 \<Rightarrow> u64" where
  "wordFlags w =
     (let below = (w - 0x20 * swarOnes) AND NOT w AND swarHigh;
          del = w XOR 0x7f * swarOnes;
          del = (del - swarOnes) AND NOT del AND swarHigh
      in below OR del)"

fun firstSpecialTail :: "byte list \<Rightarrow> nat \<Rightarrow> nat option" where
  "firstSpecialTail [] i = None"
| "firstSpecialTail (c # p) i = (if isH1Special c then Some i else firstSpecialTail p (i + 1))"

function firstSpecialLoop :: "byte list \<Rightarrow> nat \<Rightarrow> nat option" where
  "firstSpecialLoop p i =
     (if i + 8 \<le> length p then
        (case flagLoop (\<lambda>j. isH1Special (p ! j)) 64 i (wordFlags (le_word (drop i p))) of
           Some j \<Rightarrow> Some j
         | None \<Rightarrow> firstSpecialLoop p (i + 8))
      else firstSpecialTail (drop i p) i)"
  by auto
termination by (relation "measure (\<lambda>(p, i). length p - i)") auto

declare firstSpecialLoop.simps [simp del]

text \<open>The result \<open>-1\<close> of the source is \<open>None\<close>.\<close>

definition firstH1SpecialSWAR :: "byte list \<Rightarrow> nat option" where
  "firstH1SpecialSWAR p = firstSpecialLoop p 0"

section \<open>Bytes of a word\<close>

lemma le_int_bounds: "0 \<le> le_int bs \<and> le_int bs < 256 ^ length bs"
proof (induction bs)
  case (Cons b bs)
  have b: "0 \<le> uint b" "uint b < 256" using uint_nonnegative [of b] unsigned_less [of b, where 'a = int] by simp_all
  from Cons b show ?case by simp
qed simp

lemma bit_byte_step: "0 \<le> r \<Longrightarrow> r < 256 \<Longrightarrow> bit (r + 256 * q :: int) (8 + j) = bit q j"
proof -
  assume "0 \<le> r" "r < 256"
  then have "(r + 256 * q) div 2 ^ 8 = q" by simp
  then have "drop_bit 8 (r + 256 * q) = q" by (simp add: drop_bit_eq_div)
  then show ?thesis by (metis bit_drop_bit_eq comp_apply)
qed

lemma bit_byte_low: "j < 8 \<Longrightarrow> bit (r + 256 * q :: int) j = bit r j"
proof -
  assume "j < 8"
  moreover have "take_bit 8 (r + 256 * q) = take_bit 8 r" by (simp add: take_bit_eq_mod)
  ultimately show ?thesis by (metis bit_take_bit_iff)
qed

lemma bit_le_int: "i < length bs \<Longrightarrow> j < 8 \<Longrightarrow> bit (le_int bs) (8 * i + j) = bit (bs ! i) j"
proof (induction bs arbitrary: i)
  case (Cons b bs)
  have b: "0 \<le> uint b" "uint b < 256" using uint_nonnegative [of b] unsigned_less [of b, where 'a = int] by simp_all
  show ?case
  proof (cases i)
    case 0
    then show ?thesis using Cons.prems bit_byte_low [of j "uint b"] by (simp add: bit_uint_iff)
  next
    case (Suc k)
    have e: "8 * i + j = 8 + (8 * k + j)" by (simp add: Suc)
    have "bit (le_int (b # bs)) (8 + (8 * k + j)) = bit (le_int bs) (8 * k + j)" using bit_byte_step [OF b] by simp
    then show ?thesis unfolding e using Cons Suc by simp
  qed
qed simp

lemma bit_le_word: "8 \<le> length bs \<Longrightarrow> i < 8 \<Longrightarrow> j < 8 \<Longrightarrow> bit (le_word bs) (8 * i + j) = bit (bs ! i) j"
  using bit_le_int [of i "take 8 bs" j] by (simp add: le_word_def bit_word_of_int_iff)

text \<open>Subtracting \<open>n\<close> from every byte, with a borrow \<open>c\<close> coming in at the bottom.\<close>

lemma uint_byte_obtain:
  obtains v where "uint (b :: byte) = v" "0 \<le> v" "v < 256"
  using uint_nonnegative [of b] unsigned_less [of b, where 'a = int] by simp

lemma sub_bytes_hit:
  assumes "0 < n" and "n < 128" and "c \<in> {0, 1}" and "i < length bs" and "uint (bs ! i) < n"
  shows "bit (le_int bs - n * le_int (replicate (length bs) 1) - c) (8 * i + 7)"
  using assms(3-)
proof (induction bs arbitrary: i c)
  case (Cons b bs)
  let ?rest = "le_int bs - n * le_int (replicate (length bs) 1)"
  obtain v where v: "uint b = v" "0 \<le> v" "v < 256" by (rule uint_byte_obtain)
  define r where "r = v - n - c"
  have split: "le_int (b # bs) - n * le_int (replicate (length (b # bs)) 1) - c = (if r < 0 then r + 256 else r) + 256 * (?rest - (if r < 0 then 1 else 0))"
    by (simp add: r_def v(1) algebra_simps)
  have c: "0 \<le> c" "c \<le> 1" using Cons.prems(1) by auto
  have rng: "0 \<le> (if r < 0 then r + 256 else r)" "(if r < 0 then r + 256 else r) < 256"
    using v c assms(1,2) by (auto simp: r_def)
  show ?case
  proof (cases i)
    case 0
    then have r: "r < 0" "r + 256 \<ge> 128" using Cons.prems(3) assms(1,2) v c by (auto simp: r_def)
    then have "(r + 256) div 2 ^ 7 = 1" using rng by auto
    then have "bit (if r < 0 then r + 256 else r) 7" using r(1) by (simp add: bit_iff_odd)
    moreover have "8 * i + 7 = 7" by (simp add: 0)
    ultimately show ?thesis unfolding split by (simp only: bit_byte_low [of 7])
  next
    case (Suc k)
    have e: "8 * i + 7 = 8 + (8 * k + 7)" by (simp add: Suc)
    have "bit (?rest - (if r < 0 then 1 else 0)) (8 * k + 7)" using Cons.prems Suc by (intro Cons.IH) auto
    then show ?thesis unfolding split e bit_byte_step [OF rng] .
  qed
qed simp

lemma sub_bytes_miss:
  assumes "0 < n" and "n < 128" and "i < length bs" and "\<And>k. k \<le> i \<Longrightarrow> n \<le> uint (bs ! k)"
  shows "bit (le_int bs - n * le_int (replicate (length bs) 1)) (8 * i + 7) \<longrightarrow> bit (bs ! i) 7"
  using assms(3-)
proof (induction bs arbitrary: i)
  case (Cons b bs)
  let ?rest = "le_int bs - n * le_int (replicate (length bs) 1)"
  obtain v where v: "uint b = v" "0 \<le> v" "v < 256" by (rule uint_byte_obtain)
  define r where "r = v - n"
  have split: "le_int (b # bs) - n * le_int (replicate (length (b # bs)) 1) = r + 256 * ?rest"
    by (simp add: r_def v(1) algebra_simps)
  have rng: "0 \<le> r" "r < 256" using v assms(1) Cons.prems(2) [of 0] by (auto simp: r_def)
  show ?case
  proof (cases i)
    case 0
    have "bit v 7" if "bit r 7"
    proof -
      have "128 \<le> r"
      proof (rule ccontr)
        assume "\<not> 128 \<le> r"
        then have "r div 2 ^ 7 = 0" using rng by auto
        with that show False by (simp add: bit_iff_odd)
      qed
      then have "v div 2 ^ 7 = 1" using assms(1) v by (auto simp: r_def)
      then show ?thesis by (simp add: bit_iff_odd)
    qed
    then show ?thesis unfolding split 0 using bit_byte_low [of 7 r ?rest] by (simp add: v(1) [symmetric] bit_uint_iff)
  next
    case (Suc k)
    have e: "8 * i + 7 = 8 + (8 * k + 7)" by (simp add: Suc)
    have "bit ?rest (8 * k + 7) \<longrightarrow> bit (bs ! k) 7"
    proof (rule Cons.IH)
      show "n \<le> uint (bs ! m)" if "m \<le> k" for m using Cons.prems(2) [of "Suc m"] that Suc by simp
    qed (use Cons.prems Suc in simp)
    then show ?thesis unfolding split e bit_byte_step [OF rng] using Suc by simp
  qed
qed simp

section \<open>Flags\<close>

definition flags_below :: "u64 \<Rightarrow> u64 \<Rightarrow> u64" where
  "flags_below n w = (w - n * swarOnes) AND NOT w AND swarHigh"

lemma swarZeroBytes_flags: "swarZeroBytes v = flags_below 1 v"
  by (simp add: swarZeroBytes_def flags_below_def)

lemma replicate_8: "replicate 8 x = [x, x, x, x, x, x, x, x]"
  by (simp add: numeral_eq_Suc)

lemma swarOnes_le: "swarOnes = word_of_int (le_int (replicate 8 1))"
  unfolding replicate_8 by (simp add: swarOnes_def)

lemma swarHigh_le: "swarHigh = word_of_int (le_int (replicate 8 0x80))"
  unfolding replicate_8 by (simp add: swarHigh_def)

lemma bit_swarHigh: "i < 8 \<Longrightarrow> j < 8 \<Longrightarrow> bit swarHigh (8 * i + j) \<longleftrightarrow> j = 7"
proof -
  assume i: "i < 8" and j: "j < 8"
  have "bit (le_int (replicate 8 0x80)) (8 * i + j) = bit (0x80 :: byte) j"
    using bit_le_int [of i "replicate 8 0x80" j] i j by simp
  moreover have "bit (0x80 :: byte) j \<longleftrightarrow> j = 7" unfolding byte_consts(3) bit_exp_iff using j by auto
  ultimately show ?thesis using i j by (simp add: swarHigh_le bit_word_of_int_iff)
qed

lemma bit_swarHighD: "bit swarHigh k \<Longrightarrow> \<exists>i < 8. k = 8 * i + 7"
proof -
  assume b: "bit swarHigh k"
  have k: "k < 64" using b bit_imp_le_length by fastforce
  have "bit swarHigh (8 * (k div 8) + k mod 8)" using b by simp
  moreover have "k div 8 < 8" using k by auto
  ultimately have "k mod 8 = 7" using bit_swarHigh [of "k div 8" "k mod 8"] by simp
  then show ?thesis using \<open>k div 8 < 8\<close> by (metis div_mult_mod_eq mult.commute)
qed

lemma bit_flags:
  assumes "8 \<le> length bs" and "i < 8"
  shows "bit (flags_below (word_of_int n) (le_word bs)) (8 * i + 7) \<longleftrightarrow>
    bit (le_int (take 8 bs) - n * le_int (replicate (length (take 8 bs)) 1)) (8 * i + 7) \<and> \<not> bit (bs ! i) 7"
proof -
  have "le_word bs - word_of_int n * swarOnes = word_of_int (le_int (take 8 bs) - n * le_int (replicate 8 1))"
    by (simp only: le_word_def swarOnes_le wi_hom_syms)
  then have "bit (le_word bs - word_of_int n * swarOnes) (8 * i + 7) = bit (le_int (take 8 bs) - n * le_int (replicate 8 1)) (8 * i + 7)"
    using assms(2) by (simp only: bit_word_of_int_iff) simp
  then show ?thesis
    using assms bit_swarHigh [of i 7] bit_le_word [of bs i 7]
    by (simp add: flags_below_def bit_and_iff bit_not_iff min_absorb2)
qed

lemma flags_hit:
  assumes "8 \<le> length bs" and "i < 8" and "0 < n" and "n < 128" and "uint (bs ! i) < n"
  shows "bit (flags_below (word_of_int n) (le_word bs)) (8 * i + 7)"
proof -
  have "\<not> bit (bs ! i) 7"
  proof
    assume "bit (bs ! i) 7"
    then have "bit (uint (bs ! i)) 7" by (simp add: bit_uint_iff)
    moreover have "uint (bs ! i) div 2 ^ 7 = 0" using assms(4,5) by (intro div_pos_pos_trivial) auto
    ultimately show False by (simp add: bit_iff_odd)
  qed
  moreover have "bit (le_int (take 8 bs) - n * le_int (replicate (length (take 8 bs)) 1)) (8 * i + 7)"
    using sub_bytes_hit [of n 0 i "take 8 bs"] assms by simp
  ultimately show ?thesis using bit_flags [OF assms(1,2)] by simp
qed

lemma flags_below_0_iff:
  assumes "8 \<le> length bs" and "0 < n" and "n < 128"
  shows "flags_below (word_of_int n) (le_word bs) = 0 \<longleftrightarrow> (\<forall>i < 8. n \<le> uint (bs ! i))"
proof
  assume z: "flags_below (word_of_int n) (le_word bs) = 0"
  show "\<forall>i < 8. n \<le> uint (bs ! i)"
  proof (intro allI impI)
    fix i :: nat assume "i < 8"
    show "n \<le> uint (bs ! i)"
    proof (rule ccontr)
      assume "\<not> n \<le> uint (bs ! i)"
      then have "bit (flags_below (word_of_int n) (le_word bs)) (8 * i + 7)"
        using flags_hit [OF assms(1) \<open>i < 8\<close> assms(2,3)] by simp
      with z show False by simp
    qed
  qed
next
  assume ge: "\<forall>i < 8. n \<le> uint (bs ! i)"
  show "flags_below (word_of_int n) (le_word bs) = 0"
  proof (rule ccontr)
    assume "flags_below (word_of_int n) (le_word bs) \<noteq> 0"
    then obtain k where k: "bit (flags_below (word_of_int n) (le_word bs)) k" by (metis bit_eqI bit_0_eq bot_apply bot_bool_def)
    then have "bit swarHigh k" by (simp add: flags_below_def bit_and_iff)
    then obtain i where i: "i < 8" "k = 8 * i + 7" using bit_swarHighD by blast
    have "bit (le_int (take 8 bs) - n * le_int (replicate (length (take 8 bs)) 1)) (8 * i + 7) \<longrightarrow> bit (take 8 bs ! i) 7"
      using sub_bytes_miss [of n i "take 8 bs"] assms ge i(1) by simp
    with k i bit_flags [OF assms(1) i(1)] show False by simp
  qed
qed

text \<open>Exclusive or with a byte in every position.\<close>

lemma bit_times_ones: "i < 8 \<Longrightarrow> j < 8 \<Longrightarrow> bit (ucast (c :: byte) * swarOnes) (8 * i + j) = bit c j"
proof -
  assume i: "i < 8" and j: "j < 8"
  have "ucast c * swarOnes = word_of_int (uint c * le_int (replicate 8 1))"
    unfolding swarOnes_le ucast_eq by (simp only: wi_hom_syms)
  also have "uint c * le_int (replicate 8 1) = le_int (replicate 8 c)" unfolding replicate_8 by (simp add: algebra_simps)
  finally show ?thesis using bit_le_int [of i "replicate 8 c" j] i j by (simp add: bit_word_of_int_iff)
qed

lemma le_word_xor:
  assumes "8 \<le> length bs"
  shows "le_word bs XOR ucast c * swarOnes = le_word (map (\<lambda>b. b XOR c) bs)"
proof (rule bit_word_eqI)
  fix k assume "k < LENGTH(64)"
  then have k: "k div 8 < 8" "k = 8 * (k div 8) + k mod 8" by auto
  have "bit (le_word bs XOR ucast c * swarOnes) (8 * (k div 8) + k mod 8) = bit (le_word (map (\<lambda>b. b XOR c) bs)) (8 * (k div 8) + k mod 8)"
    using assms k(1) bit_le_word [of bs "k div 8" "k mod 8"] bit_le_word [of "map (\<lambda>b. b XOR c) bs" "k div 8" "k mod 8"]
      bit_times_ones [OF k(1), of "k mod 8" c] by (simp add: bit_xor_iff del: div_mult_mod_eq)
  with k(2) show "bit (le_word bs XOR ucast c * swarOnes) k = bit (le_word (map (\<lambda>b. b XOR c) bs)) k" by simp
qed

definition byte_in :: "(byte \<Rightarrow> bool) \<Rightarrow> byte list \<Rightarrow> bool" where
  "byte_in P bs \<longleftrightarrow> list_ex P (take 8 bs)"

lemma byte_in_nth: "8 \<le> length bs \<Longrightarrow> byte_in P bs \<longleftrightarrow> (\<exists>i < 8. P (bs ! i))"
  by (auto simp: byte_in_def list_ex_length)

lemma xor_0_iff: "a XOR b = 0 \<longleftrightarrow> a = (b :: 'a::len word)"
  by (metis xor.assoc xor.left_neutral xor.right_neutral xor_self_eq)

lemma uint_ge_1: "1 \<le> uint b \<longleftrightarrow> b \<noteq> (0 :: 'a::len word)"
proof (cases "b = 0")
  case False
  then have "uint b \<noteq> 0" by (simp add: uint_0_iff)
  with uint_nonnegative [of b] False show ?thesis by linarith
qed simp

lemma swarZeroBytes_0_iff: "8 \<le> length bs \<Longrightarrow> swarZeroBytes (le_word bs) = 0 \<longleftrightarrow> \<not> byte_in (\<lambda>b. b = 0) bs"
proof -
  assume l: "8 \<le> length bs"
  have "swarZeroBytes (le_word bs) = 0 \<longleftrightarrow> (\<forall>i < 8. 1 \<le> uint (bs ! i))"
    using flags_below_0_iff [OF l, of 1] by (simp add: swarZeroBytes_flags)
  then show ?thesis unfolding uint_ge_1 byte_in_nth [OF l] by blast
qed

lemma swar_equal_0_iff:
  "8 \<le> length bs \<Longrightarrow> swarZeroBytes (le_word bs XOR ucast c * swarOnes) = 0 \<longleftrightarrow> \<not> byte_in (\<lambda>b. b = c) bs"
  by (simp add: le_word_xor swarZeroBytes_0_iff byte_in_nth xor_0_iff)

lemma flags_below_byte_in:
  "8 \<le> length bs \<Longrightarrow> 0 < uint n \<Longrightarrow> uint n < 128 \<Longrightarrow> flags_below (ucast n) (le_word bs) = 0 \<longleftrightarrow> \<not> byte_in (\<lambda>b. b < n) bs" for n :: byte
proof -
  assume l: "8 \<le> length bs" and n: "0 < uint n" "uint n < 128"
  show "flags_below (ucast n) (le_word bs) = 0 \<longleftrightarrow> \<not> byte_in (\<lambda>b. b < n) bs"
    unfolding ucast_eq flags_below_0_iff [OF l n] byte_in_nth [OF l] word_less_def not_ex not_less by (metis linorder_not_less)
qed

lemma byte_in_disj: "byte_in P bs \<or> byte_in Q bs \<longleftrightarrow> byte_in (\<lambda>b. P b \<or> Q b) bs"
  by (auto simp: byte_in_def list_ex_iff)

lemma wordHasPathControl_iff:
  "8 \<le> length bs \<Longrightarrow> wordHasPathControl (le_word bs) \<longleftrightarrow> byte_in (\<lambda>b. b < 0x21 \<or> b = 0x7f) bs"
proof -
  assume l: "8 \<le> length bs"
  have "flags_below 0x21 (le_word bs) = 0 \<longleftrightarrow> \<not> byte_in (\<lambda>b. b < 0x21) bs"
    using flags_below_byte_in [OF l, of "0x21"] by simp
  moreover have "swarZeroBytes (le_word bs XOR 0x7f * swarOnes) = 0 \<longleftrightarrow> \<not> byte_in (\<lambda>b. b = 0x7f) bs"
    using swar_equal_0_iff [OF l, of "0x7f"] by simp
  ultimately show ?thesis
    by (simp add: wordHasPathControl_def flags_below_def [symmetric] or_eq_0_iff byte_in_disj [symmetric])
qed

lemma swar_high_and: "swarZeroBytes v AND swarHigh = swarZeroBytes v"
  by (simp add: swarZeroBytes_def and.assoc)

lemma wordHasLineBreak_iff:
  assumes "8 \<le> length bs" and "nulMask = 0 \<or> nulMask = swarHigh"
  shows "wordHasLineBreak (le_word bs) nulMask \<longleftrightarrow> byte_in (\<lambda>b. b = 0x0d \<or> b = 0x0a \<or> b = 0 \<and> nulMask \<noteq> 0) bs"
proof -
  have "swarHigh \<noteq> 0" by (simp add: swarHigh_def)
  then have "swarZeroBytes (le_word bs) AND nulMask = 0 \<longleftrightarrow> \<not> byte_in (\<lambda>b. b = 0 \<and> nulMask \<noteq> 0) bs"
    using assms swarZeroBytes_0_iff [OF assms(1)] by (auto simp: swar_high_and byte_in_def list_ex_iff)
  moreover have "swarZeroBytes (le_word bs XOR 0x0d * swarOnes) = 0 \<longleftrightarrow> \<not> byte_in (\<lambda>b. b = 0x0d) bs"
    "swarZeroBytes (le_word bs XOR 0x0a * swarOnes) = 0 \<longleftrightarrow> \<not> byte_in (\<lambda>b. b = 0x0a) bs"
    using swar_equal_0_iff [OF assms(1), of "0x0d"] swar_equal_0_iff [OF assms(1), of "0x0a"] by simp_all
  ultimately show ?thesis by (simp add: wordHasLineBreak_def or_eq_0_iff byte_in_disj [symmetric])
qed

section \<open>Whole strings\<close>

lemma anyWord_iff:
  assumes "\<And>bs. 8 \<le> length bs \<Longrightarrow> P (le_word bs) \<longleftrightarrow> byte_in Q bs" and "8 \<le> length b"
  shows "i \<le> length b - 8 \<Longrightarrow> anyWord P b i (length b - 8) \<longleftrightarrow> list_ex Q (drop i b)"
proof (induction "length b - i" arbitrary: i rule: less_induct)
  case less
  show ?case
  proof (cases "i < length b - 8")
    case True
    have h: "P (le_word (drop i b)) \<longleftrightarrow> list_ex Q (take 8 (drop i b))" using assms less.prems by (simp add: byte_in_def)
    have split: "list_ex Q (drop i b) \<longleftrightarrow> list_ex Q (take 8 (drop i b)) \<or> list_ex Q (drop (i + 8) b)"
      by (metis append_take_drop_id drop_drop list_ex_append add.commute)
    show ?thesis
    proof (cases "i + 8 \<le> length b - 8")
      case t: True
      with less.hyps [of "i + 8"] True show ?thesis unfolding split h [symmetric] by (subst anyWord.simps) simp
    next
      case False
      then have "anyWord P b (i + 8) (length b - 8) \<longleftrightarrow> list_ex Q (take 8 (drop (length b - 8) b))"
        using assms by (subst anyWord.simps) (simp add: byte_in_def)
      moreover have "list_ex Q (take 8 (drop (length b - 8) b)) \<longleftrightarrow> list_ex Q (drop (length b - 8) b)" by simp
      moreover have "list_ex Q (drop (length b - 8) b) \<longrightarrow> list_ex Q (drop i b)"
        using set_drop_subset_set_drop [of i "length b - 8" b] True unfolding list_ex_iff by auto
      moreover have "list_ex Q (drop (i + 8) b) \<longrightarrow> list_ex Q (drop (length b - 8) b)"
        using set_drop_subset_set_drop [of "length b - 8" "i + 8" b] False unfolding list_ex_iff by auto
      ultimately show ?thesis using True split h by (subst anyWord.simps) auto
    qed
  next
    case False
    then have "i = length b - 8" using less.prems by simp
    then show ?thesis using assms by (subst anyWord.simps) (simp add: byte_in_def)
  qed
qed

lemma containsLineBreak_iff:
  assumes "nulMask = 0 \<or> nulMask = swarHigh"
  shows "containsLineBreak s nulMask \<longleftrightarrow> list_ex (\<lambda>c. c = 0x0d \<or> c = 0x0a \<or> c = 0 \<and> nulMask \<noteq> 0) s"
proof -
  have "anyWord (\<lambda>w. wordHasLineBreak w nulMask) s 0 (length s - 8) \<longleftrightarrow> list_ex (\<lambda>c. c = 0x0d \<or> c = 0x0a \<or> c = 0 \<and> nulMask \<noteq> 0) s"
    if "8 \<le> length s"
    using anyWord_iff [of "\<lambda>w. wordHasLineBreak w nulMask" "\<lambda>c. c = 0x0d \<or> c = 0x0a \<or> c = 0 \<and> nulMask \<noteq> 0" s 0]
      wordHasLineBreak_iff [OF _ assms] that by simp
  moreover have "c \<le> 0x0d \<and> (c = 0x0d \<or> c = 0x0a \<or> c = 0 \<and> nulMask \<noteq> 0) \<longleftrightarrow> c = 0x0d \<or> c = 0x0a \<or> c = 0 \<and> nulMask \<noteq> 0" for c :: byte
    by auto
  moreover have "indexByte s 0x0d \<noteq> None \<or> indexByte s 0x0a \<noteq> None \<or> nulMask \<noteq> 0 \<and> indexByte s 0 \<noteq> None
      \<longleftrightarrow> list_ex (\<lambda>c. c = 0x0d \<or> c = 0x0a \<or> c = 0 \<and> nulMask \<noteq> 0) s"
    unfolding indexByte_None list_ex_iff by auto
  ultimately show ?thesis by (simp add: containsLineBreak_def)
qed

lemma isValidH2Path_iff: "isValidH2Path p \<longleftrightarrow> list_all (\<lambda>c. \<not> (c < 0x21 \<or> c = 0x7f)) p"
proof -
  have "anyWord wordHasPathControl p 0 (length p - 8) \<longleftrightarrow> list_ex (\<lambda>c. c < 0x21 \<or> c = 0x7f) p" if "8 \<le> length p"
    using anyWord_iff [of wordHasPathControl "\<lambda>c. c < 0x21 \<or> c = 0x7f" p 0] wordHasPathControl_iff that by simp
  then show ?thesis by (auto simp: isValidH2Path_def h2PathFirstValidByte_def h2PathDELByte_def list_all_iff list_ex_iff)
qed

section \<open>The first special byte\<close>

lemma takeWhile_shorter: "\<exists>x \<in> set xs. \<not> P x \<Longrightarrow> length (takeWhile P xs) < length xs"
  by (induction xs) auto

lemma find_map_option: "find P (map f xs) = map_option f (find (\<lambda>x. P (f x)) xs)"
  by (induction xs) auto

lemma trailingZeros64_ok:
  assumes "m \<noteq> 0"
  shows "bit m (trailingZeros64 m)" and "j < trailingZeros64 m \<Longrightarrow> \<not> bit m j"
proof -
  let ?t = "trailingZeros64 m"
  obtain k where "bit m k" using assms by (metis bit_eqI bit_0_eq bot_apply bot_bool_def)
  moreover from this have "k < 64" using bit_imp_le_length by fastforce
  ultimately have "\<exists>k \<in> set [0..<64]. \<not> \<not> bit m k" by (intro bexI [of _ k]) auto
  then have t: "?t < length [0..<64]" unfolding trailingZeros64_def by (rule takeWhile_shorter)
  then have "\<not> \<not> bit m ([0..<64] ! ?t)" unfolding trailingZeros64_def by (rule nth_length_takeWhile)
  with t show "bit m ?t" by (metis add_0 length_upt minus_nat.diff_0 nth_upt)
  assume "j < ?t"
  then have "takeWhile (\<lambda>j. \<not> bit m j) [0..<64] ! j \<in> set (takeWhile (\<lambda>j. \<not> bit m j) [0..<64])"
    unfolding trailingZeros64_def by (rule nth_mem)
  then have "\<not> bit m (takeWhile (\<lambda>j. \<not> bit m j) [0..<64] ! j)" by (metis (full_types) set_takeWhileD)
  moreover have "takeWhile (\<lambda>j. \<not> bit m j) [0..<64] ! j = j"
    using \<open>j < ?t\<close> t unfolding trailingZeros64_def by (metis takeWhile_nth nth_upt add_0 length_upt less_trans minus_nat.diff_0)
  ultimately show "\<not> bit m j" by simp
qed

lemma clear_lowest_bit:
  fixes m :: "'a::len word"
  assumes "bit m t" and "\<And>j. j < t \<Longrightarrow> \<not> bit m j"
  shows "bit (m AND (m - 1)) k \<longleftrightarrow> bit m k \<and> k \<noteq> t"
proof -
  have t: "t < LENGTH('a)" using assms(1) bit_imp_le_length by blast
  let ?h = "m XOR 2 ^ t"
  have h: "bit ?h j \<longleftrightarrow> bit m j \<and> j \<noteq> t" for j using assms(1) t by (auto simp: bit_xor_iff bit_exp_iff dest: bit_imp_le_length)
  have "?h + 2 ^ t = ?h OR 2 ^ t" by (rule disjunctive_add) (use h t in \<open>auto simp: bit_exp_iff\<close>)
  also have "\<dots> = m" by (rule bit_word_eqI) (use h assms(1) t in \<open>auto simp: bit_or_iff bit_exp_iff\<close>)
  finally have "m - 1 = ?h + mask t" by (simp add: mask_eq_exp_minus_1 algebra_simps)
  also have "\<dots> = ?h OR mask t" by (rule disjunctive_add) (use h assms(2) in \<open>auto simp: bit_mask_iff\<close>)
  finally show ?thesis using h [of k] assms(2) [of k] by (auto simp: bit_and_iff bit_or_iff bit_mask_iff)
qed

definition flagged :: "u64 \<Rightarrow> nat list" where
  "flagged m = filter (\<lambda>a. bit m (8 * a + 7)) [0..<8]"

lemma filter_least:
  assumes "a < n" and "P a" and "\<And>x. x < a \<Longrightarrow> \<not> P x"
  shows "filter P [0..<n] = a # filter (\<lambda>x. P x \<and> x \<noteq> a) [0..<n]"
proof -
  have up: "[0..<n] = [0..<a] @ a # [Suc a..<n]" using assms(1) by (metis le_add_same_cancel1 less_imp_add_positive upt_add_eq_append upt_conv_Cons zero_le add_0 less_imp_le_nat)
  have "filter P [0..<a] = []" "filter (\<lambda>x. P x \<and> x \<noteq> a) [0..<a] = []" using assms(3) by (auto simp: filter_empty_conv)
  moreover have "filter P [Suc a..<n] = filter (\<lambda>x. P x \<and> x \<noteq> a) [Suc a..<n]" by (rule filter_cong) auto
  ultimately show ?thesis unfolding up using assms(2) by simp
qed

lemma flagLoop_find:
  assumes "\<And>k. bit m k \<Longrightarrow> \<exists>a < 8. k = 8 * a + 7" and "length (flagged m) \<le> fuel"
  shows "flagLoop hit fuel i m = map_option ((+) i) (find (\<lambda>a. hit (i + a)) (flagged m))"
  using assms
proof (induction fuel arbitrary: m)
  case 0
  then show ?case by simp
next
  case (Suc fuel)
  show ?case
  proof (cases "m = 0")
    case True
    then show ?thesis by (simp add: flagged_def)
  next
    case False
    note tz = trailingZeros64_ok [OF False]
    obtain a where a: "a < 8" "trailingZeros64 m = 8 * a + 7" using Suc.prems(1) [OF tz(1)] by blast
    let ?m = "m AND (m - 1)"
    have clear: "bit ?m k \<longleftrightarrow> bit m k \<and> k \<noteq> trailingZeros64 m" for k using clear_lowest_bit [OF tz] by blast
    have "\<not> bit m (8 * x + 7)" if "x < a" for x using tz(2) [of "8 * x + 7"] a that by simp
    then have fl: "flagged m = a # filter (\<lambda>x. bit m (8 * x + 7) \<and> x \<noteq> a) [0..<8]"
      unfolding flagged_def using a tz(1) by (intro filter_least) auto
    also have "filter (\<lambda>x. bit m (8 * x + 7) \<and> x \<noteq> a) [0..<8] = flagged ?m"
      unfolding flagged_def using clear a(2) by (intro filter_cong) auto
    finally have fl: "flagged m = a # flagged ?m" .
    have "flagLoop hit fuel i ?m = map_option ((+) i) (find (\<lambda>a. hit (i + a)) (flagged ?m))"
      using Suc.prems clear fl by (intro Suc.IH) auto
    moreover have "drop_bit 3 (trailingZeros64 m) = a" using a by (simp add: drop_bit_eq_div)
    ultimately show ?thesis using False fl by (simp add: Let_def)
  qed
qed

lemma wordFlags_eq: "wordFlags w = flags_below 0x20 w OR flags_below 1 (w XOR 0x7f * swarOnes)"
  by (simp add: wordFlags_def flags_below_def Let_def)

lemma wordFlags_high: "bit (wordFlags w) k \<Longrightarrow> \<exists>a < 8. k = 8 * a + 7"
  using bit_swarHighD by (auto simp: wordFlags_eq flags_below_def bit_and_iff bit_or_iff)

lemma special_flagged:
  assumes "8 \<le> length bs" and "a < 8" and "isH1Special (bs ! a)"
  shows "bit (wordFlags (le_word bs)) (8 * a + 7)"
proof (cases "bs ! a = 0x7f")
  case True
  have "le_word bs XOR 0x7f * swarOnes = le_word (map (\<lambda>b. b XOR 0x7f) bs)"
    using le_word_xor [OF assms(1), of "0x7f"] by simp
  moreover have "bit (flags_below (word_of_int 1) (le_word (map (\<lambda>b. b XOR 0x7f) bs))) (8 * a + 7)"
    using assms True by (intro flags_hit) auto
  ultimately show ?thesis by (simp add: wordFlags_eq bit_or_iff)
next
  case False
  then have "bs ! a < 0x20" using assms(3) by (auto simp: isH1Special_def)
  then have "bit (flags_below (word_of_int 32) (le_word bs)) (8 * a + 7)"
    using assms by (intro flags_hit) (auto simp: word_less_def)
  then show ?thesis by (simp add: wordFlags_eq bit_or_iff)
qed

lemma find_filter: "(\<And>x. x \<in> set xs \<Longrightarrow> P x \<Longrightarrow> Q x) \<Longrightarrow> find P (filter Q xs) = find P xs"
  by (induction xs) auto

lemma word_step:
  assumes "i + 8 \<le> length p"
  shows "flagLoop (\<lambda>j. isH1Special (p ! j)) 64 i (wordFlags (le_word (drop i p))) = map_option ((+) i) (find (\<lambda>a. isH1Special (p ! (i + a))) [0..<8])"
proof -
  let ?m = "wordFlags (le_word (drop i p))"
  have "length (flagged ?m) \<le> 8" unfolding flagged_def by (metis length_filter_le length_upt minus_nat.diff_0)
  then have "flagLoop (\<lambda>j. isH1Special (p ! j)) 64 i ?m = map_option ((+) i) (find (\<lambda>a. isH1Special (p ! (i + a))) (flagged ?m))"
    using wordFlags_high by (intro flagLoop_find) auto
  moreover have "find (\<lambda>a. isH1Special (p ! (i + a))) (flagged ?m) = find (\<lambda>a. isH1Special (p ! (i + a))) [0..<8]"
    unfolding flagged_def
  proof (rule find_filter)
    fix a assume "a \<in> set [0..<8]" "isH1Special (p ! (i + a))"
    then show "bit ?m (8 * a + 7)" using special_flagged [of "drop i p" a] assms by simp
  qed
  ultimately show ?thesis by simp
qed

lemma firstSpecialTail_append:
  "firstSpecialTail (xs @ ys) i = (case firstSpecialTail xs i of Some j \<Rightarrow> Some j | None \<Rightarrow> firstSpecialTail ys (i + length xs))"
  by (induction xs arbitrary: i) (auto split: option.splits)

lemma firstSpecialTail_find: "firstSpecialTail xs i = map_option ((+) i) (find (\<lambda>a. isH1Special (xs ! a)) [0..<length xs])"
proof (induction xs arbitrary: i)
  case (Cons x xs)
  have "find (\<lambda>a. isH1Special ((x # xs) ! a)) (map Suc [0..<length xs]) = map_option Suc (find (\<lambda>a. isH1Special (xs ! a)) [0..<length xs])"
    by (simp add: find_map_option)
  then show ?case using Cons by (simp add: upt_conv_Cons map_Suc_upt [symmetric] option.map_comp o_def del: upt_Suc)
qed simp

lemma firstSpecialLoop_scalar: "firstSpecialLoop p i = firstSpecialTail (drop i p) i"
proof (induction p i rule: firstSpecialLoop.induct)
  case (1 p i)
  show ?case
  proof (cases "i + 8 \<le> length p")
    case True
    have "drop i p = take 8 (drop i p) @ drop (i + 8) p" by (metis append_take_drop_id drop_drop add.commute)
    then have "firstSpecialTail (drop i p) i = (case firstSpecialTail (take 8 (drop i p)) i of Some j \<Rightarrow> Some j | None \<Rightarrow> firstSpecialTail (drop (i + 8) p) (i + 8))"
      using True firstSpecialTail_append [of "take 8 (drop i p)" "drop (i + 8) p" i] by (simp split: option.splits)
    moreover have "firstSpecialTail (take 8 (drop i p)) i = map_option ((+) i) (find (\<lambda>a. isH1Special (p ! (i + a))) [0..<8])"
    proof -
      have "find (\<lambda>a. isH1Special (take 8 (drop i p) ! a)) [0..<8] = find (\<lambda>a. isH1Special (p ! (i + a))) [0..<8]"
        using True by (intro find_cong) auto
      then show ?thesis using True firstSpecialTail_find [of "take 8 (drop i p)" i] by simp
    qed
    ultimately show ?thesis using True "1.IH" word_step [OF True] by (subst firstSpecialLoop.simps) (auto split: option.splits)
  qed (subst firstSpecialLoop.simps, simp)
qed

text \<open>
  C33: word-at-a-time scanning is exact.  On every string, the line-break test finds a CR, an LF or
  (when asked) a NUL if and only if there is one; the path test accepts exactly the strings without
  bytes below 0x21 and without DEL; and the first special byte of a header block is the one the
  byte-by-byte scan finds.
\<close>

theorem swar_scans_exact:
  "(containsLineBreak s lineBreakCRLF \<longleftrightarrow> list_ex (\<lambda>c. c = 0x0d \<or> c = 0x0a) s)
   \<and> (containsLineBreak s lineBreakCRLFNUL \<longleftrightarrow> list_ex (\<lambda>c. c = 0x0d \<or> c = 0x0a \<or> c = 0) s)
   \<and> (isValidH2Path s \<longleftrightarrow> list_all (\<lambda>c. \<not> (c < 0x21 \<or> c = 0x7f)) s)
   \<and> firstH1SpecialSWAR s = firstSpecialTail s 0"
proof -
  have "swarHigh \<noteq> 0" by (simp add: swarHigh_def)
  then show ?thesis
    using containsLineBreak_iff [of 0 s] containsLineBreak_iff [of swarHigh s] isValidH2Path_iff [of s] firstSpecialLoop_scalar [of s 0]
    by (simp add: lineBreakCRLF_def lineBreakCRLFNUL_def firstH1SpecialSWAR_def)
qed

end
