(* ===== verification/H1_Scan.thy ===== *)
theory H1_Scan
  imports Swar Text_Utils
begin

text \<open>
  The scanning of one HTTP/1 header line, \<open>core/h1scan.go\<close>, and the token table of
  \<open>core/h1_plain.go\<close>.  There are two scanners of a line: \<open>h1HeaderLineScalar\<close>, which looks up a class
  of every byte, and \<open>h1HeaderLineSWAR\<close>, which uses the word-parallel search.  They find the same
  positions, and the flag of the first one is exact.  The result \<open>-1\<close> of the source is \<open>None\<close>.
\<close>

section \<open>Model\<close>

definition h1TokenChar :: "byte \<Rightarrow> bool" where
  "h1TokenChar c \<longleftrightarrow> b8 CHR ''a'' \<le> c \<and> c \<le> b8 CHR ''z'' \<or> b8 CHR ''A'' \<le> c \<and> c \<le> b8 CHR ''Z'' \<or> b8 CHR ''0'' \<le> c \<and> c \<le> b8 CHR ''9''
     \<or> c \<in> set (str ''!#$%&'' @ [0x27] @ str ''*+-.^_'' @ [0x60] @ str ''|~'')"

fun tokenLoop :: "byte list \<Rightarrow> bool" where
  "tokenLoop [] = True"
| "tokenLoop (c # b) = (if \<not> h1TokenChar c then False else tokenLoop b)"

definition isH1Token :: "byte list \<Rightarrow> bool" where
  "isH1Token b = (if length b = 0 then False else tokenLoop b)"

definition classifyH1Special :: "byte list \<Rightarrow> nat \<Rightarrow> nat option \<times> bool" where
  "classifyH1Special p i =
     (if p ! i = b8 CHR 0x0D \<and> i + 1 = length p then (None, False)
      else if p ! i = b8 CHR 0x0D \<and> p ! (i + 1) = b8 CHR 0x0A then (Some i, False)
      else (Some i, True))"

fun nonTokenLoop :: "byte list \<Rightarrow> nat \<Rightarrow> nat option" where
  "nonTokenLoop [] i = None"
| "nonTokenLoop (c # p) i = (if \<not> h1TokenChar c then Some i else nonTokenLoop p (i + 1))"

definition firstNonTokenByte :: "byte list \<Rightarrow> nat option" where
  "firstNonTokenByte p = nonTokenLoop p 0"

definition classifyFirstSpecial :: "byte list \<Rightarrow> nat option \<Rightarrow> nat option \<times> bool" where
  "classifyFirstSpecial p i = (case i of None \<Rightarrow> (None, False) | Some i \<Rightarrow> classifyH1Special p i)"

definition h1HeaderLineSWAR :: "byte list \<Rightarrow> nat option \<times> nat option" where
  "h1HeaderLineSWAR p =
     (case firstNonTokenByte p of
        None \<Rightarrow> (None, None)
      | Some nameEnd \<Rightarrow>
          (case firstH1SpecialSWAR (drop nameEnd p) of
             None \<Rightarrow> (None, Some nameEnd)
           | Some special \<Rightarrow> (Some (nameEnd + special), Some nameEnd)))"

definition validH1Colon :: "byte list \<Rightarrow> nat option \<Rightarrow> bool" where
  "validH1Colon line nameEnd = (case nameEnd of None \<Rightarrow> False | Some n \<Rightarrow> n > 0 \<and> n < length line \<and> line ! n = b8 CHR '':'')"

definition isOWS :: "byte \<Rightarrow> bool" where
  "isOWS c \<longleftrightarrow> c = b8 CHR '' '' \<or> c = b8 CHR 0x09"

definition trimOWS :: "byte list \<Rightarrow> byte list" where
  "trimOWS b = rev (dropWhile isOWS (rev (dropWhile isOWS b)))"

definition h1ScalarScanMax :: nat where "h1ScalarScanMax = 32"

definition h1ClassToken :: byte where "h1ClassToken = 1"
definition h1ClassHost :: byte where "h1ClassHost = 2"
definition h1ClassSpecial :: byte where "h1ClassSpecial = 4"

definition h1FieldClass :: "byte \<Rightarrow> byte" where
  "h1FieldClass c =
     (if h1TokenChar c then h1ClassToken else 0) OR (if invalidHostChar c = 0 then h1ClassHost else 0)
     OR (if isH1Special c then h1ClassSpecial else 0)"

fun skipToken :: "byte list \<Rightarrow> nat \<Rightarrow> nat" where
  "skipToken [] i = i"
| "skipToken (c # p) i = (if h1FieldClass c AND h1ClassToken \<noteq> 0 then skipToken p (i + 1) else i)"

fun skipOWS :: "byte list \<Rightarrow> nat \<Rightarrow> nat" where
  "skipOWS [] i = i"
| "skipOWS (c # p) i = (if isOWS c then skipOWS p (i + 1) else i)"

fun scalarValueLoop :: "byte list \<Rightarrow> nat \<Rightarrow> byte \<Rightarrow> nat option \<times> bool" where
  "scalarValueLoop [] i common = (None, False)"
| "scalarValueLoop (c # p) i common =
     (let cls = h1FieldClass c in
      if cls AND h1ClassSpecial \<noteq> 0 then (Some i, common AND h1ClassHost \<noteq> 0)
      else scalarValueLoop p (i + 1) (common AND cls))"

definition h1HeaderLineScalar :: "byte list \<Rightarrow> nat option \<times> nat option \<times> bool" where
  "h1HeaderLineScalar p =
     (let i = skipToken p 0 in
      if i = length p then (None, None, False)
      else
        let nameEnd = i;
            common = (if p ! i = b8 CHR '':'' then NOT 0 else 0);
            i = (if p ! i = b8 CHR '':'' then skipOWS (drop (i + 1) p) (i + 1) else i);
            (special, hostSafe) = scalarValueLoop (drop i p) i common
        in (special, Some nameEnd, hostSafe))"

text \<open>
  The dispatch of \<open>core/h1scan_amd64.go\<close> between these scanners and the vector routines of
  \<open>core/h1scan_amd64.s\<close>.  The routines in assembly are a parameter; what the callers rely on is that
  they return what the scanners above return.
\<close>

record h1Vector =
  hasAVX2 :: bool
  firstH1SpecialAVX2 :: "byte list \<Rightarrow> nat option"
  h1HeaderLineAVX2 :: "byte list \<Rightarrow> nat option \<times> nat option"

definition avx2ScanMinLen :: nat where "avx2ScanMinLen = 32"

definition firstH1Special :: "h1Vector \<Rightarrow> byte list \<Rightarrow> nat option" where
  "firstH1Special cpu p =
     (if hasAVX2 cpu \<and> length p \<ge> avx2ScanMinLen then firstH1SpecialAVX2 cpu p else firstH1SpecialSWAR p)"

definition h1HeaderLineSpecials :: "h1Vector \<Rightarrow> byte list \<Rightarrow> nat option \<times> nat option" where
  "h1HeaderLineSpecials cpu p =
     (if hasAVX2 cpu \<and> length p \<ge> avx2ScanMinLen then h1HeaderLineAVX2 cpu p else h1HeaderLineSWAR p)"

definition vector_ok :: "h1Vector \<Rightarrow> bool" where
  "vector_ok cpu \<longleftrightarrow> firstH1SpecialAVX2 cpu = firstH1SpecialSWAR \<and> h1HeaderLineAVX2 cpu = h1HeaderLineSWAR"

lemma vector_scans:
  "vector_ok cpu \<Longrightarrow> firstH1Special cpu p = firstH1SpecialSWAR p" "vector_ok cpu \<Longrightarrow> h1HeaderLineSpecials cpu p = h1HeaderLineSWAR p"
  by (simp_all add: vector_ok_def firstH1Special_def h1HeaderLineSpecials_def)

section \<open>The classes\<close>

lemma tokenLoop_all: "tokenLoop b \<longleftrightarrow> list_all h1TokenChar b"
  by (induction b) auto

lemma isH1Token_iff: "isH1Token b \<longleftrightarrow> b \<noteq> [] \<and> list_all h1TokenChar b"
  by (simp add: isH1Token_def tokenLoop_all)

lemma class_bits:
  "h1FieldClass c AND h1ClassToken \<noteq> 0 \<longleftrightarrow> h1TokenChar c" "h1FieldClass c AND h1ClassSpecial \<noteq> 0 \<longleftrightarrow> isH1Special c"
  "h1FieldClass c AND h1ClassHost \<noteq> 0 \<longleftrightarrow> invalidHostChar c = 0"
  by (simp_all add: h1FieldClass_def h1ClassToken_def h1ClassHost_def h1ClassSpecial_def)

lemma and_host: "(x AND y) AND h1ClassHost \<noteq> 0 \<longleftrightarrow> x AND h1ClassHost \<noteq> 0 \<and> y AND h1ClassHost \<noteq> 0"
proof -
  have "z AND h1ClassHost = 0 \<longleftrightarrow> \<not> bit z 1" for z :: byte
    using and_exp_eq_0_iff_not_bit [of z 1] by (simp add: h1ClassHost_def)
  then show ?thesis by (simp add: bit_and_iff)
qed

lemma not_special: "h1TokenChar c \<Longrightarrow> \<not> isH1Special c" "isOWS c \<Longrightarrow> \<not> isH1Special c" "\<not> isH1Special (b8 CHR '':'')"
  by (auto simp: h1TokenChar_def isH1Special_def isOWS_def word_less_nat_alt word_le_nat_alt)

section \<open>The two scanners\<close>

lemma skipToken_eq: "skipToken p i = i + length (takeWhile h1TokenChar p)"
  by (induction p arbitrary: i) (simp_all add: class_bits)

lemma skipOWS_eq: "skipOWS p i = i + length (takeWhile isOWS p)"
  by (induction p arbitrary: i) simp_all

lemma nonTokenLoop_eq:
  "nonTokenLoop p i = (if length (takeWhile h1TokenChar p) = length p then None else Some (i + length (takeWhile h1TokenChar p)))"
  by (induction p arbitrary: i) auto

lemma scalarValueLoop_eq:
  "scalarValueLoop p i common =
     (firstSpecialTail p i,
      firstSpecialTail p i \<noteq> None \<and> common AND h1ClassHost \<noteq> 0 \<and> list_all (\<lambda>c. invalidHostChar c = 0) (takeWhile (\<lambda>c. \<not> isH1Special c) p))"
  by (induction p arbitrary: i common) (simp_all add: class_bits and_host Let_def del: not_None_eq)

lemma firstSpecialTail_shift: "firstSpecialTail p (i + k) = map_option ((+) i) (firstSpecialTail p k)"
proof (induction p arbitrary: k)
  case (Cons c p)
  then show ?case using Cons.IH [of "Suc k"] by simp
qed simp

lemma firstSpecialTail_skip: "list_all (\<lambda>c. \<not> isH1Special c) xs \<Longrightarrow> firstSpecialTail (xs @ p) i = firstSpecialTail p (i + length xs)"
  by (induction xs arbitrary: i) simp_all

lemma firstH1SpecialSWAR_tail: "firstH1SpecialSWAR p = firstSpecialTail p 0"
  by (simp add: firstH1SpecialSWAR_def firstSpecialLoop_scalar)

text \<open>The value of a line: what follows the colon and the optional space, up to the first special byte.\<close>

definition line_value :: "byte list \<Rightarrow> nat \<Rightarrow> byte list" where
  "line_value p nameEnd = takeWhile (\<lambda>c. \<not> isH1Special c) (dropWhile isOWS (drop (nameEnd + 1) p))"

lemma value_start:
  assumes "n < length p" and True: "p ! n = b8 CHR '':''"
  shows "firstSpecialTail (drop n p) n = firstSpecialTail (dropWhile isOWS (drop (Suc n) p)) (skipOWS (drop (Suc n) p) (Suc n))"
proof -
  let ?t = "takeWhile isOWS (drop (n + 1) p)"
  have d: "drop n p = b8 CHR '':'' # ?t @ dropWhile isOWS (drop (n + 1) p)"
    using Cons_nth_drop_Suc [OF assms(1)] True by simp
  have "list_all (\<lambda>c. \<not> isH1Special c) ?t" using not_special(2) by (auto simp: list_all_iff dest: set_takeWhileD)
  from firstSpecialTail_skip [OF this, of "dropWhile isOWS (drop (n + 1) p)" "n + 1"] show ?thesis
    using True not_special(3) by (subst d) (simp add: skipOWS_eq)
qed

lemma header_line_scalar:
  "h1HeaderLineScalar p =
     (fst (h1HeaderLineSWAR p), snd (h1HeaderLineSWAR p),
      (case h1HeaderLineSWAR p of
         (Some special, Some nameEnd) \<Rightarrow> p ! nameEnd = b8 CHR '':'' \<and> ValidateHost (line_value p nameEnd)
       | _ \<Rightarrow> False))"
proof (cases "length (takeWhile h1TokenChar p) = length p")
  case True
  then show ?thesis by (simp add: h1HeaderLineScalar_def h1HeaderLineSWAR_def skipToken_eq firstNonTokenByte_def nonTokenLoop_eq)
next
  case False
  let ?n = "length (takeWhile h1TokenChar p)"
  have n: "?n < length p" using False length_takeWhile_le [of h1TokenChar p] by linarith
  have dw: "drop (skipOWS q i) r = dropWhile isOWS q" if "drop i r = q" for q i r
    unfolding skipOWS_eq dropWhile_eq_drop using that by (metis add.commute drop_drop)
  have swar: "h1HeaderLineSWAR p = (firstSpecialTail (drop ?n p) ?n, Some ?n)"
    using False firstSpecialTail_shift [of "drop ?n p" ?n 0]
    by (simp add: h1HeaderLineSWAR_def firstNonTokenByte_def nonTokenLoop_eq firstH1SpecialSWAR_tail split: option.splits)
  have host: "ValidateHost (line_value p ?n) \<longleftrightarrow> list_all (\<lambda>c. invalidHostChar c = 0) (line_value p ?n)"
    by (simp add: ValidateHost_iff invalidHostChar_def list_all_iff)
  show ?thesis using n value_start [OF n] False dw [of "?n + 1" p "drop (?n + 1) p"] host
    by (cases "p ! ?n = b8 CHR '':''") (simp_all add: h1HeaderLineScalar_def skipToken_eq Let_def swar scalarValueLoop_eq line_value_def h1ClassHost_def split: option.splits)
qed

text \<open>
  C35: the two scanners of a header line agree.  On every buffer they report the same end of the name
  and the same first special byte, and the extra flag of the byte-class scanner is set exactly when
  the name is followed by a colon, the line has an end, and the value that follows the optional
  space consists only of bytes allowed in a host.
\<close>

theorem h1_header_line_scanners_agree:
  "h1HeaderLineScalar p =
     (fst (h1HeaderLineSWAR p), snd (h1HeaderLineSWAR p),
      (case h1HeaderLineSWAR p of
         (Some special, Some nameEnd) \<Rightarrow> p ! nameEnd = b8 CHR '':'' \<and> ValidateHost (line_value p nameEnd)
       | _ \<Rightarrow> False))"
  by (rule header_line_scalar)

end
