(* ===== verification/Hpack_Table.thy ===== *)
theory Hpack_Table
  imports Text_Utils
begin

text \<open>
  The HPACK tables of the decoder, \<open>core/hpack.go\<close>: the static table and the dynamic table, a ring
  of entries that starts in an array of 128 entries inside the decoder and moves to a growing
  slice.  The ring refines a list of entries, newest first, with the eviction rule of RFC 7541
  section 4: \<open>addEntry\<close> and \<open>setMaxSize\<close> keep exactly the newest entries that fit, an entry that fits is
  always stored, and lookups return what the list holds.
\<close>

type_synonym header = "gostring \<times> gostring"

section \<open>Model\<close>

definition HpackStaticTable :: "header list" where
  "HpackStaticTable = [
     ([], []),
     (str '':authority'', []),
     (str '':method'', str ''GET''),
     (str '':method'', str ''POST''),
     (str '':path'', str ''/''),
     (str '':path'', str ''/index.html''),
     (str '':scheme'', str ''http''),
     (str '':scheme'', str ''https''),
     (str '':status'', str ''200''),
     (str '':status'', str ''204''),
     (str '':status'', str ''206''),
     (str '':status'', str ''304''),
     (str '':status'', str ''400''),
     (str '':status'', str ''404''),
     (str '':status'', str ''500''),
     (str ''accept-charset'', []),
     (str ''accept-encoding'', str ''gzip, deflate''),
     (str ''accept-language'', []),
     (str ''accept-ranges'', []),
     (str ''accept'', []),
     (str ''access-control-allow-origin'', []),
     (str ''age'', []),
     (str ''allow'', []),
     (str ''authorization'', []),
     (str ''cache-control'', []),
     (str ''content-disposition'', []),
     (str ''content-encoding'', []),
     (str ''content-language'', []),
     (str ''content-length'', []),
     (str ''content-location'', []),
     (str ''content-range'', []),
     (str ''content-type'', []),
     (str ''cookie'', []),
     (str ''date'', []),
     (str ''etag'', []),
     (str ''expect'', []),
     (str ''expires'', []),
     (str ''from'', []),
     (str ''host'', []),
     (str ''if-match'', []),
     (str ''if-modified-since'', []),
     (str ''if-none-match'', []),
     (str ''if-range'', []),
     (str ''if-unmodified-since'', []),
     (str ''last-modified'', []),
     (str ''link'', []),
     (str ''location'', []),
     (str ''max-forwards'', []),
     (str ''proxy-authenticate'', []),
     (str ''proxy-authorization'', []),
     (str ''range'', []),
     (str ''referer'', []),
     (str ''refresh'', []),
     (str ''retry-after'', []),
     (str ''server'', []),
     (str ''set-cookie'', []),
     (str ''strict-transport-security'', []),
     (str ''transfer-encoding'', []),
     (str ''user-agent'', []),
     (str ''vary'', []),
     (str ''via'', []),
     (str ''www-authenticate'', [])]"

record hpackDynEntry =
  de_name :: gostring
  de_value :: gostring
  de_size :: int

definition emptyDynEntry :: hpackDynEntry where
  "emptyDynEntry = \<lparr>de_name = [], de_value = [], de_size = 0\<rparr>"

definition hpackEntryOverhead :: int where "hpackEntryOverhead = 32"

text \<open>The fields of \<open>HpackDecoder\<close> that make up the dynamic table.\<close>

record hpackDyn =
  maxTableSize :: int
  protocolMaxSize :: int
  dynInline :: "hpackDynEntry list"
  dynRing :: "hpackDynEntry list"
  dynHead :: nat
  dynLen :: nat
  dynSize :: int
  dynRefBytes :: int
  dynNameMax :: nat
  tableGen :: u64
  memoValid :: bool

definition newHpackDyn :: "u32 \<Rightarrow> hpackDyn" where
  "newHpackDyn tableSize =
     \<lparr>maxTableSize = uint tableSize, protocolMaxSize = uint tableSize, dynInline = replicate 128 emptyDynEntry, dynRing = [],
      dynHead = 0, dynLen = 0, dynSize = 0, dynRefBytes = 0, dynNameMax = 0, tableGen = 0, memoValid = False\<rparr>"

definition dynGet :: "'a hpackDyn_scheme \<Rightarrow> nat \<Rightarrow> hpackDynEntry" where
  "dynGet d i =
     (if length (dynRing d) > 0 then dynRing d ! ((dynHead d + i) mod length (dynRing d))
      else dynInline d ! ((dynHead d + i) mod length (dynInline d)))"

text \<open>Assignment through the pointer \<open>dynGet\<close> returns.\<close>

definition dynSet :: "'a hpackDyn_scheme \<Rightarrow> nat \<Rightarrow> hpackDynEntry \<Rightarrow> 'a hpackDyn_scheme" where
  "dynSet d i e =
     (if length (dynRing d) > 0 then d\<lparr>dynRing := (dynRing d)[(dynHead d + i) mod length (dynRing d) := e]\<rparr>
      else d\<lparr>dynInline := (dynInline d)[(dynHead d + i) mod length (dynInline d) := e]\<rparr>)"

definition dynCapacity :: "'a hpackDyn_scheme \<Rightarrow> nat" where
  "dynCapacity d = (if length (dynRing d) > 0 then length (dynRing d) else length (dynInline d))"

definition growDynRing :: "'a hpackDyn_scheme \<Rightarrow> 'a hpackDyn_scheme" where
  "growDynRing d =
     (let oldCapacity = dynCapacity d;
          maxEntries = maxTableSize d div 32
      in if maxEntries \<le> int oldCapacity then d
         else
           let newCapacity = oldCapacity * 2;
               newCapacity = (if newCapacity < oldCapacity \<or> int newCapacity > maxEntries then nat maxEntries else newCapacity)
           in d\<lparr>dynRing := map (dynGet d) [0..<dynLen d] @ replicate (newCapacity - dynLen d) emptyDynEntry, dynHead := 0\<rparr>)"

definition dropTail :: "'a hpackDyn_scheme \<Rightarrow> 'a hpackDyn_scheme" where
  "dropTail d =
     (let tail = dynGet d (dynLen d - 1);
          d = dynSet (d\<lparr>dynSize := dynSize d - de_size tail\<rparr>) (dynLen d - 1) emptyDynEntry
      in d\<lparr>dynLen := dynLen d - 1\<rparr>)"

lemma dynLen_dropTail [simp]: "dynLen (dropTail d) = dynLen d - 1"
  by (simp add: dropTail_def dynSet_def Let_def)

text \<open>The eviction loops of \<open>addEntry\<close> (with the size of the new entry) and \<open>setMaxSize\<close> (with 0).\<close>

function evictLoop :: "int \<Rightarrow> 'a hpackDyn_scheme \<Rightarrow> 'a hpackDyn_scheme" where
  "evictLoop need d = (if dynSize d + need > maxTableSize d \<and> dynLen d > 0 then evictLoop need (dropTail d) else d)"
  by auto
termination by (relation "measure (\<lambda>(_, d). dynLen d)") auto

declare evictLoop.simps [simp del]

definition addEntry :: "'a hpackDyn_scheme \<Rightarrow> gostring \<Rightarrow> gostring \<Rightarrow> 'a hpackDyn_scheme" where
  "addEntry d name value =
     (let d = d\<lparr>tableGen := tableGen d + 1, memoValid := False, dynNameMax := max (dynNameMax d) (length name)\<rparr>;
          entrySize = hpackEntryOverhead + int (length name) + int (length value);
          d = evictLoop entrySize d;
          d = (if entrySize \<le> maxTableSize d \<and> dynLen d = dynCapacity d then growDynRing d else d)
      in if entrySize \<le> maxTableSize d \<and> dynLen d < dynCapacity d then
           let capacity = dynCapacity d;
               d = d\<lparr>dynHead := (dynHead d + capacity - 1) mod capacity\<rparr>;
               d = dynSet d 0 \<lparr>de_name = name, de_value = value, de_size = entrySize\<rparr>
           in d\<lparr>dynLen := dynLen d + 1, dynSize := dynSize d + entrySize\<rparr>
         else d)"

definition setMaxSize :: "'a hpackDyn_scheme \<Rightarrow> int \<Rightarrow> 'a hpackDyn_scheme" where
  "setMaxSize d maxSize = evictLoop 0 (d\<lparr>tableGen := tableGen d + 1, memoValid := False, maxTableSize := maxSize\<rparr>)"

definition lookupIndex :: "'a hpackDyn_scheme \<Rightarrow> u64 \<Rightarrow> 'a hpackDyn_scheme \<times> gostring \<times> gostring \<times> bool" where
  "lookupIndex d idx =
     (if idx < 62 then (d, fst (HpackStaticTable ! unat idx), snd (HpackStaticTable ! unat idx), idx \<noteq> 0)
      else
        let dynIdx = idx - 62 in
        if dynIdx < of_nat (dynLen d) then
          let e = dynGet d (unat dynIdx) in (d\<lparr>dynRefBytes := dynRefBytes d + de_size e\<rparr>, de_name e, de_value e, True)
        else (d, [], [], False))"

definition lookupName :: "'a hpackDyn_scheme \<Rightarrow> u64 \<Rightarrow> gostring \<times> bool" where
  "lookupName d idx =
     (if idx = 0 then ([], False)
      else if idx < 62 then (fst (HpackStaticTable ! unat idx), True)
      else
        let dynIdx = sint idx - 62 in
        if dynIdx \<ge> 0 \<and> dynIdx < int (dynLen d) then (de_name (dynGet d (nat dynIdx)), True) else ([], False))"

section \<open>The abstract table\<close>

definition entry_size :: "header \<Rightarrow> int" where
  "entry_size e = 32 + int (length (fst e)) + int (length (snd e))"

definition table_size :: "header list \<Rightarrow> int" where
  "table_size es = sum_list (map entry_size es)"

text \<open>The newest entries that fit into a number of bytes.\<close>

fun take_fit :: "int \<Rightarrow> header list \<Rightarrow> header list" where
  "take_fit limit [] = []"
| "take_fit limit (e # es) = (if entry_size e \<le> limit then e # take_fit (limit - entry_size e) es else [])"

definition table_add :: "int \<Rightarrow> header list \<Rightarrow> header \<Rightarrow> header list" where
  "table_add maxSize es e =
     (if entry_size e \<le> maxSize then e # take_fit (maxSize - entry_size e) es else [])"

definition table_lookup :: "header list \<Rightarrow> nat \<Rightarrow> header option" where
  "table_lookup es idx =
     (if idx = 0 then None else if idx < 62 then Some (HpackStaticTable ! idx)
      else if idx - 62 < length es then Some (es ! (idx - 62)) else None)"

definition dyn_entries :: "'a hpackDyn_scheme \<Rightarrow> header list" where
  "dyn_entries d = map (\<lambda>i. (de_name (dynGet d i), de_value (dynGet d i))) [0..<dynLen d]"

text \<open>The ring on its own, and with the size limit.\<close>

definition ring_ok :: "'a hpackDyn_scheme \<Rightarrow> bool" where
  "ring_ok d \<longleftrightarrow> length (dynInline d) = 128 \<and> dynLen d \<le> dynCapacity d \<and> dynHead d < dynCapacity d
     \<and> (\<forall>i < dynLen d. de_size (dynGet d i) = entry_size (de_name (dynGet d i), de_value (dynGet d i)))
     \<and> dynSize d = table_size (dyn_entries d)"

definition dyn_inv :: "'a hpackDyn_scheme \<Rightarrow> bool" where
  "dyn_inv d \<longleftrightarrow> ring_ok d \<and> dynSize d \<le> maxTableSize d \<and> maxTableSize d \<le> protocolMaxSize d \<and> protocolMaxSize d < 2 ^ 32"

section \<open>Facts about the abstract table\<close>

lemma entry_size_pos: "32 \<le> entry_size e"
  by (simp add: entry_size_def)

lemma table_size_simps [simp]: "table_size [] = 0" "table_size (e # es) = entry_size e + table_size es"
  "table_size (es @ fs) = table_size es + table_size fs"
  by (simp_all add: table_size_def)

lemma table_size_ge: "32 * int (length es) \<le> table_size es"
proof (induction es)
  case (Cons e es)
  then show ?case using entry_size_pos [of e] by simp
qed simp

lemma take_fit_all: "table_size es \<le> limit \<Longrightarrow> take_fit limit es = es"
proof (induction es arbitrary: limit)
  case (Cons e es)
  then show ?case using table_size_ge [of es] by simp
qed simp

lemma take_fit_snoc: "limit < table_size (es @ [e]) \<Longrightarrow> take_fit limit (es @ [e]) = take_fit limit es"
proof (induction es arbitrary: limit)
  case (Cons x es)
  then show ?case by simp
qed simp

lemma take_fit_size: "0 \<le> limit \<Longrightarrow> table_size (take_fit limit es) \<le> limit"
proof (induction es arbitrary: limit)
  case (Cons e es)
  show ?case using Cons.IH [of "limit - entry_size e"] Cons.prems by (cases "entry_size e \<le> limit") auto
qed simp

lemma take_fit_neg: "limit < 0 \<Longrightarrow> take_fit limit es = []"
  using entry_size_pos [of "hd es"] by (cases es) auto

lemma table_add_size: "0 \<le> maxSize \<Longrightarrow> table_size (table_add maxSize es e) \<le> maxSize"
  using take_fit_size [of "maxSize - entry_size e" es] by (auto simp: table_add_def)

section \<open>The ring refines the list\<close>

lemma mod_add_inj: "i < c \<Longrightarrow> j < c \<Longrightarrow> (h + i) mod c = (h + j) mod c \<longleftrightarrow> i = (j::nat)"
proof
  assume "i < c" "j < c" and eq: "(h + i) mod c = (h + j) mod c"
  have "i = j" if "i \<le> j" "j < c" "(h + i) mod c = (h + j) mod c" for i j
  proof -
    have "c dvd (h + j) - (h + i)" using that(1,3) by (metis mod_eq_dvd_iff_nat nat_add_left_cancel_le)
    then have "c dvd j - i" by simp
    then show ?thesis using that by (metis diff_is_0_eq dvd_imp_le le_antisym less_imp_diff_less not_less zero_less_iff_neq_zero)
  qed
  then show "i = j" using eq \<open>i < c\<close> \<open>j < c\<close> by (metis nle_le)
qed simp

lemma dynGet_dynSet:
  assumes "i < dynCapacity d" and "j < dynCapacity d"
  shows "dynGet (dynSet d i e) j = (if i = j then e else dynGet d j)"
proof (cases "length (dynRing d) > 0")
  case True
  then have "i < length (dynRing d)" "j < length (dynRing d)" using assms by (simp_all add: dynCapacity_def)
  with True mod_add_inj [of i _ j "dynHead d"] show ?thesis by (simp add: dynGet_def dynSet_def nth_list_update)
next
  case False
  then have "i < length (dynInline d)" "j < length (dynInline d)" using assms by (simp_all add: dynCapacity_def)
  with False mod_add_inj [of i _ j "dynHead d"] show ?thesis
    by (cases "i = j") (auto simp: dynGet_def dynSet_def nth_list_update intro!: nth_list_update_eq mod_less_divisor)
qed

lemma dynSet_fields [simp]:
  "dynLen (dynSet d i e) = dynLen d" "dynSize (dynSet d i e) = dynSize d" "dynHead (dynSet d i e) = dynHead d"
  "maxTableSize (dynSet d i e) = maxTableSize d" "protocolMaxSize (dynSet d i e) = protocolMaxSize d"
  "dynCapacity (dynSet d i e) = dynCapacity d" "length (dynInline (dynSet d i e)) = length (dynInline d)"
  "tableGen (dynSet d i e) = tableGen d" "dynNameMax (dynSet d i e) = dynNameMax d" "dynRefBytes (dynSet d i e) = dynRefBytes d"
  "memoValid (dynSet d i e) = memoValid d" "hpackDyn.more (dynSet d i e) = hpackDyn.more d"
  by (simp_all add: dynSet_def dynCapacity_def)

lemma dynGet_update [simp]:
  "dynGet (d\<lparr>dynLen := n\<rparr>) = dynGet d" "dynGet (d\<lparr>dynSize := z\<rparr>) = dynGet d" "dynGet (d\<lparr>maxTableSize := z\<rparr>) = dynGet d"
  "dynGet (d\<lparr>tableGen := g\<rparr>) = dynGet d" "dynGet (d\<lparr>dynNameMax := n\<rparr>) = dynGet d" "dynGet (d\<lparr>dynRefBytes := z\<rparr>) = dynGet d"
  "dynGet (d\<lparr>memoValid := b\<rparr>) = dynGet d"
  by (simp_all add: dynGet_def fun_eq_iff)

lemma dynCapacity_update [simp]:
  "dynCapacity (d\<lparr>dynLen := n\<rparr>) = dynCapacity d" "dynCapacity (d\<lparr>dynSize := z\<rparr>) = dynCapacity d"
  "dynCapacity (d\<lparr>maxTableSize := z\<rparr>) = dynCapacity d" "dynCapacity (d\<lparr>tableGen := g\<rparr>) = dynCapacity d"
  "dynCapacity (d\<lparr>dynNameMax := n\<rparr>) = dynCapacity d" "dynCapacity (d\<lparr>dynHead := n\<rparr>) = dynCapacity d"
  "dynCapacity (d\<lparr>dynRefBytes := z\<rparr>) = dynCapacity d" "dynCapacity (d\<lparr>memoValid := b\<rparr>) = dynCapacity d"
  by (simp_all add: dynCapacity_def)

lemma dyn_entries_update [simp]:
  "dyn_entries (d\<lparr>dynSize := z\<rparr>) = dyn_entries d" "dyn_entries (d\<lparr>maxTableSize := z\<rparr>) = dyn_entries d"
  "dyn_entries (d\<lparr>tableGen := g\<rparr>) = dyn_entries d" "dyn_entries (d\<lparr>dynNameMax := n\<rparr>) = dyn_entries d"
  "dyn_entries (d\<lparr>dynRefBytes := z\<rparr>) = dyn_entries d" "dyn_entries (d\<lparr>memoValid := b\<rparr>) = dyn_entries d"
  by (simp_all add: dyn_entries_def)

lemma length_dyn_entries [simp]: "length (dyn_entries d) = dynLen d"
  by (simp add: dyn_entries_def)

lemma ring_ok_update [simp]:
  "ring_ok (d\<lparr>maxTableSize := z\<rparr>) = ring_ok d" "ring_ok (d\<lparr>tableGen := g\<rparr>) = ring_ok d" "ring_ok (d\<lparr>dynNameMax := n\<rparr>) = ring_ok d"
  "ring_ok (d\<lparr>dynRefBytes := z\<rparr>) = ring_ok d" "ring_ok (d\<lparr>memoValid := b\<rparr>) = ring_ok d"
  by (simp_all add: ring_ok_def)

text \<open>What an operation leaves alone.\<close>

definition same_limits :: "'a hpackDyn_scheme \<Rightarrow> 'a hpackDyn_scheme \<Rightarrow> bool" where
  "same_limits d d' \<longleftrightarrow> maxTableSize d' = maxTableSize d \<and> protocolMaxSize d' = protocolMaxSize d
     \<and> tableGen d' = tableGen d \<and> memoValid d' = memoValid d \<and> dynNameMax d' = dynNameMax d \<and> dynRefBytes d' = dynRefBytes d
     \<and> hpackDyn.more d' = hpackDyn.more d"

lemma dropTail_ok:
  assumes "ring_ok d" and "dynLen d > 0"
  shows "ring_ok (dropTail d) \<and> dyn_entries (dropTail d) = butlast (dyn_entries d) \<and> same_limits d (dropTail d)"
proof -
  let ?n = "dynLen d - 1" and ?t = "dynGet d (dynLen d - 1)"
  have n: "?n < dynCapacity d" and le: "dynLen d \<le> dynCapacity d" using assms by (auto simp: ring_ok_def)
  let ?s = "dynSet (d\<lparr>dynSize := dynSize d - de_size ?t\<rparr>) ?n emptyDynEntry"
  have get: "dynGet (dropTail d) i = dynGet d i" if "i < ?n" for i
    using that n le dynGet_dynSet [of ?n "d\<lparr>dynSize := dynSize d - de_size ?t\<rparr>" i emptyDynEntry] by (simp add: dropTail_def Let_def)
  have up: "[0..<dynLen d] = [0..<?n] @ [?n]" using assms(2) by (metis Suc_pred' upt_Suc_append zero_le)
  have es: "dyn_entries d = dyn_entries (dropTail d) @ [(de_name ?t, de_value ?t)]"
    unfolding dyn_entries_def up by (simp add: get)
  have sz: "de_size ?t = entry_size (de_name ?t, de_value ?t)" using assms by (simp add: ring_ok_def)
  have "dynSize (dropTail d) = table_size (dyn_entries (dropTail d))"
    using assms(1) es sz by (simp add: dropTail_def Let_def ring_ok_def)
  moreover have "de_size (dynGet (dropTail d) i) = entry_size (de_name (dynGet (dropTail d) i), de_value (dynGet (dropTail d) i))"
    if "i < dynLen (dropTail d)" for i
    using that get [of i] assms(1) by (simp add: ring_ok_def)
  ultimately have "ring_ok (dropTail d)"
    using assms(1) n le by (simp add: ring_ok_def) (simp add: dropTail_def Let_def)
  then show ?thesis using es by (simp add: same_limits_def dropTail_def Let_def)
qed

lemma evictLoop_ok:
  "ring_ok d \<Longrightarrow> ring_ok (evictLoop need d) \<and> dyn_entries (evictLoop need d) = take_fit (maxTableSize d - need) (dyn_entries d)
     \<and> same_limits d (evictLoop need d)"
proof (induction need d rule: evictLoop.induct)
  case (1 need d)
  show ?case
  proof (cases "dynSize d + need > maxTableSize d \<and> dynLen d > 0")
    case True
    note drop = dropTail_ok [OF "1.prems"]
    have ne: "dyn_entries d \<noteq> []" using True by (metis length_dyn_entries length_0_conv less_not_refl)
    have "take_fit (maxTableSize d - need) (dyn_entries d) = take_fit (maxTableSize d - need) (butlast (dyn_entries d))"
      using take_fit_snoc [of "maxTableSize d - need" "butlast (dyn_entries d)" "last (dyn_entries d)"] True "1.prems" ne
      by (simp add: ring_ok_def)
    with "1.IH" [OF True] drop True show ?thesis by (subst (1 2 3) evictLoop.simps) (auto simp: same_limits_def)
  next
    case False
    then have e: "evictLoop need d = d" by (subst evictLoop.simps) auto
    have "take_fit (maxTableSize d - need) (dyn_entries d) = dyn_entries d"
    proof (cases "dynLen d = 0")
      case True
      then have "dyn_entries d = []" by (metis length_dyn_entries length_0_conv)
      then show ?thesis by simp
    next
      case f: False
      with False "1.prems" show ?thesis by (intro take_fit_all) (simp add: ring_ok_def)
    qed
    with e "1.prems" show ?thesis by (simp add: same_limits_def)
  qed
qed

lemma growDynRing_ok:
  assumes "ring_ok d" and "dynLen d = dynCapacity d" and "32 * (int (dynLen d) + 1) \<le> maxTableSize d"
  shows "ring_ok (growDynRing d) \<and> dyn_entries (growDynRing d) = dyn_entries d \<and> same_limits d (growDynRing d)
    \<and> dynLen (growDynRing d) < dynCapacity (growDynRing d)"
proof -
  let ?g = "growDynRing d"
  have "int (dynCapacity d) + 1 \<le> maxTableSize d div 32"
    using assms(2,3) by (metis (no_types) mult.commute zdiv_mono1 nonzero_mult_div_cancel_left zero_neq_numeral zero_less_numeral)
  then have big: "int (dynLen d) < maxTableSize d div 32" "dynCapacity d > 0" "\<not> maxTableSize d div 32 \<le> int (dynCapacity d)"
    using assms(1,2) by (auto simp: ring_ok_def)
  define c where "c = (if dynCapacity d * 2 < dynCapacity d \<or> int (dynCapacity d * 2) > maxTableSize d div 32
    then nat (maxTableSize d div 32) else dynCapacity d * 2)"
  have c: "dynLen d < c" using big assms(2) by (auto simp: c_def)
  have g: "?g = d\<lparr>dynRing := map (dynGet d) [0..<dynLen d] @ replicate (c - dynLen d) emptyDynEntry, dynHead := 0\<rparr>"
    using big(3) by (simp only: growDynRing_def Let_def c_def if_False)
  have ring: "length (dynRing ?g) = c" "dynLen ?g = dynLen d" "dynHead ?g = 0" using c by (simp_all add: g)
  have cap: "dynCapacity ?g = c" using c ring(1) by (simp add: dynCapacity_def)
  have get: "dynGet ?g i = dynGet d i" if "i < dynLen d" for i
  proof -
    have "dynGet ?g i = dynRing ?g ! i" using that c ring by (simp add: dynGet_def)
    also have "\<dots> = dynGet d i" using that by (simp add: g nth_append)
    finally show ?thesis .
  qed
  have es: "dyn_entries ?g = dyn_entries d" unfolding dyn_entries_def ring(2) using get by simp
  have "ring_ok ?g"
    using assms(1) c get es unfolding ring_ok_def cap ring by (simp add: g)
  then show ?thesis using es c cap ring by (simp add: same_limits_def g)
qed

lemma push_front_ok:
  assumes "ring_ok d" and "dynLen d < dynCapacity d" and "e = \<lparr>de_name = name, de_value = value, de_size = entry_size (name, value)\<rparr>"
    and "d' = dynSet (d\<lparr>dynHead := (dynHead d + dynCapacity d - 1) mod dynCapacity d\<rparr>) 0 e"
  shows "ring_ok (d'\<lparr>dynLen := dynLen d' + 1, dynSize := dynSize d' + entry_size (name, value)\<rparr>)
    \<and> dyn_entries (d'\<lparr>dynLen := dynLen d' + 1, dynSize := dynSize d' + entry_size (name, value)\<rparr>) = (name, value) # dyn_entries d"
proof -
  let ?c = "dynCapacity d" and ?h = "d\<lparr>dynHead := (dynHead d + dynCapacity d - 1) mod dynCapacity d\<rparr>"
  have c: "?c > 0" and h: "dynHead d < ?c" using assms(1,2) by (auto simp: ring_ok_def)
  have get: "dynGet d' 0 = e" "i < dynLen d \<Longrightarrow> dynGet d' (Suc i) = dynGet d i" for i
  proof -
    show "dynGet d' 0 = e" using dynGet_dynSet [of 0 ?h 0 e] c assms(4) by simp
    assume i: "i < dynLen d"
    have "dynGet d' (Suc i) = dynGet ?h (Suc i)" using dynGet_dynSet [of 0 ?h "Suc i" e] c i assms(2,4) by simp
    also have "((dynHead d + ?c - 1) mod ?c + Suc i) mod ?c = (dynHead d + i) mod ?c"
    proof -
      have "((dynHead d + ?c - 1) mod ?c + Suc i) mod ?c = (dynHead d + ?c - 1 + Suc i) mod ?c" by (rule mod_add_left_eq)
      also have "dynHead d + ?c - 1 + Suc i = dynHead d + i + ?c" using c by simp
      finally show ?thesis by simp
    qed
    then have "dynGet ?h (Suc i) = dynGet d i" by (simp add: dynGet_def dynCapacity_def split: if_splits)
    finally show "dynGet d' (Suc i) = dynGet d i" .
  qed
  have len: "dynLen d' = dynLen d" using assms(4) by simp
  have es: "map (\<lambda>i. (de_name (dynGet d' i), de_value (dynGet d' i))) [0..<Suc (dynLen d)] = (name, value) # dyn_entries d"
    using get assms(3) by (simp add: dyn_entries_def upt_conv_Cons map_Suc_upt [symmetric] del: upt_Suc)
  have sz: "de_size (dynGet d' i) = entry_size (de_name (dynGet d' i), de_value (dynGet d' i))" if "i < Suc (dynLen d)" for i
    using that get assms(1,3) by (cases i) (auto simp: ring_ok_def)
  have f: "dynSize d' = dynSize d" "dynCapacity d' = ?c" "length (dynInline d') = length (dynInline d)" "dynHead d' < ?c"
    using assms(4) c by simp_all
  have "dyn_entries (d'\<lparr>dynLen := dynLen d' + 1, dynSize := dynSize d' + entry_size (name, value)\<rparr>) = (name, value) # dyn_entries d"
    using es by (simp add: dyn_entries_def len)
  then show ?thesis using assms(1,2) sz f len by (simp add: ring_ok_def)
qed

lemma addEntry_unfold:
  "addEntry d name value =
     (let e = entry_size (name, value); d = evictLoop e (d\<lparr>tableGen := tableGen d + 1, memoValid := False, dynNameMax := max (dynNameMax d) (length name)\<rparr>);
          d = (if e \<le> maxTableSize d \<and> dynLen d = dynCapacity d then growDynRing d else d);
          d' = dynSet (d\<lparr>dynHead := (dynHead d + dynCapacity d - 1) mod dynCapacity d\<rparr>) 0 \<lparr>de_name = name, de_value = value, de_size = e\<rparr>
      in if e \<le> maxTableSize d \<and> dynLen d < dynCapacity d
         then d'\<lparr>dynLen := dynLen d' + 1, dynSize := dynSize d' + e\<rparr> else d)"
  unfolding addEntry_def Let_def entry_size_def hpackEntryOverhead_def fst_conv snd_conv by (rule refl)

lemma addEntry_ok:
  fixes d :: "'a hpackDyn_scheme"
  assumes "ring_ok d"
  shows "ring_ok (addEntry d name value) \<and> dyn_entries (addEntry d name value) = table_add (maxTableSize d) (dyn_entries d) (name, value)
    \<and> maxTableSize (addEntry d name value) = maxTableSize d \<and> protocolMaxSize (addEntry d name value) = protocolMaxSize d
    \<and> tableGen (addEntry d name value) = tableGen d + 1 \<and> \<not> memoValid (addEntry d name value)
    \<and> dynNameMax (addEntry d name value) = max (dynNameMax d) (length name) \<and> dynRefBytes (addEntry d name value) = dynRefBytes d
    \<and> hpackDyn.more (addEntry d name value) = hpackDyn.more d"
proof -
  let ?e = "entry_size (name, value)"
  define d0 where "d0 = d\<lparr>tableGen := tableGen d + 1, memoValid := False, dynNameMax := max (dynNameMax d) (length name)\<rparr>"
  define d1 where "d1 = evictLoop ?e d0"
  define d2 where "d2 = (if ?e \<le> maxTableSize d1 \<and> dynLen d1 = dynCapacity d1 then growDynRing d1 else d1)"
  have d1: "ring_ok d1" "dyn_entries d1 = take_fit (maxTableSize d - ?e) (dyn_entries d)" "same_limits d0 d1"
    using evictLoop_ok [of d0 ?e] assms by (simp_all add: d1_def d0_def)
  show ?thesis
  proof (cases "?e \<le> maxTableSize d")
    case False
    then have "dyn_entries d1 = []" "\<not> ?e \<le> maxTableSize d1" using d1 take_fit_neg by (auto simp: same_limits_def d0_def)
    moreover from this have "addEntry d name value = d1" unfolding addEntry_unfold by (simp add: Let_def flip: d0_def d1_def)
    ultimately show ?thesis using d1 False by (simp add: same_limits_def table_add_def d0_def)
  next
    case True
    have max1: "maxTableSize d1 = maxTableSize d" using d1(3) by (simp add: same_limits_def d0_def)
    have "table_size (dyn_entries d1) \<le> maxTableSize d - ?e" unfolding d1(2) using True by (intro take_fit_size) simp
    then have "32 * (int (dynLen d1) + 1) \<le> maxTableSize d1"
      using table_size_ge [of "dyn_entries d1"] entry_size_pos [of "(name, value)"] max1 by simp
    then have d2: "ring_ok d2" "dyn_entries d2 = dyn_entries d1" "same_limits d1 d2" "dynLen d2 < dynCapacity d2"
      using growDynRing_ok [OF d1(1)] d1(1) max1 True by (auto simp: d2_def same_limits_def ring_ok_def)
    define d3 where "d3 = dynSet (d2\<lparr>dynHead := (dynHead d2 + dynCapacity d2 - 1) mod dynCapacity d2\<rparr>) 0 \<lparr>de_name = name, de_value = value, de_size = ?e\<rparr>"
    have max2: "?e \<le> maxTableSize d2" using d2(3) max1 True by (simp add: same_limits_def)
    have eq: "addEntry d name value = d3\<lparr>dynLen := dynLen d3 + 1, dynSize := dynSize d3 + ?e\<rparr>"
      unfolding addEntry_unfold Let_def d0_def [symmetric] d1_def [symmetric] d2_def [symmetric] d3_def [symmetric]
      using max2 d2(4) by simp
    show ?thesis unfolding eq using push_front_ok [OF d2(1,4) refl d3_def] d1 d2 True
      by (simp add: table_add_def same_limits_def d0_def) (simp add: d3_def)
  qed
qed

lemma setMaxSize_ok:
  assumes "ring_ok d"
  shows "ring_ok (setMaxSize d m) \<and> dyn_entries (setMaxSize d m) = take_fit m (dyn_entries d) \<and> maxTableSize (setMaxSize d m) = m
    \<and> protocolMaxSize (setMaxSize d m) = protocolMaxSize d \<and> tableGen (setMaxSize d m) = tableGen d + 1 \<and> \<not> memoValid (setMaxSize d m)
    \<and> dynNameMax (setMaxSize d m) = dynNameMax d \<and> dynRefBytes (setMaxSize d m) = dynRefBytes d
    \<and> hpackDyn.more (setMaxSize d m) = hpackDyn.more d"
  using evictLoop_ok [of "d\<lparr>tableGen := tableGen d + 1, memoValid := False, maxTableSize := m\<rparr>" 0] assms
  by (simp add: setMaxSize_def same_limits_def)

lemma dyn_inv_room: "dyn_inv d \<Longrightarrow> int (dynLen d) < 2 ^ 27"
  using table_size_ge [of "dyn_entries d"] by (simp add: dyn_inv_def ring_ok_def)

lemma static_length [simp]: "length HpackStaticTable = 62"
  by (simp add: HpackStaticTable_def)

lemma lookupIndex_table:
  assumes "dyn_inv d"
  shows "lookupIndex d idx = (case table_lookup (dyn_entries d) (unat idx) of
      None \<Rightarrow> (d, [], [], False)
    | Some (name, value) \<Rightarrow>
        (if idx < 62 then d else d\<lparr>dynRefBytes := dynRefBytes d + entry_size (name, value)\<rparr>, name, value, True))"
proof -
  have len: "unat (of_nat (dynLen d) :: u64) = dynLen d" using dyn_inv_room [OF assms] by (simp add: unat_of_nat)
  consider "idx = 0" | "idx \<noteq> 0" "idx < 62" | "62 \<le> idx" by fastforce
  then show ?thesis
  proof cases
    case 3
    then have "unat (idx - 62) = unat idx - 62" "62 \<le> unat idx" by (simp_all add: unat_sub word_le_nat_alt)
    moreover have "de_size (dynGet d i) = entry_size (de_name (dynGet d i), de_value (dynGet d i))" if "i < dynLen d" for i
      using assms that by (simp add: dyn_inv_def ring_ok_def)
    ultimately show ?thesis using 3 len
      by (simp add: lookupIndex_def table_lookup_def Let_def word_less_nat_alt dyn_entries_def)
  qed (auto simp: lookupIndex_def table_lookup_def HpackStaticTable_def word_less_nat_alt unat_eq_zero split: prod.splits)
qed

lemma lookupName_table:
  assumes "dyn_inv d"
  shows "lookupName d idx = (case table_lookup (dyn_entries d) (unat idx) of None \<Rightarrow> ([], False) | Some (name, value) \<Rightarrow> (name, True))"
proof -
  obtain n where n: "unat idx = n" "uint idx = int n" by simp
  have n64: "n < 2 ^ 64" using unsigned_less [of idx, where 'a = nat] n(1) by simp
  have small: "idx < 62 \<longleftrightarrow> n < 62" "idx = 0 \<longleftrightarrow> n = 0" using n(1) by (auto simp: word_less_nat_alt unat_eq_zero)
  have room: "dynLen d < 2 ^ 27" using dyn_inv_room [OF assms] by simp
  have idx: "(sint idx - 62 \<ge> 0 \<and> sint idx - 62 < int (dynLen d) \<longleftrightarrow> 62 \<le> n \<and> n - 62 < dynLen d)
    \<and> (62 \<le> n \<and> n - 62 < dynLen d \<longrightarrow> nat (sint idx - 62) = n - 62)"
  proof (cases "n < 2 ^ 63")
    case True
    then have "int n < 2 ^ 63" by simp
    then have "sint idx = int n" unfolding sint_uint n by (subst signed_take_bit_int_eq_self) simp_all
    then show ?thesis by auto
  next
    case False
    have "bit idx 63"
    proof (rule ccontr)
      assume no: "\<not> bit idx 63"
      have "k < 63" if "bit idx k" for k
        using that no bit_imp_le_length [OF that] by (cases "k = 63") auto
      then have "unat idx < 2 ^ 63" by (rule unat_less_expI)
      with False n(1) show False by simp
    qed
    then have "sint idx < 0" by (simp add: sint_uint signed_take_bit_negative_iff bit_uint_iff)
    then show ?thesis using False room by simp
  qed
  show ?thesis
    unfolding lookupName_def table_lookup_def Let_def n
    using idx small by (auto simp: dyn_entries_def split: prod.splits)
qed

section \<open>The contract of a header table\<close>

datatype table_op = AddOp gostring gostring | ResizeOp int

fun spec_step :: "int \<times> header list \<Rightarrow> table_op \<Rightarrow> int \<times> header list" where
  "spec_step (limit, es) (AddOp name value) = (limit, table_add limit es (name, value))"
| "spec_step (limit, es) (ResizeOp m) = (m, take_fit m es)"

text \<open>A table keeps the newest entries that fit into its limit. The decoder's ring and the
  encoder's slice both provide it.\<close>

locale header_table =
  fixes ok :: "'t \<Rightarrow> bool" and entries :: "'t \<Rightarrow> header list" and limit :: "'t \<Rightarrow> int" and roof :: "'t \<Rightarrow> int"
    and add :: "'t \<Rightarrow> gostring \<Rightarrow> gostring \<Rightarrow> 't" and resize :: "'t \<Rightarrow> int \<Rightarrow> 't"
  assumes fits: "ok t \<Longrightarrow> table_size (entries t) \<le> limit t \<and> limit t \<le> roof t"
    and add: "ok t \<Longrightarrow> ok (add t name value) \<and> limit (add t name value) = limit t \<and> roof (add t name value) = roof t
      \<and> entries (add t name value) = table_add (limit t) (entries t) (name, value)"
    and resize: "ok t \<Longrightarrow> 0 \<le> m \<Longrightarrow> m \<le> roof t \<Longrightarrow> ok (resize t m) \<and> limit (resize t m) = m \<and> roof (resize t m) = roof t
      \<and> entries (resize t m) = take_fit m (entries t)"
begin

primrec step :: "'t \<Rightarrow> table_op \<Rightarrow> 't" where
  "step t (AddOp name value) = add t name value"
| "step t (ResizeOp m) = resize t m"

lemma run_refines:
  "ok t \<Longrightarrow> (\<And>m. ResizeOp m \<in> set ops \<Longrightarrow> 0 \<le> m \<and> m \<le> roof t)
    \<Longrightarrow> ok (foldl step t ops) \<and> (limit (foldl step t ops), entries (foldl step t ops)) = foldl spec_step (limit t, entries t) ops
      \<and> table_size (entries (foldl step t ops)) \<le> roof t"
proof (induction ops arbitrary: t)
  case Nil
  then show ?case using fits by fastforce
next
  case (Cons x ops)
  have "ok (step t x) \<and> roof (step t x) = roof t \<and> (limit (step t x), entries (step t x)) = spec_step (limit t, entries t) x"
    using Cons.prems by (cases x) (auto simp: add resize)
  with Cons.IH [of "step t x"] Cons.prems(2) show ?case by simp
qed

text \<open>An entry that fits is there at once, at the first dynamic index.\<close>

lemma added_first:
  "ok t \<Longrightarrow> entry_size (name, value) \<le> limit t \<Longrightarrow> table_lookup (entries (add t name value)) 62 = Some (name, value)"
  by (simp add: add table_lookup_def table_add_def)

end

text \<open>Two tables that see the same operations: what the first knows under an index, so does the second.\<close>

lemma take_fit_prefix: "prefix es fs \<Longrightarrow> l \<le> m \<Longrightarrow> prefix (take_fit l es) (take_fit m fs)"
proof (induction es arbitrary: l m fs)
  case (Cons e es)
  then show ?case by (cases fs) auto
qed simp

lemma table_add_prefix: "prefix es fs \<Longrightarrow> l \<le> m \<Longrightarrow> prefix (table_add l es e) (table_add m fs e)"
  by (simp add: table_add_def take_fit_prefix)

lemma table_lookup_prefix: "prefix es fs \<Longrightarrow> table_lookup es i = Some e \<Longrightarrow> table_lookup fs i = Some e"
  by (auto simp: table_lookup_def prefix_def nth_append split: if_splits)

lemma dyn_inv_addEntry: "dyn_inv d \<Longrightarrow> dyn_inv (addEntry d n v)"
  using addEntry_ok [of d n v] table_add_size [of "maxTableSize d" "dyn_entries d" "(n, v)"] table_size_ge [of "dyn_entries d"]
  by (auto simp: dyn_inv_def ring_ok_def)

lemma dyn_inv_setMaxSize: "dyn_inv d \<Longrightarrow> 0 \<le> m \<Longrightarrow> m \<le> protocolMaxSize d \<Longrightarrow> dyn_inv (setMaxSize d m)"
  using setMaxSize_ok [of d m] take_fit_size [of m "dyn_entries d"] by (auto simp: dyn_inv_def ring_ok_def)

interpretation decoder_table: header_table dyn_inv dyn_entries maxTableSize protocolMaxSize addEntry setMaxSize
proof unfold_locales
  fix d :: "'a hpackDyn_scheme" and n v m
  assume d: "dyn_inv d"
  then show "table_size (dyn_entries d) \<le> maxTableSize d \<and> maxTableSize d \<le> protocolMaxSize d"
    by (simp add: dyn_inv_def ring_ok_def)
  show "dyn_inv (addEntry d n v) \<and> maxTableSize (addEntry d n v) = maxTableSize d
    \<and> protocolMaxSize (addEntry d n v) = protocolMaxSize d
    \<and> dyn_entries (addEntry d n v) = table_add (maxTableSize d) (dyn_entries d) (n, v)"
    using dyn_inv_addEntry [OF d, of n v] addEntry_ok [of d n v] d unfolding dyn_inv_def by blast
  assume "0 \<le> m" "m \<le> protocolMaxSize d"
  then show "dyn_inv (setMaxSize d m) \<and> maxTableSize (setMaxSize d m) = m \<and> protocolMaxSize (setMaxSize d m) = protocolMaxSize d
    \<and> dyn_entries (setMaxSize d m) = take_fit m (dyn_entries d)"
    using dyn_inv_setMaxSize [OF d, of m] setMaxSize_ok [of d m] d unfolding dyn_inv_def by blast
qed

lemma dyn_inv_newHpackDyn [simp]: "dyn_inv (newHpackDyn tableSize)"
proof -
  have "uint tableSize < 2 ^ 32" using unsigned_less [of tableSize] by simp
  then show ?thesis
    by (simp add: dyn_inv_def ring_ok_def newHpackDyn_def dyn_entries_def dynCapacity_def)
qed

text \<open>One operation on the decoder's table.\<close>

primrec tableStep :: "hpackDyn \<Rightarrow> table_op \<Rightarrow> hpackDyn" where
  "tableStep d (AddOp name value) = addEntry d name value"
| "tableStep d (ResizeOp m) = setMaxSize d m"

text \<open>
  C25: a decoder's dynamic table, from its creation on and under any sequence of insertions and
  size updates within the limit it announced, holds at every moment exactly the newest entries that
  fit into its current size, newest first, and never exceeds the announced limit. A lookup by index
  finds exactly those entries after the 61 static ones, and nothing at index 0 or past the end.\<close>

theorem hpack_table_refines:
  assumes "\<And>m. ResizeOp m \<in> set ops \<Longrightarrow> 0 \<le> m \<and> m \<le> uint tableSize"
    and "d = foldl tableStep (newHpackDyn tableSize) ops"
  shows "(maxTableSize d, dyn_entries d) = foldl spec_step (uint tableSize, []) ops
    \<and> table_size (dyn_entries d) \<le> uint tableSize
    \<and> (case lookupIndex d idx of (_, name, value, found) \<Rightarrow> if found then Some (name, value) else None)
       = table_lookup (dyn_entries d) (unat idx)"
proof -
  have step: "decoder_table.step = tableStep"
  proof (intro ext)
    show "decoder_table.step d x = tableStep d x" for d x by (cases x) simp_all
  qed
  have new: "maxTableSize (newHpackDyn tableSize) = uint tableSize" "protocolMaxSize (newHpackDyn tableSize) = uint tableSize"
    "dyn_entries (newHpackDyn tableSize) = []"
    by (simp_all add: newHpackDyn_def dyn_entries_def)
  have run: "dyn_inv d" "(maxTableSize d, dyn_entries d) = foldl spec_step (uint tableSize, []) ops"
    "table_size (dyn_entries d) \<le> uint tableSize"
    using decoder_table.run_refines [of "newHpackDyn tableSize" ops, unfolded step new] assms by simp_all
  then show ?thesis by (auto simp: lookupIndex_table [OF run(1)] split: option.splits)
qed

theorem hpack_table_refines_witness:
  "(maxTableSize (foldl tableStep (newHpackDyn 100) [AddOp (str ''a'') (str ''b''), ResizeOp 40, AddOp (str ''cd'') (str ''e'')]),
    dyn_entries (foldl tableStep (newHpackDyn 100) [AddOp (str ''a'') (str ''b''), ResizeOp 40, AddOp (str ''cd'') (str ''e'')]))
   = (40, [(str ''cd'', str ''e'')])"
  using hpack_table_refines [of "[AddOp (str ''a'') (str ''b''), ResizeOp 40, AddOp (str ''cd'') (str ''e'')]" 100 _ 62, OF _ refl]
  by (simp add: table_add_def entry_size_def)

end
