(* ===== verification/Hpack_Meta.thy ===== *)
theory Hpack_Meta
  imports H1_Scan Path_Utils Hpack_Table
begin

text \<open>
  What the decoder learns about an HTTP/2 request while it reads the fields of a block: the record
  \<open>hpackRequestMeta\<close> and its methods of \<open>core/hpack.go\<close>.  \<open>observeHeader\<close> is run on every field,
  \<open>validate\<close> at the end of the block.  An error return leaves the record as it was updated so far.
\<close>

section \<open>Model\<close>

datatype hpackError = ErrH2BadHeader | ErrTooManyHeaders | ErrHpackTableSizeExceeded | ErrHpackSizeUpdateAfterField
  | ErrH2MalformedRequest | ErrH2HeaderListTooLarge

record hpackRequestMeta =
  m_method :: gostring
  m_path :: gostring
  m_rawPath :: gostring
  m_query :: gostring
  m_scheme :: gostring
  m_authority :: gostring
  headerCount :: nat
  m_contentLength :: int
  pseudoMask :: byte
  sawRegular :: bool
  hasContentLength :: bool
  allowProtocol :: bool
  protocolSet :: bool
  protocolWebSocket :: bool

definition zeroMeta :: hpackRequestMeta where
  "zeroMeta = \<lparr>m_method = [], m_path = [], m_rawPath = [], m_query = [], m_scheme = [], m_authority = [], headerCount = 0,
     m_contentLength = 0, pseudoMask = 0, sawRegular = False, hasContentLength = False, allowProtocol = False,
     protocolSet = False, protocolWebSocket = False\<rparr>"

definition declaredLength :: "hpackRequestMeta \<Rightarrow> int" where
  "declaredLength meta = (if \<not> hasContentLength meta then -1 else m_contentLength meta)"

definition hpackPseudoMethod :: byte where "hpackPseudoMethod = 1"
definition hpackPseudoScheme :: byte where "hpackPseudoScheme = 2"
definition hpackPseudoPath :: byte where "hpackPseudoPath = 4"
definition hpackPseudoAuthority :: byte where "hpackPseudoAuthority = 8"
definition hpackPseudoProtocol :: byte where "hpackPseudoProtocol = 16"

definition h2FieldNameValid :: "byte \<Rightarrow> bool" where
  "h2FieldNameValid c \<longleftrightarrow> 0x21 \<le> c \<and> c < 0x7f \<and> c \<noteq> b8 CHR '':'' \<and> \<not> (c \<ge> b8 CHR ''A'' \<and> c \<le> b8 CHR ''Z'')"

fun fieldNameLoop :: "gostring \<Rightarrow> bool" where
  "fieldNameLoop [] = True"
| "fieldNameLoop (c # name) = (if \<not> h2FieldNameValid c then False else fieldNameLoop name)"

definition isValidH2FieldName :: "gostring \<Rightarrow> bool" where
  "isValidH2FieldName name =
     (if name = [] then False
      else if name ! 0 = b8 CHR '':'' then (if length name = 1 then False else fieldNameLoop (drop 1 name))
      else fieldNameLoop name)"

definition isValidH2FieldValue :: "gostring \<Rightarrow> bool" where
  "isValidH2FieldValue v =
     (if length v > 0 \<and> (v ! 0 = b8 CHR '' '' \<or> v ! 0 = b8 CHR 0x09 \<or> v ! (length v - 1) = b8 CHR '' '' \<or> v ! (length v - 1) = b8 CHR 0x09)
      then False else \<not> containsLineBreak v lineBreakCRLFNUL)"

definition isH2Method :: "gostring \<Rightarrow> bool" where
  "isH2Method v \<longleftrightarrow> v = str ''GET'' \<or> isH1Token v"

fun fieldListLoop :: "header list \<Rightarrow> int \<Rightarrow> int" where
  "fieldListLoop [] n = n"
| "fieldListLoop (f # fs) n = fieldListLoop fs (n + int (length (fst f)) + int (length (snd f)) + hpackEntryOverhead)"

definition h2FieldListSize :: "header list \<Rightarrow> int" where
  "h2FieldListSize fs = fieldListLoop fs 0"

definition isH2ConnectionSpecificField :: "gostring \<Rightarrow> gostring \<Rightarrow> bool" where
  "isH2ConnectionSpecificField name v =
     (if name \<in> {str ''connection'', str ''proxy-connection'', str ''keep-alive'', str ''transfer-encoding'', str ''upgrade''} then True
      else if name = str ''te'' then \<not> EqualFoldASCII v (str ''trailers'')
      else False)"

text \<open>The pseudo-header fields, then the regular ones.\<close>

definition observePseudo :: "hpackRequestMeta \<Rightarrow> gostring \<Rightarrow> gostring \<Rightarrow> hpackRequestMeta \<times> hpackError option" where
  "observePseudo meta name v =
     (if sawRegular meta then (meta, Some ErrH2BadHeader)
      else if name = str '':method'' then
        (if pseudoMask meta AND hpackPseudoMethod \<noteq> 0 \<or> v \<noteq> [] \<and> \<not> isH2Method v then (meta, Some ErrH2BadHeader)
         else (meta\<lparr>pseudoMask := pseudoMask meta OR hpackPseudoMethod, m_method := v\<rparr>, None))
      else if name = str '':path'' then
        (if pseudoMask meta AND hpackPseudoPath \<noteq> 0 \<or> \<not> isValidH2Path v then (meta, Some ErrH2BadHeader)
         else (meta\<lparr>pseudoMask := pseudoMask meta OR hpackPseudoPath, m_rawPath := v, m_query := snd (splitPathQuery v),
                 m_path := (if v = str ''/'' then str ''/'' else sanitizeRequestPath v)\<rparr>, None))
      else if \<not> isValidH2FieldValue v then (meta, Some ErrH2BadHeader)
      else if name = str '':scheme'' then
        (if pseudoMask meta AND hpackPseudoScheme \<noteq> 0 then (meta, Some ErrH2BadHeader)
         else (meta\<lparr>pseudoMask := pseudoMask meta OR hpackPseudoScheme, m_scheme := v\<rparr>, None))
      else if name = str '':authority'' then
        (if pseudoMask meta AND hpackPseudoAuthority \<noteq> 0 then (meta, Some ErrH2BadHeader)
         else if \<not> ValidateHost v then (meta, Some ErrH2BadHeader)
         else (meta\<lparr>pseudoMask := pseudoMask meta OR hpackPseudoAuthority, m_authority := v\<rparr>, None))
      else if name = str '':protocol'' then
        (if \<not> allowProtocol meta \<or> pseudoMask meta AND hpackPseudoProtocol \<noteq> 0 then (meta, Some ErrH2BadHeader)
         else (meta\<lparr>pseudoMask := pseudoMask meta OR hpackPseudoProtocol, protocolSet := v \<noteq> [],
                 protocolWebSocket := EqualFoldASCII v (str ''websocket'')\<rparr>, None))
      else (meta, Some ErrH2BadHeader))"

definition observeRegular :: "hpackRequestMeta \<Rightarrow> gostring \<Rightarrow> gostring \<Rightarrow> hpackRequestMeta \<times> hpackError option" where
  "observeRegular meta name v =
     (if \<not> isValidH2FieldValue v then (meta, Some ErrH2BadHeader)
      else
        let meta = meta\<lparr>sawRegular := True\<rparr> in
        if isH2ConnectionSpecificField name v then (meta, Some ErrH2BadHeader)
        else if name = str ''content-length'' then
          let (n, ok) = parseUint v in
          if \<not> ok \<or> hasContentLength meta \<and> n \<noteq> m_contentLength meta then (meta, Some ErrH2BadHeader)
          else (meta\<lparr>m_contentLength := n, hasContentLength := True\<rparr>, None)
        else (meta, None))"

definition observeHeader :: "hpackRequestMeta \<Rightarrow> gostring \<Rightarrow> gostring \<Rightarrow> hpackRequestMeta \<times> hpackError option" where
  "observeHeader meta name v =
     (if \<not> isValidH2FieldName name then (meta, Some ErrH2BadHeader)
      else if name ! 0 = b8 CHR '':'' then observePseudo meta name v
      else observeRegular meta name v)"

definition pathFormValid :: "hpackRequestMeta \<Rightarrow> bool" where
  "pathFormValid meta \<longleftrightarrow>
     (let p = m_rawPath meta in
      length p > 0 \<and> (p ! 0 = b8 CHR ''/'' \<or> p = str ''*'' \<and> m_method meta = str ''OPTIONS''))"

definition validateConnect :: "hpackRequestMeta \<Rightarrow> hpackError option" where
  "validateConnect meta =
     (if pseudoMask meta AND hpackPseudoProtocol \<noteq> 0 then
        (if m_method meta \<noteq> str ''CONNECT'' \<or> \<not> protocolSet meta \<or> m_authority meta = [] \<or> m_scheme meta = [] \<or> m_path meta = []
            \<or> length (m_rawPath meta) = 0 \<or> m_rawPath meta ! 0 \<noteq> b8 CHR ''/''
         then Some ErrH2MalformedRequest else None)
      else if m_authority meta = [] \<or> m_scheme meta \<noteq> [] \<or> m_path meta \<noteq> [] then Some ErrH2MalformedRequest
      else None)"

definition validate :: "hpackRequestMeta \<Rightarrow> hpackError option" where
  "validate meta =
     (if pseudoMask meta AND hpackPseudoProtocol \<noteq> 0 \<or> m_method meta = str ''CONNECT'' then validateConnect meta
      else if m_method meta = [] \<or> m_scheme meta = [] \<or> m_path meta = [] \<or> \<not> pathFormValid meta then Some ErrH2MalformedRequest
      else None)"

text \<open>The fields of a block one after the other, as the decoding loops observe them; it stops at the first error.\<close>

fun observeAll :: "hpackRequestMeta \<Rightarrow> header list \<Rightarrow> hpackRequestMeta \<times> hpackError option" where
  "observeAll meta [] = (meta, None)"
| "observeAll meta (h # hs) =
     (case observeHeader meta (fst h) (snd h) of
        (meta, Some err) \<Rightarrow> (meta, Some err)
      | (meta, None) \<Rightarrow> observeAll (meta\<lparr>headerCount := headerCount meta + 1\<rparr>) hs)"

section \<open>Specification: the well-formed requests\<close>

definition is_pseudo :: "header \<Rightarrow> bool" where
  "is_pseudo h \<longleftrightarrow> fst h ! 0 = b8 CHR '':''"

definition pseudo_ok :: "bool \<Rightarrow> header \<Rightarrow> bool" where
  "pseudo_ok allow h \<longleftrightarrow> (case h of (name, v) \<Rightarrow>
     name = str '':method'' \<and> (v = [] \<or> isH2Method v)
     \<or> name = str '':path'' \<and> isValidH2Path v
     \<or> name = str '':scheme'' \<and> isValidH2FieldValue v
     \<or> name = str '':authority'' \<and> isValidH2FieldValue v \<and> ValidateHost v
     \<or> name = str '':protocol'' \<and> allow \<and> isValidH2FieldValue v)"

definition regular_ok :: "header \<Rightarrow> bool" where
  "regular_ok h \<longleftrightarrow> isValidH2FieldValue (snd h) \<and> \<not> isH2ConnectionSpecificField (fst h) (snd h)"

definition lengths_agree :: "header list \<Rightarrow> bool" where
  "lengths_agree hs \<longleftrightarrow> (\<exists>n. \<forall>v. (str ''content-length'', v) \<in> set hs \<longrightarrow> parseUint v = (n, True))"

definition fields_wf :: "bool \<Rightarrow> header list \<Rightarrow> bool" where
  "fields_wf allow hs \<longleftrightarrow>
     list_all (\<lambda>h. isValidH2FieldName (fst h)) hs
     \<and> list_all (\<lambda>h. \<not> is_pseudo h) (dropWhile is_pseudo hs)
     \<and> distinct (map fst (filter is_pseudo hs))
     \<and> list_all (pseudo_ok allow) (filter is_pseudo hs)
     \<and> list_all regular_ok (filter (\<lambda>h. \<not> is_pseudo h) hs)
     \<and> lengths_agree hs"

definition value_of :: "gostring \<Rightarrow> header list \<Rightarrow> gostring" where
  "value_of name hs = (case map_of hs name of None \<Rightarrow> [] | Some v \<Rightarrow> v)"

definition has_field :: "gostring \<Rightarrow> header list \<Rightarrow> bool" where
  "has_field name hs \<longleftrightarrow> name \<in> fst ` set hs"

definition mask_of :: "bool \<Rightarrow> bool \<Rightarrow> bool \<Rightarrow> bool \<Rightarrow> bool \<Rightarrow> byte" where
  "mask_of m s p a r = (if m then hpackPseudoMethod else 0) OR (if s then hpackPseudoScheme else 0) OR (if p then hpackPseudoPath else 0)
     OR (if a then hpackPseudoAuthority else 0) OR (if r then hpackPseudoProtocol else 0)"

text \<open>The record a well-formed list of fields leads to.\<close>

definition meta_of :: "bool \<Rightarrow> header list \<Rightarrow> hpackRequestMeta" where
  "meta_of allow hs =
     \<lparr>m_method = value_of (str '':method'') hs,
      m_path = (if has_field (str '':path'') hs
                then if value_of (str '':path'') hs = str ''/'' then str ''/'' else sanitizeRequestPath (value_of (str '':path'') hs) else []),
      m_rawPath = value_of (str '':path'') hs,
      m_query = (if has_field (str '':path'') hs then snd (splitPathQuery (value_of (str '':path'') hs)) else []),
      m_scheme = value_of (str '':scheme'') hs,
      m_authority = value_of (str '':authority'') hs,
      headerCount = length hs,
      m_contentLength = (if has_field (str ''content-length'') hs then fst (parseUint (value_of (str ''content-length'') hs)) else 0),
      pseudoMask = mask_of (has_field (str '':method'') hs) (has_field (str '':scheme'') hs) (has_field (str '':path'') hs)
                     (has_field (str '':authority'') hs) (has_field (str '':protocol'') hs),
      sawRegular = list_ex (\<lambda>h. \<not> is_pseudo h) hs,
      hasContentLength = has_field (str ''content-length'') hs,
      allowProtocol = allow,
      protocolSet = (value_of (str '':protocol'') hs \<noteq> []),
      protocolWebSocket = EqualFoldASCII (value_of (str '':protocol'') hs) (str ''websocket'')\<rparr>"

section \<open>One field more\<close>

definition field_ok :: "bool \<Rightarrow> header list \<Rightarrow> header \<Rightarrow> bool" where
  "field_ok allow hs h \<longleftrightarrow> isValidH2FieldName (fst h) \<and>
     (if is_pseudo h then \<not> list_ex (\<lambda>h. \<not> is_pseudo h) hs \<and> \<not> has_field (fst h) hs \<and> pseudo_ok allow h
      else regular_ok h \<and> (fst h = str ''content-length'' \<longrightarrow> snd (parseUint (snd h))
        \<and> (has_field (str ''content-length'') hs \<longrightarrow> fst (parseUint (snd h)) = fst (parseUint (value_of (str ''content-length'') hs)))))"

lemma mask_bits:
  "mask_of m s p a r AND hpackPseudoMethod \<noteq> 0 \<longleftrightarrow> m" "mask_of m s p a r AND hpackPseudoScheme \<noteq> 0 \<longleftrightarrow> s"
  "mask_of m s p a r AND hpackPseudoPath \<noteq> 0 \<longleftrightarrow> p" "mask_of m s p a r AND hpackPseudoAuthority \<noteq> 0 \<longleftrightarrow> a"
  "mask_of m s p a r AND hpackPseudoProtocol \<noteq> 0 \<longleftrightarrow> r"
  unfolding mask_of_def hpackPseudoMethod_def hpackPseudoScheme_def hpackPseudoPath_def hpackPseudoAuthority_def hpackPseudoProtocol_def
  by (cases m; cases s; cases p; cases a; cases r; simp)+

lemma mask_set:
  "mask_of False s p a r OR hpackPseudoMethod = mask_of True s p a r" "mask_of m False p a r OR hpackPseudoScheme = mask_of m True p a r"
  "mask_of m s False a r OR hpackPseudoPath = mask_of m s True a r" "mask_of m s p False r OR hpackPseudoAuthority = mask_of m s p True r"
  "mask_of m s p a False OR hpackPseudoProtocol = mask_of m s p a True"
  by (simp_all add: mask_of_def ac_simps)

lemma value_of_snoc:
  "value_of name (hs @ [(n, v)]) = (if name = n \<and> \<not> has_field n hs then v else value_of name hs)"
  by (auto simp: value_of_def has_field_def map_of_eq_None_iff split: option.splits)
     (metis map_of_eq_None_iff option.distinct(1) option.inject)+

lemma has_field_snoc [simp]: "has_field name (hs @ [(n, v)]) \<longleftrightarrow> name = n \<or> has_field name hs"
  by (auto simp: has_field_def)

lemma pseudo_names:
  "is_pseudo (str '':method'', v)" "is_pseudo (str '':path'', v)" "is_pseudo (str '':scheme'', v)" "is_pseudo (str '':authority'', v)"
  "is_pseudo (str '':protocol'', v)" "\<not> is_pseudo (str ''content-length'', v)"
  by (simp_all add: is_pseudo_def)

definition pseudo_list :: "gostring list" where
  "pseudo_list = [str '':method'', str '':path'', str '':scheme'', str '':authority'', str '':protocol'', str ''content-length'']"

lemma names_distinct: "distinct pseudo_list"
  by (simp add: pseudo_list_def)

lemmas name_neqs = names_distinct [unfolded pseudo_list_def distinct.simps list.set insert_iff empty_iff de_Morgan_disj simp_thms]

lemma observePseudo_step:
  assumes "is_pseudo (n, v)" and "isValidH2FieldName n"
  shows "if field_ok allow hs (n, v)
    then observeHeader (meta_of allow hs) n v = ((meta_of allow (hs @ [(n, v)]))\<lparr>headerCount := length hs\<rparr>, None)
    else snd (observeHeader (meta_of allow hs) n v) = Some ErrH2BadHeader"
proof -
  have o: "observeHeader (meta_of allow hs) n v = observePseudo (meta_of allow hs) n v"
    using assms by (simp add: observeHeader_def is_pseudo_def)
  have saw: "sawRegular (meta_of allow hs) = list_ex (\<lambda>h. \<not> is_pseudo h) hs" by (simp add: meta_of_def)
  have five: "n \<notin> set (butlast pseudo_list) \<Longrightarrow> \<not> pseudo_ok allow (n, v)" by (auto simp: pseudo_ok_def pseudo_list_def)
  have mask: "pseudoMask (meta_of allow hs) = mask_of (has_field (str '':method'') hs) (has_field (str '':scheme'') hs)
     (has_field (str '':path'') hs) (has_field (str '':authority'') hs) (has_field (str '':protocol'') hs)"
    "allowProtocol (meta_of allow hs) = allow" by (simp_all add: meta_of_def)
  show ?thesis
  proof (cases "n \<in> set (butlast pseudo_list)")
    case True
    then have "n = str '':method'' \<or> n = str '':path'' \<or> n = str '':scheme'' \<or> n = str '':authority'' \<or> n = str '':protocol''"
      by (auto simp: pseudo_list_def)
    then show ?thesis unfolding o observePseudo_def saw mask mask_bits field_ok_def
      by (elim disjE) (use assms name_neqs in \<open>auto simp: pseudo_ok_def meta_of_def value_of_snoc mask_set\<close>)
  next
    case False
    then have "n \<noteq> str '':method''" "n \<noteq> str '':path''" "n \<noteq> str '':scheme''" "n \<noteq> str '':authority''" "n \<noteq> str '':protocol''"
      by (auto simp: pseudo_list_def)
    with five [OF False] assms show ?thesis unfolding o observePseudo_def field_ok_def by auto
  qed
qed

lemma observeRegular_step:
  assumes "\<not> is_pseudo (n, v)" and "isValidH2FieldName n"
  shows "if field_ok allow hs (n, v)
    then observeHeader (meta_of allow hs) n v = ((meta_of allow (hs @ [(n, v)]))\<lparr>headerCount := length hs\<rparr>, None)
    else snd (observeHeader (meta_of allow hs) n v) = Some ErrH2BadHeader"
proof -
  have o: "observeHeader (meta_of allow hs) n v = observeRegular (meta_of allow hs) n v"
    using assms by (simp add: observeHeader_def is_pseudo_def)
  have ne: "str '':method'' \<noteq> n" "str '':path'' \<noteq> n" "str '':scheme'' \<noteq> n" "str '':authority'' \<noteq> n" "str '':protocol'' \<noteq> n"
    using assms(1) pseudo_names [of v] by auto
  have cl: "hasContentLength (meta_of allow hs) = has_field (str ''content-length'') hs"
    "has_field (str ''content-length'') hs \<Longrightarrow> m_contentLength (meta_of allow hs) = fst (parseUint (value_of (str ''content-length'') hs))"
    by (simp_all add: meta_of_def)
  show ?thesis
  proof (cases "field_ok allow hs (n, v)")
    case True
    then have "observeRegular (meta_of allow hs) n v = ((meta_of allow (hs @ [(n, v)]))\<lparr>headerCount := length hs\<rparr>, None)"
      using assms ne cl unfolding observeRegular_def field_ok_def regular_ok_def Let_def
      by (cases "n = str ''content-length''") (auto simp: meta_of_def value_of_snoc simp del: str_simps split: prod.splits)
    then show ?thesis using o True by simp
  next
    case False
    then have "snd (observeRegular (meta_of allow hs) n v) = Some ErrH2BadHeader"
      using assms cl unfolding observeRegular_def field_ok_def regular_ok_def Let_def by (auto split: prod.splits simp del: str_simps)
    then show ?thesis using o False by simp
  qed
qed

lemma observeHeader_step:
  "if field_ok allow hs (n, v)
   then observeHeader (meta_of allow hs) n v = ((meta_of allow (hs @ [(n, v)]))\<lparr>headerCount := length hs\<rparr>, None)
   else snd (observeHeader (meta_of allow hs) n v) = Some ErrH2BadHeader"
proof (cases "isValidH2FieldName n")
  case True
  then show ?thesis using observePseudo_step observeRegular_step by blast
qed (simp add: field_ok_def observeHeader_def)

lemma observeAll_snoc:
  "observeAll meta (hs @ [h]) = (case observeAll meta hs of
     (meta, Some err) \<Rightarrow> (meta, Some err)
   | (meta, None) \<Rightarrow> (case observeHeader meta (fst h) (snd h) of
        (meta, Some err) \<Rightarrow> (meta, Some err) | (meta, None) \<Rightarrow> (meta\<lparr>headerCount := headerCount meta + 1\<rparr>, None)))"
  by (induction hs arbitrary: meta) (auto split: prod.splits option.splits)

lemma agree_insert:
  assumes "w \<in> S"
  shows "(\<exists>n. \<forall>v\<in>insert x S. f v = (n, True)) \<longleftrightarrow> (\<exists>n. \<forall>v\<in>S. f v = (n, True)) \<and> snd (f x) \<and> fst (f x) = fst (f w)"
proof
  assume "\<exists>n. \<forall>v\<in>insert x S. f v = (n, True)"
  then show "(\<exists>n. \<forall>v\<in>S. f v = (n, True)) \<and> snd (f x) \<and> fst (f x) = fst (f w)" using assms by auto
next
  assume r: "(\<exists>n. \<forall>v\<in>S. f v = (n, True)) \<and> snd (f x) \<and> fst (f x) = fst (f w)"
  then obtain n where n: "\<forall>v\<in>S. f v = (n, True)" by blast
  with r assms have "f x = (n, True)" by (cases "f x") auto
  with n show "\<exists>n. \<forall>v\<in>insert x S. f v = (n, True)" by auto
qed

lemma lengths_agree_set:
  "lengths_agree hs \<longleftrightarrow> (\<exists>n. \<forall>v\<in>{v. (str ''content-length'', v) \<in> set hs}. parseUint v = (n, True))"
  by (simp add: lengths_agree_def del: str_simps)

lemma fields_wf_snoc: "fields_wf allow (hs @ [h]) \<longleftrightarrow> fields_wf allow hs \<and> field_ok allow hs h"
proof -
  obtain n v where h: "h = (n, v)" by (cases h)
  have drop: "list_all (\<lambda>h. \<not> is_pseudo h) (dropWhile is_pseudo (hs @ [h]))
    \<longleftrightarrow> list_all (\<lambda>h. \<not> is_pseudo h) (dropWhile is_pseudo hs) \<and> (is_pseudo h \<longrightarrow> \<not> list_ex (\<lambda>h. \<not> is_pseudo h) hs)"
    by (induction hs) auto
  have fld: "is_pseudo h \<Longrightarrow> has_field n hs \<longleftrightarrow> n \<in> fst ` set (filter is_pseudo hs)"
    by (force simp: has_field_def is_pseudo_def h image_iff)
  have len: "lengths_agree (hs @ [h]) \<longleftrightarrow> lengths_agree hs \<and> (n = str ''content-length'' \<longrightarrow> snd (parseUint v)
      \<and> (has_field (str ''content-length'') hs \<longrightarrow> fst (parseUint v) = fst (parseUint (value_of (str ''content-length'') hs))))"
  proof (cases "n = str ''content-length'' \<and> has_field (str ''content-length'') hs")
    case True
    then obtain w where w: "map_of hs (str ''content-length'') = Some w" "(str ''content-length'', w) \<in> set hs"
      by (metis has_field_def map_of_SomeD map_of_eq_None_iff not_None_eq)
    have "{v. (str ''content-length'', v) \<in> set (hs @ [h])} = insert v {v. (str ''content-length'', v) \<in> set hs}"
      using True by (auto simp: h simp del: str_simps)
    then show ?thesis using True w agree_insert [of w "{v. (str ''content-length'', v) \<in> set hs}" v parseUint]
      unfolding lengths_agree_set by (simp add: value_of_def del: str_simps)
  next
    case False
    show ?thesis
    proof (cases "n = str ''content-length''")
      case True
      then have "{v. (str ''content-length'', v) \<in> set hs} = {}" using False by (force simp: has_field_def simp del: str_simps)
      then show ?thesis using True False unfolding lengths_agree_set by (simp add: h prod_eq_iff del: str_simps)
    next
      case f: False
      then have "{v. (str ''content-length'', v) \<in> set (hs @ [h])} = {v. (str ''content-length'', v) \<in> set hs}" by (auto simp: h simp del: str_simps)
      then show ?thesis using f unfolding lengths_agree_set by (simp del: str_simps)
    qed
  qed
  have not_cl: "is_pseudo h \<Longrightarrow> n \<noteq> str ''content-length''" using pseudo_names(6) [of v] by (auto simp: h)
  show ?thesis unfolding fields_wf_def drop len field_ok_def using fld not_cl by (cases "is_pseudo h") (auto simp: h simp del: str_simps)
qed

lemma observeAll_iff:
  "if fields_wf allow hs then observeAll (zeroMeta\<lparr>allowProtocol := allow\<rparr>) hs = (meta_of allow hs, None)
   else snd (observeAll (zeroMeta\<lparr>allowProtocol := allow\<rparr>) hs) = Some ErrH2BadHeader"
proof (induction hs rule: rev_induct)
  case Nil
  have "EqualFoldASCII [] (str ''websocket'') = False" by (simp add: EqualFoldASCII_iff)
  then show ?case
    by (simp add: fields_wf_def lengths_agree_def zeroMeta_def meta_of_def value_of_def has_field_def mask_of_def)
next
  case (snoc h hs)
  obtain n v where h: "h = (n, v)" by (cases h)
  have count: "(meta_of allow (hs @ [(n, v)]))\<lparr>headerCount := Suc (length hs)\<rparr> = meta_of allow (hs @ [(n, v)])" by (simp add: meta_of_def)
  show ?case using snoc observeHeader_step [of allow hs n v] count
    by (auto simp: observeAll_snoc fields_wf_snoc h split: prod.splits option.splits if_splits)
qed

section \<open>No field can smuggle a line break\<close>

definition plain_text :: "gostring \<Rightarrow> bool" where
  "plain_text s \<longleftrightarrow> list_all (\<lambda>c. c \<noteq> 0 \<and> c \<noteq> b8 CHR 0x0D \<and> c \<noteq> b8 CHR 0x0A) s"

lemma plain_value: "isValidH2FieldValue v \<Longrightarrow> plain_text v"
  using containsLineBreak_iff [of lineBreakCRLFNUL v]
  by (auto simp: isValidH2FieldValue_def plain_text_def lineBreakCRLFNUL_def swarHigh_def list_all_iff list_ex_iff split: if_splits)

lemma plain_path: "isValidH2Path v \<Longrightarrow> plain_text v"
  by (auto simp: isValidH2Path_iff plain_text_def list_all_iff word_less_nat_alt)

lemma plain_method: "v = [] \<or> isH2Method v \<Longrightarrow> plain_text v"
  by (auto simp: isH2Method_def isH1Token_iff plain_text_def list_all_iff h1TokenChar_def word_le_nat_alt)

lemma fieldNameLoop_all: "fieldNameLoop s \<longleftrightarrow> list_all h2FieldNameValid s"
  by (induction s) auto

lemma plain_name: "isValidH2FieldName n \<Longrightarrow> plain_text n"
  by (cases n) (auto simp: isValidH2FieldName_def fieldNameLoop_all plain_text_def h2FieldNameValid_def list_all_iff word_le_nat_alt split: if_splits)

lemma fields_plain:
  assumes "fields_wf allow hs" and "(n, v) \<in> set hs"
  shows "plain_text n \<and> plain_text v"
proof
  show "plain_text n" using assms by (intro plain_name) (auto simp: fields_wf_def list_all_iff)
  show "plain_text v"
  proof (cases "is_pseudo (n, v)")
    case True
    then have "pseudo_ok allow (n, v)" using assms by (auto simp: fields_wf_def list_all_iff)
    then show ?thesis using plain_value plain_path plain_method unfolding pseudo_ok_def by blast
  next
    case False
    then have "regular_ok (n, v)" using assms by (auto simp: fields_wf_def list_all_iff)
    then show ?thesis using plain_value by (auto simp: regular_ok_def)
  qed
qed

end
