(* ===== verification/Hpack_Decode.thy ===== *)
theory Hpack_Decode
  imports Hpack_Int Hpack_Huffman Hpack_Meta
begin

text \<open>
  The HPACK decoder of \<open>core/hpack.go\<close>: string literals with the cache of Huffman decodings
  (\<open>decodeString\<close>), the four kinds of field representation, and the decoding loops \<open>DecodeInto\<close>
  (trailers) and \<open>DecodeIntoRequest\<close> (requests).  The hash function of the cache comes from another
  package and is an argument; nothing is assumed of it.  A slice \<open>data[pos:]\<close> is the rest of the list.
  Every operation returns the decoder, also on an error.

  The decoder is compared with a reference decoder that has no ring, no cache and no memo: it works
  on the list of dynamic entries and the current table size only.
\<close>

section \<open>Model\<close>

record hpackHuffmanDecodeCacheEntry =
  ce_used :: bool
  ce_hash :: u64
  ce_size :: u32
  ce_value :: gostring
  ce_heap :: "byte list"
  ce_inline :: "byte list"

definition hpackHuffmanDecodeCacheSize :: nat where "hpackHuffmanDecodeCacheSize = 16"
definition hpackHuffmanDecodeInlineMax :: nat where "hpackHuffmanDecodeInlineMax = 64"
definition hpackHuffmanDecodeCacheMaxRaw :: nat where "hpackHuffmanDecodeCacheMaxRaw = 256"

definition emptyCacheEntry :: hpackHuffmanDecodeCacheEntry where
  "emptyCacheEntry = \<lparr>ce_used = False, ce_hash = 0, ce_size = 0, ce_value = [], ce_heap = [],
     ce_inline = replicate hpackHuffmanDecodeInlineMax 0\<rparr>"

text \<open>The method \<open>match\<close>.\<close>

definition cacheMatch :: "hpackHuffmanDecodeCacheEntry \<Rightarrow> u64 \<Rightarrow> byte list \<Rightarrow> bool" where
  "cacheMatch e hash data =
     (if \<not> ce_used e \<or> ce_hash e \<noteq> hash \<or> unat (ce_size e) \<noteq> length data then False
      else if length data \<le> length (ce_inline e) then list_all (\<lambda>i. ce_inline e ! i = data ! i) [0..<length data]
      else if length (ce_heap e) < length data then False
      else list_all (\<lambda>i. ce_heap e ! i = data ! i) [0..<length data])"

text \<open>The method \<open>store\<close>.\<close>

definition cacheStore :: "hpackHuffmanDecodeCacheEntry \<Rightarrow> u64 \<Rightarrow> byte list \<Rightarrow> gostring \<Rightarrow> hpackHuffmanDecodeCacheEntry" where
  "cacheStore e hash data v =
     (let e = e\<lparr>ce_used := True, ce_hash := hash, ce_size := of_nat (length data), ce_value := v\<rparr> in
      if length data \<le> length (ce_inline e)
      then e\<lparr>ce_inline := data @ drop (length data) (ce_inline e), ce_heap := []\<rparr>
      else e\<lparr>ce_heap := data\<rparr>)"

record HpackDecoder = hpackDyn +
  huffmanCache :: "hpackHuffmanDecodeCacheEntry list"
  huffmanCacheNext :: byte
  memoBlock :: "byte list"
  memoHeaders :: "header list"
  memoMeta :: hpackRequestMeta
  memoRoot :: bool
  allowExtendedConnect :: bool
  maxHeaderListSize :: int

definition H2MaxHeaderListSize :: int where "H2MaxHeaderListSize = 8192"
definition H2HeaderTableSize :: u32 where "H2HeaderTableSize = 4096"

definition newHpackDecoder :: "u32 \<Rightarrow> HpackDecoder" where
  "newHpackDecoder tableSize =
     hpackDyn.extend (newHpackDyn tableSize)
       \<lparr>huffmanCache = replicate hpackHuffmanDecodeCacheSize emptyCacheEntry, huffmanCacheNext = 0, memoBlock = [], memoHeaders = [],
        memoMeta = zeroMeta, memoRoot = False, allowExtendedConnect = False, maxHeaderListSize = H2MaxHeaderListSize\<rparr>"

definition NewHpackDecoder :: HpackDecoder where
  "NewHpackDecoder = newHpackDecoder H2HeaderTableSize"

definition HpackDecodeString :: "byte list \<Rightarrow> gostring \<times> nat" where
  "HpackDecodeString data =
     (if length data = 0 then ([], 0)
      else
        let huffman = (data ! 0 AND 0x80 \<noteq> 0); (sLen, n) = HpackDecodeInt data 7 in
        if unat sLen > length data \<or> n + unat sLen > length data then ([], 0)
        else
          let raw = take (unat sLen) (drop n data) in
          if huffman then
            (case hpackHuffmanDecode raw of None \<Rightarrow> ([], 0) | Some decoded \<Rightarrow> (decoded, n + unat sLen))
          else (raw, n + unat sLen))"

definition decodeString :: "(byte list \<Rightarrow> u64) \<Rightarrow> HpackDecoder \<Rightarrow> byte list \<Rightarrow> HpackDecoder \<times> gostring \<times> nat" where
  "decodeString hpackHashBytes d data =
     (if length data = 0 then (d, [], 0)
      else
        let huffman = (data ! 0 AND 0x80 \<noteq> 0); (sLen, n) = HpackDecodeInt data 7 in
        if unat sLen > length data \<or> n + unat sLen > length data then (d, [], 0)
        else
          let raw = take (unat sLen) (drop n data) in
          if \<not> huffman then (d, raw, n + unat sLen)
          else
            let hash = hpackHashBytes raw in
            (case find (\<lambda>e. cacheMatch e hash raw) (huffmanCache d) of
               Some e \<Rightarrow> (d, ce_value e, n + unat sLen)
             | None \<Rightarrow>
                 (case hpackHuffmanDecode raw of
                    None \<Rightarrow> (d, [], 0)
                  | Some decoded \<Rightarrow>
                      (if length raw \<le> hpackHuffmanDecodeCacheMaxRaw then
                         let slot = unat (huffmanCacheNext d) mod length (huffmanCache d) in
                         (d\<lparr>huffmanCacheNext := huffmanCacheNext d + 1,
                            huffmanCache := (huffmanCache d)[slot := cacheStore (huffmanCache d ! slot) hash raw decoded]\<rparr>,
                          decoded, n + unat sLen)
                       else (d, decoded, n + unat sLen)))))"

text \<open>
  A literal field with or without indexing: the name by index or as a string, then the value.  The
  result \<open>None\<close> is \<open>ErrH2BadHeader\<close>.  The two branches of each decoding loop that use it differ in the
  width of the prefix only.
\<close>

definition decodeLiteral :: "(byte list \<Rightarrow> u64) \<Rightarrow> nat \<Rightarrow> HpackDecoder \<Rightarrow> byte list \<Rightarrow> HpackDecoder \<times> (gostring \<times> gostring \<times> byte list) option" where
  "decodeLiteral hash prefixBits d rest =
     (let (idx, n) = HpackDecodeInt rest prefixBits in
      if n = 0 then (d, None)
      else
        let rest = drop n rest;
            (d, name, ok, rest) =
              (if idx > 0 then let (name, ok) = lookupName d idx in (d, name, ok, rest)
               else let (d, name, n) = decodeString hash d rest in (d, name, n > 0, drop n rest))
        in if \<not> ok then (d, None)
           else
             let (d, v, n) = decodeString hash d rest in
             if n = 0 then (d, None) else (d, Some (name, v, drop n rest)))"

datatype hpackField = Field gostring gostring bool | SizeUpdate

text \<open>
  One representation at the start of \<open>rest\<close>, which is not empty; \<open>after\<close> tells that the block already
  had a field.  The flag of a field tells that it is to be added to the dynamic table.
\<close>

definition readField :: "(byte list \<Rightarrow> u64) \<Rightarrow> bool \<Rightarrow> HpackDecoder \<Rightarrow> byte list \<Rightarrow> HpackDecoder \<times> (hpackError + hpackField \<times> byte list)" where
  "readField hash after d rest =
     (let b = rest ! 0 in
      if b AND 0x80 \<noteq> 0 then
        let (idx, n) = HpackDecodeInt rest 7 in
        if n = 0 then (d, Inl ErrH2BadHeader)
        else
          let (d, name, v, ok) = lookupIndex d idx in
          if \<not> ok then (d, Inl ErrH2BadHeader) else (d, Inr (Field name v False, drop n rest))
      else if b AND 0x40 \<noteq> 0 then
        (case decodeLiteral hash 6 d rest of
           (d, None) \<Rightarrow> (d, Inl ErrH2BadHeader)
         | (d, Some (name, v, rest)) \<Rightarrow> (d, Inr (Field name v True, rest)))
      else if b AND 0x20 \<noteq> 0 then
        (if after then (d, Inl ErrHpackSizeUpdateAfterField)
         else
           let (maxSize, n) = HpackDecodeInt rest 5 in
           if n = 0 then (d, Inl ErrH2BadHeader)
           else if uint maxSize > protocolMaxSize d then (d, Inl ErrHpackTableSizeExceeded)
           else (setMaxSize d (uint maxSize), Inr (SizeUpdate, drop n rest)))
      else
        (case decodeLiteral hash 4 d rest of
           (d, None) \<Rightarrow> (d, Inl ErrH2BadHeader)
         | (d, Some (name, v, rest)) \<Rightarrow> (d, Inr (Field name v False, rest))))"

lemma decodeInt_empty [simp]: "HpackDecodeInt [] N = (0, 0)"
  by (simp add: HpackDecodeInt_def)

lemma decodeString_empty [simp]: "decodeString hash d [] = (d, [], 0)"
  by (simp add: decodeString_def)

lemma decodeLiteral_shorter: "decodeLiteral hash N d rest = (d', Some (name, v, rest')) \<Longrightarrow> length rest' < length rest"
  by (cases "rest = []") (auto simp: decodeLiteral_def Let_def split: prod.splits if_splits)

lemma readField_shorter: "readField hash after d rest = (d', Inr (f, rest')) \<Longrightarrow> length rest' < length rest"
  by (cases "rest = []")
     (auto simp: readField_def Let_def dest: decodeLiteral_shorter split: prod.splits if_splits option.splits,
      (auto simp: decodeLiteral_def Let_def split: prod.splits if_splits)?)

function decodeIntoLoop :: "(byte list \<Rightarrow> u64) \<Rightarrow> HpackDecoder \<Rightarrow> header list \<Rightarrow> byte list \<Rightarrow> HpackDecoder \<times> (hpackError + header list)" where
  "decodeIntoLoop hash d headers rest =
     (if rest = [] then (d, Inr headers)
      else
        (case readField hash (headers \<noteq> []) d rest of
           (d, Inl err) \<Rightarrow> (d, Inl err)
         | (d, Inr (SizeUpdate, rest)) \<Rightarrow> decodeIntoLoop hash d headers rest
         | (d, Inr (Field name v indexed, rest)) \<Rightarrow>
             let headers = headers @ [(name, v)] in
             if length headers > 128 then (d, Inl ErrTooManyHeaders)
             else decodeIntoLoop hash (if indexed then addEntry d name v else d) headers rest))"
  by pat_completeness auto
termination
  by (relation "measure (\<lambda>(_, _, _, rest). length rest)") (auto dest: readField_shorter [OF sym])

declare decodeIntoLoop.simps [simp del]

definition DecodeInto :: "(byte list \<Rightarrow> u64) \<Rightarrow> HpackDecoder \<Rightarrow> byte list \<Rightarrow> HpackDecoder \<times> (hpackError + header list)" where
  "DecodeInto hash d data = decodeIntoLoop hash d [] data"

function decodeRequestLoop :: "(byte list \<Rightarrow> u64) \<Rightarrow> HpackDecoder \<Rightarrow> hpackRequestMeta \<Rightarrow> header list \<Rightarrow> byte list
    \<Rightarrow> HpackDecoder \<times> hpackRequestMeta \<times> (hpackError + header list)" where
  "decodeRequestLoop hash d meta headers rest =
     (if rest = [] then
        (case validate meta of Some err \<Rightarrow> (d, meta, Inl err) | None \<Rightarrow> (d, meta, Inr headers))
      else
        (case readField hash (headerCount meta > 0) d rest of
           (d, Inl err) \<Rightarrow> (d, meta, Inl err)
         | (d, Inr (SizeUpdate, rest)) \<Rightarrow>
             if length headers > 128 then (d, meta, Inl ErrTooManyHeaders) else decodeRequestLoop hash d meta headers rest
         | (d, Inr (Field name v indexed, rest)) \<Rightarrow>
             (case observeHeader meta name v of
                (meta, Some err) \<Rightarrow> (d, meta, Inl err)
              | (meta, None) \<Rightarrow>
                  let headers = headers @ [(name, v)];
                      meta = meta\<lparr>headerCount := headerCount meta + 1\<rparr>;
                      d = (if indexed then addEntry d name v else d)
                  in if length headers > 128 then (d, meta, Inl ErrTooManyHeaders)
                     else decodeRequestLoop hash d meta headers rest)))"
  by pat_completeness auto
termination
  by (relation "measure (\<lambda>(_, _, _, _, rest). length rest)") (auto dest: readField_shorter [OF sym])

declare decodeRequestLoop.simps [simp del]

text \<open>The shortcut for \<open>GET\<close> with a literal path over https; \<open>None\<close> means that it does not apply.\<close>

definition decodeSimpleGetPathHTTPSRequest ::
  "(byte list \<Rightarrow> u64) \<Rightarrow> HpackDecoder \<Rightarrow> byte list \<Rightarrow> HpackDecoder \<times> (hpackRequestMeta \<times> (hpackError + header list)) option" where
  "decodeSimpleGetPathHTTPSRequest hash d data =
     (if length data < 4 \<or> data ! 0 \<noteq> 0x82 \<or> data ! 1 \<noteq> 0x04 \<or> data ! (length data - 1) \<noteq> 0x87 then (d, None)
      else
        let (d, path, n) = decodeString hash d (drop 2 data) in
        if n = 0 \<or> 2 + n + 1 \<noteq> length data then (d, None)
        else if \<not> isValidH2Path path then (d, Some (zeroMeta, Inl ErrH2BadHeader))
        else
          let rawPath = path;
              path = sanitizeRequestPath path;
              query = snd (splitPathQuery rawPath);
              meta = zeroMeta\<lparr>m_method := str ''GET'', m_path := path, m_rawPath := rawPath, m_query := query,
                       m_scheme := str ''https'', headerCount := 3\<rparr>
          in (case validate meta of
                Some err \<Rightarrow> (d, Some (meta, Inl err))
              | None \<Rightarrow> (d, Some (meta, Inr [(str '':method'', str ''GET''), (str '':path'', path), (str '':scheme'', str ''https'')]))))"

definition DecodeIntoRequest ::
  "(byte list \<Rightarrow> u64) \<Rightarrow> HpackDecoder \<Rightarrow> byte list \<Rightarrow> HpackDecoder \<times> hpackRequestMeta \<times> (hpackError + header list)" where
  "DecodeIntoRequest hash d data =
     (let meta = zeroMeta\<lparr>allowProtocol := allowExtendedConnect d\<rparr> in
      case decodeSimpleGetPathHTTPSRequest hash d data of
        (d, Some (meta, res)) \<Rightarrow> (d, meta, res)
      | (d, None) \<Rightarrow> decodeRequestLoop hash d meta [] data)"

definition hpackStaticFieldMaxSize :: int where
  "hpackStaticFieldMaxSize = foldl (\<lambda>largest f. max largest (int (length (fst f)) + int (length (snd f)))) 0 HpackStaticTable + hpackEntryOverhead"

section \<open>The reference decoder\<close>

text \<open>A table is its size limit and its entries, newest first.\<close>

type_synonym table = "int \<times> header list"

definition ref_literal :: "nat \<Rightarrow> table \<Rightarrow> byte list \<Rightarrow> (gostring \<times> gostring \<times> byte list) option" where
  "ref_literal prefixBits t rest =
     (let (idx, n) = HpackDecodeInt rest prefixBits in
      if n = 0 then None
      else
        let rest = drop n rest;
            found = (if idx > 0 then map_option (\<lambda>e. (fst e, rest)) (table_lookup (snd t) (unat idx))
                     else let (name, n) = HpackDecodeString rest in if n = 0 then None else Some (name, drop n rest))
        in case found of
             None \<Rightarrow> None
           | Some (name, rest) \<Rightarrow> let (v, n) = HpackDecodeString rest in if n = 0 then None else Some (name, v, drop n rest))"

definition ref_field :: "int \<Rightarrow> bool \<Rightarrow> table \<Rightarrow> byte list \<Rightarrow> hpackError + table \<times> hpackField \<times> byte list" where
  "ref_field protocolMax after t rest =
     (let b = rest ! 0 in
      if b AND 0x80 \<noteq> 0 then
        let (idx, n) = HpackDecodeInt rest 7 in
        if n = 0 then Inl ErrH2BadHeader
        else (case table_lookup (snd t) (unat idx) of
                None \<Rightarrow> Inl ErrH2BadHeader
              | Some (name, v) \<Rightarrow> Inr (t, Field name v False, drop n rest))
      else if b AND 0x40 \<noteq> 0 then
        (case ref_literal 6 t rest of None \<Rightarrow> Inl ErrH2BadHeader | Some (name, v, rest) \<Rightarrow> Inr (t, Field name v True, rest))
      else if b AND 0x20 \<noteq> 0 then
        (if after then Inl ErrHpackSizeUpdateAfterField
         else
           let (maxSize, n) = HpackDecodeInt rest 5 in
           if n = 0 then Inl ErrH2BadHeader
           else if uint maxSize > protocolMax then Inl ErrHpackTableSizeExceeded
           else Inr ((uint maxSize, take_fit (uint maxSize) (snd t)), SizeUpdate, drop n rest))
      else
        (case ref_literal 4 t rest of None \<Rightarrow> Inl ErrH2BadHeader | Some (name, v, rest) \<Rightarrow> Inr (t, Field name v False, rest)))"

definition ref_insert :: "bool \<Rightarrow> table \<Rightarrow> header \<Rightarrow> table" where
  "ref_insert indexed t h = (if indexed then (fst t, table_add (fst t) (snd t) h) else t)"

text \<open>The fields of a block and the table after it; the size updates come before the first field.\<close>

lemma ref_literal_shorter: "ref_literal N t rest = Some (name, v, rest') \<Longrightarrow> length rest' < length rest"
  by (cases "rest = []") (auto simp: ref_literal_def Let_def split: prod.splits if_splits option.splits)

lemma ref_field_shorter: "ref_field p after t rest = Inr (t', f, rest') \<Longrightarrow> length rest' < length rest"
  by (cases "rest = []")
     (auto simp: ref_field_def Let_def dest: ref_literal_shorter split: prod.splits if_splits option.splits,
      (auto simp: ref_literal_def Let_def split: prod.splits if_splits)?)

function ref_block :: "int \<Rightarrow> table \<Rightarrow> header list \<Rightarrow> byte list \<Rightarrow> hpackError + table \<times> header list" where
  "ref_block p t headers rest =
     (if rest = [] then Inr (t, headers)
      else
        (case ref_field p (headers \<noteq> []) t rest of
           Inl err \<Rightarrow> Inl err
         | Inr (t, SizeUpdate, rest) \<Rightarrow> ref_block p t headers rest
         | Inr (t, Field name v indexed, rest) \<Rightarrow>
             if length headers \<ge> 128 then Inl ErrTooManyHeaders
             else ref_block p (ref_insert indexed t (name, v)) (headers @ [(name, v)]) rest))"
  by pat_completeness auto
termination
  by (relation "measure (\<lambda>(_, _, _, rest). length rest)") (auto dest: ref_field_shorter)

declare ref_block.simps [simp del]

section \<open>The cache is transparent\<close>

definition stored :: "hpackHuffmanDecodeCacheEntry \<Rightarrow> byte list" where
  "stored e = (if unat (ce_size e) \<le> length (ce_inline e) then take (unat (ce_size e)) (ce_inline e) else take (unat (ce_size e)) (ce_heap e))"

definition cache_entry_ok :: "hpackHuffmanDecodeCacheEntry \<Rightarrow> bool" where
  "cache_entry_ok e \<longleftrightarrow> length (ce_inline e) = 64 \<and> (ce_used e \<longrightarrow> hpackHuffmanDecode (stored e) = Some (ce_value e))"

definition cache_ok :: "HpackDecoder \<Rightarrow> bool" where
  "cache_ok d \<longleftrightarrow> length (huffmanCache d) = 16 \<and> list_all cache_entry_ok (huffmanCache d)"

lemma same_bytes: "list_all (\<lambda>i. xs ! i = ys ! i) [0..<length ys] \<Longrightarrow> length ys \<le> length xs \<Longrightarrow> take (length ys) xs = ys"
  by (intro nth_equalityI) (auto simp: list_all_iff)

lemma cacheMatch_stored: "cacheMatch e h data \<Longrightarrow> ce_used e \<and> stored e = data"
  by (auto simp: cacheMatch_def stored_def same_bytes split: if_splits)

lemma cacheStore_ok:
  assumes "length (ce_inline e) = 64" and "length data < 2 ^ 32" and "hpackHuffmanDecode data = Some v"
  shows "cache_entry_ok (cacheStore e h data v)"
proof -
  have "unat (of_nat (length data) :: u32) = length data" using assms(2) by (simp add: unat_of_nat)
  with assms show ?thesis by (auto simp: cache_entry_ok_def cacheStore_def stored_def Let_def)
qed

text \<open>The decoders that differ in the cache only.\<close>

definition same_but_cache :: "HpackDecoder \<Rightarrow> HpackDecoder \<Rightarrow> bool" where
  "same_but_cache d d' \<longleftrightarrow> (\<exists>c k. d' = d\<lparr>huffmanCacheNext := k, huffmanCache := c\<rparr>)"

lemma same_but_cache_refl [simp]: "same_but_cache d d"
  by (auto simp: same_but_cache_def intro!: exI [of _ "huffmanCache d"] exI [of _ "huffmanCacheNext d"])

lemma same_but_cache_trans: "same_but_cache d d' \<Longrightarrow> same_but_cache d' d'' \<Longrightarrow> same_but_cache d d''"
  unfolding same_but_cache_def by clarsimp blast

lemma decodeString_ref:
  assumes "cache_ok d"
  shows "\<exists>d'. decodeString hash d data = (d', HpackDecodeString data) \<and> cache_ok d' \<and> same_but_cache d d'"
proof -
  obtain sLen n where sn: "HpackDecodeInt data 7 = (sLen, n)" by (cases "HpackDecodeInt data 7")
  define raw where "raw = take (unat sLen) (drop n data)"
  consider (bad) "data = [] \<or> unat sLen > length data \<or> n + unat sLen > length data"
    | (plain) "data \<noteq> []" "\<not> unat sLen > length data" "\<not> n + unat sLen > length data" "data ! 0 AND 0x80 = 0"
    | (huff) "data \<noteq> []" "\<not> unat sLen > length data" "\<not> n + unat sLen > length data" "data ! 0 AND 0x80 \<noteq> 0" by blast
  then show ?thesis
  proof cases
    case bad
    then show ?thesis using assms sn by (auto simp: decodeString_def HpackDecodeString_def Let_def)
  next
    case plain
    then show ?thesis using assms sn by (auto simp: decodeString_def HpackDecodeString_def Let_def)
  next
    case huff
    show ?thesis
    proof (cases "find (\<lambda>e. cacheMatch e (hash raw) raw) (huffmanCache d)")
      case (Some e)
      then have "e \<in> set (huffmanCache d)" "cacheMatch e (hash raw) raw" by (auto simp: find_Some_iff)
      then have "hpackHuffmanDecode raw = Some (ce_value e)"
        using assms cacheMatch_stored [of e "hash raw" raw] by (auto simp: cache_ok_def list_all_iff cache_entry_ok_def)
      with Some huff assms sn show ?thesis
        by (auto simp: decodeString_def HpackDecodeString_def Let_def simp flip: raw_def)
    next
      case None
      show ?thesis
      proof (cases "hpackHuffmanDecode raw")
        case none: None
        with None huff assms sn show ?thesis by (auto simp: decodeString_def HpackDecodeString_def Let_def simp flip: raw_def)
      next
        case some: (Some v)
        let ?slot = "unat (huffmanCacheNext d) mod length (huffmanCache d)"
        let ?d = "d\<lparr>huffmanCacheNext := huffmanCacheNext d + 1,
            huffmanCache := (huffmanCache d)[?slot := cacheStore (huffmanCache d ! ?slot) (hash raw) raw v]\<rparr>"
        have "cache_ok ?d" if "length raw \<le> 256"
        proof -
          have "?slot < length (huffmanCache d)" using assms by (simp add: cache_ok_def)
          then have "cache_entry_ok (huffmanCache d ! ?slot)" using assms by (simp add: cache_ok_def list_all_length)
          then have "cache_entry_ok (cacheStore (huffmanCache d ! ?slot) (hash raw) raw v)"
            using that some by (intro cacheStore_ok) (simp_all add: cache_entry_ok_def)
          then show ?thesis using assms by (auto simp: cache_ok_def list_all_length nth_list_update)
        qed
        moreover have "same_but_cache d ?d" by (auto simp: same_but_cache_def)
        ultimately show ?thesis using None huff assms sn some
          by (auto simp: decodeString_def HpackDecodeString_def Let_def hpackHuffmanDecodeCacheMaxRaw_def simp flip: raw_def)
      qed
    qed
  qed
qed

section \<open>The decoder refines the reference decoder\<close>

definition abs_table :: "HpackDecoder \<Rightarrow> table" where
  "abs_table d = (maxTableSize d, dyn_entries d)"

definition names_ok :: "HpackDecoder \<Rightarrow> bool" where
  "names_ok d \<longleftrightarrow> list_all (\<lambda>e. length (fst e) \<le> dynNameMax d) (dyn_entries d)"

definition dec_inv :: "HpackDecoder \<Rightarrow> bool" where
  "dec_inv d \<longleftrightarrow> dyn_inv d \<and> cache_ok d \<and> names_ok d \<and> 0 \<le> maxTableSize d"

text \<open>
  From one decoder to a later one: the settings and the memo stay, the counters grow, and the generation
  counts the changes of the table, of which there were \<open>k\<close>.
\<close>

definition advance :: "HpackDecoder \<Rightarrow> nat \<Rightarrow> HpackDecoder \<Rightarrow> bool" where
  "advance d k d' \<longleftrightarrow> protocolMaxSize d' = protocolMaxSize d \<and> allowExtendedConnect d' = allowExtendedConnect d
     \<and> maxHeaderListSize d' = maxHeaderListSize d \<and> memoBlock d' = memoBlock d \<and> memoHeaders d' = memoHeaders d
     \<and> memoMeta d' = memoMeta d \<and> memoRoot d' = memoRoot d
     \<and> dynNameMax d \<le> dynNameMax d' \<and> dynRefBytes d \<le> dynRefBytes d' \<and> tableGen d' = tableGen d + of_nat k
     \<and> (if k = 0 then abs_table d' = abs_table d \<and> memoValid d' = memoValid d else \<not> memoValid d')"

lemma advance_refl [simp]: "advance d 0 d"
  by (simp add: advance_def)

lemma advance_trans: "advance d k d' \<Longrightarrow> advance d' j d'' \<Longrightarrow> advance d (k + j) d''"
  by (auto simp: advance_def split: if_splits)

lemma dyn_cache_update [simp]:
  "dynGet (d\<lparr>huffmanCacheNext := k, huffmanCache := c\<rparr>) = dynGet d" "dynCapacity (d\<lparr>huffmanCacheNext := k, huffmanCache := c\<rparr>) = dynCapacity d"
  "dyn_entries (d\<lparr>huffmanCacheNext := k, huffmanCache := c\<rparr>) = dyn_entries d"
  by (simp_all add: dynGet_def dynCapacity_def dyn_entries_def fun_eq_iff)

lemma same_but_cache_advance:
  assumes "same_but_cache d d'" and "cache_ok d'" and "dec_inv d"
  shows "dec_inv d'" and "advance d 0 d'" and "abs_table d' = abs_table d" and "dynNameMax d' = dynNameMax d" and "dynRefBytes d' = dynRefBytes d"
proof -
  obtain c k where d': "d' = d\<lparr>huffmanCacheNext := k, huffmanCache := c\<rparr>" using assms(1) by (auto simp: same_but_cache_def)
  show "dec_inv d'" using assms(2,3) by (simp add: d' dec_inv_def dyn_inv_def ring_ok_def names_ok_def)
  show t: "abs_table d' = abs_table d" by (simp add: abs_table_def d')
  show "advance d 0 d'" using t by (simp add: advance_def) (simp add: d')
  show "dynNameMax d' = dynNameMax d" "dynRefBytes d' = dynRefBytes d" by (simp_all add: d')
qed

lemma lookup_empty_name: "table_lookup es i = Some e \<Longrightarrow> i < 62 \<and> e \<in> set HpackStaticTable \<or> 62 \<le> i \<and> e \<in> set es"
  by (auto simp: table_lookup_def split: if_splits)

lemma decodeLiteral_ref:
  assumes "dec_inv d"
  shows "\<exists>d'. decodeLiteral hash N d rest = (d', ref_literal N (abs_table d) rest) \<and> cache_ok d' \<and> same_but_cache d d'"
proof -
  have d: "dyn_inv d" "cache_ok d" using assms by (simp_all add: dec_inv_def)
  obtain idx n where idx: "HpackDecodeInt rest N = (idx, n)" by (cases "HpackDecodeInt rest N")
  have last: "\<exists>d'. (let (d, v, m) = decodeString hash d1 r in if m = 0 then (d, None) else (d, Some (name, v, drop m r)))
      = (d', (let (v, m) = HpackDecodeString r in if m = 0 then None else Some (name, v, drop m r))) \<and> cache_ok d' \<and> same_but_cache d d'"
    if "cache_ok d1" "same_but_cache d d1" for d1 r name
    using decodeString_ref [OF that(1), of hash r] same_but_cache_trans [OF that(2)] by (auto split: prod.splits)
  show ?thesis
  proof (cases "n = 0")
    case True
    then show ?thesis using d idx by (simp add: decodeLiteral_def ref_literal_def)
  next
    case n: False
    show ?thesis
    proof (cases "idx > 0")
      case True
      with n last [of d "drop n rest"] d idx show ?thesis
        by (cases "table_lookup (dyn_entries d) (unat idx)")
           (auto simp: decodeLiteral_def ref_literal_def lookupName_table [OF d(1)] abs_table_def split: prod.splits)
    next
      case False
      obtain d1 name m where s: "decodeString hash d (drop n rest) = (d1, name, m)" "HpackDecodeString (drop n rest) = (name, m)"
          "cache_ok d1" "same_but_cache d d1"
        using decodeString_ref [OF d(2), of hash "drop n rest"] by (cases "HpackDecodeString (drop n rest)") auto
      from n False s last [OF s(3,4), of "drop (m + n) rest" name] idx show ?thesis
        by (simp add: decodeLiteral_def ref_literal_def Let_def)
    qed
  qed
qed

text \<open>The sizes.\<close>

lemma foldl_max_ge: "a \<le> foldl (\<lambda>m x. max m (f x)) a xs" "x \<in> set xs \<Longrightarrow> f x \<le> foldl (\<lambda>m x. max m (f x)) a xs" for a :: int
proof -
  have le: "a \<le> foldl (\<lambda>m x. max m (f x)) a xs" for a xs
  proof (induction xs arbitrary: a)
    case (Cons y xs)
    show ?case using Cons.IH [of "max a (f y)"] by simp
  qed simp
  from this show "a \<le> foldl (\<lambda>m x. max m (f x)) a xs" .
  show "x \<in> set xs \<Longrightarrow> f x \<le> foldl (\<lambda>m x. max m (f x)) a xs"
  proof (induction xs arbitrary: a)
    case (Cons y xs)
    then show ?case using le [of "max a (f y)"] by auto
  qed simp
qed

lemma static_size: "e \<in> set HpackStaticTable \<Longrightarrow> entry_size e \<le> hpackStaticFieldMaxSize" "32 \<le> hpackStaticFieldMaxSize"
  using foldl_max_ge(2) [of e HpackStaticTable "\<lambda>f. int (length (fst f)) + int (length (snd f))" 0]
    foldl_max_ge(1) [of 0 "\<lambda>f. int (length (fst f)) + int (length (snd f))" HpackStaticTable]
  by (simp_all add: hpackStaticFieldMaxSize_def entry_size_def hpackEntryOverhead_def)

lemma five_bits: "5 * length s \<le> length (enc_bits s)"
proof (induction s)
  case (Cons c s)
  then show ?case using code_range(1) [of c] by simp
qed simp

lemma decodeString_size:
  assumes "HpackDecodeString data = (s, n)"
  shows "n \<le> length data \<and> 5 * length s \<le> 8 * n"
proof -
  have huff: "5 * length s \<le> 8 * length raw" if "hpackHuffmanDecode raw = Some s" for raw s
    using that five_bits [of s] unfolding huffman_decode_iff by (auto simp: length_hpackHuffmanAppend hpackHuffmanEncodedLen_def encodedLenLoop_sum)
  show ?thesis using assms huff by (auto simp: HpackDecodeString_def Let_def split: prod.splits if_splits option.splits) (fastforce)+
qed

lemma ref_literal_size:
  assumes "ref_literal N t rest = Some (name, v, rest')" and "list_all (\<lambda>e. length (fst e) \<le> k) (snd t)"
  shows "5 * entry_size (name, v) \<le> 8 * (int (length rest) - int (length rest')) + 5 * (hpackStaticFieldMaxSize + int k)"
proof -
  obtain idx n where idx: "HpackDecodeInt rest N = (idx, n)" by (cases "HpackDecodeInt rest N")
  have n: "n \<noteq> 0" using assms(1) idx by (auto simp: ref_literal_def split: if_splits)
  show ?thesis
  proof (cases "idx > 0")
    case True
    then obtain e m where e: "table_lookup (snd t) (unat idx) = Some e" "name = fst e"
        "HpackDecodeString (drop n rest) = (v, m)" "rest' = drop m (drop n rest)"
      using assms(1) n idx by (auto simp: ref_literal_def Let_def split: prod.splits if_splits option.splits)
    have "int (length name) + 32 \<le> hpackStaticFieldMaxSize + int k"
      using lookup_empty_name [OF e(1)] static_size(1) [of e] static_size(2) assms(2) e(2) by (auto simp: list_all_iff entry_size_def)
    moreover have "m \<le> length (drop n rest)" and v: "5 * length v \<le> 8 * m" using decodeString_size [OF e(3)] by simp_all
    then have "int (length rest') + int m \<le> int (length rest)" unfolding e(4) by simp
    ultimately show ?thesis using v by (simp add: entry_size_def)
  next
    case False
    then obtain m m' where m: "HpackDecodeString (drop n rest) = (name, m)"
        "HpackDecodeString (drop m (drop n rest)) = (v, m')" "rest' = drop m' (drop m (drop n rest))"
      using assms(1) n idx by (auto simp: ref_literal_def Let_def split: prod.splits if_splits option.splits)
    have "m \<le> length (drop n rest)" "m' \<le> length (drop m (drop n rest))" and v: "5 * length name \<le> 8 * m" "5 * length v \<le> 8 * m'"
      using decodeString_size [OF m(1)] decodeString_size [OF m(2)] by simp_all
    then have "int (length rest') + int m' + int m \<le> int (length rest)" unfolding m(3) by simp
    then show ?thesis using v static_size(2) by (simp add: entry_size_def)
  qed
qed

text \<open>What one field costs.\<close>

definition field_bound :: "HpackDecoder \<Rightarrow> HpackDecoder \<Rightarrow> nat \<Rightarrow> hpackField \<Rightarrow> bool" where
  "field_bound d d' n f \<longleftrightarrow> (case f of SizeUpdate \<Rightarrow> True
     | Field name v _ \<Rightarrow> 5 * entry_size (name, v) \<le> 8 * int n + 5 * (hpackStaticFieldMaxSize + int (dynNameMax d')) + 5 * (dynRefBytes d' - dynRefBytes d))"

definition changes :: "hpackField \<Rightarrow> nat" where
  "changes f = (case f of SizeUpdate \<Rightarrow> 1 | Field _ _ _ \<Rightarrow> 0)"

lemma readField_literal:
  assumes "dec_inv d" and "decodeLiteral hash N d rest = (d', r)"
  shows "r = ref_literal N (abs_table d) rest \<and> dec_inv d' \<and> abs_table d' = abs_table d \<and> advance d 0 d'
    \<and> (case r of None \<Rightarrow> True | Some (name, v, rest') \<Rightarrow> length rest' < length rest \<and> field_bound d d' (length rest - length rest') (Field name v b))"
proof -
  have r: "r = ref_literal N (abs_table d) rest" "cache_ok d'" "same_but_cache d d'"
    using decodeLiteral_ref [OF assms(1), of hash N rest] assms(2) by auto
  note same = same_but_cache_advance [OF r(3,2) assms(1)]
  have "list_all (\<lambda>e. length (fst e) \<le> dynNameMax d) (snd (abs_table d))" using assms(1) by (simp add: dec_inv_def names_ok_def abs_table_def)
  from ref_literal_size [OF _ this] have "field_bound d d' (length rest - length rest') (Field name v b)" if "r = Some (name, v, rest')" for name v rest'
    using that r(1) same(4,5) ref_literal_shorter [of N "abs_table d" rest name v rest'] by (fastforce simp: field_bound_def of_nat_diff)
  then show ?thesis using r(1) same ref_literal_shorter [of N "abs_table d" rest] by (auto split: option.splits)
qed

lemma more_fields:
  "hpackDyn.more d' = hpackDyn.more d \<Longrightarrow> huffmanCache d' = huffmanCache d \<and> memoBlock d' = memoBlock d \<and> memoHeaders d' = memoHeaders d
    \<and> memoMeta d' = memoMeta d \<and> memoRoot d' = memoRoot d \<and> allowExtendedConnect d' = allowExtendedConnect d
    \<and> maxHeaderListSize d' = maxHeaderListSize d" for d d' :: HpackDecoder
  by (cases d; cases d') simp

lemma take_fit_subset: "set (take_fit m es) \<subseteq> set es"
  by (induction es arbitrary: m) auto

lemma setMaxSize_inv:
  assumes "dec_inv d" and "0 \<le> m" and "m \<le> protocolMaxSize d"
  shows "dec_inv (setMaxSize d m) \<and> advance d 1 (setMaxSize d m) \<and> abs_table (setMaxSize d m) = (m, take_fit m (dyn_entries d))"
proof -
  have "ring_ok d" using assms(1) by (simp add: dec_inv_def dyn_inv_def)
  note s = setMaxSize_ok [OF this, of m]
  then have "cache_ok (setMaxSize d m)" using assms(1) more_fields [of "setMaxSize d m" d] by (simp add: dec_inv_def cache_ok_def)
  moreover have "names_ok (setMaxSize d m)"
    using assms(1) s take_fit_subset [of m "dyn_entries d"] by (auto simp: dec_inv_def names_ok_def list_all_iff)
  ultimately show ?thesis using s more_fields [of "setMaxSize d m" d] assms dyn_inv_setMaxSize [of d m]
    by (simp add: dec_inv_def advance_def abs_table_def)
qed

lemma addEntry_inv:
  assumes "dec_inv d"
  shows "dec_inv (addEntry d n v) \<and> advance d 1 (addEntry d n v)
    \<and> abs_table (addEntry d n v) = ref_insert True (abs_table d) (n, v)"
proof -
  have "ring_ok d" using assms(1) by (simp add: dec_inv_def dyn_inv_def)
  note s = addEntry_ok [OF this, of n v]
  then have "cache_ok (addEntry d n v)" using assms(1) more_fields [of "addEntry d n v" d] by (simp add: dec_inv_def cache_ok_def)
  moreover have "names_ok (addEntry d n v)"
    using assms(1) s take_fit_subset [of "maxTableSize d - entry_size (n, v)" "dyn_entries d"]
    by (auto simp: dec_inv_def names_ok_def list_all_iff table_add_def) fastforce
  ultimately show ?thesis using s more_fields [of "addEntry d n v" d] assms dyn_inv_addEntry [of d n v]
    by (simp add: dec_inv_def advance_def abs_table_def ref_insert_def)
qed

lemma readField_ref:
  assumes "dec_inv d"
  shows "case ref_field (protocolMaxSize d) after (abs_table d) rest of
      Inl err \<Rightarrow> \<exists>d'. readField hash after d rest = (d', Inl err) \<and> dec_inv d' \<and> advance d 0 d'
    | Inr (t, f, rest') \<Rightarrow> \<exists>d'. readField hash after d rest = (d', Inr (f, rest')) \<and> dec_inv d' \<and> advance d (changes f) d' \<and> abs_table d' = t
        \<and> length rest' < length rest \<and> field_bound d d' (length rest - length rest') f"
proof -
  let ?b = "rest ! 0"
  have dyn: "dyn_inv d" using assms by (simp add: dec_inv_def)
  consider (idx) "?b AND 0x80 \<noteq> 0" | (inc) "?b AND 0x80 = 0" "?b AND 0x40 \<noteq> 0" | (upd) "?b AND 0x80 = 0" "?b AND 0x40 = 0" "?b AND 0x20 \<noteq> 0"
    | (lit) "?b AND 0x80 = 0" "?b AND 0x40 = 0" "?b AND 0x20 = 0" by blast
  then show ?thesis
  proof cases
    case idx
    obtain i n where i: "HpackDecodeInt rest 7 = (i, n)" by (cases "HpackDecodeInt rest 7")
    show ?thesis
    proof (cases "table_lookup (dyn_entries d) (unat i)")
      case None
      with idx i assms show ?thesis
        by (auto simp: readField_def ref_field_def Let_def abs_table_def lookupIndex_table [OF dyn])
    next
      case (Some e)
      let ?d = "if i < 62 then d else d\<lparr>dynRefBytes := dynRefBytes d + entry_size e\<rparr>"
      have r: "dec_inv ?d" "abs_table ?d = abs_table d" "advance d 0 ?d"
        using assms entry_size_pos [of e] by (simp_all add: dec_inv_def dyn_inv_def names_ok_def cache_ok_def abs_table_def advance_def)
      have "i < 62 \<longleftrightarrow> unat i < 62" by (simp add: word_less_nat_alt)
      then have "field_bound d ?d k (Field (fst e) (snd e) False)" for k
        using lookup_empty_name [OF Some] static_size(1) [of e] static_size(2) by (auto simp: field_bound_def)
      moreover have "rest \<noteq> []" if "n \<noteq> 0" using that i by auto
      ultimately show ?thesis using idx i Some r assms
        by (cases e) (auto simp: readField_def ref_field_def Let_def abs_table_def lookupIndex_table [OF dyn] changes_def)
    qed
  next
    case inc
    then show ?thesis using readField_literal [OF assms, of hash 6 rest _ _ True]
      by (cases "decodeLiteral hash 6 d rest") (auto simp: readField_def ref_field_def Let_def changes_def split: option.splits)
  next
    case upd
    obtain i n where i: "HpackDecodeInt rest 5 = (i, n)" by (cases "HpackDecodeInt rest 5")
    have ring: "ring_ok d" using dyn by (simp add: dyn_inv_def)
    have set: "dec_inv (setMaxSize d (uint i)) \<and> advance d 1 (setMaxSize d (uint i))
        \<and> abs_table (setMaxSize d (uint i)) = (uint i, take_fit (uint i) (dyn_entries d))" if "uint i \<le> protocolMaxSize d"
      using setMaxSize_inv [OF assms _ that] by simp
    moreover have "rest \<noteq> []" if "n \<noteq> 0" using that i by auto
    ultimately show ?thesis using upd i assms
      by (cases "protocolMaxSize d < uint i") (auto simp: readField_def ref_field_def Let_def changes_def abs_table_def field_bound_def)
  next
    case lit
    then show ?thesis using readField_literal [OF assms, of hash 4 rest _ _ False]
      by (cases "decodeLiteral hash 4 d rest") (auto simp: readField_def ref_field_def Let_def changes_def split: option.splits)
  qed
qed

text \<open>One field of a loop: read it and, if it is to be indexed, insert it.\<close>

lemma readField_insert:
  assumes "dec_inv d" and "ref_field (protocolMaxSize d) after (abs_table d) rest = Inr (t, Field name v indexed, rest')"
  obtains d1 d2 k where "readField hash after d rest = (d1, Inr (Field name v indexed, rest'))"
    "d2 = (if indexed then addEntry d1 name v else d1)" "dec_inv d1" "advance d 0 d1" "dec_inv d2" "advance d k d2" "k \<le> 1"
    "abs_table d2 = ref_insert indexed t (name, v)" "length rest' < length rest"
    "5 * entry_size (name, v) \<le> 8 * (int (length rest) - int (length rest')) + 5 * (hpackStaticFieldMaxSize + int (dynNameMax d2)) + 5 * (dynRefBytes d2 - dynRefBytes d)"
proof -
  obtain d1 where d1: "readField hash after d rest = (d1, Inr (Field name v indexed, rest'))" "dec_inv d1" "advance d 0 d1" "abs_table d1 = t"
      "length rest' < length rest" "field_bound d d1 (length rest - length rest') (Field name v indexed)"
    using readField_ref [OF assms(1), of hash after rest] assms(2) by (auto simp: changes_def)
  define d2 where "d2 = (if indexed then addEntry d1 name v else d1)"
  have add: "dec_inv d2 \<and> advance d1 (if indexed then 1 else 0) d2 \<and> abs_table d2 = ref_insert indexed t (name, v)"
    using addEntry_inv [OF d1(2), of name v] d1(2,4) by (simp add: d2_def ref_insert_def)
  have "dynNameMax d1 \<le> dynNameMax d2" "dynRefBytes d1 \<le> dynRefBytes d2" using add by (auto simp: advance_def)
  then have "5 * entry_size (name, v) \<le> 8 * (int (length rest) - int (length rest')) + 5 * (hpackStaticFieldMaxSize + int (dynNameMax d2)) + 5 * (dynRefBytes d2 - dynRefBytes d)"
    using d1(5,6) by (simp add: field_bound_def of_nat_diff)
  with add d1 advance_trans [OF d1(3), of "if indexed then 1 else 0" d2] show thesis
    by (intro that [OF d1(1) d2_def]) (auto simp: d2_def split: if_splits)
qed

text \<open>
  Induction over a decoding loop with a state \<open>s\<close>, which tells by \<open>A\<close> whether the block had a field:
  the block ends, the next representation is wrong, is a size update, or is a field.
\<close>

lemma block_induct [consumes 1, case_names empty error update field]:
  fixes P :: "HpackDecoder \<Rightarrow> 's \<Rightarrow> byte list \<Rightarrow> bool"
  assumes "dec_inv d"
    and empty: "\<And>d s. dec_inv d \<Longrightarrow> P d s []"
    and error: "\<And>d s rest d' err. rest \<noteq> [] \<Longrightarrow> ref_field (protocolMaxSize d) (A s) (abs_table d) rest = Inl err
      \<Longrightarrow> readField hash (A s) d rest = (d', Inl err) \<Longrightarrow> dec_inv d' \<Longrightarrow> advance d 0 d' \<Longrightarrow> P d s rest"
    and update: "\<And>d s rest d' t r. rest \<noteq> [] \<Longrightarrow> ref_field (protocolMaxSize d) (A s) (abs_table d) rest = Inr (t, SizeUpdate, r)
      \<Longrightarrow> readField hash (A s) d rest = (d', Inr (SizeUpdate, r)) \<Longrightarrow> dec_inv d' \<Longrightarrow> advance d 1 d' \<Longrightarrow> abs_table d' = t
      \<Longrightarrow> length r < length rest \<Longrightarrow> (\<And>s. P d' s r) \<Longrightarrow> P d s rest"
    and field: "\<And>d s rest d1 d2 k t name v b r. rest \<noteq> [] \<Longrightarrow> ref_field (protocolMaxSize d) (A s) (abs_table d) rest = Inr (t, Field name v b, r)
      \<Longrightarrow> readField hash (A s) d rest = (d1, Inr (Field name v b, r)) \<Longrightarrow> d2 = (if b then addEntry d1 name v else d1)
      \<Longrightarrow> dec_inv d1 \<Longrightarrow> advance d 0 d1 \<Longrightarrow> dec_inv d2 \<Longrightarrow> advance d k d2 \<Longrightarrow> k \<le> 1
      \<Longrightarrow> abs_table d2 = ref_insert b t (name, v) \<Longrightarrow> length r < length rest
      \<Longrightarrow> 5 * entry_size (name, v) \<le> 8 * (int (length rest) - int (length r)) + 5 * (hpackStaticFieldMaxSize + int (dynNameMax d2)) + 5 * (dynRefBytes d2 - dynRefBytes d)
      \<Longrightarrow> (\<And>s. P d2 s r) \<Longrightarrow> P d s rest"
  shows "P d s rest"
  using assms(1)
proof (induction "length rest" arbitrary: d s rest rule: less_induct)
  case less
  show ?case
  proof (cases "rest = []")
    case True
    with empty less.prems show ?thesis by simp
  next
    case ne: False
    show ?thesis
    proof (cases "ref_field (protocolMaxSize d) (A s) (abs_table d) rest")
      case (Inl err)
      with error [OF ne] readField_ref [OF less.prems, of hash "A s" rest] show ?thesis by auto
    next
      case (Inr x)
      then obtain t f r where x: "ref_field (protocolMaxSize d) (A s) (abs_table d) rest = Inr (t, f, r)" by (cases x) auto
      show ?thesis
      proof (cases f)
        case SizeUpdate
        with x obtain d' where d': "readField hash (A s) d rest = (d', Inr (SizeUpdate, r))" "dec_inv d'" "advance d 1 d'" "abs_table d' = t" "length r < length rest"
          using readField_ref [OF less.prems, of hash "A s" rest] by (auto simp: changes_def)
        show ?thesis by (rule update [OF ne _ d'(1-5) less.hyps]) (use x SizeUpdate d' in auto)
      next
        case (Field name v b)
        show ?thesis
          by (rule readField_insert [OF less.prems x [unfolded Field], of hash]) (rule field [OF ne x [unfolded Field]]; (assumption | rule less.hyps))
      qed
    qed
  qed
qed

lemma DecodeInto_ref:
  assumes "dec_inv d"
  shows "\<exists>d' k. dec_inv d' \<and> advance d k d' \<and> k \<le> length rest
    \<and> (case ref_block (protocolMaxSize d) (abs_table d) headers rest of
         Inl err \<Rightarrow> decodeIntoLoop hash d headers rest = (d', Inl err)
       | Inr (t, hs) \<Rightarrow> decodeIntoLoop hash d headers rest = (d', Inr hs) \<and> abs_table d' = t)"
  using assms
proof (induction d headers rest rule: block_induct [where A = "\<lambda>headers. headers \<noteq> []" and hash = hash])
  case (empty d headers)
  then show ?case by (intro exI [of _ d] exI [of _ "0::nat"]) (simp add: decodeIntoLoop.simps ref_block.simps)
next
  case (error d headers rest d' err)
  then show ?case by (intro exI [of _ d'] exI [of _ "0::nat"]) (simp add: decodeIntoLoop.simps ref_block.simps)
next
  case (update d headers rest d' t r)
  then have p: "protocolMaxSize d' = protocolMaxSize d" by (simp add: advance_def)
  obtain d'' k where "dec_inv d''" "advance d' k d''" "k \<le> length r"
      "case ref_block (protocolMaxSize d) t headers r of Inl err \<Rightarrow> decodeIntoLoop hash d' headers r = (d'', Inl err)
       | Inr (t, hs) \<Rightarrow> decodeIntoLoop hash d' headers r = (d'', Inr hs) \<and> abs_table d'' = t"
    using update.IH [of headers] update.hyps(6) by (auto simp: p)
  then show ?case using update.hyps advance_trans [OF update.hyps(5), of k d'']
    by (intro exI [of _ d''] exI [of _ "1 + k"])
       (auto simp: decodeIntoLoop.simps [of hash d headers rest] ref_block.simps [of "protocolMaxSize d" "abs_table d" headers rest] split: sum.splits)
next
  case (field d headers rest d1 d2 j t name v b r)
  let ?hs = "headers @ [(name, v)]"
  have p: "protocolMaxSize d2 = protocolMaxSize d" using field.hyps by (simp add: advance_def)
  note simps = decodeIntoLoop.simps [of hash d headers rest] ref_block.simps [of "protocolMaxSize d" "abs_table d" headers rest]
  show ?case
  proof (cases "length headers \<ge> 128")
    case True
    then show ?thesis using field.hyps by (intro exI [of _ d1] exI [of _ "0::nat"]) (simp add: simps)
  next
    case False
    obtain d'' k where "dec_inv d''" "advance d2 k d''" "k \<le> length r"
        "case ref_block (protocolMaxSize d) (ref_insert b t (name, v)) ?hs r of Inl err \<Rightarrow> decodeIntoLoop hash d2 ?hs r = (d'', Inl err)
         | Inr (t, hs) \<Rightarrow> decodeIntoLoop hash d2 ?hs r = (d'', Inr hs) \<and> abs_table d'' = t"
      using field.IH [of ?hs] field.hyps(10) by (auto simp: p)
    then show ?thesis using field.hyps False advance_trans [OF field.hyps(8), of k d'']
      by (intro exI [of _ d''] exI [of _ "j + k"]) (auto simp: simps Let_def split: sum.splits)
  qed
qed

end
