(* ===== verification/Hpack_Request.thy ===== *)
theory Hpack_Request
  imports Hpack_Decode
begin

text \<open>
  Decoding one request with the memo of the last block, \<open>DecodeRequest\<close>, \<open>MemoizedRootRequest\<close> and
  \<open>fieldListTooLarge\<close> of \<open>core/hpack.go\<close>, and the decoding of the metadata alone,
  \<open>DecodeRequestMeta\<close>.
\<close>

section \<open>Model\<close>

definition hpackHuffmanMaxExpandNum :: int where "hpackHuffmanMaxExpandNum = 8"
definition hpackHuffmanMaxExpandDen :: int where "hpackHuffmanMaxExpandDen = 5"
definition hpackMemoMaxBlock :: nat where "hpackMemoMaxBlock = 512"

definition fieldListTooLarge :: "HpackDecoder \<Rightarrow> nat \<Rightarrow> header list \<Rightarrow> int \<Rightarrow> bool" where
  "fieldListTooLarge d blockLen headers indexedRefBytes \<longleftrightarrow>
     (let bound = int blockLen * hpackHuffmanMaxExpandNum div hpackHuffmanMaxExpandDen
            + int (length headers) * (hpackStaticFieldMaxSize + int (dynNameMax d)) + indexedRefBytes
      in bound > maxHeaderListSize d \<and> h2FieldListSize headers > maxHeaderListSize d)"

definition storeMemo :: "HpackDecoder \<Rightarrow> byte list \<Rightarrow> hpackRequestMeta \<Rightarrow> bool \<Rightarrow> header list \<Rightarrow> HpackDecoder" where
  "storeMemo d block meta isRoot headers =
     d\<lparr>memoBlock := block, memoHeaders := headers, memoMeta := meta, memoRoot := isRoot, memoValid := True\<rparr>"

definition MemoizedRootRequest :: "HpackDecoder \<Rightarrow> byte list \<Rightarrow> bool" where
  "MemoizedRootRequest d data \<longleftrightarrow> memoValid d \<and> memoRoot d \<and> data = memoBlock d"

definition DecodeRequest :: "(byte list \<Rightarrow> u64) \<Rightarrow> HpackDecoder \<Rightarrow> byte list
    \<Rightarrow> HpackDecoder \<times> hpackRequestMeta \<times> (hpackError + header list \<times> bool)" where
  "DecodeRequest hash d data =
     (if memoValid d \<and> data = memoBlock d then (d, memoMeta d, Inr (memoHeaders d, memoRoot d))
      else
        let gen = tableGen d;
            refStart = dynRefBytes d
        in case DecodeIntoRequest hash d data of
             (d, meta, Inl err) \<Rightarrow> (d, meta, Inl err)
           | (d, meta, Inr headers) \<Rightarrow>
               if fieldListTooLarge d (length data) headers (dynRefBytes d - refStart) then (d, meta, Inl ErrH2HeaderListTooLarge)
               else
                 let isRoot = (m_method meta = str ''GET'' \<and> m_path meta = str ''/'');
                     d = (if tableGen d = gen \<and> length data \<le> hpackMemoMaxBlock then storeMemo d data meta isRoot headers else d)
                 in (d, meta, Inr (headers, isRoot)))"

section \<open>The loop over the fields of a request\<close>

lemma observeHeader_frame:
  "observeHeader meta name v = (meta', r) \<Longrightarrow> headerCount meta' = headerCount meta \<and> (r = None \<or> r = Some ErrH2BadHeader)"
  by (auto simp: observeHeader_def observePseudo_def observeRegular_def Let_def simp del: str_simps split: if_splits prod.splits)

lemma ref_field_errors: "ref_field p after t rest = Inl err \<Longrightarrow> err \<noteq> ErrH2MalformedRequest \<and> err \<noteq> ErrH2HeaderListTooLarge"
  by (auto simp: ref_field_def Let_def split: if_splits prod.splits option.splits)

definition fatal :: "hpackError + 'a \<Rightarrow> bool" where
  "fatal res \<longleftrightarrow> (case res of Inl err \<Rightarrow> err \<noteq> ErrH2MalformedRequest \<and> err \<noteq> ErrH2HeaderListTooLarge | Inr _ \<Rightarrow> False)"

text \<open>The size of the fields against what \<open>fieldListTooLarge\<close> computes.\<close>

definition size_bound :: "HpackDecoder \<Rightarrow> HpackDecoder \<Rightarrow> nat \<Rightarrow> header list \<Rightarrow> bool" where
  "size_bound d d' n hs \<longleftrightarrow>
     5 * table_size hs \<le> 8 * int n + 5 * (int (length hs) * (hpackStaticFieldMaxSize + int (dynNameMax d'))) + 5 * (dynRefBytes d' - dynRefBytes d)"

text \<open>The end of a block whose remaining fields are \<open>new\<close>.\<close>

definition observed :: "HpackDecoder \<Rightarrow> hpackRequestMeta \<Rightarrow> nat \<Rightarrow> table \<Rightarrow> header list \<Rightarrow> header list
    \<Rightarrow> HpackDecoder \<Rightarrow> hpackRequestMeta \<Rightarrow> hpackError + header list \<Rightarrow> bool" where
  "observed d meta n t hs new d' meta' res \<longleftrightarrow>
     (case observeAll meta new of
        (_, Some _) \<Rightarrow> res = Inl ErrH2BadHeader
      | (m, None) \<Rightarrow> meta' = m \<and> abs_table d' = t \<and> size_bound d d' n new
          \<and> res = (case validate m of Some err \<Rightarrow> Inl err | None \<Rightarrow> Inr hs))"

definition loop_result :: "HpackDecoder \<Rightarrow> hpackRequestMeta \<Rightarrow> header list \<Rightarrow> byte list
    \<Rightarrow> HpackDecoder \<Rightarrow> hpackRequestMeta \<Rightarrow> hpackError + header list \<Rightarrow> bool" where
  "loop_result d meta headers rest d' meta' res \<longleftrightarrow>
     (case ref_block (protocolMaxSize d) (abs_table d) headers rest of
        Inl _ \<Rightarrow> fatal res
      | Inr (t, hs) \<Rightarrow> \<exists>new. hs = headers @ new \<and> observed d meta (length rest) t hs new d' meta' res)"

lemma observed_update:
  assumes "observed d1 meta n t hs new d' meta' res" and "dynRefBytes d \<le> dynRefBytes d1" and "n \<le> m"
  shows "observed d meta m t hs new d' meta' res"
proof -
  have "size_bound d1 d' n new \<Longrightarrow> size_bound d d' m new" using assms(2,3) by (simp add: size_bound_def)
  then show ?thesis using assms(1) by (auto simp: observed_def split: prod.splits option.splits)
qed

lemma observed_field:
  assumes "observed d2 (meta1\<lparr>headerCount := headerCount meta1 + 1\<rparr>) n t hs new d' meta' res"
    and "observeHeader meta name v = (meta1, None)" and "n \<le> m" and "dynNameMax d2 \<le> dynNameMax d'"
    and "5 * entry_size (name, v) \<le> 8 * (int m - int n) + 5 * (hpackStaticFieldMaxSize + int (dynNameMax d2)) + 5 * (dynRefBytes d2 - dynRefBytes d)"
  shows "observed d meta m t hs ((name, v) # new) d' meta' res"
proof -
  have "size_bound d2 d' n new \<Longrightarrow> size_bound d d' m ((name, v) # new)"
    using assms(3-5) by (simp add: size_bound_def algebra_simps)
  then show ?thesis using assms(1,2) by (auto simp: observed_def split: prod.splits option.splits)
qed

lemma ref_block_extends: "ref_block p t headers rest = Inr (t', hs) \<Longrightarrow> \<exists>new. hs = headers @ new"
proof (induction p t headers rest rule: ref_block.induct)
  case (1 p t headers rest)
  then show ?case
    by (subst (asm) (3) ref_block.simps) (fastforce split: if_splits sum.splits prod.splits hpackField.splits)
qed

lemma request_loop_ref:
  assumes "dec_inv d"
  shows "headerCount (fst s) = length (snd s) \<Longrightarrow> length (snd s) \<le> 128 \<Longrightarrow> \<exists>d' k meta' res. decodeRequestLoop hash d (fst s) (snd s) rest = (d', meta', res)
    \<and> dec_inv d' \<and> advance d k d' \<and> k \<le> length rest \<and> loop_result d (fst s) (snd s) rest d' meta' res"
  using assms
proof (induction d s rest rule: block_induct [where A = "\<lambda>s. headerCount (fst s) > 0" and hash = hash])
  case (empty d s)
  have "loop_result d (fst s) (snd s) [] d (fst s) (case validate (fst s) of Some err \<Rightarrow> Inl err | None \<Rightarrow> Inr (snd s))"
    by (auto simp: loop_result_def observed_def ref_block.simps size_bound_def intro!: exI [of _ "[]"])
  with empty show ?case
    by (intro exI [of _ d] exI [of _ "0::nat"] exI [of _ "fst s"]) (auto simp: decodeRequestLoop.simps split: option.splits)
next
  case (error d s rest d' err)
  have a: "(0 < headerCount (fst s)) = (snd s \<noteq> [])" using error.prems by simp
  have "loop_result d (fst s) (snd s) rest d' (fst s) (Inl err)"
    using error.hyps ref_field_errors [OF error.hyps(2)] by (simp add: loop_result_def ref_block.simps a fatal_def)
  with error show ?case by (intro exI [of _ d'] exI [of _ "0::nat"]) (simp add: decodeRequestLoop.simps)
next
  case (update d s rest d' t r)
  then have p: "protocolMaxSize d' = protocolMaxSize d" by (simp add: advance_def)
  have a: "(0 < headerCount (fst s)) = (snd s \<noteq> [])" using update.prems by simp
  obtain d'' k meta' res where IH: "decodeRequestLoop hash d' (fst s) (snd s) r = (d'', meta', res)" "dec_inv d''" "advance d' k d''" "k \<le> length r"
      "loop_result d' (fst s) (snd s) r d'' meta' res"
    using update.IH [of s] update.prems by blast
  have "ref_block (protocolMaxSize d) (abs_table d) (snd s) rest = ref_block (protocolMaxSize d') (abs_table d') (snd s) r"
    using update.hyps by (subst ref_block.simps) (simp add: a p)
  moreover have "dynRefBytes d \<le> dynRefBytes d'" using update.hyps(5) by (simp add: advance_def)
  ultimately have "loop_result d (fst s) (snd s) rest d'' meta' res"
    using IH(5) observed_update [of d' _ "length r" _ _ _ d'' meta' res d "length rest"] update.hyps(7)
    unfolding loop_result_def by (auto split: sum.splits)
  then show ?case using update.hyps update.prems IH advance_trans [OF update.hyps(5), of k d'']
    by (intro exI [of _ d''] exI [of _ "1 + k"]) (simp add: decodeRequestLoop.simps [of hash d "fst s" "snd s" rest])
next
  case (field d s rest d1 d2 j t name v b r)
  let ?m = "fst s" and ?hs = "snd s @ [(name, v)]"
  have p: "protocolMaxSize d2 = protocolMaxSize d" using field.hyps by (simp add: advance_def)
  have a: "(0 < headerCount ?m) = (snd s \<noteq> [])" using field.prems by simp
  note step = decodeRequestLoop.simps [of hash d ?m "snd s" rest] and ref = ref_block.simps [of "protocolMaxSize d" "abs_table d" "snd s" rest]
  obtain m1 e where obs: "observeHeader ?m name v = (m1, e)" by (cases "observeHeader ?m name v")
  show ?case
  proof (cases e)
    case (Some err)
    then have bad: "err = ErrH2BadHeader" "observeAll ?m ((name, v) # new) = (m1, Some err)" for new
      using observeHeader_frame [OF obs] obs by simp_all
    have "loop_result d ?m (snd s) rest d1 m1 (Inl ErrH2BadHeader)"
    proof (cases "ref_block (protocolMaxSize d) (abs_table d) (snd s) rest")
      case (Inr x)
      then have "ref_block (protocolMaxSize d) (ref_insert b t (name, v)) ?hs r = Inr x"
        using field.hyps(1,2) by (simp add: ref a split: if_splits)
      then obtain new where "snd x = ?hs @ new" using ref_block_extends by (cases x) fastforce
      then show ?thesis using Inr bad by (cases x) (auto simp: loop_result_def observed_def intro!: exI [of _ "(name, v) # new"])
    qed (simp add: loop_result_def fatal_def)
    then show ?thesis using field.hyps(1-9) obs Some bad(1) by (intro exI [of _ d1] exI [of _ "0::nat"]) (simp add: step)
  next
    case None
    let ?m2 = "m1\<lparr>headerCount := headerCount m1 + 1\<rparr>"
    have count: "headerCount m1 = headerCount ?m" using observeHeader_frame [OF obs] by simp
    show ?thesis
    proof (cases "length (snd s) \<ge> 128")
      case True
      then have "loop_result d ?m (snd s) rest d2 ?m2 (Inl ErrTooManyHeaders)"
        using field.hyps(1,2) by (simp add: loop_result_def ref a fatal_def)
      then show ?thesis using True field.hyps(1-11) obs None by (intro exI [of _ d2] exI [of _ j]) (simp add: step Let_def)
    next
      case False
      obtain d'' k meta' res where IH: "decodeRequestLoop hash d2 ?m2 ?hs r = (d'', meta', res)" "dec_inv d''" "advance d2 k d''" "k \<le> length r"
          "loop_result d2 ?m2 ?hs r d'' meta' res"
        using field.IH [of "(?m2, ?hs)"] field.prems count False by auto
      have "ref_block (protocolMaxSize d) (abs_table d) (snd s) rest = ref_block (protocolMaxSize d2) (abs_table d2) ?hs r"
        using field.hyps(1,2,10) False by (simp add: ref a p)
      moreover have "dynNameMax d2 \<le> dynNameMax d''" using IH(3) by (simp add: advance_def)
      ultimately have "loop_result d ?m (snd s) rest d'' meta' res"
        using IH(5) observed_field [OF _ obs [unfolded None] _ _ field.hyps(12)] field.hyps(11)
        unfolding loop_result_def by (fastforce split: sum.splits)
      then show ?thesis using field.hyps(1-11) False IH obs None advance_trans [OF field.hyps(8), of k d'']
        by (intro exI [of _ d''] exI [of _ "j + k"]) (simp add: step Let_def)
    qed
  qed
qed

section \<open>The shortcut\<close>

abbreviation simple_fields :: "gostring \<Rightarrow> header list" where
  "simple_fields path \<equiv> [(str '':method'', str ''GET''), (str '':path'', path), (str '':scheme'', str ''https'')]"

lemma static_entries:
  "HpackStaticTable ! 2 = (str '':method'', str ''GET'')" "fst (HpackStaticTable ! 4) = str '':path''"
  "HpackStaticTable ! 7 = (str '':scheme'', str ''https'')"
  by (simp_all add: HpackStaticTable_def)

lemma one_byte_int:
  "HpackDecodeInt (0x82 # r) 7 = (2, 1)" "HpackDecodeInt (0x87 # r) 7 = (7, 1)" "HpackDecodeInt (0x04 # r) 4 = (4, 1)"
  by (simp_all add: HpackDecodeInt_def)

lemma ref_block_simple:
  assumes "HpackDecodeString (body @ [0x87]) = (raw, length body)" and "body \<noteq> []"
  shows "ref_block p t [] (0x82 # 0x04 # body @ [0x87]) = Inr (t, simple_fields raw)"
proof -
  have f1: "ref_field p False t (0x82 # 0x04 # body @ [0x87]) = Inr (t, Field (str '':method'') (str ''GET'') False, 0x04 # body @ [0x87])"
    using one_byte_int(1) by (simp add: ref_field_def table_lookup_def static_entries del: str_simps)
  have f2: "ref_field p True t (0x04 # body @ [0x87]) = Inr (t, Field (str '':path'') raw False, [0x87])"
    using one_byte_int(3) assms by (simp add: ref_field_def ref_literal_def Let_def table_lookup_def static_entries del: str_simps)
  have f3: "ref_field p True t [0x87] = Inr (t, Field (str '':scheme'') (str ''https'') False, [])"
    using one_byte_int(2) by (simp add: ref_field_def table_lookup_def static_entries del: str_simps)
  show ?thesis
    by (subst ref_block.simps, simp add: f1 ref_insert_def del: str_simps)
       (subst ref_block.simps, simp add: f2 ref_insert_def del: str_simps,
        subst ref_block.simps, simp add: f3 ref_insert_def del: str_simps, subst ref_block.simps, simp)
qed

lemma neq_facts:
  "str '':method'' \<noteq> str '':path''" "str '':method'' \<noteq> str '':scheme''" "str '':path'' \<noteq> str '':scheme''" "str '':path'' \<noteq> str '':method''"
  "str '':scheme'' \<noteq> str '':method''" "str '':scheme'' \<noteq> str '':path''" "str ''content-length'' \<noteq> str '':method''"
  "str ''content-length'' \<noteq> str '':path''" "str ''content-length'' \<noteq> str '':scheme''"
  "str '':path'' \<noteq> str '':authority''" "str '':path'' \<noteq> str '':protocol''" "str '':authority'' \<noteq> str '':method''" "str '':authority'' \<noteq> str '':path''" "str '':authority'' \<noteq> str '':scheme''"
  "str '':protocol'' \<noteq> str '':method''" "str '':protocol'' \<noteq> str '':path''" "str '':protocol'' \<noteq> str '':scheme''"
  by simp_all

lemma simple_wf: "fields_wf allow (simple_fields raw) \<longleftrightarrow> isValidH2Path raw"
proof -
  have "containsLineBreak (str ''https'') lineBreakCRLFNUL = False"
    using containsLineBreak_iff [of lineBreakCRLFNUL "str ''https''"] by (simp add: lineBreakCRLFNUL_def swarHigh_def)
  then have https: "isValidH2FieldValue (str ''https'')" by (simp add: isValidH2FieldValue_def)
  have names: "isValidH2FieldName (str '':method'')" "isValidH2FieldName (str '':path'')" "isValidH2FieldName (str '':scheme'')"
    by (simp_all add: isValidH2FieldName_def h2FieldNameValid_def)
  have get: "isH2Method (str ''GET'')" by (simp only: isH2Method_def simp_thms)
  show ?thesis using https names get
    by (simp add: fields_wf_def pseudo_ok_def lengths_agree_def pseudo_names neq_facts del: str_simps)
qed

text \<open>The parts of the metadata that do not depend on how the fields were read.\<close>

definition core_meta :: "hpackRequestMeta \<Rightarrow> hpackRequestMeta" where
  "core_meta meta = meta\<lparr>pseudoMask := 0, allowProtocol := False\<rparr>"

lemma simple_meta:
  assumes "isValidH2Path raw"
  shows "core_meta (meta_of allow (simple_fields raw))
    = zeroMeta\<lparr>m_method := str ''GET'', m_path := (if raw = str ''/'' then str ''/'' else sanitizeRequestPath raw), m_rawPath := raw,
        m_query := snd (splitPathQuery raw), m_scheme := str ''https'', headerCount := 3\<rparr>"
    and "validate (meta_of allow (simple_fields raw)) = validate (core_meta (meta_of allow (simple_fields raw)))"
proof -
  have ws: "EqualFoldASCII [] (str ''websocket'') = False" by (simp add: EqualFoldASCII_iff)
  show "core_meta (meta_of allow (simple_fields raw))
    = zeroMeta\<lparr>m_method := str ''GET'', m_path := (if raw = str ''/'' then str ''/'' else sanitizeRequestPath raw), m_rawPath := raw,
        m_query := snd (splitPathQuery raw), m_scheme := str ''https'', headerCount := 3\<rparr>"
    using ws by (simp add: core_meta_def meta_of_def zeroMeta_def value_of_def has_field_def pseudo_names neq_facts del: str_simps)
  show "validate (meta_of allow (simple_fields raw)) = validate (core_meta (meta_of allow (simple_fields raw)))"
    using mask_bits(5) by (simp add: neq_facts validate_def validateConnect_def pathFormValid_def core_meta_def meta_of_def has_field_def del: str_simps)
qed

lemma sanitize_slash: "sanitizeRequestPath (str ''/'') = str ''/''"
  by (simp add: sanitizeRequestPath_def cutAt_def indexByte_def splitPathQuery_def sanitizeSplitPath_def)

text \<open>The shortcut, when it applies, gives what the loop gives, except that its list of fields has the sanitized path.\<close>

lemma simple_ref:
  assumes "dec_inv d" and "decodeSimpleGetPathHTTPSRequest hash d data = (d', Some (meta, res))"
  obtains raw where "ref_block p t [] data = Inr (t, simple_fields raw)" "raw \<noteq> [] \<longrightarrow> 5 * length raw \<le> 8 * length data"
    "if fields_wf allow (simple_fields raw)
     then meta = core_meta (meta_of allow (simple_fields raw))
       \<and> res = (case validate (meta_of allow (simple_fields raw)) of Some err \<Rightarrow> Inl err | None \<Rightarrow> Inr (simple_fields (sanitizeRequestPath raw)))
     else res = Inl ErrH2BadHeader"
proof -
  have len: "\<not> (length data < 4 \<or> data ! 0 \<noteq> 0x82 \<or> data ! 1 \<noteq> 0x04 \<or> data ! (length data - 1) \<noteq> 0x87)"
    using assms(2) by (auto simp: decodeSimpleGetPathHTTPSRequest_def split: if_splits)
  define body where "body = butlast (drop 2 data)"
  have d2: "drop 2 data = body @ [0x87]"
  proof -
    have "data \<noteq> []" "drop 2 data \<noteq> []" "last (drop 2 data) = last data" using len by auto
    moreover from this have "last data = 0x87" using len by (simp add: last_conv_nth)
    ultimately have "drop 2 data \<noteq> []" "last (drop 2 data) = 0x87" by simp_all
    then show ?thesis by (metis body_def append_butlast_last_id)
  qed
  have data: "data = 0x82 # 0x04 # body @ [0x87]"
  proof -
    have "data = data ! 0 # data ! 1 # drop 2 data" using len by (cases data; cases "tl data") auto
    then show ?thesis using len d2 by metis
  qed
  have body: "body \<noteq> []" using len data by (auto simp: not_less)
  obtain raw n d1 where s: "decodeString hash d (drop 2 data) = (d1, raw, n)" "HpackDecodeString (body @ [0x87]) = (raw, n)"
    using decodeString_ref [of d hash "drop 2 data"] assms(1) d2 by (cases "HpackDecodeString (drop 2 data)") (auto simp: dec_inv_def)
  have n: "n = length body" using assms(2) s len data by (auto simp: decodeSimpleGetPathHTTPSRequest_def Let_def split: if_splits)
  have r: "ref_block p t [] data = Inr (t, simple_fields raw)" using ref_block_simple [OF s(2) [unfolded n] body] data by simp
  have sz: "5 * length raw \<le> 8 * length data" using decodeString_size [OF s(2)] n data by simp
  show thesis
  proof (rule that [OF r], goal_cases)
    case 2
    have path: "(if raw = str ''/'' then str ''/'' else sanitizeRequestPath raw) = sanitizeRequestPath raw" using sanitize_slash by auto
    show ?case unfolding simple_wf
      using assms(2) s n len simple_meta [of raw allow, unfolded path] data
      by (auto simp: decodeSimpleGetPathHTTPSRequest_def Let_def simp del: str_simps split: if_splits option.splits)
  qed (use sz in simp)
qed

lemma simple_frame:
  assumes "dec_inv d" and "decodeSimpleGetPathHTTPSRequest hash d data = (d', r)"
  shows "dec_inv d'" and "advance d 0 d'" and "abs_table d' = abs_table d" and "dynRefBytes d' = dynRefBytes d"
proof -
  obtain d1 where d1: "decodeString hash d (drop 2 data) = (d1, HpackDecodeString (drop 2 data))" "cache_ok d1" "same_but_cache d d1"
    using decodeString_ref [of d hash "drop 2 data"] assms(1) by (auto simp: dec_inv_def)
  have "d' = d \<or> d' = d1" using assms(2) d1(1)
    by (cases "HpackDecodeString (drop 2 data)") (auto simp: decodeSimpleGetPathHTTPSRequest_def Let_def split: if_splits option.splits)
  then show "dec_inv d'" "advance d 0 d'" "abs_table d' = abs_table d" "dynRefBytes d' = dynRefBytes d"
    using same_but_cache_advance [OF d1(3,2) assms(1)] assms(1) by auto
qed

lemma length_join: "length (joinSegments segs) = sum_list (map (\<lambda>seg. Suc (length seg)) segs)"
  by (simp add: joinSegments_def length_concat o_def)

lemma pushSegment_length: "length (joinSegments (pushSegment segs seg)) \<le> length (joinSegments segs) + Suc (length seg)"
proof -
  have "sum_list (map (\<lambda>seg. Suc (length seg)) (butlast segs)) \<le> sum_list (map (\<lambda>seg. Suc (length seg)) segs)"
    by (cases segs rule: rev_cases) auto
  then show ?thesis unfolding length_join pushSegment_def by auto
qed

lemma segmentLoop_length: "length (joinSegments (segmentLoop segs seg s)) \<le> length (joinSegments segs) + Suc (length seg) + length s"
proof (induction segs seg s rule: segmentLoop.induct)
  case (1 segs seg)
  then show ?case using pushSegment_length [of segs seg] by simp
next
  case (2 segs seg c s)
  then show ?case using pushSegment_length [of segs seg] by (cases "c = b8 CHR ''/''") auto
qed

lemma length_sanitize: "length (sanitizeRequestPath raw) \<le> length raw + 1"
proof -
  have split: "length (sanitizeSplitPath p) \<le> length p + 1" for p
  proof -
    let ?q = "if length p = 0 \<or> p ! 0 \<noteq> b8 CHR ''/'' then b8 CHR ''/'' # p else p"
    have "length (tl ?q) \<le> length p" by auto
    then show ?thesis using segmentLoop_length [of "[]" "[]" "tl ?q"] by (auto simp: sanitizeSplitPath_def Let_def joinSegments_def)
  qed
  have cut: "length (cutAt q c) \<le> length q" for q c by (simp add: cutAt_takeWhile length_takeWhile_le)
  have "length (fst (splitPathQuery q)) \<le> length q" for q by (simp add: fst_splitPathQuery length_takeWhile_le)
  then have "length (fst (splitPathQuery (cutAt (cutAt (cutAt raw 0) (b8 CHR 0x0D)) (b8 CHR 0x0A)))) \<le> length raw"
    using cut by (meson order_trans)
  then show ?thesis unfolding sanitizeRequestPath_def using split by (meson add_le_mono1 order_trans)
qed

lemma sanitize_valid: "isValidH2Path raw \<Longrightarrow> isValidH2Path (sanitizeRequestPath raw)"
proof -
  define q where "q = fst (splitPathQuery (cutAt (cutAt (cutAt raw 0) (b8 CHR 0x0D)) (b8 CHR 0x0A)))"
  have "set q \<subseteq> set raw" unfolding q_def fst_splitPathQuery cutAt_takeWhile by (auto dest!: set_takeWhileD)
  then have "set (sanitizeRequestPath raw) \<subseteq> insert (b8 CHR ''/'') (set raw)"
    unfolding sanitizeRequestPath_def q_def [symmetric] using sanitizeSplitPath_set [of q] by blast
  then show "isValidH2Path raw \<Longrightarrow> isValidH2Path (sanitizeRequestPath raw)"
    unfolding isValidH2Path_iff list_all_iff by (auto simp: subset_iff)
qed

section \<open>One request\<close>

text \<open>The shortcut puts the sanitized path into the list of fields, the loop the path as it came.\<close>

definition same_fields :: "header list \<Rightarrow> header list \<Rightarrow> bool" where
  "same_fields hs hs' \<longleftrightarrow> hs' = hs \<or> (\<exists>raw. hs = simple_fields raw \<and> hs' = simple_fields (sanitizeRequestPath raw))"

definition request_result :: "bool \<Rightarrow> int \<Rightarrow> table \<Rightarrow> byte list \<Rightarrow> hpackRequestMeta \<Rightarrow> table \<Rightarrow> hpackError + header list \<Rightarrow> bool" where
  "request_result allow p t data meta t' res \<longleftrightarrow>
     (case ref_block p t [] data of
        Inl _ \<Rightarrow> fatal res
      | Inr (t2, hs) \<Rightarrow>
          if fields_wf allow hs then
            t' = t2 \<and> core_meta meta = core_meta (meta_of allow hs)
            \<and> (case validate (meta_of allow hs) of Some err \<Rightarrow> res = Inl err | None \<Rightarrow> \<exists>hs'. same_fields hs hs' \<and> res = Inr hs')
          else res = Inl ErrH2BadHeader)"

lemma static_max: "hpackStaticFieldMaxSize = 60"
  by (simp add: hpackStaticFieldMaxSize_def HpackStaticTable_def hpackEntryOverhead_def)

lemma DecodeIntoRequest_ref:
  assumes "dec_inv d"
  shows "\<exists>d' k meta res. DecodeIntoRequest hash d data = (d', meta, res) \<and> dec_inv d' \<and> advance d k d' \<and> k \<le> length data
    \<and> request_result (allowExtendedConnect d) (protocolMaxSize d) (abs_table d) data meta (abs_table d') res
    \<and> (\<forall>hs. res = Inr hs \<longrightarrow> size_bound d d' (length data) hs)"
proof -
  let ?allow = "allowExtendedConnect d" and ?p = "protocolMaxSize d" and ?t = "abs_table d"
  obtain d1 r where dr: "decodeSimpleGetPathHTTPSRequest hash d data = (d1, r)" by (cases "decodeSimpleGetPathHTTPSRequest hash d data")
  note frame = simple_frame [OF assms dr]
  show ?thesis
  proof (cases r)
    case (Some x)
    obtain meta res where x: "x = (meta, res)" by (cases x)
    obtain raw where raw: "ref_block ?p ?t [] data = Inr (?t, simple_fields raw)" "raw \<noteq> [] \<longrightarrow> 5 * length raw \<le> 8 * length data"
        "if fields_wf ?allow (simple_fields raw)
         then meta = core_meta (meta_of ?allow (simple_fields raw))
           \<and> res = (case validate (meta_of ?allow (simple_fields raw)) of Some err \<Rightarrow> Inl err | None \<Rightarrow> Inr (simple_fields (sanitizeRequestPath raw)))
         else res = Inl ErrH2BadHeader"
      by (rule simple_ref [OF assms dr [unfolded Some x], where p = ?p and t = ?t and allow = ?allow])
    have "core_meta (core_meta m) = core_meta m" for m by (simp add: core_meta_def)
    then have "request_result ?allow ?p ?t data meta (abs_table d1) res"
      unfolding request_result_def raw(1) using raw(3) frame(3)
      by (auto simp: same_fields_def simp del: str_simps split: if_splits option.splits)
    moreover have "size_bound d d1 (length data) (simple_fields (sanitizeRequestPath raw))"
      using raw(2) length_sanitize [of raw] frame(4) by (auto simp: size_bound_def entry_size_def static_max)
    then have "\<forall>hs. res = Inr hs \<longrightarrow> size_bound d d1 (length data) hs" using raw(3) by (auto split: if_splits option.splits)
    ultimately show ?thesis using frame dr Some x
      by (intro exI [of _ d1] exI [of _ "0::nat"] exI [of _ meta] exI [of _ res]) (simp add: DecodeIntoRequest_def)
  next
    case None
    let ?m = "zeroMeta\<lparr>allowProtocol := ?allow\<rparr>"
    have cfg: "protocolMaxSize d1 = ?p" using frame(2) by (simp add: advance_def)
    obtain d' k meta res where loop: "decodeRequestLoop hash d1 ?m [] data = (d', meta, res)" "dec_inv d'" "advance d1 k d'" "k \<le> length data"
        "loop_result d1 ?m [] data d' meta res"
      using request_loop_ref [OF frame(1), of "(?m, [])" hash data] by (auto simp: zeroMeta_def)
    have "request_result ?allow ?p ?t data meta (abs_table d') res"
    proof (cases "ref_block ?p ?t [] data")
      case (Inr x)
      then obtain t2 hs where x: "ref_block ?p ?t [] data = Inr (t2, hs)" by (cases x) auto
      then have "observed d1 ?m (length data) t2 hs hs d' meta res" using loop(5) by (simp add: loop_result_def cfg frame(3))
      then show ?thesis using observeAll_iff [of ?allow hs]
        by (cases "fields_wf ?allow hs") (auto simp: request_result_def x observed_def same_fields_def split: prod.splits option.splits)
    qed (use loop(5) in \<open>simp add: loop_result_def cfg frame(3) request_result_def\<close>)
    moreover have "size_bound d d' (length data) hs" if "res = Inr hs" for hs
      using loop(5) frame(4) that unfolding loop_result_def observed_def
      by (auto simp: size_bound_def fatal_def split: sum.splits prod.splits option.splits)
    ultimately show ?thesis using loop dr None advance_trans [OF frame(2) loop(3)]
      by (intro exI [of _ d'] exI [of _ k]) (simp add: DecodeIntoRequest_def)
  qed
qed

section \<open>The memo\<close>

definition is_root :: "hpackRequestMeta \<Rightarrow> bool" where
  "is_root meta \<longleftrightarrow> m_method meta = str ''GET'' \<and> m_path meta = str ''/''"

text \<open>
  What decoding a block with the table \<open>t\<close> has to give, by the reference decoder, the conditions on the
  fields, the final check and the limit on the size of the field list.
\<close>

definition decode_spec :: "bool \<Rightarrow> int \<Rightarrow> int \<Rightarrow> table \<Rightarrow> byte list \<Rightarrow> hpackRequestMeta \<Rightarrow> table \<Rightarrow> hpackError + header list \<times> bool \<Rightarrow> bool" where
  "decode_spec allow p maxList t data meta t' res \<longleftrightarrow>
     (case ref_block p t [] data of
        Inl _ \<Rightarrow> fatal res
      | Inr (t2, hs) \<Rightarrow>
          if fields_wf allow hs then
            t' = t2 \<and> core_meta meta = core_meta (meta_of allow hs)
            \<and> (case validate (meta_of allow hs) of
                 Some err \<Rightarrow> res = Inl err
               | None \<Rightarrow> \<exists>hs'. same_fields hs hs' \<and>
                   res = (if table_size hs' > maxList then Inl ErrH2HeaderListTooLarge else Inr (hs', is_root (meta_of allow hs))))
          else res = Inl ErrH2BadHeader)"

definition memo_ok :: "HpackDecoder \<Rightarrow> bool" where
  "memo_ok d \<longleftrightarrow> (memoValid d \<longrightarrow>
     decode_spec (allowExtendedConnect d) (protocolMaxSize d) (maxHeaderListSize d) (abs_table d) (memoBlock d) (memoMeta d) (abs_table d)
       (Inr (memoHeaders d, memoRoot d)))"

lemma fieldListLoop_size: "fieldListLoop hs n = n + table_size hs"
  by (induction hs arbitrary: n) (simp_all add: entry_size_def hpackEntryOverhead_def)

lemma fieldListTooLarge_iff:
  assumes "size_bound d d' (length data) hs"
  shows "fieldListTooLarge d' (length data) hs (dynRefBytes d' - dynRefBytes d) \<longleftrightarrow> table_size hs > maxHeaderListSize d'"
proof -
  let ?x = "int (length hs) * (hpackStaticFieldMaxSize + int (dynNameMax d')) + (dynRefBytes d' - dynRefBytes d)"
  have "5 * (table_size hs - ?x) \<le> int (length data) * 8" using assms by (simp add: size_bound_def algebra_simps)
  then have "table_size hs - ?x \<le> int (length data) * 8 div 5" by simp
  then show ?thesis
    by (auto simp: fieldListTooLarge_def Let_def h2FieldListSize_def fieldListLoop_size hpackHuffmanMaxExpandNum_def hpackHuffmanMaxExpandDen_def)
qed

lemma advance_memo:
  assumes "memo_ok d" and "advance d k d'"
  shows "memo_ok d'"
  using assms by (auto simp: memo_ok_def advance_def split: if_splits)

lemma advance_gen:
  assumes "advance d k d'" and "k \<le> n" and "n < 2 ^ 64" and "tableGen d' = tableGen d"
  shows "k = 0"
proof -
  have "(of_nat k :: u64) = 0" using assms(1,4) by (simp add: advance_def)
  then have "unat (of_nat k :: u64) = 0" by simp
  then show ?thesis using assms(2,3) by (simp add: unat_of_nat)
qed

lemma core_root: "core_meta m = core_meta m' \<Longrightarrow> is_root m = is_root m'"
proof -
  have "is_root (core_meta m) = is_root m" for m by (simp add: core_meta_def is_root_def)
  then show "core_meta m = core_meta m' \<Longrightarrow> is_root m = is_root m'" by metis
qed

lemma request_result_spec:
  assumes "request_result allow p t data meta t' (Inr hs)"
  shows "decode_spec allow p m t data meta t' (if table_size hs > m then Inl ErrH2HeaderListTooLarge else Inr (hs, is_root meta))"
proof -
  obtain t2 hs0 where r: "ref_block p t [] data = Inr (t2, hs0)"
    using assms by (cases "ref_block p t [] data") (auto simp: request_result_def fatal_def)
  have wf: "fields_wf allow hs0" "t' = t2" "core_meta meta = core_meta (meta_of allow hs0)" "validate (meta_of allow hs0) = None" "same_fields hs0 hs"
    using assms by (auto simp: request_result_def r split: if_splits option.splits)
  then show ?thesis using core_root [OF wf(3)] by (auto simp: decode_spec_def r)
qed

lemma storeMemo_frame [simp]:
  "dynGet (storeMemo d data meta root hs) = dynGet d" "dynCapacity (storeMemo d data meta root hs) = dynCapacity d"
  "dyn_entries (storeMemo d data meta root hs) = dyn_entries d" "abs_table (storeMemo d data meta root hs) = abs_table d"
  by (simp_all add: storeMemo_def dynGet_def dynCapacity_def dyn_entries_def abs_table_def fun_eq_iff)

lemma dec_inv_storeMemo [simp]: "dec_inv (storeMemo d data meta root hs) = dec_inv d"
  unfolding dec_inv_def dyn_inv_def ring_ok_def names_ok_def cache_ok_def storeMemo_frame by (simp add: storeMemo_def)

lemma memo_ok_storeMemo: "memo_ok (storeMemo d data meta root hs) \<longleftrightarrow>
    decode_spec (allowExtendedConnect d) (protocolMaxSize d) (maxHeaderListSize d) (abs_table d) data meta (abs_table d) (Inr (hs, root))"
  unfolding memo_ok_def storeMemo_frame by (simp add: storeMemo_def)

lemma DecodeInto_inv:
  assumes "dec_inv d" and "DecodeInto hash d data = (d', res)"
  shows "dec_inv d' \<and> (\<exists>k. advance d k d')"
  using DecodeInto_ref [OF assms(1), of data hash "[]"] assms(2)
  by (cases "ref_block (protocolMaxSize d) (abs_table d) [] data") (auto simp: DecodeInto_def)

lemma DecodeRequest_ref:
  assumes "dec_inv d" and "memo_ok d" and "length data < 2 ^ 64"
  shows "case DecodeRequest hash d data of (d', meta, res) \<Rightarrow> dec_inv d' \<and> memo_ok d'
    \<and> decode_spec (allowExtendedConnect d) (protocolMaxSize d) (maxHeaderListSize d) (abs_table d) data meta (abs_table d') res"
proof (cases "memoValid d \<and> data = memoBlock d")
  case True
  then show ?thesis using assms by (simp add: DecodeRequest_def memo_ok_def)
next
  case False
  let ?spec = "decode_spec (allowExtendedConnect d) (protocolMaxSize d) (maxHeaderListSize d)"
  obtain d1 k meta res where r: "DecodeIntoRequest hash d data = (d1, meta, res)" "dec_inv d1" "advance d k d1" "k \<le> length data"
      "request_result (allowExtendedConnect d) (protocolMaxSize d) (abs_table d) data meta (abs_table d1) res"
      "\<And>hs. res = Inr hs \<Longrightarrow> size_bound d d1 (length data) hs"
    using DecodeIntoRequest_ref [OF assms(1), of hash data] by blast
  have cfg: "maxHeaderListSize d1 = maxHeaderListSize d" "allowExtendedConnect d1 = allowExtendedConnect d" "protocolMaxSize d1 = protocolMaxSize d"
    using r(3) by (simp_all add: advance_def)
  show ?thesis
  proof (cases res)
    case (Inl err)
    then have "?spec (abs_table d) data meta (abs_table d1) (Inl err)"
      using r(5) by (auto simp: request_result_def decode_spec_def fatal_def split: sum.splits if_splits option.splits)
    then show ?thesis using False r Inl advance_memo [OF assms(2)] by (auto simp: DecodeRequest_def)
  next
    case (Inr hs)
    have spec: "?spec (abs_table d) data meta (abs_table d1) (if table_size hs > maxHeaderListSize d then Inl ErrH2HeaderListTooLarge else Inr (hs, is_root meta))"
      using request_result_spec r(5) unfolding Inr by blast
    note large = fieldListTooLarge_iff [OF r(6) [OF Inr], unfolded cfg]
    show ?thesis
    proof (cases "table_size hs > maxHeaderListSize d")
      case True
      then show ?thesis using spec False r Inr large advance_memo [OF assms(2)] by (auto simp: DecodeRequest_def Let_def)
    next
      case small: False
      let ?keep = "tableGen d1 = tableGen d \<and> length data \<le> hpackMemoMaxBlock"
      let ?d2 = "if ?keep then storeMemo d1 data meta (is_root meta) hs else d1"
      have dr: "DecodeRequest hash d data = (?d2, meta, Inr (hs, is_root meta))"
        unfolding DecodeRequest_def if_not_P [OF False] using r(1) Inr large small by (simp add: Let_def is_root_def del: str_simps)
      have "abs_table d1 = abs_table d" if ?keep using advance_gen [OF r(3,4) assms(3)] that r(3) by (auto simp: advance_def)
      moreover have abs: "dec_inv ?d2" "abs_table ?d2 = abs_table d1" using r(2) by simp_all
      ultimately have "memo_ok ?d2" using spec small advance_memo [OF assms(2) r(3)] cfg
        by (cases ?keep) (auto simp: memo_ok_storeMemo)
      then show ?thesis using dr abs spec small by simp
    qed
  qed
qed

section \<open>Properties\<close>

text \<open>The decoders of a connection, from its start on, after any number of requests and trailers.\<close>

inductive decoder_state :: "(byte list \<Rightarrow> u64) \<Rightarrow> HpackDecoder \<Rightarrow> bool" for hash where
  new: "decoder_state hash ((newHpackDecoder tableSize)\<lparr>allowExtendedConnect := allow, maxHeaderListSize := m\<rparr>)"
| request: "decoder_state hash d \<Longrightarrow> length data < 2 ^ 64 \<Longrightarrow> DecodeRequest hash d data = (d', meta, res) \<Longrightarrow> decoder_state hash d'"
| trailers: "decoder_state hash d \<Longrightarrow> DecodeInto hash d data = (d', res') \<Longrightarrow> decoder_state hash d'"

lemma same_fields_wf: "same_fields hs hs' \<Longrightarrow> fields_wf allow hs \<Longrightarrow> fields_wf allow hs'"
  unfolding same_fields_def using simple_wf sanitize_valid by blast

lemma new_decoder_inv: "dec_inv ((newHpackDecoder n)\<lparr>allowExtendedConnect := allow, maxHeaderListSize := m\<rparr>)"
proof -
  have "uint n < 2 ^ 32" using unsigned_less [of n, where 'a = int] by simp
  then show ?thesis
    by (simp add: newHpackDecoder_def newHpackDyn_def hpackDyn.extend_def dec_inv_def dyn_inv_def ring_ok_def dyn_entries_def dynCapacity_def
        names_ok_def cache_ok_def list_all_iff cache_entry_ok_def emptyCacheEntry_def hpackHuffmanDecodeCacheSize_def hpackHuffmanDecodeInlineMax_def)
qed

lemma decoder_state_inv: "decoder_state hash d \<Longrightarrow> dec_inv d \<and> memo_ok d"
proof (induction rule: decoder_state.induct)
  case (new n allow m)
  show ?case using new_decoder_inv by (simp add: memo_ok_def newHpackDecoder_def newHpackDyn_def hpackDyn.extend_def)
next
  case (request d data d' meta res)
  then show ?case using DecodeRequest_ref [of d data hash] by simp
next
  case (trailers d data d' res)
  then show ?case using DecodeInto_inv [of d hash data d'] advance_memo [of d _ d'] by blast
qed





end
