(* ===== verification/Hpack_RequestMeta.thy ===== *)
theory Hpack_RequestMeta
  imports Hpack_Request
begin

text \<open>
  \<open>DecodeRequestMeta\<close> of \<open>core/hpack.go\<close>: the metadata of a request without its list of fields.  The value
  of a literal field without indexing is skipped unless it is one of the pseudo-header fields.
\<close>

section \<open>Model\<close>

definition hpackSkipString :: "byte list \<Rightarrow> nat option" where
  "hpackSkipString data =
     (if length data = 0 then None
      else
        let (sLen, n) = HpackDecodeInt data 7 in
        if n = 0 \<or> unat sLen > length data \<or> n + unat sLen > length data then None else Some (n + unat sLen))"

definition decodeStringSelective :: "(byte list \<Rightarrow> u64) \<Rightarrow> HpackDecoder \<Rightarrow> byte list \<Rightarrow> bool \<Rightarrow> HpackDecoder \<times> (gostring \<times> nat) option" where
  "decodeStringSelective hash d data want =
     (if length data = 0 then (d, None)
      else if \<not> want then (d, map_option (Pair []) (hpackSkipString data))
      else
        let (d, s, n) = decodeString hash d data in
        if n = 0 \<or> n > length data then (d, None) else (d, Some (s, n)))"

definition wantValue :: "gostring \<Rightarrow> bool" where
  "wantValue name \<longleftrightarrow> name = str '':method'' \<or> name = str '':path'' \<or> name = str '':scheme'' \<or> name = str '':authority'' \<or> name = str '':protocol''"

text \<open>A literal field; \<open>keep\<close> is set in the branch with indexing, which needs every value.\<close>

definition decodeLiteralMeta :: "(byte list \<Rightarrow> u64) \<Rightarrow> nat \<Rightarrow> bool \<Rightarrow> HpackDecoder \<Rightarrow> byte list \<Rightarrow> HpackDecoder \<times> (gostring \<times> gostring \<times> byte list) option" where
  "decodeLiteralMeta hash prefixBits keep d rest =
     (let (idx, n) = HpackDecodeInt rest prefixBits in
      if n = 0 then (d, None)
      else
        let rest = drop n rest;
            (d, found) =
              (if idx > 0 then let (name, ok) = lookupName d idx in (d, if ok then Some (name, 0) else None)
               else decodeStringSelective hash d rest True)
        in case found of
             None \<Rightarrow> (d, None)
           | Some (name, n) \<Rightarrow>
               let rest = drop n rest in
               (case decodeStringSelective hash d rest (keep \<or> wantValue name) of
                  (d, None) \<Rightarrow> (d, None)
                | (d, Some (v, n)) \<Rightarrow> (d, Some (name, v, drop n rest))))"

definition readFieldMeta :: "(byte list \<Rightarrow> u64) \<Rightarrow> bool \<Rightarrow> HpackDecoder \<Rightarrow> byte list \<Rightarrow> HpackDecoder \<times> (hpackError + hpackField \<times> byte list)" where
  "readFieldMeta hash after d rest =
     (let b = rest ! 0 in
      if b AND 0x80 \<noteq> 0 then
        let (idx, n) = HpackDecodeInt rest 7 in
        if n = 0 then (d, Inl ErrH2BadHeader)
        else
          let (d, name, v, ok) = lookupIndex d idx in
          if \<not> ok then (d, Inl ErrH2BadHeader) else (d, Inr (Field name v False, drop n rest))
      else if b AND 0x40 \<noteq> 0 then
        (case decodeLiteralMeta hash 6 True d rest of
           (d, None) \<Rightarrow> (d, Inl ErrH2BadHeader)
         | (d, Some (name, v, rest)) \<Rightarrow> (d, Inr (Field name v True, rest)))
      else if b AND 0x20 \<noteq> 0 then
        (if after then (d, Inl ErrHpackSizeUpdateAfterField)
         else
           let (maxSize, n) = HpackDecodeInt rest 5 in
           if n = 0 then (d, Inl ErrH2BadHeader)
           else if uint maxSize > protocolMaxSize d then (d, Inl ErrHpackTableSizeExceeded)
           else (setMaxSize d (uint maxSize), Inr (SizeUpdate, drop n rest)))
      else
        (case decodeLiteralMeta hash 4 False d rest of
           (d, None) \<Rightarrow> (d, Inl ErrH2BadHeader)
         | (d, Some (name, v, rest)) \<Rightarrow> (d, Inr (Field name v False, rest))))"

lemma decodeLiteralMeta_shorter: "decodeLiteralMeta hash N keep d rest = (d', Some (name, v, rest')) \<Longrightarrow> length rest' < length rest"
  by (cases "rest = []") (auto simp: decodeLiteralMeta_def Let_def split: prod.splits if_splits option.splits)

lemma readFieldMeta_shorter: "readFieldMeta hash after d rest = (d', Inr (f, rest')) \<Longrightarrow> length rest' < length rest"
  by (cases "rest = []")
     (auto simp: readFieldMeta_def Let_def dest: decodeLiteralMeta_shorter split: prod.splits if_splits option.splits,
      (auto simp: decodeLiteralMeta_def Let_def split: prod.splits if_splits)?)

function decodeMetaLoop :: "(byte list \<Rightarrow> u64) \<Rightarrow> HpackDecoder \<Rightarrow> hpackRequestMeta \<Rightarrow> byte list \<Rightarrow> HpackDecoder \<times> hpackRequestMeta \<times> hpackError option" where
  "decodeMetaLoop hash d meta rest =
     (if rest = [] then (d, meta, validate meta)
      else
        (case readFieldMeta hash (headerCount meta > 0) d rest of
           (d, Inl err) \<Rightarrow> (d, meta, Some err)
         | (d, Inr (SizeUpdate, rest)) \<Rightarrow>
             if headerCount meta > 128 then (d, meta, Some ErrTooManyHeaders) else decodeMetaLoop hash d meta rest
         | (d, Inr (Field name v indexed, rest)) \<Rightarrow>
             (case observeHeader meta name v of
                (meta, Some err) \<Rightarrow> (d, meta, Some err)
              | (meta, None) \<Rightarrow>
                  let meta = meta\<lparr>headerCount := headerCount meta + 1\<rparr>;
                      d = (if indexed then addEntry d name v else d)
                  in if headerCount meta > 128 then (d, meta, Some ErrTooManyHeaders) else decodeMetaLoop hash d meta rest)))"
  by pat_completeness auto
termination
  by (relation "measure (\<lambda>(_, _, _, rest). length rest)") (auto dest: readFieldMeta_shorter [OF sym])

declare decodeMetaLoop.simps [simp del]

definition DecodeRequestMeta :: "(byte list \<Rightarrow> u64) \<Rightarrow> HpackDecoder \<Rightarrow> byte list \<Rightarrow> HpackDecoder \<times> hpackRequestMeta \<times> hpackError option" where
  "DecodeRequestMeta hash d data = decodeMetaLoop hash d (zeroMeta\<lparr>allowProtocol := allowExtendedConnect d\<rparr>) data"

section \<open>A field the metadata decoder refuses\<close>

text \<open>A request for the root over https with a literal field \<open>content-length: 5\<close>, without indexing and without Huffman coding.\<close>

definition length_request :: "byte list" where
  "length_request = [0x82, 0x84, 0x87, 0x0f, 0x0d, 0x01, b8 CHR ''5'']"

definition length_request_fields :: "header list" where
  "length_request_fields = simple_fields (str ''/'') @ [(str ''content-length'', str ''5'')]"

lemma static_more: "HpackStaticTable ! 4 = (str '':path'', str ''/'')" "HpackStaticTable ! 28 = (str ''content-length'', [])"
  by (simp_all add: HpackStaticTable_def)

lemma ints:
  "HpackDecodeInt (0x84 # r) 7 = (4, 1)" "HpackDecodeInt (0x0f # 0x0d # r) 4 = (28, 2)" "HpackDecodeInt (0x01 # r) 7 = (1, 1)"
  by (simp_all add: HpackDecodeInt_def)

lemma length_block: "ref_block p t [] length_request = Inr (t, length_request_fields)"
proof -
  have s: "HpackDecodeString [1, 53] = ([53], 2)" by (simp add: HpackDecodeString_def ints(3) [of "[53]"])
  have f1: "ref_field p False t (0x82 # r) = Inr (t, Field (str '':method'') (str ''GET'') False, r)" for r
    using one_byte_int(1) by (simp add: ref_field_def table_lookup_def static_entries del: str_simps)
  have f2: "ref_field p True t (0x84 # r) = Inr (t, Field (str '':path'') (str ''/'') False, r)" for r
    using ints(1) by (simp add: ref_field_def table_lookup_def static_more del: str_simps)
  have f3: "ref_field p True t (0x87 # r) = Inr (t, Field (str '':scheme'') (str ''https'') False, r)" for r
    using one_byte_int(2) by (simp add: ref_field_def table_lookup_def static_entries del: str_simps)
  have f4: "ref_field p True t [15, 13, 1, 53] = Inr (t, Field (str ''content-length'') (str ''5'') False, [])"
    using ints(2) s by (simp add: ref_field_def ref_literal_def Let_def table_lookup_def static_more)
  show ?thesis
    unfolding length_request_def length_request_fields_def
    by (subst ref_block.simps, simp add: f1 ref_insert_def del: str_simps)
       (subst ref_block.simps, simp add: f2 ref_insert_def del: str_simps,
        subst ref_block.simps, simp add: f3 ref_insert_def del: str_simps,
        subst ref_block.simps, simp add: f4 ref_insert_def del: str_simps, subst ref_block.simps, simp)
qed

lemma length_wf: "fields_wf allow length_request_fields"
proof -
  have "isValidH2Path (str ''/'')" by (simp add: isValidH2Path_iff)
  then have pre: "fields_wf allow (simple_fields (str ''/''))" using simple_wf by blast
  have "containsLineBreak (str ''5'') lineBreakCRLFNUL = False"
    using containsLineBreak_iff [of lineBreakCRLFNUL "str ''5''"] by (simp add: lineBreakCRLFNUL_def swarHigh_def)
  then have "regular_ok (str ''content-length'', str ''5'')"
    by (simp add: regular_ok_def isValidH2FieldValue_def isH2ConnectionSpecificField_def)
  moreover have "isValidH2FieldName (str ''content-length'')" by (simp add: isValidH2FieldName_def h2FieldNameValid_def)
  moreover have "snd (parseUint (str ''5''))" by (simp add: parseUint_def maxParsedLength_def digitVal_def)
  ultimately have "field_ok allow (simple_fields (str ''/'')) (str ''content-length'', str ''5'')"
    by (simp add: field_ok_def pseudo_names has_field_def neq_facts del: str_simps)
  then show ?thesis using pre unfolding length_request_fields_def fields_wf_snoc by blast
qed

lemma meta_step:
  assumes "field_ok allow hs (n, v)" and "readFieldMeta hash (hs \<noteq> []) d rest = (d, Inr (Field n v False, r))" and "length hs < 128" and "rest \<noteq> []"
  shows "decodeMetaLoop hash d (meta_of allow hs) rest = decodeMetaLoop hash d (meta_of allow (hs @ [(n, v)])) r"
proof -
  have o: "observeHeader (meta_of allow hs) n v = ((meta_of allow (hs @ [(n, v)]))\<lparr>headerCount := length hs\<rparr>, None)"
    using observeHeader_step [of allow hs n v] assms(1) by simp
  have c: "headerCount (meta_of allow hs) = length hs" "(meta_of allow (hs @ [(n, v)]))\<lparr>headerCount := Suc (length hs)\<rparr> = meta_of allow (hs @ [(n, v)])"
    by (simp_all add: meta_of_def)
  show ?thesis using assms(2-4) by (subst decodeMetaLoop.simps) (simp add: o c Let_def)
qed

lemma meta_refuses:
  "\<exists>meta. DecodeRequestMeta hash d length_request = (d, meta, Some ErrH2BadHeader)"
proof -
  let ?a = "allowExtendedConnect d" and ?m = "(str '':method'', str ''GET'')" and ?p = "(str '':path'', str ''/'')" and ?s = "(str '':scheme'', str ''https'')"
  have start: "zeroMeta\<lparr>allowProtocol := ?a\<rparr> = meta_of ?a []" using observeAll_iff [of ?a "[]"] by (simp add: fields_wf_def lengths_agree_def)
  have f1: "readFieldMeta hash ([] \<noteq> []) d (0x82 # r) = (d, Inr (Field (fst ?m) (snd ?m) False, r))" for r
    using one_byte_int(1) by (simp add: readFieldMeta_def lookupIndex_def static_entries del: str_simps)
  have f2: "readFieldMeta hash ([?m] \<noteq> []) d (0x84 # r) = (d, Inr (Field (fst ?p) (snd ?p) False, r))" for r
    using ints(1) by (simp add: readFieldMeta_def lookupIndex_def static_more del: str_simps)
  have f3: "readFieldMeta hash ([?m, ?p] \<noteq> []) d (0x87 # r) = (d, Inr (Field (fst ?s) (snd ?s) False, r))" for r
    using one_byte_int(2) by (simp add: readFieldMeta_def lookupIndex_def static_entries del: str_simps)
  have f4: "readFieldMeta hash True d [15, 13, 1, 53] = (d, Inr (Field (str ''content-length'') [] False, []))"
    using ints(2,3) by (simp add: readFieldMeta_def decodeLiteralMeta_def lookupName_def static_more Let_def decodeStringSelective_def hpackSkipString_def wantValue_def)
  have wf: "fields_wf ?a ([?m, ?p] @ [?s])" using simple_wf [of ?a "str ''/''"] by (simp add: isValidH2Path_iff)
  note wf2 = iffD1 [OF fields_wf_snoc wf]
  have "fields_wf ?a ([?m] @ [?p])" using wf2 by simp
  note wf1 = iffD1 [OF fields_wf_snoc this]
  have "fields_wf ?a ([] @ [?m])" using wf1 by simp
  note wf0 = iffD1 [OF fields_wf_snoc this]
  note ok = wf2 [THEN conjunct2] wf1 [THEN conjunct2] wf0 [THEN conjunct2]
  have bad: "\<not> field_ok ?a [?m, ?p, ?s] (str ''content-length'', [])"
    by (simp add: field_ok_def pseudo_names parseUint_def del: str_simps)
  obtain m' where o: "observeHeader (meta_of ?a [?m, ?p, ?s]) (str ''content-length'') [] = (m', Some ErrH2BadHeader)"
    using observeHeader_step [of ?a "[?m, ?p, ?s]" "str ''content-length''" "[]"] bad
    by (cases "observeHeader (meta_of ?a [?m, ?p, ?s]) (str ''content-length'') []") (simp del: str_simps)
  have c: "headerCount (meta_of ?a [?m, ?p, ?s]) = 3" by (simp add: meta_of_def)
  have "DecodeRequestMeta hash d length_request = decodeMetaLoop hash d (meta_of ?a [?m, ?p, ?s]) [15, 13, 1, 53]"
    unfolding DecodeRequestMeta_def start length_request_def
    using meta_step [OF ok(3) f1 [unfolded prod.sel]] meta_step [OF ok(2) f2 [unfolded prod.sel]] meta_step [OF ok(1) f3 [unfolded prod.sel]] by (simp del: str_simps)
  also have "\<dots> = (d, m', Some ErrH2BadHeader)" using f4 by (subst decodeMetaLoop.simps) (simp add: o c del: str_simps)
  finally show ?thesis by blast
qed

text \<open>
  C34: \<open>DecodeRequestMeta\<close> refuses requests that \<open>DecodeRequest\<close> accepts.  A request for the root with the
  field \<open>content-length: 5\<close>, sent as a literal without indexing, is accepted with exactly its four fields
  by the full decoder in every state with room for them, while the metadata decoder, which observes the
  skipped value as empty, ends with \<open>ErrH2BadHeader\<close>.
\<close>

theorem request_meta_refuses_content_length:
  assumes "decoder_state hash d" and "171 \<le> maxHeaderListSize d"
  shows "snd (snd (DecodeRequest hash d length_request)) = Inr (length_request_fields, True)
    \<and> snd (snd (DecodeRequestMeta hash d length_request)) = Some ErrH2BadHeader"
proof
  let ?a = "allowExtendedConnect d"
  obtain d' meta res where r: "DecodeRequest hash d length_request = (d', meta, res)" by (cases "DecodeRequest hash d length_request")
  have "length length_request < 2 ^ 64" by (simp add: length_request_def)
  then have spec: "decode_spec ?a (protocolMaxSize d) (maxHeaderListSize d) (abs_table d) length_request meta (abs_table d') res"
    using DecodeRequest_ref [of d length_request hash] decoder_state_inv [OF assms(1)] r by simp
  have "value_of (str '':method'') length_request_fields = str ''GET''" "value_of (str '':path'') length_request_fields = str ''/''"
    "value_of (str '':scheme'') length_request_fields = str ''https''" "has_field (str '':path'') length_request_fields"
    "\<not> has_field (str '':protocol'') length_request_fields"
    by (simp_all add: value_of_def has_field_def length_request_fields_def)
  then have v: "validate (meta_of ?a length_request_fields) = None" "is_root (meta_of ?a length_request_fields)"
    using mask_bits(5) by (simp_all add: validate_def meta_of_def pathFormValid_def is_root_def)
  have "same_fields length_request_fields hs' \<longleftrightarrow> hs' = length_request_fields" for hs' by (simp add: same_fields_def length_request_fields_def)
  moreover have "table_size length_request_fields = 171" by (simp add: length_request_fields_def entry_size_def)
  ultimately show "snd (snd (DecodeRequest hash d length_request)) = Inr (length_request_fields, True)"
    using spec assms(2) v length_wf [of ?a] unfolding decode_spec_def length_block r by (auto split: if_splits)
  show "snd (snd (DecodeRequestMeta hash d length_request)) = Some ErrH2BadHeader" using meta_refuses [of hash d] by auto
qed

theorem request_meta_refuses_content_length_witness:
  "snd (snd (DecodeRequestMeta (\<lambda>_. 7) ((newHpackDecoder 4096)\<lparr>allowExtendedConnect := False, maxHeaderListSize := 8192\<rparr>) length_request)) = Some ErrH2BadHeader"
  using request_meta_refuses_content_length [OF decoder_state.new [of "\<lambda>_. 7" 8192 False 4096]] by simp

end
