(* ===== verification/Hpack_Encode.thy ===== *)
theory Hpack_Encode
  imports Hpack_Decode
begin

text \<open>
  The HPACK encoder of \<open>core/hpack.go\<close>: integers, strings (Huffman coded when that is shorter), fields
  with a name of the static table, the cache of encoded static fields, status codes.  The encoder's
  buffer is the list it has written so far.  The cache is a global array of atomic pointers shared by
  all connections; it is part of the state of the operations that use it, and whatever other goroutines
  store there is an encoding of its own key.
\<close>

section \<open>Model\<close>

definition hpackHuffmanMinValueLen :: nat where "hpackHuffmanMinValueLen = 12"
definition hpackFieldCacheMaxValue :: nat where "hpackFieldCacheMaxValue = 96"
definition hpackFieldCacheSlots :: nat where "hpackFieldCacheSlots = 64"

definition EncodeString :: "byte list \<Rightarrow> gostring \<Rightarrow> byte list" where
  "EncodeString buf s =
     (if length s < hpackHuffmanMinValueLen then EncodeInt buf 0x00 7 (of_nat (length s)) @ s
      else
        let huffLen = hpackHuffmanEncodedLen s in
        if huffLen < length s then hpackHuffmanAppend (EncodeInt buf 0x80 7 (of_nat huffLen)) s
        else EncodeInt buf 0x00 7 (of_nat (length s)) @ s)"

text \<open>\<open>hpackStaticNameMap\<close> keeps the first index of a name.\<close>

definition hpackStaticNameMap :: "gostring \<Rightarrow> nat option" where
  "hpackStaticNameMap name = find (\<lambda>i. fst (HpackStaticTable ! i) = name) [1..<length HpackStaticTable]"

definition hpackFindStaticName :: "gostring \<Rightarrow> nat" where
  "hpackFindStaticName name =
     (if name = str '':authority'' then 1
      else if name = str '':method'' then 2
      else if name = str '':path'' then 4
      else if name = str '':scheme'' then 6
      else if name = str ''content-length'' then 28
      else if name = str ''content-type'' then 31
      else if name = str ''server'' then 54
      else case hpackStaticNameMap name of Some idx \<Rightarrow> idx | None \<Rightarrow> 0)"

definition EncodeHeader :: "byte list \<Rightarrow> gostring \<Rightarrow> gostring \<Rightarrow> byte list" where
  "EncodeHeader buf name v =
     (let name = ToLowerASCII name;
          idx = hpackFindStaticName name
      in if idx > 0 then EncodeString (EncodeInt buf 0x00 4 (of_nat idx)) v
         else EncodeString (EncodeString (buf @ [0x00]) name) v)"

text \<open>The cases of \<open>hpackFindStaticNameFold\<close>, in the order of the source, which selects them by length first.\<close>

definition staticNameFold :: "(gostring \<times> nat) list" where
  "staticNameFold =
    [(str ''age'', 21),
     (str ''via'', 60),
     (str ''date'', 33),
     (str ''etag'', 34),
     (str ''from'', 37),
     (str ''host'', 38),
     (str ''link'', 45),
     (str ''vary'', 59),
     (str '':path'', 4),
     (str ''allow'', 22),
     (str ''range'', 50),
     (str ''accept'', 19),
     (str ''cookie'', 32),
     (str ''expect'', 35),
     (str ''server'', 54),
     (str '':method'', 2),
     (str '':scheme'', 6),
     (str '':status'', 8),
     (str ''expires'', 36),
     (str ''referer'', 51),
     (str ''refresh'', 52),
     (str ''if-match'', 39),
     (str ''if-range'', 42),
     (str ''location'', 46),
     (str '':authority'', 1),
     (str ''set-cookie'', 55),
     (str ''user-agent'', 58),
     (str ''retry-after'', 53),
     (str ''content-type'', 31),
     (str ''max-forwards'', 47),
     (str ''accept-ranges'', 18),
     (str ''authorization'', 23),
     (str ''cache-control'', 24),
     (str ''content-range'', 30),
     (str ''if-none-match'', 41),
     (str ''last-modified'', 44),
     (str ''accept-charset'', 15),
     (str ''content-length'', 28),
     (str ''accept-encoding'', 16),
     (str ''accept-language'', 17),
     (str ''content-encoding'', 26),
     (str ''content-language'', 27),
     (str ''content-location'', 29),
     (str ''www-authenticate'', 61),
     (str ''if-modified-since'', 40),
     (str ''transfer-encoding'', 57),
     (str ''proxy-authenticate'', 48),
     (str ''content-disposition'', 25),
     (str ''if-unmodified-since'', 43),
     (str ''proxy-authorization'', 49),
     (str ''strict-transport-security'', 56),
     (str ''access-control-allow-origin'', 20)]"

definition hpackFindStaticNameFold :: "gostring \<Rightarrow> nat" where
  "hpackFindStaticNameFold name =
     (case find (\<lambda>(lit, idx). length name = length lit \<and> EqualFoldASCII name lit) staticNameFold of
        Some (_, idx) \<Rightarrow> idx
      | None \<Rightarrow> 0)"

fun lowerBits :: "gostring \<Rightarrow> nat \<Rightarrow> nat" where
  "lowerBits [] bits = bits"
| "lowerBits (c # s) bits = lowerBits s (bits + huffBitLen (asciiLower c))"

fun lowerHuffLoop :: "byte list \<Rightarrow> u64 \<Rightarrow> nat \<Rightarrow> gostring \<Rightarrow> byte list" where
  "lowerHuffLoop buf cur nbits [] =
     (if nbits > 0 then buf @ [ucast (push_bit (8 - nbits) cur OR drop_bit nbits 0xff)] else buf)"
| "lowerHuffLoop buf cur nbits (c # s) =
     (let (code, bits) = huffmanCodes ! unat (asciiLower c);
          cur = push_bit bits cur OR ucast code;
          (buf, nbits) = huffFlush buf cur (nbits + bits)
      in lowerHuffLoop buf cur nbits s)"

definition encodeStringLower :: "byte list \<Rightarrow> gostring \<Rightarrow> byte list" where
  "encodeStringLower buf s =
     (let n = length s;
          huffLen = (lowerBits s 0 + 7) div 8
      in if huffLen < n then lowerHuffLoop (EncodeInt buf 0x80 7 (of_nat huffLen)) 0 0 s
         else EncodeInt buf 0x00 7 (of_nat n) @ map asciiLower s)"

definition EncodeIndexed :: "byte list \<Rightarrow> u64 \<Rightarrow> byte list" where
  "EncodeIndexed buf idx = EncodeInt buf 0x80 7 idx"

definition EncodeStatus :: "byte list \<Rightarrow> int \<Rightarrow> byte list" where
  "EncodeStatus buf code =
     (if code = 200 then EncodeIndexed buf 8
      else if code = 204 then EncodeIndexed buf 9
      else if code = 206 then EncodeIndexed buf 10
      else if code = 304 then EncodeIndexed buf 11
      else if code = 400 then EncodeIndexed buf 12
      else if code = 404 then EncodeIndexed buf 13
      else if code = 500 then EncodeIndexed buf 14
      else
        let buf = EncodeInt buf 0x00 4 8;
            s = appendUint [] code
        in EncodeInt buf 0x00 7 (of_nat (length s)) @ s)"

text \<open>The encoder together with the global cache.\<close>

record hpackCachedField =
  cf_idx :: nat
  cf_value :: gostring
  cf_enc :: "byte list"

record HpackEncoder =
  Buf :: "byte list"
  hpackFieldCache :: "hpackCachedField option list"

definition hpackFieldCacheSlot :: "nat \<Rightarrow> gostring \<Rightarrow> nat" where
  "hpackFieldCacheSlot idx v =
     (let h = (of_nat idx :: u32) * 0x9E3779B1;
          h = h XOR of_nat (length v) * 0x85EBCA6B;
          h = (if length v > 0
               then h XOR (push_bit 8 (ucast (v ! 0)) XOR push_bit 16 (ucast (v ! (length v - 1))) XOR push_bit 24 (ucast (v ! (length v div 2))))
               else h)
      in unat (h XOR drop_bit 16 h) mod hpackFieldCacheSlots)"

definition encodeStaticFieldCached :: "HpackEncoder \<Rightarrow> nat \<Rightarrow> gostring \<Rightarrow> HpackEncoder" where
  "encodeStaticFieldCached e idx v =
     (if length v > hpackFieldCacheMaxValue then e\<lparr>Buf := EncodeString (EncodeInt (Buf e) 0x00 4 (of_nat idx)) v\<rparr>
      else
        let slot = hpackFieldCacheSlot idx v;
            start = length (Buf e);
            buf = EncodeString (EncodeInt (Buf e) 0x00 4 (of_nat idx)) v;
            missed = e\<lparr>Buf := buf, hpackFieldCache := (hpackFieldCache e)[slot := Some \<lparr>cf_idx = idx, cf_value = v, cf_enc = drop start buf\<rparr>]\<rparr>
        in case hpackFieldCache e ! slot of
             Some ent \<Rightarrow> if cf_idx ent = idx \<and> cf_value ent = v then e\<lparr>Buf := Buf e @ cf_enc ent\<rparr> else missed
           | None \<Rightarrow> missed)"

definition EncodeHeaderFold :: "HpackEncoder \<Rightarrow> gostring \<Rightarrow> gostring \<Rightarrow> HpackEncoder" where
  "EncodeHeaderFold e name v =
     (let idx = hpackFindStaticNameFold name in
      if idx > 0 then encodeStaticFieldCached e idx v
      else e\<lparr>Buf := EncodeString (encodeStringLower (Buf e @ [0x00]) name) v\<rparr>)"

section \<open>Every operation appends\<close>

lemma EncodeInt_ne: "EncodeInt [] p N v \<noteq> []"
  by (metis EncodeInt_hd list.distinct(1))

lemma EncodeString_append: "EncodeString buf s = buf @ EncodeString [] s"
  unfolding EncodeString_def Let_def EncodeInt_append [of buf]
  by (simp add: hpackHuffmanAppend_dst [of "buf @ _"] hpackHuffmanAppend_dst [of "EncodeInt _ _ _ _"])

lemma lowerHuffLoop_map: "lowerHuffLoop buf cur nbits s = huffAppendLoop buf cur nbits (map asciiLower s)"
  by (induction s arbitrary: buf cur nbits) (simp_all add: Let_def split: prod.splits)

lemma lowerBits_sum: "lowerBits s n = n + length (enc_bits (map asciiLower s))"
  by (induction s arbitrary: n) (simp_all add: huffBitLen_def bits_of_def)

text \<open>Writing in lower case is writing the lower-case string, except that short strings may be Huffman coded.\<close>

definition huff_string :: "gostring \<Rightarrow> byte list" where
  "huff_string s = EncodeInt [] 0x80 7 (of_nat (hpackHuffmanEncodedLen s)) @ hpackHuffmanAppend [] s"

definition raw_string :: "gostring \<Rightarrow> byte list" where
  "raw_string s = EncodeInt [] 0x00 7 (of_nat (length s)) @ s"

lemma EncodeString_cases: "EncodeString [] s = raw_string s \<or> hpackHuffmanEncodedLen s < length s \<and> EncodeString [] s = huff_string s"
  by (auto simp: EncodeString_def raw_string_def huff_string_def Let_def hpackHuffmanAppend_dst [of "EncodeInt _ _ _ _"])

lemma encodeStringLower_cases:
  "\<exists>b. encodeStringLower buf s = buf @ b \<and>
     (b = raw_string (map asciiLower s) \<or> hpackHuffmanEncodedLen (map asciiLower s) < length s \<and> b = huff_string (map asciiLower s))"
proof -
  have "(lowerBits s 0 + 7) div 8 = hpackHuffmanEncodedLen (map asciiLower s)"
    by (simp add: lowerBits_sum hpackHuffmanEncodedLen_def encodedLenLoop_sum)
  then show ?thesis
    by (auto simp: encodeStringLower_def Let_def lowerHuffLoop_map raw_string_def huff_string_def EncodeInt_append [of buf]
        hpackHuffmanAppend_dst [of "buf @ EncodeInt _ _ _ _", unfolded hpackHuffmanAppend_def] hpackHuffmanAppend_def)
qed

section \<open>Strings are read back\<close>

lemma first_byte_bit: "j < 8 \<Longrightarrow> N \<le> j \<Longrightarrow> bit (EncodeInt [] p N v ! 0) j = bit p j"
proof -
  assume j: "j < 8" "N \<le> j"
  have "unat (min v (maxFirst N)) < 2 ^ N"
  proof -
    have "unat (min v (maxFirst N)) \<le> unat (maxFirst N)" by (simp add: word_le_nat_alt [symmetric])
    then show ?thesis using unat_maxFirst [of N] j by (simp add: le_less_trans)
  qed
  then have "\<not> bit (min v (maxFirst N)) j" using bit_less_exp [of "min v (maxFirst N)" N j] j by auto
  then show ?thesis using j by (subst EncodeInt_hd) (simp add: bit_or_iff bit_ucast_iff)
qed

lemma and_bit: "(b AND 0x80 \<noteq> 0) = bit b 7" "(b AND 0x40 \<noteq> 0) = bit b 6" "(b AND 0x20 \<noteq> 0) = bit b 5" for b :: byte
  using and_exp_eq_0_iff_not_bit [of b 7] and_exp_eq_0_iff_not_bit [of b 6] and_exp_eq_0_iff_not_bit [of b 5] by simp_all

lemma const_bits: "bit (0x80 :: byte) 7" "\<not> bit (0 :: byte) j" "bit (0x40 :: byte) 6" "\<not> bit (0x40 :: byte) 7" "bit (0x20 :: byte) 5"
  "\<not> bit (0x20 :: byte) 6" "\<not> bit (0x20 :: byte) 7"
proof -
  have "(0x80 :: byte) = 2 ^ 7" "(0x40 :: byte) = 2 ^ 6" "(0x20 :: byte) = 2 ^ 5" by simp_all
  note c = this
  show "bit (0x80 :: byte) 7" "\<not> bit (0 :: byte) j" "bit (0x40 :: byte) 6" "\<not> bit (0x40 :: byte) 7" "bit (0x20 :: byte) 5"
    "\<not> bit (0x20 :: byte) 6" "\<not> bit (0x20 :: byte) 7"
    unfolding c bit_exp_iff by simp_all
qed

lemma decode_raw: "length s < 2 ^ 64 \<Longrightarrow> HpackDecodeString (raw_string s @ rest) = (s, length (raw_string s))"
proof -
  assume len: "length s < 2 ^ 64"
  let ?i = "EncodeInt [] 0x00 7 (of_nat (length s))"
  have "unat (of_nat (length s) :: u64) = length s" using len by (simp add: unat_of_nat)
  moreover have "HpackDecodeInt (?i @ s @ rest) 7 = (of_nat (length s), length ?i)" by (rule decodeInt_encodeInt) simp_all
  moreover have "\<not> bit ((?i @ s @ rest) ! 0) 7" using first_byte_bit [of 7 7 0 "of_nat (length s)"] EncodeInt_ne [of 0 7] by (simp add: nth_append const_bits)
  ultimately show ?thesis by (simp add: HpackDecodeString_def raw_string_def and_bit EncodeInt_ne)
qed

lemma decode_huff:
  assumes "hpackHuffmanEncodedLen s < 2 ^ 64"
  shows "HpackDecodeString (huff_string s @ rest) = (s, length (huff_string s))"
proof -
  let ?n = "hpackHuffmanEncodedLen s" and ?h = "hpackHuffmanAppend [] s"
  let ?i = "EncodeInt [] 0x80 7 (of_nat ?n)"
  have "unat (of_nat ?n :: u64) = ?n" using assms by (simp add: unat_of_nat)
  moreover have "HpackDecodeInt (?i @ ?h @ rest) 7 = (of_nat ?n, length ?i)" by (rule decodeInt_encodeInt) simp_all
  moreover have "bit ((?i @ ?h @ rest) ! 0) 7" using first_byte_bit [of 7 7 "0x80" "of_nat ?n"] EncodeInt_ne [of "0x80" 7] by (simp add: nth_append const_bits)
  ultimately show ?thesis by (simp add: HpackDecodeString_def huff_string_def and_bit EncodeInt_ne length_hpackHuffmanAppend)
qed

lemma decode_EncodeString:
  assumes "length s < 2 ^ 64"
  shows "HpackDecodeString (EncodeString [] s @ rest) = (s, length (EncodeString [] s))" "0 < length (EncodeString [] s)"
proof -
  show "HpackDecodeString (EncodeString [] s @ rest) = (s, length (EncodeString [] s))"
    using EncodeString_cases [of s] decode_raw [OF assms] decode_huff [of s] assms by (metis order_less_trans)
  show "0 < length (EncodeString [] s)" using EncodeString_cases [of s] EncodeInt_ne by (auto simp: raw_string_def huff_string_def)
qed

section \<open>Fields are read back\<close>

text \<open>
  The bytes make the reference decoder go from the table \<open>t\<close> to \<open>t'\<close> and deliver the fields \<open>hs\<close>,
  wherever in a block they are, as long as the block stays within the limit of 128 fields.
\<close>

definition emits :: "int \<Rightarrow> table \<Rightarrow> byte list \<Rightarrow> table \<Rightarrow> header list \<Rightarrow> bool" where
  "emits p t bytes t' hs \<longleftrightarrow> (\<forall>headers rest. length headers + length hs \<le> 128 \<longrightarrow>
     ref_block p t headers (bytes @ rest) = ref_block p t' (headers @ hs) rest)"

lemma emits_Nil [simp]: "emits p t [] t []"
  by (simp add: emits_def)

lemma emits_append: "emits p t b1 t1 hs1 \<Longrightarrow> emits p t1 b2 t2 hs2 \<Longrightarrow> emits p t (b1 @ b2) t2 (hs1 @ hs2)"
  unfolding emits_def by (metis (no_types, lifting) add.assoc append.assoc length_append order_trans le_add1)

lemma emits_field:
  assumes "\<And>after rest. ref_field p after t (bytes @ rest) = Inr (t1, Field n v b, rest)" and "bytes \<noteq> []"
  shows "emits p t bytes (ref_insert b t1 (n, v)) [(n, v)]"
  unfolding emits_def
proof (intro allI impI)
  fix headers :: "header list" and rest
  assume "length headers + length [(n, v)] \<le> 128"
  then show "ref_block p t headers (bytes @ rest) = ref_block p (ref_insert b t1 (n, v)) (headers @ [(n, v)]) rest"
    using assms by (subst ref_block.simps) simp
qed

text \<open>The first byte of a representation.\<close>

lemma first_byte:
  "(EncodeInt [] 0x80 7 v @ rest) ! 0 AND 0x80 \<noteq> 0"
  "(EncodeInt [] 0x40 6 v @ rest) ! 0 AND 0x80 = 0" "(EncodeInt [] 0x40 6 v @ rest) ! 0 AND 0x40 \<noteq> 0"
  "(EncodeInt [] 0x20 5 v @ rest) ! 0 AND 0x80 = 0" "(EncodeInt [] 0x20 5 v @ rest) ! 0 AND 0x40 = 0" "(EncodeInt [] 0x20 5 v @ rest) ! 0 AND 0x20 \<noteq> 0"
  "(EncodeInt [] 0 4 v @ rest) ! 0 AND 0x80 = 0" "(EncodeInt [] 0 4 v @ rest) ! 0 AND 0x40 = 0" "(EncodeInt [] 0 4 v @ rest) ! 0 AND 0x20 = 0"
proof -
  have at: "(EncodeInt [] q N v @ rest) ! 0 = EncodeInt [] q N v ! 0" for q N using EncodeInt_ne [of q N v] by (simp add: nth_append)
  have iff: "(b AND 0x80 = 0) = (\<not> bit b 7)" "(b AND 0x40 = 0) = (\<not> bit b 6)" "(b AND 0x20 = 0) = (\<not> bit b 5)" for b :: byte
    using and_bit [of b] by auto
  show "(EncodeInt [] 0x80 7 v @ rest) ! 0 AND 0x80 \<noteq> 0"
    "(EncodeInt [] 0x40 6 v @ rest) ! 0 AND 0x80 = 0" "(EncodeInt [] 0x40 6 v @ rest) ! 0 AND 0x40 \<noteq> 0"
    "(EncodeInt [] 0x20 5 v @ rest) ! 0 AND 0x80 = 0" "(EncodeInt [] 0x20 5 v @ rest) ! 0 AND 0x40 = 0" "(EncodeInt [] 0x20 5 v @ rest) ! 0 AND 0x20 \<noteq> 0"
    "(EncodeInt [] 0 4 v @ rest) ! 0 AND 0x80 = 0" "(EncodeInt [] 0 4 v @ rest) ! 0 AND 0x40 = 0" "(EncodeInt [] 0 4 v @ rest) ! 0 AND 0x20 = 0"
    unfolding iff at by (simp_all add: first_byte_bit const_bits)
qed

lemma ref_literal_indexed:
  assumes "table_lookup (snd t) (unat i) = Some (n, w)" and "length v < 2 ^ 64" and "1 \<le> N" "N \<le> 8" "flags AND (push_bit N 1 - 1) = 0"
  shows "ref_literal N t (EncodeInt [] flags N i @ EncodeString [] v @ rest) = Some (n, v, rest)"
proof -
  have "0 < i" using assms(1) by (auto simp: table_lookup_def word_gt_0)
  then show ?thesis using decode_EncodeString [OF assms(2)] assms(1) EncodeInt_ne [of flags N i]
    by (simp add: ref_literal_def decodeInt_encodeInt [OF assms(3-5)] Let_def)
qed

lemma ref_literal_named:
  assumes "HpackDecodeString (nb @ EncodeString [] v @ rest) = (n, length nb)" and "nb \<noteq> []" and "length v < 2 ^ 64"
    and "HpackDecodeInt (flags # nb @ EncodeString [] v @ rest) N = (0, 1)"
  shows "ref_literal N t (flags # nb @ EncodeString [] v @ rest) = Some (n, v, rest)"
  using decode_EncodeString [OF assms(3)] assms by (simp add: ref_literal_def Let_def)

lemma zero_prefix: "HpackDecodeInt (0 # r) 4 = (0, 1)" "HpackDecodeInt (0x40 # r) 6 = (0, 1)"
  by (simp_all add: HpackDecodeInt_def)

text \<open>The four kinds of representation the encoder writes, and the size update.\<close>

lemma emits_indexed:
  assumes "table_lookup (snd t) (unat i) = Some h"
  shows "emits p t (EncodeInt [] 0x80 7 i) t [h]"
proof (cases h)
  case (Pair n v)
  have "ref_field p after t (EncodeInt [] 0x80 7 i @ rest) = Inr (t, Field n v False, rest)" for after rest
    unfolding ref_field_def Let_def using assms Pair first_byte(1) [of i rest] EncodeInt_ne [of "0x80" 7 i]
    by (simp add: decodeInt_encodeInt)
  from emits_field [OF this EncodeInt_ne] show ?thesis by (simp add: ref_insert_def Pair)
qed

lemma emits_literal_indexed:
  assumes "table_lookup (snd t) (unat i) = Some (n, w)" and "length v < 2 ^ 64"
  shows "emits p t (EncodeInt [] 0 4 i @ EncodeString [] v) t [(n, v)]"
    and "emits p t (EncodeInt [] 0x40 6 i @ EncodeString [] v) (ref_insert True t (n, v)) [(n, v)]"
proof -
  have "ref_field p after t ((EncodeInt [] 0 4 i @ EncodeString [] v) @ rest) = Inr (t, Field n v False, rest)" for after rest
    unfolding ref_field_def Let_def using first_byte(7-9) [of i "EncodeString [] v @ rest"] ref_literal_indexed [OF assms, of 4 0 rest] by simp
  from emits_field [OF this] show "emits p t (EncodeInt [] 0 4 i @ EncodeString [] v) t [(n, v)]" using EncodeInt_ne by (simp add: ref_insert_def)
  have "ref_field p after t ((EncodeInt [] 0x40 6 i @ EncodeString [] v) @ rest) = Inr (t, Field n v True, rest)" for after rest
    unfolding ref_field_def Let_def using first_byte(2,3) [of i "EncodeString [] v @ rest"] ref_literal_indexed [OF assms, of 6 "0x40" rest] by simp
  from emits_field [OF this] show "emits p t (EncodeInt [] 0x40 6 i @ EncodeString [] v) (ref_insert True t (n, v)) [(n, v)]" using EncodeInt_ne by simp
qed

lemma emits_literal_named:
  assumes "\<And>r. HpackDecodeString (nb @ r) = (n, length nb)" and "nb \<noteq> []" and "length v < 2 ^ 64"
  shows "emits p t (0 # nb @ EncodeString [] v) t [(n, v)]"
    and "emits p t (0x40 # nb @ EncodeString [] v) (ref_insert True t (n, v)) [(n, v)]"
proof -
  have "ref_field p after t ((0 # nb @ EncodeString [] v) @ rest) = Inr (t, Field n v False, rest)" for after rest
    unfolding ref_field_def Let_def using ref_literal_named [OF assms(1,2,3) zero_prefix(1)] by simp
  from emits_field [OF this] show "emits p t (0 # nb @ EncodeString [] v) t [(n, v)]" by (simp add: ref_insert_def)
  have "ref_field p after t ((0x40 # nb @ EncodeString [] v) @ rest) = Inr (t, Field n v True, rest)" for after rest
    unfolding ref_field_def Let_def using ref_literal_named [OF assms(1,2,3) zero_prefix(2)] by simp
  from emits_field [OF this] show "emits p t (0x40 # nb @ EncodeString [] v) (ref_insert True t (n, v)) [(n, v)]" by simp
qed

lemma ref_block_update:
  assumes "uint m \<le> p"
  shows "ref_block p t [] (EncodeInt [] 0x20 5 m @ rest) = ref_block p (uint m, take_fit (uint m) (snd t)) [] rest"
proof -
  have "ref_field p False t (EncodeInt [] 0x20 5 m @ rest) = Inr ((uint m, take_fit (uint m) (snd t)), SizeUpdate, rest)"
    unfolding ref_field_def Let_def using assms first_byte(4-6) [of m rest] EncodeInt_ne [of "0x20" 5 m] by (simp add: decodeInt_encodeInt)
  then show ?thesis using EncodeInt_ne [of "0x20" 5 m] by (subst ref_block.simps) simp
qed

section \<open>Names, cached fields, status codes\<close>

lemma static_fold_ok: "list_all (\<lambda>(lit, idx). 0 < idx \<and> idx < 62 \<and> fst (HpackStaticTable ! idx) = lit \<and> map asciiLower lit = lit) staticNameFold"
  unfolding staticNameFold_def HpackStaticTable_def by (simp add: asciiLower_def)

lemma findStaticNameFold:
  assumes "hpackFindStaticNameFold name > 0"
  shows "hpackFindStaticNameFold name < 62 \<and> fst (HpackStaticTable ! hpackFindStaticNameFold name) = map asciiLower name"
proof -
  obtain lit idx where f: "find (\<lambda>(lit, idx). length name = length lit \<and> EqualFoldASCII name lit) staticNameFold = Some (lit, idx)"
    using assms by (cases "find (\<lambda>(lit, idx). length name = length lit \<and> EqualFoldASCII name lit) staticNameFold") (auto simp: hpackFindStaticNameFold_def)
  then have "(lit, idx) \<in> set staticNameFold" "map asciiLower name = map asciiLower lit"
    by (auto simp: find_Some_iff EqualFoldASCII_iff) (metis nth_mem)
  then show ?thesis using static_fold_ok f by (auto simp: list_all_iff hpackFindStaticNameFold_def)
qed

lemma findStaticName:
  assumes "hpackFindStaticName name > 0"
  shows "hpackFindStaticName name < 62 \<and> fst (HpackStaticTable ! hpackFindStaticName name) = name"
proof -
  have m: "hpackStaticNameMap name = Some i \<Longrightarrow> i < 62 \<and> fst (HpackStaticTable ! i) = name" for i
    by (auto simp: hpackStaticNameMap_def find_Some_iff nth_append)
  have "fst (HpackStaticTable ! 1) = str '':authority''" "fst (HpackStaticTable ! 2) = str '':method''" "fst (HpackStaticTable ! 4) = str '':path''"
    "fst (HpackStaticTable ! 6) = str '':scheme''" "fst (HpackStaticTable ! 28) = str ''content-length''" "fst (HpackStaticTable ! 31) = str ''content-type''"
    "fst (HpackStaticTable ! 54) = str ''server''" by (simp_all add: HpackStaticTable_def)
  then show ?thesis using assms m unfolding hpackFindStaticName_def by (auto simp del: str_simps split: if_splits option.splits)
qed

lemma table_lookup_static: "0 < i \<Longrightarrow> i < 62 \<Longrightarrow> table_lookup es i = Some (HpackStaticTable ! i)"
  by (simp add: table_lookup_def)

lemma emits_static:
  assumes "0 < i" "i < 62" "fst (HpackStaticTable ! i) = n" "length v < 2 ^ 64"
  shows "emits p t (EncodeInt [] 0 4 (of_nat i) @ EncodeString [] v) t [(n, v)]"
    and "emits p t (EncodeInt [] 0x40 6 (of_nat i) @ EncodeString [] v) (ref_insert True t (n, v)) [(n, v)]"
proof -
  have "unat (of_nat i :: u64) = i" using assms(2) by (simp add: unat_of_nat)
  then have "table_lookup (snd t) (unat (of_nat i :: u64)) = Some (n, snd (HpackStaticTable ! i))"
    using table_lookup_static assms(1-3) by (metis prod.collapse)
  from emits_literal_indexed [OF this assms(4)] show
    "emits p t (EncodeInt [] 0 4 (of_nat i) @ EncodeString [] v) t [(n, v)]"
    "emits p t (EncodeInt [] 0x40 6 (of_nat i) @ EncodeString [] v) (ref_insert True t (n, v)) [(n, v)]" .
qed

lemma emits_static_raw:
  assumes "0 < i" "i < 62" "fst (HpackStaticTable ! i) = n" "length v < 2 ^ 64"
  shows "emits p t (EncodeInt [] 0 4 (of_nat i) @ raw_string v) t [(n, v)]"
proof -
  have "unat (of_nat i :: u64) = i" using assms(2) by (simp add: unat_of_nat)
  then have "table_lookup (snd t) (unat (of_nat i :: u64)) = Some (n, snd (HpackStaticTable ! i))" "0 < (of_nat i :: u64)"
    using table_lookup_static assms(1-3) by (metis prod.collapse, metis unat_gt_0 word_neq_0_conv)
  then have "ref_literal 4 t (EncodeInt [] 0 4 (of_nat i) @ raw_string v @ rest) = Some (n, v, rest)" for rest
    using decode_raw [OF assms(4)] by (simp add: EncodeInt_ne ref_literal_def decodeInt_encodeInt Let_def raw_string_def)
  then have "ref_field p after t ((EncodeInt [] 0 4 (of_nat i) @ raw_string v) @ rest) = Inr (t, Field n v False, rest)" for after rest
    unfolding ref_field_def Let_def using first_byte(7-9) [of "of_nat i" "raw_string v @ rest"] by simp
  from emits_field [OF this] show ?thesis using EncodeInt_ne by (simp add: ref_insert_def)
qed

text \<open>The cache holds encodings of its keys.\<close>

definition field_cache_ok :: "hpackCachedField option list \<Rightarrow> bool" where
  "field_cache_ok c \<longleftrightarrow> length c = hpackFieldCacheSlots
     \<and> list_all (\<lambda>x. case x of None \<Rightarrow> True | Some f \<Rightarrow> cf_enc f = EncodeInt [] 0 4 (of_nat (cf_idx f)) @ EncodeString [] (cf_value f)) c"

lemma encodeStaticFieldCached_eq:
  assumes "field_cache_ok (hpackFieldCache e)"
  shows "Buf (encodeStaticFieldCached e idx v) = Buf e @ EncodeInt [] 0 4 (of_nat idx) @ EncodeString [] v"
    and "field_cache_ok (hpackFieldCache (encodeStaticFieldCached e idx v))"
proof -
  let ?enc = "EncodeInt [] 0 4 (of_nat idx) @ EncodeString [] v" and ?slot = "hpackFieldCacheSlot idx v" and ?c = "hpackFieldCache e"
  have buf: "EncodeString (EncodeInt (Buf e) 0 4 (of_nat idx)) v = Buf e @ ?enc"
    using EncodeString_append [of "EncodeInt (Buf e) 0 4 (of_nat idx)" v] EncodeInt_append [of "Buf e" 0 4 "of_nat idx"] by simp
  have slot: "?slot < length ?c" using assms by (simp add: field_cache_ok_def hpackFieldCacheSlot_def hpackFieldCacheSlots_def Let_def)
  have hit: "cf_enc ent = EncodeInt [] 0 4 (of_nat (cf_idx ent)) @ EncodeString [] (cf_value ent)" if "?c ! ?slot = Some ent" for ent
    using assms slot that unfolding field_cache_ok_def list_all_length by fastforce
  have store: "field_cache_ok (?c[?slot := Some \<lparr>cf_idx = idx, cf_value = v, cf_enc = ?enc\<rparr>])"
    using assms slot unfolding field_cache_ok_def list_all_length by (auto simp: nth_list_update)
  show "Buf (encodeStaticFieldCached e idx v) = Buf e @ ?enc"
    unfolding encodeStaticFieldCached_def Let_def buf using hit by (auto split: option.splits)
  show "field_cache_ok (hpackFieldCache (encodeStaticFieldCached e idx v))"
    unfolding encodeStaticFieldCached_def Let_def buf using assms store by (auto split: option.splits)
qed

lemma decode_lower:
  assumes "length s < 2 ^ 64"
  obtains b where "encodeStringLower buf s = buf @ b" "b \<noteq> []" "\<And>r. HpackDecodeString (b @ r) = (map asciiLower s, length b)"
proof -
  obtain b where b: "encodeStringLower buf s = buf @ b" "b = raw_string (map asciiLower s) \<or>
      hpackHuffmanEncodedLen (map asciiLower s) < length s \<and> b = huff_string (map asciiLower s)"
    using encodeStringLower_cases [of buf s] by blast
  then have "b \<noteq> []" using EncodeInt_ne by (auto simp: raw_string_def huff_string_def)
  moreover have "HpackDecodeString (b @ r) = (map asciiLower s, length b)" for r
    using b(2) decode_raw [of "map asciiLower s" r] decode_huff [of "map asciiLower s" r] assms by (auto dest: order_less_trans)
  ultimately show thesis using that b(1) by blast
qed

text \<open>A field with any name, written in lower case.\<close>

lemma EncodeHeaderFold_emits:
  assumes "field_cache_ok (hpackFieldCache e)" and "length name < 2 ^ 64" and "length v < 2 ^ 64"
  shows "\<exists>b. Buf (EncodeHeaderFold e name v) = Buf e @ b \<and> (\<forall>t. emits p t b t [(map asciiLower name, v)])"
    and "field_cache_ok (hpackFieldCache (EncodeHeaderFold e name v))"
proof -
  let ?i = "hpackFindStaticNameFold name"
  show "\<exists>b. Buf (EncodeHeaderFold e name v) = Buf e @ b \<and> (\<forall>t. emits p t b t [(map asciiLower name, v)])"
  proof (cases "?i > 0")
    case True
    then show ?thesis using encodeStaticFieldCached_eq(1) [OF assms(1), of ?i v] findStaticNameFold [OF True]
        emits_static(1) [of ?i "map asciiLower name" v p] assms(3) by (auto simp: EncodeHeaderFold_def Let_def)
  next
    case False
    obtain b where b: "encodeStringLower (Buf e @ [0]) name = (Buf e @ [0]) @ b" "b \<noteq> []" "\<And>r. HpackDecodeString (b @ r) = (map asciiLower name, length b)"
      using decode_lower [OF assms(2)] by metis
    have "Buf (EncodeHeaderFold e name v) = Buf e @ 0 # b @ EncodeString [] v"
      using False b(1) EncodeString_append [of "Buf e @ [0] @ b" v] by (simp add: EncodeHeaderFold_def Let_def)
    then show ?thesis using emits_literal_named(1) [OF b(3,2) assms(3)] by auto
  qed
  show "field_cache_ok (hpackFieldCache (EncodeHeaderFold e name v))"
    using encodeStaticFieldCached_eq(2) [OF assms(1)] assms(1) by (simp add: EncodeHeaderFold_def Let_def)
qed

lemma length_appendUintLoop: "n < 100 ^ Suc k \<Longrightarrow> length (appendUintLoop n acc) \<le> length acc + 2 * Suc k"
proof (induction k arbitrary: n acc)
  case 0
  then show ?case by (subst appendUintLoop.simps) (simp add: store16_def)
next
  case (Suc k)
  have "n < 100 * X \<Longrightarrow> n div 100 < X" for X :: int by presburger
  then have "n div 100 < 100 ^ Suc k" using Suc.prems by simp
  from Suc.IH [OF this, of "store16 (digitPairs ! nat (n mod 100)) @ acc"] show ?case
    by (subst appendUintLoop.simps) (simp add: store16_def)
qed

lemma length_appendUint: "n < 2 ^ 63 \<Longrightarrow> length (appendUint [] n) \<le> 20" "n < 10 ^ 10 \<Longrightarrow> length (appendUint [] n) \<le> 10"
  using length_appendUintLoop [of n 9 "[]"] length_appendUintLoop [of n 4 "[]"] by (simp_all add: appendUint_def)

lemma common_status: "appendUint [] 200 = str ''200''" "appendUint [] 204 = str ''204''" "appendUint [] 206 = str ''206''"
  "appendUint [] 304 = str ''304''" "appendUint [] 400 = str ''400''" "appendUint [] 404 = str ''404''" "appendUint [] 500 = str ''500''"
  by (simp_all add: appendUint_def appendUintLoop.simps digitPairs_def store16_def)

lemma EncodeStatus_emits:
  assumes "code < 10 ^ 10"
  shows "\<exists>b. EncodeStatus buf code = buf @ b \<and> (\<forall>t. emits p t b t [(str '':status'', appendUint [] code)])"
proof (cases "code \<in> {200, 204, 206, 304, 400, 404, 500}")
  case True
  have st: "HpackStaticTable ! 8 = (str '':status'', str ''200'')" "HpackStaticTable ! 9 = (str '':status'', str ''204'')"
    "HpackStaticTable ! 10 = (str '':status'', str ''206'')" "HpackStaticTable ! 11 = (str '':status'', str ''304'')"
    "HpackStaticTable ! 12 = (str '':status'', str ''400'')" "HpackStaticTable ! 13 = (str '':status'', str ''404'')"
    "HpackStaticTable ! 14 = (str '':status'', str ''500'')" by (simp_all add: HpackStaticTable_def)
  obtain i :: u64 where i: "EncodeStatus buf code = EncodeInt buf 0x80 7 i" "i < 62" "0 < i" "HpackStaticTable ! unat i = (str '':status'', appendUint [] code)"
    using True common_status st that [of 8] that [of 9] that [of 10] that [of 11] that [of 12] that [of 13] that [of 14]
    by (auto simp: EncodeStatus_def EncodeIndexed_def simp del: str_simps)
  have "unat i < 62" "0 < unat i" using i(2,3) by (simp_all add: word_less_nat_alt)
  from table_lookup_static [OF this(2,1)] i(4) have "table_lookup (snd t) (unat i) = Some (str '':status'', appendUint [] code)" for t :: table by simp
  from emits_indexed [OF this] show ?thesis using i(1) EncodeInt_append [of buf] by auto
next
  case False
  let ?s = "appendUint [] code"
  have len: "length ?s \<le> 10" using length_appendUint(2) [OF assms] .
  have "EncodeStatus buf code = EncodeInt (EncodeInt buf 0 4 8) 0 7 (of_nat (length ?s)) @ ?s"
    using False unfolding EncodeStatus_def Let_def by auto
  then have "EncodeStatus buf code = buf @ EncodeInt [] 0 4 (of_nat 8) @ EncodeString [] ?s"
    using EncodeInt_append [of "EncodeInt buf 0 4 8"] EncodeInt_append [of buf 0 4 8] len by (simp add: EncodeString_def hpackHuffmanMinValueLen_def)
  moreover have "fst (HpackStaticTable ! 8) = str '':status''" by (simp add: HpackStaticTable_def)
  ultimately show ?thesis using emits_static(1) [of 8 "str '':status''" ?s p] len by (auto simp del: str_simps)
qed

lemma EncodeHeader_emits:
  assumes "length name < 2 ^ 64" and "length v < 2 ^ 64"
  shows "\<exists>b. EncodeHeader buf name v = buf @ b \<and> (\<forall>t. emits p t b t [(map asciiLower name, v)])"
proof (cases "hpackFindStaticName (map asciiLower name) > 0")
  case True
  let ?i = "hpackFindStaticName (map asciiLower name)"
  have "EncodeHeader buf name v = buf @ EncodeInt [] 0 4 (of_nat ?i) @ EncodeString [] v"
    using True EncodeString_append [of "EncodeInt buf 0 4 (of_nat ?i)"] EncodeInt_append [of buf] by (simp add: EncodeHeader_def ToLowerASCII_map)
  then show ?thesis using emits_static(1) [of ?i _ v] findStaticName [OF True] True assms(2) by blast
next
  case False
  let ?n = "map asciiLower name"
  have "EncodeHeader buf name v = buf @ 0 # EncodeString [] ?n @ EncodeString [] v"
    using False EncodeString_append [of "EncodeString (buf @ [0]) ?n"] EncodeString_append [of "buf @ [0]" ?n] by (simp add: EncodeHeader_def ToLowerASCII_map)
  moreover have "EncodeString [] ?n \<noteq> []" "HpackDecodeString (EncodeString [] ?n @ r) = (?n, length (EncodeString [] ?n))" for r
    using decode_EncodeString [of ?n] assms(1) by auto
  ultimately show ?thesis using emits_literal_named(1) [of "EncodeString [] ?n" ?n v] assms(2) by blast
qed

end
