(* ===== verification/Hpack_EncTable.thy ===== *)
theory Hpack_EncTable
  imports Hpack_Encode
begin

text \<open>
  The dynamic table of the response encoder, \<open>core/h2_enctable.go\<close>.  Entries are kept oldest first.
  The table provides the same contract as the decoder's ring, and a field it writes is read by a
  decoder whose table is in step with it.
\<close>

section \<open>Model\<close>

definition h2EncTableMaxSize :: int where "h2EncTableMaxSize = 4096"
definition h2EncIndexMaxValue :: nat where "h2EncIndexMaxValue = 128"

record hpackEncTable =
  et_entries :: "header list"
  et_size :: int
  et_maxSize :: int
  pendingUpdate :: bool
  et_gen :: u32

definition hpackEncEntrySize :: "gostring \<Rightarrow> gostring \<Rightarrow> int" where
  "hpackEncEntrySize name v = int (length name) + int (length v) + hpackEntryOverhead"

definition et_reset :: "'a hpackEncTable_scheme \<Rightarrow> 'a hpackEncTable_scheme" where
  "et_reset t = t\<lparr>et_entries := [], et_size := 0, et_maxSize := h2EncTableMaxSize, pendingUpdate := False, et_gen := et_gen t + 1\<rparr>"

text \<open>How many of the oldest entries have to go, and the size that remains.\<close>

fun evictCount :: "header list \<Rightarrow> int \<Rightarrow> int \<Rightarrow> nat \<times> int" where
  "evictCount [] sz limit = (0, sz)"
| "evictCount (e # es) sz limit =
     (if sz > limit then
        let (n, sz) = evictCount es (sz - hpackEncEntrySize (fst e) (snd e)) limit in (n + 1, sz)
      else (0, sz))"

definition evictTo :: "'a hpackEncTable_scheme \<Rightarrow> int \<Rightarrow> 'a hpackEncTable_scheme" where
  "evictTo t limit =
     (let (n, sz) = evictCount (et_entries t) (et_size t) limit;
          t = t\<lparr>et_size := sz\<rparr>
      in if n = 0 then t else t\<lparr>et_gen := et_gen t + 1, et_entries := drop n (et_entries t)\<rparr>)"

definition setPeerLimit :: "'a hpackEncTable_scheme \<Rightarrow> u32 \<Rightarrow> 'a hpackEncTable_scheme" where
  "setPeerLimit t limit =
     (let newMax = min (uint limit) h2EncTableMaxSize in
      if newMax = et_maxSize t then t
      else
        let t = evictTo (t\<lparr>et_maxSize := newMax\<rparr>) newMax
        in t\<lparr>pendingUpdate := True, et_gen := et_gen t + 1\<rparr>)"

definition et_find :: "'a hpackEncTable_scheme \<Rightarrow> gostring \<Rightarrow> gostring \<Rightarrow> nat" where
  "et_find t name v =
     (case find (\<lambda>i. snd (et_entries t ! i) = v \<and> fst (et_entries t ! i) = name) (rev [0..<length (et_entries t)]) of
        Some i \<Rightarrow> 62 + length (et_entries t) - 1 - i
      | None \<Rightarrow> 0)"

definition et_add :: "'a hpackEncTable_scheme \<Rightarrow> gostring \<Rightarrow> gostring \<Rightarrow> 'a hpackEncTable_scheme" where
  "et_add t name v =
     (let sz = hpackEncEntrySize name v in
      if sz > et_maxSize t then evictTo t 0
      else
        let t = evictTo t (et_maxSize t - sz)
        in t\<lparr>et_entries := et_entries t @ [(name, v)], et_size := et_size t + sz, et_gen := et_gen t + 1\<rparr>)"

definition beginBlock :: "'a hpackEncTable_scheme \<Rightarrow> byte list \<Rightarrow> 'a hpackEncTable_scheme \<times> byte list" where
  "beginBlock t buf =
     (if pendingUpdate t then (t\<lparr>pendingUpdate := False\<rparr>, EncodeInt buf 0x20 5 (of_int (et_maxSize t))) else (t, buf))"

definition encodeField :: "'a hpackEncTable_scheme \<Rightarrow> HpackEncoder \<Rightarrow> nat \<Rightarrow> gostring \<Rightarrow> gostring \<Rightarrow> 'a hpackEncTable_scheme \<times> HpackEncoder" where
  "encodeField t enc staticNameIdx lowerName v =
     (let idx = et_find t lowerName v in
      if idx > 0 then (t, enc\<lparr>Buf := EncodeIndexed (Buf enc) (of_nat idx)\<rparr>)
      else if length v > h2EncIndexMaxValue \<or> hpackEncEntrySize lowerName v > et_maxSize t then
        (if staticNameIdx > 0 then (t, encodeStaticFieldCached enc staticNameIdx v)
         else (t, enc\<lparr>Buf := EncodeString (EncodeString (Buf enc @ [0x00]) lowerName) v\<rparr>))
      else
        let buf = (if staticNameIdx > 0 then EncodeInt (Buf enc) 0x40 6 (of_nat staticNameIdx)
                   else EncodeString (Buf enc @ [0x40]) lowerName)
        in (et_add t lowerName v, enc\<lparr>Buf := EncodeString buf v\<rparr>))"

definition h2IndexableNames :: "gostring list" where
  "h2IndexableNames =
     [str ''vary'', str ''alt-svc'', str ''cache-control'', str ''x-frame-options'', str ''content-encoding'',
      str ''x-content-type-options'', str ''strict-transport-security'', str ''access-control-allow-origin'',
      str ''access-control-expose-headers'', str ''access-control-allow-credentials'']"

definition h2IndexableResponseField :: "gostring \<Rightarrow> gostring option" where
  "h2IndexableResponseField name = find (\<lambda>lit. length name = length lit \<and> EqualFoldASCII name lit) h2IndexableNames"

section \<open>The table\<close>

definition enc_entries :: "'a hpackEncTable_scheme \<Rightarrow> header list" where
  "enc_entries t = rev (et_entries t)"

definition enc_inv :: "'a hpackEncTable_scheme \<Rightarrow> bool" where
  "enc_inv t \<longleftrightarrow> et_size t = table_size (et_entries t) \<and> et_size t \<le> et_maxSize t \<and> et_maxSize t \<le> h2EncTableMaxSize"

lemma entry_size_enc: "hpackEncEntrySize n v = entry_size (n, v)"
  by (simp add: hpackEncEntrySize_def entry_size_def hpackEntryOverhead_def)

lemma table_size_rev [simp]: "table_size (rev es) = table_size es"
  by (induction es) simp_all

lemma evictCount_fit:
  "sz = table_size es \<Longrightarrow> 0 \<le> limit \<Longrightarrow> case evictCount es sz limit of (n, s) \<Rightarrow>
     n \<le> length es \<and> rev (drop n es) = take_fit limit (rev es) \<and> s = table_size (drop n es) \<and> (n = 0 \<longrightarrow> s = sz)"
proof (induction es arbitrary: sz)
  case (Cons e es)
  have rest: "sz - hpackEncEntrySize (fst e) (snd e) = table_size es" using Cons.prems by (simp add: entry_size_enc)
  show ?case
  proof (cases "sz > limit")
    case True
    have "take_fit limit (rev (e # es)) = take_fit limit (rev es)" using take_fit_snoc [of limit "rev es" e] True Cons.prems by simp
    then show ?thesis using Cons.IH [OF rest Cons.prems(2)] True by (auto split: prod.splits)
  next
    case False
    then show ?thesis using take_fit_all [of "rev (e # es)" limit] Cons.prems by simp
  qed
qed simp

lemma evictTo_fit:
  assumes "et_size t = table_size (et_entries t)" and "0 \<le> limit"
  shows "enc_entries (evictTo t limit) = take_fit limit (enc_entries t) \<and> et_size (evictTo t limit) = table_size (et_entries (evictTo t limit))
    \<and> et_maxSize (evictTo t limit) = et_maxSize t \<and> pendingUpdate (evictTo t limit) = pendingUpdate t \<and> hpackEncTable.more (evictTo t limit) = hpackEncTable.more t"
  using evictCount_fit [OF assms] by (auto simp: evictTo_def enc_entries_def Let_def split: prod.splits)

lemma enc_nonneg: "enc_inv t \<Longrightarrow> 0 \<le> et_maxSize t"
  using table_size_ge [of "et_entries t"] by (simp add: enc_inv_def)

lemma et_add_ok:
  assumes "enc_inv t"
  shows "enc_inv (et_add t n v) \<and> et_maxSize (et_add t n v) = et_maxSize t \<and> enc_entries (et_add t n v) = table_add (et_maxSize t) (enc_entries t) (n, v)
    \<and> pendingUpdate (et_add t n v) = pendingUpdate t \<and> hpackEncTable.more (et_add t n v) = hpackEncTable.more t"
proof (cases "entry_size (n, v) > et_maxSize t")
  case True
  have e: "enc_entries (evictTo t 0) = take_fit 0 (enc_entries t) \<and> et_size (evictTo t 0) = table_size (et_entries (evictTo t 0))
    \<and> et_maxSize (evictTo t 0) = et_maxSize t \<and> pendingUpdate (evictTo t 0) = pendingUpdate t \<and> hpackEncTable.more (evictTo t 0) = hpackEncTable.more t"
    using evictTo_fit [of t 0] assms by (simp add: enc_inv_def)
  moreover have "take_fit 0 (enc_entries t) = []" using entry_size_pos [of "hd (enc_entries t)"] by (cases "enc_entries t") auto
  ultimately have "et_entries (evictTo t 0) = []" by (simp add: enc_entries_def)
  with e True assms enc_nonneg [OF assms] show ?thesis by (simp add: et_add_def Let_def entry_size_enc table_add_def enc_inv_def enc_entries_def)
next
  case False
  let ?t = "evictTo t (et_maxSize t - entry_size (n, v))"
  have e: "enc_entries ?t = take_fit (et_maxSize t - entry_size (n, v)) (enc_entries t) \<and> et_size ?t = table_size (et_entries ?t)
    \<and> et_maxSize ?t = et_maxSize t \<and> pendingUpdate ?t = pendingUpdate t \<and> hpackEncTable.more ?t = hpackEncTable.more t"
    using evictTo_fit [of t "et_maxSize t - entry_size (n, v)"] assms False by (simp add: enc_inv_def)
  have "table_size (et_entries ?t) = table_size (enc_entries ?t)" by (simp add: enc_entries_def)
  then have "table_size (et_entries ?t) \<le> et_maxSize t - entry_size (n, v)"
    using take_fit_size [of "et_maxSize t - entry_size (n, v)" "enc_entries t"] e False by simp
  then show ?thesis using False e assms by (simp add: et_add_def Let_def entry_size_enc table_add_def enc_inv_def enc_entries_def)
qed

lemma setPeerLimit_ok:
  assumes "enc_inv t"
  shows "enc_inv (setPeerLimit t limit) \<and> et_maxSize (setPeerLimit t limit) = min (uint limit) h2EncTableMaxSize
    \<and> enc_entries (setPeerLimit t limit) = take_fit (min (uint limit) h2EncTableMaxSize) (enc_entries t)
    \<and> (pendingUpdate (setPeerLimit t limit) \<or> min (uint limit) h2EncTableMaxSize = et_maxSize t \<and> \<not> pendingUpdate t)
    \<and> hpackEncTable.more (setPeerLimit t limit) = hpackEncTable.more t"
proof (cases "min (uint limit) h2EncTableMaxSize = et_maxSize t")
  case True
  have "take_fit (et_maxSize t) (enc_entries t) = enc_entries t" using assms by (intro take_fit_all) (simp add: enc_inv_def enc_entries_def)
  then show ?thesis using True assms by (auto simp: setPeerLimit_def)
next
  case False
  let ?m = "min (uint limit) h2EncTableMaxSize" and ?t = "evictTo (t\<lparr>et_maxSize := min (uint limit) h2EncTableMaxSize\<rparr>) (min (uint limit) h2EncTableMaxSize)"
  have m: "0 \<le> ?m" using uint_nonnegative [of limit] by (simp add: h2EncTableMaxSize_def)
  have en: "enc_entries (t\<lparr>et_maxSize := ?m\<rparr>) = enc_entries t" by (simp add: enc_entries_def)
  have e: "enc_entries ?t = take_fit ?m (enc_entries t) \<and> et_size ?t = table_size (et_entries ?t) \<and> et_maxSize ?t = ?m
      \<and> pendingUpdate ?t = pendingUpdate t \<and> hpackEncTable.more ?t = hpackEncTable.more t"
    using evictTo_fit [of "t\<lparr>et_maxSize := ?m\<rparr>" ?m] assms m unfolding en by (simp add: enc_inv_def)
  have "table_size (et_entries ?t) = table_size (enc_entries ?t)" by (simp add: enc_entries_def)
  then have "table_size (et_entries ?t) \<le> ?m" using take_fit_size [OF m, of "enc_entries t"] e by simp
  then show ?thesis using False e by (simp add: setPeerLimit_def Let_def enc_inv_def enc_entries_def)
qed

interpretation encoder_table: header_table enc_inv enc_entries et_maxSize "\<lambda>_. h2EncTableMaxSize" et_add "\<lambda>t m. setPeerLimit t (of_int m)"
proof unfold_locales
  fix t :: "'a hpackEncTable_scheme" and n v m
  assume t: "enc_inv t"
  then show "table_size (enc_entries t) \<le> et_maxSize t \<and> et_maxSize t \<le> h2EncTableMaxSize" by (simp add: enc_inv_def enc_entries_def)
  show "enc_inv (et_add t n v) \<and> et_maxSize (et_add t n v) = et_maxSize t \<and> h2EncTableMaxSize = h2EncTableMaxSize
      \<and> enc_entries (et_add t n v) = table_add (et_maxSize t) (enc_entries t) (n, v)" using et_add_ok [OF t, of n v] by simp
  assume m: "0 \<le> m" "m \<le> h2EncTableMaxSize"
  then have "uint (of_int m :: u32) = m" by (simp add: h2EncTableMaxSize_def unsigned_of_int take_bit_int_eq_self)
  then show "enc_inv (setPeerLimit t (of_int m)) \<and> et_maxSize (setPeerLimit t (of_int m)) = m \<and> h2EncTableMaxSize = h2EncTableMaxSize
      \<and> enc_entries (setPeerLimit t (of_int m)) = take_fit m (enc_entries t)" using setPeerLimit_ok [OF t, of "of_int m"] m by simp
qed

lemma et_find_lookup:
  assumes "et_find t n v > 0"
  shows "table_lookup (enc_entries t) (et_find t n v) = Some (n, v)" and "et_find t n v < 62 + length (et_entries t)"
proof -
  obtain i where f: "find (\<lambda>i. snd (et_entries t ! i) = v \<and> fst (et_entries t ! i) = n) (rev [0..<length (et_entries t)]) = Some i"
    using assms by (cases "find (\<lambda>i. snd (et_entries t ! i) = v \<and> fst (et_entries t ! i) = n) (rev [0..<length (et_entries t)])") (auto simp: et_find_def)
  then have i: "i < length (et_entries t)" "et_entries t ! i = (n, v)"
    by (auto simp: find_Some_iff rev_nth prod_eq_iff)
  define k where "k = length (et_entries t) - 1 - i"
  have k: "et_find t n v = 62 + k" "k < length (et_entries t)" using f i by (simp_all add: et_find_def k_def)
  have "rev (et_entries t) ! k = (n, v)" using i by (simp add: rev_nth k_def)
  then show "table_lookup (enc_entries t) (et_find t n v) = Some (n, v)" using k by (simp add: table_lookup_def enc_entries_def)
  show "et_find t n v < 62 + length (et_entries t)" using k by simp
qed

section \<open>Encoder and decoder in step\<close>

text \<open>
  The decoder's table \<open>(limit, es)\<close> knows every entry the encoder refers to, under the same index, and has
  at least the encoder's size unless an update is still to be sent.
\<close>

definition in_step :: "int \<Rightarrow> 'a hpackEncTable_scheme \<Rightarrow> table \<Rightarrow> bool" where
  "in_step p t d \<longleftrightarrow> enc_inv t \<and> et_maxSize t \<le> p \<and> prefix (enc_entries t) (snd d) \<and> (pendingUpdate t \<or> et_maxSize t \<le> fst d)"

lemma take_fit_is_prefix: "prefix (take_fit m es) es"
  by (induction es arbitrary: m) auto

lemma in_step_setPeerLimit:
  assumes "in_step p t d"
  shows "in_step (uint limit) (setPeerLimit t limit) d"
proof -
  have "prefix (enc_entries (setPeerLimit t limit)) (snd d)"
    using setPeerLimit_ok [of t limit] take_fit_is_prefix [of "min (uint limit) h2EncTableMaxSize" "enc_entries t"] assms
    by (auto simp: in_step_def dest: prefix_order.trans)
  then show ?thesis using setPeerLimit_ok [of t limit] assms by (auto simp: in_step_def)
qed

lemma beginBlock_emits:
  assumes "in_step p t d" and "beginBlock t buf = (t', buf')"
  shows "\<exists>b d'. buf' = buf @ b \<and> (\<forall>rest. ref_block p d [] (b @ rest) = ref_block p d' [] rest)
    \<and> in_step p t' d' \<and> \<not> pendingUpdate t' \<and> enc_entries t' = enc_entries t \<and> hpackEncTable.more t' = hpackEncTable.more t"
proof (cases "pendingUpdate t")
  case True
  let ?m = "et_maxSize t" and ?w = "of_int (et_maxSize t) :: u64"
  have inv: "enc_inv t" using assms(1) by (simp add: in_step_def)
  have w: "uint ?w = ?m" using inv enc_nonneg [OF inv] by (simp add: enc_inv_def h2EncTableMaxSize_def unsigned_of_int take_bit_int_eq_self)
  let ?d = "(?m, take_fit ?m (snd d))"
  have "take_fit ?m (enc_entries t) = enc_entries t" using inv by (intro take_fit_all) (simp add: enc_inv_def enc_entries_def)
  then have "prefix (enc_entries t) (take_fit ?m (snd d))"
    using take_fit_prefix [of "enc_entries t" "snd d" ?m ?m] assms(1) by (simp add: in_step_def)
  then have "in_step p t' ?d" "enc_entries t' = enc_entries t" "\<not> pendingUpdate t'" "hpackEncTable.more t' = hpackEncTable.more t"
    using assms True by (auto simp: in_step_def beginBlock_def enc_inv_def enc_entries_def)
  moreover have "ref_block p d [] (EncodeInt [] 0x20 5 ?w @ rest) = ref_block p ?d [] rest" for rest
    using ref_block_update [of ?w p d rest] w assms(1) by (simp add: in_step_def)
  moreover have "buf' = buf @ EncodeInt [] 0x20 5 ?w" using assms(2) True EncodeInt_append [of buf] by (simp add: beginBlock_def)
  ultimately show ?thesis by blast
next
  case False
  then have "t' = t" "buf' = buf @ []" using assms(2) by (simp_all add: beginBlock_def)
  moreover have "ref_block p d [] ([] @ rest) = ref_block p d [] rest" for rest by simp
  ultimately show ?thesis using assms(1) False by blast
qed

lemma encodeField_emits:
  assumes "in_step p t d" and "\<not> pendingUpdate t" and "field_cache_ok (hpackFieldCache enc)" and "length n < 2 ^ 64" and "length v < 2 ^ 64"
    and "idx > 0 \<longrightarrow> idx < 62 \<and> fst (HpackStaticTable ! idx) = n" and "encodeField t enc idx n v = (t', enc')"
  shows "\<exists>b d'. Buf enc' = Buf enc @ b \<and> emits p d b d' [(n, v)] \<and> in_step p t' d' \<and> \<not> pendingUpdate t'
    \<and> field_cache_ok (hpackFieldCache enc') \<and> hpackEncTable.more t' = hpackEncTable.more t"
proof -
  have inv: "enc_inv t" "prefix (enc_entries t) (snd d)" "et_maxSize t \<le> fst d" using assms(1,2) by (auto simp: in_step_def)
  consider (found) "et_find t n v > 0" | (plain) "et_find t n v = 0" "length v > h2EncIndexMaxValue \<or> hpackEncEntrySize n v > et_maxSize t"
    | (insert) "et_find t n v = 0" "\<not> (length v > h2EncIndexMaxValue \<or> hpackEncEntrySize n v > et_maxSize t)" by blast
  then show ?thesis
  proof cases
    case found
    let ?i = "et_find t n v"
    have "32 * int (length (et_entries t)) \<le> 4096" using table_size_ge [of "et_entries t"] inv(1) by (simp add: enc_inv_def h2EncTableMaxSize_def)
    then have "unat (of_nat ?i :: u64) = ?i" using et_find_lookup(2) [OF found] by (simp add: unat_of_nat)
    then have "table_lookup (snd d) (unat (of_nat ?i :: u64)) = Some (n, v)"
      using table_lookup_prefix [OF inv(2) et_find_lookup(1) [OF found]] by simp
    from emits_indexed [OF this, of p] show ?thesis using found assms EncodeInt_append [of "Buf enc"]
      by (intro exI [of _ "EncodeInt [] 0x80 7 (of_nat ?i)"] exI [of _ d]) (auto simp: encodeField_def EncodeIndexed_def)
  next
    case plain
    show ?thesis
    proof (cases "idx > 0")
      case True
      then show ?thesis using plain assms encodeStaticFieldCached_eq [OF assms(3), of idx v] emits_static(1) [of idx n v p d]
        by (intro exI [of _ "EncodeInt [] 0 4 (of_nat idx) @ EncodeString [] v"] exI [of _ d]) (auto simp: encodeField_def)
    next
      case False
      have "EncodeString [] n \<noteq> []" "HpackDecodeString (EncodeString [] n @ r) = (n, length (EncodeString [] n))" for r
        using decode_EncodeString [of n] assms(4) by auto
      from emits_literal_named(1) [OF this(2,1) assms(5), of p d] show ?thesis
        using plain False assms EncodeString_append [of "EncodeString (Buf enc @ [0]) n" v] EncodeString_append [of "Buf enc @ [0]" n]
        by (intro exI [of _ "0 # EncodeString [] n @ EncodeString [] v"] exI [of _ d]) (auto simp: encodeField_def)
    qed
  next
    case insert
    let ?d = "ref_insert True d (n, v)" and ?b = "if idx > 0 then EncodeInt [] 0x40 6 (of_nat idx) @ EncodeString [] v else 0x40 # EncodeString [] n @ EncodeString [] v"
    have add: "in_step p (et_add t n v) ?d" "\<not> pendingUpdate (et_add t n v)" "hpackEncTable.more (et_add t n v) = hpackEncTable.more t"
      using et_add_ok [OF inv(1), of n v] assms(1,2) table_add_prefix [OF inv(2,3), of "(n, v)"] inv(3)
      by (simp_all add: in_step_def ref_insert_def)
    have res: "t' = et_add t n v" "Buf enc' = Buf enc @ ?b" "hpackFieldCache enc' = hpackFieldCache enc"
      using insert assms(7) EncodeString_append [of "EncodeString (Buf enc @ [0x40]) n" v] EncodeString_append [of "Buf enc @ [0x40]" n]
        EncodeString_append [of "EncodeInt (Buf enc) 0x40 6 (of_nat idx)" v] EncodeInt_append [of "Buf enc"]
      by (auto simp: encodeField_def)
    have "EncodeString [] n \<noteq> []" "HpackDecodeString (EncodeString [] n @ r) = (n, length (EncodeString [] n))" for r
      using decode_EncodeString [of n] assms(4) by auto
    from emits_literal_named(2) [OF this(2,1) assms(5), of p d] emits_static(2) [of idx n v p d] assms(5,6)
    have "emits p d ?b ?d [(n, v)]" by auto
    then show ?thesis using add res assms(3) by (intro exI [of _ ?b] exI [of _ ?d]) simp
  qed
qed

end
