(* ===== verification/H2_Response.thy ===== *)
theory H2_Response
  imports Hpack_EncTable
begin

text \<open>
  The header block of a response, \<open>core/h2_headers.go\<close>.  The current date is formatted by the standard
  library; the field with it (\<open>h2DateField\<close>) is an argument.  The table is absent (\<open>None\<close>) for blocks that
  must not use it.
\<close>

section \<open>Model\<close>

definition connectionSpecificResponseLengthMask :: u64 where
  "connectionSpecificResponseLengthMask = push_bit 2 1 OR push_bit 7 1 OR push_bit 10 1 OR push_bit 16 1 OR push_bit 17 1"

definition isConnectionSpecificResponseName :: "gostring \<Rightarrow> bool" where
  "isConnectionSpecificResponseName name =
     (if length name = 2 then headerNameIs name (str ''te'')
      else if length name = 7 then headerNameIs name (str ''upgrade'')
      else if length name = 10 then headerNameIs name (str ''connection'') \<or> headerNameIs name (str ''keep-alive'')
      else if length name = 16 then headerNameIs name (str ''proxy-connection'')
      else if length name = 17 then headerNameIs name (str ''transfer-encoding'')
      else False)"

definition isConnectionSpecificResponseField :: "gostring \<Rightarrow> bool" where
  "isConnectionSpecificResponseField name \<longleftrightarrow>
     length name < 64 \<and> connectionSpecificResponseLengthMask AND push_bit (length name) 1 \<noteq> 0 \<and> isConnectionSpecificResponseName name"

definition headersHaveFold :: "header list \<Rightarrow> gostring \<Rightarrow> bool" where
  "headersHaveFold headers name = list_ex (\<lambda>h. EqualFoldASCII (fst h) name) headers"

record h2DateField =
  df_addr :: nat
  df_unix :: int
  df_enc :: "byte list"

definition hpackStaticDate :: nat where "hpackStaticDate = 33"
definition hpackStaticContentLength :: nat where "hpackStaticContentLength = 28"
definition hpackStaticContentType :: nat where "hpackStaticContentType = 31"
definition hpackStaticServer :: nat where "hpackStaticServer = 54"
definition h2DateValueLen :: nat where "h2DateValueLen = 29"

definition appendH2DateFieldPrefix :: "byte list \<Rightarrow> byte list" where
  "appendH2DateFieldPrefix dst = EncodeInt (EncodeInt dst 0x00 4 (of_nat hpackStaticDate)) 0x00 7 (of_nat h2DateValueLen)"

definition h2DateFieldPrefix :: "byte list" where
  "h2DateFieldPrefix = appendH2DateFieldPrefix []"

text \<open>
  \<open>format\<close> stands for the formatting of a time by the standard library, \<open>addr\<close> for the address of the new
  object: the code compares date fields by their addresses.
\<close>

definition newH2DateField :: "(int \<Rightarrow> gostring) \<Rightarrow> nat \<Rightarrow> int \<Rightarrow> h2DateField" where
  "newH2DateField format addr unix = \<lparr>df_addr = addr, df_unix = unix, df_enc = appendH2DateFieldPrefix [] @ format unix\<rparr>"

text \<open>The shared field of the current second: the new content of \<open>currentH2Date\<close> and the field to use.\<close>

definition loadH2DateField :: "(int \<Rightarrow> gostring) \<Rightarrow> nat \<Rightarrow> int \<Rightarrow> h2DateField option \<Rightarrow> h2DateField option \<times> h2DateField" where
  "loadH2DateField format addr now current =
     (case current of
        Some f \<Rightarrow> if df_unix f = now then (current, f) else let f = newH2DateField format addr now in (Some f, f)
      | None \<Rightarrow> let f = newH2DateField format addr now in (Some f, f))"

definition h2StatusFieldLen :: "byte list \<Rightarrow> nat" where
  "h2StatusFieldLen block =
     (if block = [] then 0
      else if block ! 0 AND 0x80 \<noteq> 0 \<or> length block < 2 then 1
      else 2 + unat (block ! 1 AND 0x7f))"

text \<open>
  Overwriting the date of a stored block with the field of the current second.  The slices are taken only
  when the length test has passed, and \<open>h2DateFieldPrefix\<close> is shorter than a field.
\<close>

definition refreshH2DateField :: "byte list \<Rightarrow> byte list \<Rightarrow> byte list" where
  "refreshH2DateField field headerBlock =
     (let at = h2StatusFieldLen headerBlock in
      if int (length headerBlock) - int at < int (length field)
         \<or> take (length h2DateFieldPrefix) (drop at headerBlock) \<noteq> h2DateFieldPrefix then headerBlock
      else take at headerBlock @ field @ drop (at + length field) headerBlock)"

definition encodeH2StaticField :: "HpackEncoder \<Rightarrow> 'a hpackEncTable_scheme option \<Rightarrow> nat \<Rightarrow> gostring \<Rightarrow> gostring \<Rightarrow> 'a hpackEncTable_scheme option \<times> HpackEncoder" where
  "encodeH2StaticField enc tbl staticIdx lowerName v =
     (case tbl of
        None \<Rightarrow> (None, encodeStaticFieldCached enc staticIdx v)
      | Some t \<Rightarrow> let (t, enc) = encodeField t enc staticIdx lowerName v in (Some t, enc))"

definition encodeH2CustomField :: "HpackEncoder \<Rightarrow> 'a hpackEncTable_scheme option \<Rightarrow> gostring \<Rightarrow> gostring \<Rightarrow> 'a hpackEncTable_scheme option \<times> HpackEncoder" where
  "encodeH2CustomField enc tbl name v =
     (case tbl of
        Some t \<Rightarrow>
          (case h2IndexableResponseField name of
             Some lower \<Rightarrow> let (t, enc) = encodeField t enc (hpackFindStaticNameFold lower) lower v in (Some t, enc)
           | None \<Rightarrow> (tbl, EncodeHeaderFold enc name v))
      | None \<Rightarrow> (None, EncodeHeaderFold enc name v))"

text \<open>The loop over the handler's header fields; the flags tell which of the special fields were written.\<close>

fun encodeHeadersLoop :: "HpackEncoder \<Rightarrow> 'a hpackEncTable_scheme option \<Rightarrow> bool \<Rightarrow> bool \<Rightarrow> bool \<Rightarrow> header list
    \<Rightarrow> 'a hpackEncTable_scheme option \<times> HpackEncoder \<times> bool" where
  "encodeHeadersLoop enc tbl wroteContentType wroteContentLength wroteServer [] = (tbl, enc, wroteServer)"
| "encodeHeadersLoop enc tbl wroteContentType wroteContentLength wroteServer ((name, v) # headers) =
     (if name = [] \<or> name ! 0 = b8 CHR '':'' \<or> isConnectionSpecificResponseField name
      then encodeHeadersLoop enc tbl wroteContentType wroteContentLength wroteServer headers
      else if EqualFoldASCII name (str ''content-type'') then
        (if \<not> wroteContentType then
           let (tbl, enc) = encodeH2StaticField enc tbl hpackStaticContentType (str ''content-type'') v
           in encodeHeadersLoop enc tbl True wroteContentLength wroteServer headers
         else encodeHeadersLoop enc tbl wroteContentType wroteContentLength wroteServer headers)
      else if EqualFoldASCII name (str ''content-length'') then
        (if \<not> wroteContentLength
         then encodeHeadersLoop (EncodeHeaderFold enc name v) tbl wroteContentType True wroteServer headers
         else encodeHeadersLoop enc tbl wroteContentType wroteContentLength wroteServer headers)
      else if EqualFoldASCII name (str ''server'') then
        (if \<not> wroteServer then
           let (tbl, enc) = encodeH2StaticField enc tbl hpackStaticServer (str ''server'') v
           in encodeHeadersLoop enc tbl wroteContentType wroteContentLength True headers
         else encodeHeadersLoop enc tbl wroteContentType wroteContentLength wroteServer headers)
      else
        let (tbl, enc) = encodeH2CustomField enc tbl name v
        in encodeHeadersLoop enc tbl wroteContentType wroteContentLength wroteServer headers)"

text \<open>\<open>loaded\<close> is what \<open>loadH2DateField\<close> returns during the call.\<close>

definition encodeH2ResponseHeadersDated ::
  "h2DateField \<Rightarrow> HpackEncoder \<Rightarrow> 'a hpackEncTable_scheme option \<Rightarrow> h2DateField option \<Rightarrow> int \<Rightarrow> gostring \<Rightarrow> int \<Rightarrow> header list \<Rightarrow> gostring
     \<Rightarrow> 'a hpackEncTable_scheme option \<times> HpackEncoder" where
  "encodeH2ResponseHeadersDated loaded enc tbl dateField statusCode contentType contentLength headers serverName =
     (let (tbl, enc) = (case tbl of None \<Rightarrow> (None, enc) | Some t \<Rightarrow> let (t, buf) = beginBlock t (Buf enc) in (Some t, enc\<lparr>Buf := buf\<rparr>));
          enc = enc\<lparr>Buf := EncodeStatus (Buf enc) statusCode\<rparr>;
          (tbl, enc) =
            (if \<not> headersHaveFold headers (str ''date'') then
               let date = df_enc (case dateField of None \<Rightarrow> loaded | Some f \<Rightarrow> f) in
               (case tbl of
                  None \<Rightarrow> (None, enc\<lparr>Buf := Buf enc @ date\<rparr>)
                | Some t \<Rightarrow>
                    let (t, enc) = encodeField t enc hpackStaticDate (str ''date'') (drop (length h2DateFieldPrefix) date)
                    in (Some t, enc))
             else (tbl, enc));
          (tbl, enc) =
            (if contentType \<noteq> [] then encodeH2StaticField enc tbl hpackStaticContentType (str ''content-type'') contentType else (tbl, enc));
          enc =
            (if contentLength \<ge> 0
             then enc\<lparr>Buf := EncodeString (EncodeInt (Buf enc) 0x00 4 (of_nat hpackStaticContentLength)) (appendUint [] contentLength)\<rparr>
             else enc);
          (tbl, enc, wroteServer) = encodeHeadersLoop enc tbl (contentType \<noteq> []) (contentLength \<ge> 0) False headers
      in if \<not> wroteServer then encodeH2StaticField enc tbl hpackStaticServer (str ''server'') serverName else (tbl, enc))"

definition encodeH2ResponseHeaders ::
  "h2DateField \<Rightarrow> HpackEncoder \<Rightarrow> int \<Rightarrow> gostring \<Rightarrow> int \<Rightarrow> header list \<Rightarrow> gostring \<Rightarrow> HpackEncoder" where
  "encodeH2ResponseHeaders loaded enc statusCode contentType contentLength headers serverName =
     snd (encodeH2ResponseHeadersDated loaded enc (None :: hpackEncTable option) None statusCode contentType contentLength headers serverName)"

section \<open>Specification: the fields of a response\<close>

fun handler_fields :: "bool \<Rightarrow> bool \<Rightarrow> bool \<Rightarrow> header list \<Rightarrow> header list" where
  "handler_fields ct cl sv [] = []"
| "handler_fields ct cl sv ((name, v) # headers) =
     (let lower = map asciiLower name in
      if name = [] \<or> name ! 0 = b8 CHR '':'' \<or> isConnectionSpecificResponseField name then handler_fields ct cl sv headers
      else if lower = str ''content-type'' then (if ct then handler_fields ct cl sv headers else (lower, v) # handler_fields True cl sv headers)
      else if lower = str ''content-length'' then (if cl then handler_fields ct cl sv headers else (lower, v) # handler_fields ct True sv headers)
      else if lower = str ''server'' then (if sv then handler_fields ct cl sv headers else (lower, v) # handler_fields ct cl True headers)
      else (lower, v) # handler_fields ct cl sv headers)"

definition has_lower :: "header list \<Rightarrow> gostring \<Rightarrow> bool" where
  "has_lower headers name \<longleftrightarrow> name \<in> set (map (map asciiLower \<circ> fst) headers)"

definition response_fields :: "gostring \<Rightarrow> int \<Rightarrow> gostring \<Rightarrow> int \<Rightarrow> header list \<Rightarrow> gostring \<Rightarrow> header list" where
  "response_fields date statusCode contentType contentLength headers serverName =
     [(str '':status'', appendUint [] statusCode)]
     @ (if has_lower headers (str ''date'') then [] else [(str ''date'', date)])
     @ (if contentType \<noteq> [] then [(str ''content-type'', contentType)] else [])
     @ (if contentLength \<ge> 0 then [(str ''content-length'', appendUint [] contentLength)] else [])
     @ handler_fields (contentType \<noteq> []) (contentLength \<ge> 0) False headers
     @ (if has_lower headers (str ''server'') then [] else [(str ''server'', serverName)])"

section \<open>What an encoding step writes\<close>

definition tbl_ok :: "int \<Rightarrow> 'a hpackEncTable_scheme option \<Rightarrow> bool" where
  "tbl_ok p tbl \<longleftrightarrow> (case tbl of None \<Rightarrow> True | Some t \<Rightarrow> enc_inv t \<and> et_maxSize t \<le> p \<and> \<not> pendingUpdate t)"

definition tbl_step :: "int \<Rightarrow> 'a hpackEncTable_scheme option \<Rightarrow> table \<Rightarrow> bool" where
  "tbl_step p tbl d \<longleftrightarrow> tbl_ok p tbl \<and> (case tbl of None \<Rightarrow> True | Some t \<Rightarrow> in_step p t d)"

text \<open>
  From \<open>tbl\<close> and \<open>enc\<close> to \<open>tbl'\<close> and \<open>enc'\<close> the fields \<open>hs\<close> were written: the bytes do not depend on the
  decoder, and every decoder in step before reads the fields and is in step after.  Without a table the
  decoder's table stays as it is.
\<close>

definition writes :: "int \<Rightarrow> 'a hpackEncTable_scheme option \<Rightarrow> HpackEncoder \<Rightarrow> 'a hpackEncTable_scheme option \<Rightarrow> HpackEncoder \<Rightarrow> header list \<Rightarrow> bool" where
  "writes p tbl enc tbl' enc' hs \<longleftrightarrow> tbl_ok p tbl' \<and> field_cache_ok (hpackFieldCache enc') \<and> (tbl' = None \<longleftrightarrow> tbl = None)
     \<and> (\<exists>b. Buf enc' = Buf enc @ b \<and> (\<forall>d. tbl_step p tbl d \<longrightarrow> (\<exists>d'. emits p d b d' hs \<and> tbl_step p tbl' d' \<and> (tbl = None \<longrightarrow> d' = d))))"

lemma writes_refl: "tbl_ok p tbl \<Longrightarrow> field_cache_ok (hpackFieldCache enc) \<Longrightarrow> writes p tbl enc tbl enc []"
  unfolding writes_def using emits_Nil by (metis append_Nil2)

lemma writes_trans:
  assumes "writes p tbl enc tbl1 enc1 hs1" and "writes p tbl1 enc1 tbl2 enc2 hs2"
  shows "writes p tbl enc tbl2 enc2 (hs1 @ hs2)"
proof -
  obtain b1 b2 where "Buf enc1 = Buf enc @ b1" "Buf enc2 = Buf enc1 @ b2"
      "\<forall>d. tbl_step p tbl d \<longrightarrow> (\<exists>d'. emits p d b1 d' hs1 \<and> tbl_step p tbl1 d' \<and> (tbl = None \<longrightarrow> d' = d))"
      "\<forall>d. tbl_step p tbl1 d \<longrightarrow> (\<exists>d'. emits p d b2 d' hs2 \<and> tbl_step p tbl2 d' \<and> (tbl1 = None \<longrightarrow> d' = d))" "(tbl1 = None) = (tbl = None)"
    using assms unfolding writes_def by blast
  then have "Buf enc2 = Buf enc @ (b1 @ b2)" "\<forall>d. tbl_step p tbl d \<longrightarrow> (\<exists>d'. emits p d (b1 @ b2) d' (hs1 @ hs2) \<and> tbl_step p tbl2 d' \<and> (tbl = None \<longrightarrow> d' = d))"
    using emits_append by (simp, metis)
  then show ?thesis using assms unfolding writes_def by blast
qed

text \<open>Steps that do not touch the table.\<close>

lemma writes_plain:
  assumes "tbl_ok p tbl" and "field_cache_ok (hpackFieldCache enc')" and "Buf enc' = Buf enc @ b" and "\<And>d. emits p d b d hs"
  shows "writes p tbl enc tbl enc' hs"
  using assms unfolding writes_def by blast

lemma writes_encodeField:
  assumes "tbl_ok p (Some t)" and "field_cache_ok (hpackFieldCache enc)" and "length n < 2 ^ 64" and "length v < 2 ^ 64"
    and "idx > 0 \<longrightarrow> idx < 62 \<and> fst (HpackStaticTable ! idx) = n" and "encodeField t enc idx n v = (t', enc')"
  shows "writes p (Some t) enc (Some t') enc' [(n, v)]"
proof -
  have em: "\<exists>b d'. Buf enc' = Buf enc @ b \<and> emits p d b d' [(n, v)] \<and> in_step p t' d' \<and> \<not> pendingUpdate t' \<and> field_cache_ok (hpackFieldCache enc')"
    if "in_step p t d" for d
    using encodeField_emits [OF that _ assms(2-6)] assms(1) by (auto simp: tbl_ok_def)
  have "in_step p t (et_maxSize t, enc_entries t)" using assms(1) by (simp add: tbl_ok_def in_step_def)
  from em [OF this] obtain b d0 where b: "Buf enc' = Buf enc @ b" "in_step p t' d0" "\<not> pendingUpdate t'" "field_cache_ok (hpackFieldCache enc')" by blast
  have ok: "tbl_ok p (Some t')" using b by (simp add: tbl_ok_def in_step_def)
  have "\<exists>d'. emits p d b d' [(n, v)] \<and> tbl_step p (Some t') d'" if "tbl_step p (Some t) d" for d
    using em [of d] that b(1) ok by (auto simp: tbl_step_def)
  then show ?thesis using b ok unfolding writes_def by blast
qed

lemma static_names:
  "fst (HpackStaticTable ! 33) = str ''date''" "fst (HpackStaticTable ! 28) = str ''content-length''"
  "fst (HpackStaticTable ! 31) = str ''content-type''" "fst (HpackStaticTable ! 54) = str ''server''"
  by (simp_all add: HpackStaticTable_def)

lemma writes_static:
  assumes "tbl_ok p tbl" and "field_cache_ok (hpackFieldCache enc)" and "length n < 2 ^ 64" and "length v < 2 ^ 64"
    and "0 < idx" and "idx < 62" and "fst (HpackStaticTable ! idx) = n" and "encodeH2StaticField enc tbl idx n v = (tbl', enc')"
  shows "writes p tbl enc tbl' enc' [(n, v)]"
proof (cases tbl)
  case None
  then show ?thesis using assms encodeStaticFieldCached_eq [OF assms(2), of idx v] emits_static(1) [of idx n v p]
    by (auto simp: encodeH2StaticField_def intro!: writes_plain)
next
  case (Some t)
  then show ?thesis using assms writes_encodeField [of p t enc n v idx] by (auto simp: encodeH2StaticField_def split: prod.splits)
qed

lemma indexable_lower: "h2IndexableResponseField name = Some lower \<Longrightarrow> lower = map asciiLower name"
proof -
  have "list_all (\<lambda>lit. map asciiLower lit = lit) h2IndexableNames" by (simp add: h2IndexableNames_def asciiLower_def)
  then show "h2IndexableResponseField name = Some lower \<Longrightarrow> lower = map asciiLower name"
    by (auto simp: h2IndexableResponseField_def find_Some_iff EqualFoldASCII_iff list_all_length)
qed

lemma lower_idem: "map asciiLower (map asciiLower s) = map asciiLower s"
  by simp

lemma writes_custom:
  assumes "tbl_ok p tbl" and "field_cache_ok (hpackFieldCache enc)" and "length name < 2 ^ 64" and "length v < 2 ^ 64"
    and "encodeH2CustomField enc tbl name v = (tbl', enc')"
  shows "writes p tbl enc tbl' enc' [(map asciiLower name, v)]"
proof -
  have fold: "writes p tbl enc tbl (EncodeHeaderFold enc name v) [(map asciiLower name, v)]"
    using EncodeHeaderFold_emits(1) [OF assms(2-4), of p] EncodeHeaderFold_emits(2) [OF assms(2-4)] assms(1) by (auto intro: writes_plain)
  show ?thesis
  proof (cases "tbl = None \<or> h2IndexableResponseField name = None")
    case True
    then have "tbl' = tbl \<and> enc' = EncodeHeaderFold enc name v" using assms(5) by (auto simp: encodeH2CustomField_def split: option.splits)
    then show ?thesis using fold by simp
  next
    case False
    then obtain t lower where t: "tbl = Some t" "h2IndexableResponseField name = Some lower" by auto
    note lower = indexable_lower [OF t(2)]
    let ?i = "hpackFindStaticNameFold lower"
    have "?i > 0 \<longrightarrow> ?i < 62 \<and> fst (HpackStaticTable ! ?i) = lower" using findStaticNameFold [of lower] lower lower_idem by metis
    then show ?thesis using assms t lower writes_encodeField [of p t enc lower v ?i] by (auto simp: encodeH2CustomField_def split: prod.splits)
  qed
qed

section \<open>The header block\<close>

lemma lower_literals:
  "map asciiLower (str ''content-type'') = str ''content-type''" "map asciiLower (str ''content-length'') = str ''content-length''"
  "map asciiLower (str ''server'') = str ''server''" "map asciiLower (str ''date'') = str ''date''"
  by (simp_all add: asciiLower_def)

lemma server_kept:
  assumes "map asciiLower name = str ''server''"
  shows "\<not> (name = [] \<or> name ! 0 = b8 CHR '':'' \<or> isConnectionSpecificResponseField name)"
proof -
  have len: "length name = 6" using arg_cong [OF assms, of length] by simp
  then have "asciiLower (name ! 0) = map asciiLower name ! 0" by (subst nth_map) simp_all
  then have "asciiLower (name ! 0) = b8 CHR ''s''" using assms by simp
  moreover have "asciiLower (b8 CHR '':'') = b8 CHR '':''" by (simp add: asciiLower_def)
  ultimately have "name ! 0 \<noteq> b8 CHR '':''" by auto
  then show ?thesis using len by (auto simp: isConnectionSpecificResponseField_def isConnectionSpecificResponseName_def)
qed

lemma writes_loop:
  assumes "list_all (\<lambda>h. length (fst h) < 2 ^ 64 \<and> length (snd h) < 2 ^ 64) headers"
    and "tbl_ok p tbl" and "field_cache_ok (hpackFieldCache enc)" and "encodeHeadersLoop enc tbl ct cl sv headers = (tbl', enc', sv')"
  shows "writes p tbl enc tbl' enc' (handler_fields ct cl sv headers) \<and> sv' = (sv \<or> has_lower headers (str ''server''))"
  using assms
proof (induction headers arbitrary: enc tbl ct cl sv)
  case Nil
  then show ?case by (simp add: writes_refl has_lower_def)
next
  case (Cons h headers)
  obtain name v where h: "h = (name, v)" by (cases h)
  let ?l = "map asciiLower name"
  have len: "length name < 2 ^ 64" "length v < 2 ^ 64" and all: "list_all (\<lambda>h. length (fst h) < 2 ^ 64 \<and> length (snd h) < 2 ^ 64) headers"
    using Cons.prems(1) h by simp_all
  have step: "writes p tbl enc tbl' enc' ([(?l, v)] @ handler_fields ct' cl' s' headers) \<and> sv' = (s' \<or> has_lower headers (str ''server''))"
    if "writes p tbl enc tbl1 enc1 [(?l, v)]" and "encodeHeadersLoop enc1 tbl1 ct' cl' s' headers = (tbl', enc', sv')" for tbl1 enc1 ct' cl' s'
    using Cons.IH [OF all _ _ that(2)] that(1) writes_trans [OF that(1)] by (auto simp: writes_def [of p tbl enc tbl1])
  have low: "has_lower ((name, v) # headers) (str ''server'') = (?l = str ''server'' \<or> has_lower headers (str ''server''))" by (auto simp: has_lower_def h)
  have eqs: "EqualFoldASCII name (str ''content-type'') = (?l = str ''content-type'')" "EqualFoldASCII name (str ''content-length'') = (?l = str ''content-length'')"
    "EqualFoldASCII name (str ''server'') = (?l = str ''server'')" unfolding EqualFoldASCII_iff lower_literals by simp_all
  have ne: "str ''content-type'' \<noteq> str ''server''" "str ''content-length'' \<noteq> str ''server''" "str ''content-length'' \<noteq> str ''content-type''" by simp_all
  note st = writes_static [OF Cons.prems(2,3)] and ix = hpackStaticContentType_def hpackStaticServer_def
  show ?case
  proof (cases "name = [] \<or> name ! 0 = b8 CHR '':'' \<or> isConnectionSpecificResponseField name")
    case True
    then have "?l \<noteq> str ''server''" using server_kept by blast
    with True Cons.IH [OF all Cons.prems(2,3)] Cons.prems(4) low h show ?thesis by (simp del: str_simps)
  next
    case keep: False
    consider (ct) "?l = str ''content-type''" | (cl) "?l = str ''content-length''" | (sv) "?l = str ''server''"
      | (other) "?l \<noteq> str ''content-type''" "?l \<noteq> str ''content-length''" "?l \<noteq> str ''server''" by blast
    then show ?thesis
    proof cases
      case ct
      obtain tbl1 enc1 where c: "encodeH2StaticField enc tbl 31 ?l v = (tbl1, enc1)" by (cases "encodeH2StaticField enc tbl 31 ?l v")
      have w: "writes p tbl enc tbl1 enc1 [(?l, v)]" by (rule st [OF _ _ _ _ _ c]) (use len ct static_names in simp_all)
      show ?thesis using step [OF w, of True cl sv] Cons.IH [OF all Cons.prems(2,3), of ct cl sv] keep Cons.prems(4) c ct ne
        by (cases ct) (simp_all add: h eqs low ix Let_def del: str_simps)
    next
      case cl
      have w: "writes p tbl enc tbl (EncodeHeaderFold enc name v) [(?l, v)]"
        using EncodeHeaderFold_emits(1) [OF Cons.prems(3) len, of p] EncodeHeaderFold_emits(2) [OF Cons.prems(3) len] Cons.prems(2)
        by (auto intro: writes_plain)
      show ?thesis using step [OF w, of ct True sv] Cons.IH [OF all Cons.prems(2,3), of ct cl sv] keep Cons.prems(4) cl ne
        by (cases cl) (simp_all add: h eqs low ix Let_def del: str_simps)
    next
      case sv
      obtain tbl1 enc1 where c: "encodeH2StaticField enc tbl 54 ?l v = (tbl1, enc1)" by (cases "encodeH2StaticField enc tbl 54 ?l v")
      have w: "writes p tbl enc tbl1 enc1 [(?l, v)]" by (rule st [OF _ _ _ _ _ c]) (use len sv static_names in simp_all)
      show ?thesis using step [OF w, of ct cl True] Cons.IH [OF all Cons.prems(2,3), of ct cl sv] keep Cons.prems(4) c sv ne
        by (cases sv) (simp_all add: h eqs low ix Let_def del: str_simps)
    next
      case other
      obtain tbl1 enc1 where c: "encodeH2CustomField enc tbl name v = (tbl1, enc1)" by (cases "encodeH2CustomField enc tbl name v")
      from step [OF writes_custom [OF Cons.prems(2,3) len c]] other keep Cons.prems(4) c show ?thesis
        by (simp add: h eqs low Let_def del: str_simps)
    qed
  qed
qed

text \<open>A date field as \<open>newH2DateField\<close> builds it from a formatted time of 29 bytes.\<close>

definition date_value :: "h2DateField \<Rightarrow> gostring" where
  "date_value f = drop (length h2DateFieldPrefix) (df_enc f)"

definition date_ok :: "h2DateField \<Rightarrow> bool" where
  "date_ok f \<longleftrightarrow> df_enc f = h2DateFieldPrefix @ date_value f \<and> length (date_value f) = h2DateValueLen"

lemma prefix_bytes: "h2DateFieldPrefix = EncodeInt [] 0 4 (of_nat 33) @ EncodeInt [] 0 7 (of_nat 29)"
  unfolding h2DateFieldPrefix_def appendH2DateFieldPrefix_def hpackStaticDate_def h2DateValueLen_def by (rule EncodeInt_append)

lemma new_date_ok: "length (format unix) = h2DateValueLen \<Longrightarrow> date_ok (newH2DateField format addr unix)"
  by (simp add: date_ok_def date_value_def newH2DateField_def h2DateFieldPrefix_def)

text \<open>The date, written raw without a table and through the table otherwise.\<close>

lemma writes_date:
  assumes "tbl_ok p tbl" and "field_cache_ok (hpackFieldCache enc)" and "date_ok f"
    and "(case tbl of None \<Rightarrow> (None, enc\<lparr>Buf := Buf enc @ df_enc f\<rparr>)
          | Some t \<Rightarrow> let (t, enc) = encodeField t enc hpackStaticDate (str ''date'') (drop (length h2DateFieldPrefix) (df_enc f)) in (Some t, enc)) = (tbl', enc')"
  shows "writes p tbl enc tbl' enc' [(str ''date'', date_value f)]"
proof (cases tbl)
  case None
  have "df_enc f = EncodeInt [] 0 4 (of_nat 33) @ raw_string (date_value f)"
    using assms(3) unfolding date_ok_def prefix_bytes raw_string_def h2DateValueLen_def by simp
  moreover have "emits p d (EncodeInt [] 0 4 (of_nat 33) @ raw_string (date_value f)) d [(str ''date'', date_value f)]" for d
    using assms(3) static_names(1) by (intro emits_static_raw) (simp_all add: date_ok_def h2DateValueLen_def del: str_simps)
  ultimately show ?thesis using None assms by (auto intro: writes_plain)
next
  case (Some t)
  obtain t1 enc1 where c: "encodeField t enc hpackStaticDate (str ''date'') (date_value f) = (t1, enc1)" by fastforce
  have "writes p (Some t) enc (Some t1) enc1 [(str ''date'', date_value f)]"
    by (rule writes_encodeField [OF _ assms(2) _ _ _ c])
      (use Some assms static_names(1) in \<open>simp_all add: date_ok_def h2DateValueLen_def hpackStaticDate_def del: str_simps\<close>, simp)
  then show ?thesis using Some c assms(4) by (simp add: date_value_def)
qed

lemma headersHaveFold_iff: "map asciiLower name = name \<Longrightarrow> headersHaveFold headers name \<longleftrightarrow> has_lower headers name"
  by (auto simp: headersHaveFold_def has_lower_def EqualFoldASCII_iff list_ex_iff)

definition sizes_ok :: "gostring \<Rightarrow> header list \<Rightarrow> gostring \<Rightarrow> bool" where
  "sizes_ok contentType headers serverName \<longleftrightarrow> length contentType < 2 ^ 64 \<and> length serverName < 2 ^ 64
     \<and> list_all (\<lambda>h. length (fst h) < 2 ^ 64 \<and> length (snd h) < 2 ^ 64) headers"

lemma writes_status:
  assumes "tbl_ok p tbl" and "field_cache_ok (hpackFieldCache enc)" and "code < 10 ^ 10"
  shows "writes p tbl enc tbl (enc\<lparr>Buf := EncodeStatus (Buf enc) code\<rparr>) [(str '':status'', appendUint [] code)]"
  using EncodeStatus_emits [OF assms(3), of "Buf enc" p] assms(1,2) by (auto intro: writes_plain)

lemma writes_length:
  assumes "tbl_ok p tbl" and "field_cache_ok (hpackFieldCache enc)" and "0 \<le> n" and "n < 2 ^ 63"
  shows "writes p tbl enc tbl (enc\<lparr>Buf := EncodeString (EncodeInt (Buf enc) 0x00 4 (of_nat hpackStaticContentLength)) (appendUint [] n)\<rparr>)
    [(str ''content-length'', appendUint [] n)]"
proof -
  have "length (appendUint [] n) < 2 ^ 64" using length_appendUint(1) [of n] assms(4) by simp
  then have "emits p d (EncodeInt [] 0 4 (of_nat 28) @ EncodeString [] (appendUint [] n)) d [(str ''content-length'', appendUint [] n)]" for d
    using static_names(2) by (intro emits_static(1)) (simp_all del: str_simps)
  moreover have "EncodeString (EncodeInt (Buf enc) 0 4 (of_nat 28)) x = Buf enc @ EncodeInt [] 0 4 (of_nat 28) @ EncodeString [] x" for x
    using EncodeString_append [of "EncodeInt (Buf enc) 0 4 (of_nat 28)" x] EncodeInt_append [of "Buf enc"] by simp
  ultimately show ?thesis using assms(1,2) unfolding hpackStaticContentLength_def by (intro writes_plain) auto
qed

lemma writes_maybe: "(b \<Longrightarrow> writes p tbl enc tbl' enc' hs) \<Longrightarrow> (\<not> b \<Longrightarrow> tbl' = tbl \<and> enc' = enc)
    \<Longrightarrow> tbl_ok p tbl \<Longrightarrow> field_cache_ok (hpackFieldCache enc) \<Longrightarrow> writes p tbl enc tbl' enc' (if b then hs else [])"
  using writes_refl [of p tbl enc] by auto

lemma response_writes:
  assumes "tbl_ok p tbl" and "field_cache_ok (hpackFieldCache enc)" and "sizes_ok ct headers sv" and "code < 10 ^ 10" and "cl < 2 ^ 63"
    and "date_ok (case df of None \<Rightarrow> loaded | Some f \<Rightarrow> f)"
    and "encodeH2ResponseHeadersDated loaded enc tbl df code ct cl headers sv = (tbl', enc')"
  shows "writes p tbl enc tbl' enc' (response_fields (date_value (case df of None \<Rightarrow> loaded | Some f \<Rightarrow> f)) code ct cl headers sv)"
proof -
  let ?f = "case df of None \<Rightarrow> loaded | Some f \<Rightarrow> f"
  note ok = writes_def [THEN iffD1, THEN conjunct1] writes_def [THEN iffD1, THEN conjunct2, THEN conjunct1]
  have begin_id: "(case tbl of None \<Rightarrow> (None, enc) | Some t \<Rightarrow> let (t, buf) = beginBlock t (Buf enc) in (Some t, enc\<lparr>Buf := buf\<rparr>)) = (tbl, enc)"
    using assms(1) by (auto simp: tbl_ok_def beginBlock_def split: option.splits)
  define enc1 where "enc1 = enc\<lparr>Buf := EncodeStatus (Buf enc) code\<rparr>"
  have w1: "writes p tbl enc tbl enc1 [(str '':status'', appendUint [] code)]" unfolding enc1_def by (rule writes_status [OF assms(1,2,4)])
  obtain tbl2 enc2 where e2: "(if \<not> headersHaveFold headers (str ''date'') then
         (case tbl of None \<Rightarrow> (None, enc1\<lparr>Buf := Buf enc1 @ df_enc ?f\<rparr>)
          | Some t \<Rightarrow> let (t, enc) = encodeField t enc1 hpackStaticDate (str ''date'') (drop (length h2DateFieldPrefix) (df_enc ?f)) in (Some t, enc))
       else (tbl, enc1)) = (tbl2, enc2)" (is "?e2 = _") by (cases ?e2)
  have w2: "writes p tbl enc1 tbl2 enc2 (if \<not> headersHaveFold headers (str ''date'') then [(str ''date'', date_value ?f)] else [])"
    by (rule writes_maybe) (use e2 ok [OF w1] writes_date [OF ok [OF w1] assms(6)] in \<open>auto simp del: str_simps\<close>)
  obtain tbl3 enc3 where e3: "(if ct \<noteq> [] then encodeH2StaticField enc2 tbl2 hpackStaticContentType (str ''content-type'') ct else (tbl2, enc2)) = (tbl3, enc3)" (is "?e3 = _")
    by (cases ?e3)
  have s3: "encodeH2StaticField enc2 tbl2 hpackStaticContentType (str ''content-type'') ct = (tbl3, enc3) \<Longrightarrow> writes p tbl2 enc2 tbl3 enc3 [(str ''content-type'', ct)]"
    using assms(3) static_names(3) by (intro writes_static [OF ok [OF w2]]) (auto simp: sizes_ok_def hpackStaticContentType_def simp del: str_simps, simp)
  have w3: "writes p tbl2 enc2 tbl3 enc3 (if ct \<noteq> [] then [(str ''content-type'', ct)] else [])"
    by (rule writes_maybe) (use e3 s3 ok [OF w2] in \<open>auto simp del: str_simps\<close>)
  define enc4 where "enc4 = (if cl \<ge> 0 then enc3\<lparr>Buf := EncodeString (EncodeInt (Buf enc3) 0x00 4 (of_nat hpackStaticContentLength)) (appendUint [] cl)\<rparr> else enc3)"
  have w4: "writes p tbl3 enc3 tbl3 enc4 (if cl \<ge> 0 then [(str ''content-length'', appendUint [] cl)] else [])"
    by (rule writes_maybe) (use ok [OF w3] writes_length [OF ok [OF w3]] assms(5) in \<open>auto simp: enc4_def simp del: str_simps\<close>)
  obtain tbl5 enc5 ws where e5: "encodeHeadersLoop enc4 tbl3 (ct \<noteq> []) (cl \<ge> 0) False headers = (tbl5, enc5, ws)" by (cases "encodeHeadersLoop enc4 tbl3 (ct \<noteq> []) (cl \<ge> 0) False headers")
  have w5: "writes p tbl3 enc4 tbl5 enc5 (handler_fields (ct \<noteq> []) (cl \<ge> 0) False headers)" and ws: "ws = has_lower headers (str ''server'')"
    using writes_loop [OF _ ok [OF w4] e5] assms(3) by (auto simp: sizes_ok_def simp del: str_simps)
  have last: "(if \<not> ws then encodeH2StaticField enc5 tbl5 hpackStaticServer (str ''server'') sv else (tbl5, enc5)) = (tbl', enc')"
    using assms(7) unfolding encodeH2ResponseHeadersDated_def
    by (simp only: Let_def begin_id [unfolded Let_def] prod.case enc1_def [symmetric] e2 [unfolded Let_def] e3 enc4_def [symmetric] e5)
  have s6: "encodeH2StaticField enc5 tbl5 hpackStaticServer (str ''server'') sv = (tbl', enc') \<Longrightarrow> writes p tbl5 enc5 tbl' enc' [(str ''server'', sv)]"
    using assms(3) static_names(4) by (intro writes_static [OF ok [OF w5]]) (auto simp: sizes_ok_def hpackStaticServer_def simp del: str_simps, simp)
  have w6: "writes p tbl5 enc5 tbl' enc' (if \<not> ws then [(str ''server'', sv)] else [])"
    by (rule writes_maybe) (use last s6 ok [OF w5] in \<open>auto simp del: str_simps\<close>)
  have neg: "(if \<not> b then x else y) = (if b then y else x)" for b and x y :: "header list" by simp
  show ?thesis using writes_trans [OF w1 writes_trans [OF w2 writes_trans [OF w3 writes_trans [OF w4 writes_trans [OF w5 w6]]]]]
    unfolding response_fields_def headersHaveFold_iff [OF lower_literals(4)] ws neg .
qed

text \<open>The whole block, with a pending size update in front.\<close>

definition tbl_start :: "int \<Rightarrow> 'a hpackEncTable_scheme option \<Rightarrow> table \<Rightarrow> bool" where
  "tbl_start p tbl d \<longleftrightarrow> (case tbl of None \<Rightarrow> True | Some t \<Rightarrow> in_step p t d)"

lemma tbl_step_start: "tbl_step p tbl d \<Longrightarrow> tbl_start p tbl d"
  by (simp add: tbl_step_def tbl_start_def)

definition block_read :: "int \<Rightarrow> table \<Rightarrow> byte list \<Rightarrow> table \<Rightarrow> header list \<Rightarrow> bool" where
  "block_read p d b d' hs \<longleftrightarrow> (length hs \<le> 128 \<longrightarrow> ref_block p d [] b = Inr (d', hs))"

lemma emits_block: "emits p d b d' hs \<Longrightarrow> block_read p d b d' hs"
proof -
  assume "emits p d b d' hs"
  then have "length hs \<le> 128 \<Longrightarrow> ref_block p d [] (b @ []) = ref_block p d' ([] @ hs) []" unfolding emits_def by (metis add_0 list.size(3))
  moreover have "ref_block p d' ([] @ hs) [] = Inr (d', hs)" by (subst ref_block.simps) simp
  ultimately show ?thesis by (simp add: block_read_def)
qed

lemma writes_block:
  assumes "writes p tbl enc tbl' enc' hs" and "tbl_step p tbl d"
  shows "\<exists>b d'. Buf enc' = Buf enc @ b \<and> block_read p d b d' hs \<and> tbl_step p tbl' d' \<and> (tbl = None \<longrightarrow> d' = d)"
proof -
  obtain b d' where "Buf enc' = Buf enc @ b" "emits p d b d' hs" "tbl_step p tbl' d'" "tbl = None \<longrightarrow> d' = d" using assms unfolding writes_def by blast
  then show ?thesis using emits_block by blast
qed

lemma beginBlock_block:
  assumes "in_step p t d" and "beginBlock t (Buf enc) = (t1, buf1)"
    and "\<And>d1. tbl_step p (Some t1) d1 \<Longrightarrow> \<exists>b d'. Buf enc' = buf1 @ b \<and> block_read p d1 b d' hs \<and> P d'"
  shows "\<exists>b d'. Buf enc' = Buf enc @ b \<and> block_read p d b d' hs \<and> P d'"
proof -
  obtain b0 d1 where b0: "buf1 = Buf enc @ b0" "\<forall>rest. ref_block p d [] (b0 @ rest) = ref_block p d1 [] rest" "in_step p t1 d1" "\<not> pendingUpdate t1"
    using beginBlock_emits [OF assms(1,2)] by blast
  then have "tbl_step p (Some t1) d1" by (simp add: tbl_step_def tbl_ok_def in_step_def)
  from assms(3) [OF this] obtain b d' where "Buf enc' = buf1 @ b" "block_read p d1 b d' hs" "P d'" by blast
  then have "Buf enc' = Buf enc @ (b0 @ b)" "block_read p d (b0 @ b) d' hs" using b0 by (simp_all add: block_read_def)
  then show ?thesis using \<open>P d'\<close> by blast
qed

lemma dated_begin:
  assumes "beginBlock t (Buf enc) = (t1, buf1)"
  shows "encodeH2ResponseHeadersDated loaded enc (Some t) df code ct cl headers sv
    = encodeH2ResponseHeadersDated loaded (enc\<lparr>Buf := buf1\<rparr>) (Some t1) df code ct cl headers sv"
proof -
  have "beginBlock t1 buf1 = (t1, buf1)" using assms by (auto simp: beginBlock_def split: if_splits)
  then show ?thesis using assms unfolding encodeH2ResponseHeadersDated_def by simp
qed

definition response_ok :: "h2DateField \<Rightarrow> int \<Rightarrow> gostring \<Rightarrow> int \<Rightarrow> header list \<Rightarrow> gostring \<Rightarrow> bool" where
  "response_ok f code ct cl headers sv \<longleftrightarrow> date_ok f \<and> code < 10 ^ 10 \<and> cl < 2 ^ 63 \<and> sizes_ok ct headers sv
     \<and> length (response_fields (date_value f) code ct cl headers sv) \<le> 128"

lemma response_block:
  assumes "tbl_start p (Some t) d" and "field_cache_ok (hpackFieldCache enc)" and "response_ok (case df of None \<Rightarrow> loaded | Some f \<Rightarrow> f) code ct cl headers sv"
    and "encodeH2ResponseHeadersDated loaded enc (Some t) df code ct cl headers sv = (tbl', enc')"
  shows "field_cache_ok (hpackFieldCache enc') \<and> (\<exists>b d'. Buf enc' = Buf enc @ b
    \<and> block_read p d b d' (response_fields (date_value (case df of None \<Rightarrow> loaded | Some f \<Rightarrow> f)) code ct cl headers sv) \<and> tbl_step p tbl' d')"
proof -
  obtain t1 buf1 where b: "beginBlock t (Buf enc) = (t1, buf1)" by fastforce
  have step: "in_step p t d" using assms(1) by (simp add: tbl_start_def)
  have ok: "tbl_ok p (Some t1)" using beginBlock_emits [OF step b] by (auto simp: tbl_ok_def in_step_def)
  have w: "writes p (Some t1) (enc\<lparr>Buf := buf1\<rparr>) tbl' enc' (response_fields (date_value (case df of None \<Rightarrow> loaded | Some f \<Rightarrow> f)) code ct cl headers sv)"
    using assms(2-4) by (intro response_writes [OF ok]) (auto simp: response_ok_def dated_begin [OF b])
  have "\<exists>b d'. Buf enc' = Buf enc @ b \<and> block_read p d b d' (response_fields (date_value (case df of None \<Rightarrow> loaded | Some f \<Rightarrow> f)) code ct cl headers sv)
      \<and> tbl_step p tbl' d'"
    by (rule beginBlock_block [OF step b]) (use writes_block [OF w] in auto)
  then show ?thesis using w by (simp add: writes_def)
qed

section \<open>Refreshing the date of a stored block\<close>

lemma short_length:
  assumes "k \<le> 10"
  shows "EncodeInt dst 0 7 (of_nat k) = dst @ [of_nat k]" "unat ((of_nat k :: byte) AND 0x7f) = k" "(of_nat k :: byte) AND 0x80 = 0"
proof -
  have "k = 0 \<or> k = 1 \<or> k = 2 \<or> k = 3 \<or> k = 4 \<or> k = 5 \<or> k = 6 \<or> k = 7 \<or> k = 8 \<or> k = 9 \<or> k = 10" using assms by presburger
  then show "EncodeInt dst 0 7 (of_nat k) = dst @ [of_nat k]" "unat ((of_nat k :: byte) AND 0x7f) = k" "(of_nat k :: byte) AND 0x80 = 0"
    by (elim disjE; simp add: EncodeInt_def maxFirst_def)+
qed

lemma status_field_len:
  assumes "code < 10 ^ 10"
  shows "h2StatusFieldLen (EncodeStatus [] code @ r) = length (EncodeStatus [] code)"
proof (cases "code \<in> {200, 204, 206, 304, 400, 404, 500}")
  case True
  have "EncodeInt [] 0x80 7 i = [0x80 OR ucast i]" if "i < 127" for i :: u64 using that by (simp add: EncodeInt_def maxFirst_def)
  then show ?thesis using True by (auto simp: EncodeStatus_def EncodeIndexed_def h2StatusFieldLen_def)
next
  case False
  note short = short_length [OF length_appendUint(2) [OF assms]]
  have "EncodeInt [] 0 4 8 = [8]" by (simp add: EncodeInt_def maxFirst_def)
  then show ?thesis using False short by (simp add: EncodeStatus_def Let_def h2StatusFieldLen_def)
qed

text \<open>Writers that only append: what they append and the new cache depend on the old cache alone.\<close>

definition appends :: "(HpackEncoder \<Rightarrow> HpackEncoder) \<Rightarrow> bool" where
  "appends g \<longleftrightarrow> (\<forall>c. \<exists>x c'. \<forall>b. g \<lparr>Buf = b, hpackFieldCache = c\<rparr> = \<lparr>Buf = b @ x, hpackFieldCache = c'\<rparr>)"

lemma appends_tail:
  assumes "appends g" obtains x where "\<And>b. Buf (g \<lparr>Buf = b, hpackFieldCache = c\<rparr>) = b @ x"
proof -
  from assms obtain x c' where "\<forall>b. g \<lparr>Buf = b, hpackFieldCache = c\<rparr> = \<lparr>Buf = b @ x, hpackFieldCache = c'\<rparr>" unfolding appends_def by blast
  then show ?thesis using that by simp
qed

lemma appends_id [intro, simp]: "appends (\<lambda>e. e)"
  unfolding appends_def by (metis append.right_neutral)

lemma appends_comp: "appends f \<Longrightarrow> appends g \<Longrightarrow> appends (\<lambda>e. g (f e))"
  unfolding appends_def by (metis append.assoc)

lemma appends_buf: "(\<And>b. w b = b @ w []) \<Longrightarrow> appends (\<lambda>e. e\<lparr>Buf := w (Buf e)\<rparr>)"
  unfolding appends_def by (metis HpackEncoder.select_convs(1) HpackEncoder.update_convs(1))

lemma append_literal: "EncodeString (EncodeInt b 0 4 i) v = b @ EncodeString (EncodeInt [] 0 4 i) v"
  using EncodeString_append [of "EncodeInt b 0 4 i" v] EncodeString_append [of "EncodeInt [] 0 4 i" v] EncodeInt_append [of b] by simp

lemma appends_static: "appends (\<lambda>e. encodeStaticFieldCached e idx v)"
  unfolding appends_def
proof
  fix c :: "hpackCachedField option list"
  let ?s = "hpackFieldCacheSlot idx v"
  obtain x where x: "\<And>b. EncodeString (EncodeInt b 0 4 (of_nat idx)) v = b @ x" using append_literal by blast
  let ?hit = "\<lambda>ent. cf_idx ent = idx \<and> cf_value ent = v"
  consider (long) "length v > hpackFieldCacheMaxValue"
    | (hit) ent where "\<not> length v > hpackFieldCacheMaxValue" "c ! ?s = Some ent" "?hit ent"
    | (miss) "\<not> length v > hpackFieldCacheMaxValue" "\<forall>ent. c ! ?s = Some ent \<longrightarrow> \<not> ?hit ent" by blast
  then show "\<exists>x c'. \<forall>b. encodeStaticFieldCached \<lparr>Buf = b, hpackFieldCache = c\<rparr> idx v = \<lparr>Buf = b @ x, hpackFieldCache = c'\<rparr>"
  proof cases
    case long
    then show ?thesis by (intro exI [of _ x] exI [of _ c]) (simp add: encodeStaticFieldCached_def x)
  next
    case hit
    then show ?thesis by (intro exI [of _ "cf_enc ent"] exI [of _ c]) (simp add: encodeStaticFieldCached_def Let_def)
  next
    case miss
    then show ?thesis
      by (intro exI [of _ x] exI [of _ "c[?s := Some \<lparr>cf_idx = idx, cf_value = v, cf_enc = x\<rparr>]"]) (auto simp: encodeStaticFieldCached_def Let_def x split: option.splits)
  qed
qed

lemma encodeStringLower_append: "encodeStringLower b s = b @ encodeStringLower [] s"
  unfolding encodeStringLower_def Let_def lowerHuffLoop_map EncodeInt_append [of b]
  by (simp add: hpackHuffmanAppend_dst [unfolded hpackHuffmanAppend_def, of "b @ _"] hpackHuffmanAppend_dst [unfolded hpackHuffmanAppend_def, of "EncodeInt _ _ _ _"])

lemma appends_fold: "appends (\<lambda>e. EncodeHeaderFold e name v)"
proof (cases "hpackFindStaticNameFold name > 0")
  case True
  then show ?thesis using appends_static [of "hpackFindStaticNameFold name" v] by (simp add: EncodeHeaderFold_def)
next
  case False
  have "EncodeString (encodeStringLower (b @ [0]) name) v = b @ EncodeString (encodeStringLower ([] @ [0]) name) v" for b
    by (metis EncodeString_append encodeStringLower_append append.assoc append_Nil)
  then show ?thesis using False appends_buf [of "\<lambda>b. EncodeString (encodeStringLower (b @ [0]) name) v"] by (simp add: EncodeHeaderFold_def)
qed

text \<open>The loop without a table: it keeps having none, and the flag it returns does not depend on the encoder.\<close>

lemma appends_loop:
  "\<exists>g. appends g \<and> (\<forall>e. encodeHeadersLoop e (None :: hpackEncTable option) ct cl sv headers = (None, g e, sv \<or> has_lower headers (str ''server'')))"
proof (induction headers arbitrary: ct cl sv)
  case Nil
  then show ?case by (intro exI [of _ "\<lambda>e. e"]) (simp add: has_lower_def)
next
  case (Cons h headers)
  obtain name v where h: "h = (name, v)" by (cases h)
  let ?l = "map asciiLower name"
  let ?skip = "name = [] \<or> name ! 0 = b8 CHR '':'' \<or> isConnectionSpecificResponseField name"
  have low: "has_lower ((name, v) # headers) (str ''server'') = (?l = str ''server'' \<or> has_lower headers (str ''server''))" by (auto simp: has_lower_def)
  have eqs: "EqualFoldASCII name (str ''content-type'') = (?l = str ''content-type'')" "EqualFoldASCII name (str ''content-length'') = (?l = str ''content-length'')"
    "EqualFoldASCII name (str ''server'') = (?l = str ''server'')" unfolding EqualFoldASCII_iff lower_literals by simp_all
  have ne: "str ''content-type'' \<noteq> str ''server''" "str ''content-length'' \<noteq> str ''server''" "str ''content-length'' \<noteq> str ''content-type''" by simp_all
  have sk: "?skip \<Longrightarrow> ?l \<noteq> str ''server''" using server_kept by blast
  have st: "encodeH2StaticField e (None :: hpackEncTable option) i n v = (None, encodeStaticFieldCached e i v)" for e i n by (simp add: encodeH2StaticField_def)
  have cu: "encodeH2CustomField e (None :: hpackEncTable option) name v = (None, EncodeHeaderFold e name v)" for e by (simp add: encodeH2CustomField_def)
  have comp: "\<exists>g. appends g \<and> (\<forall>e. encodeHeadersLoop (f e) (None :: hpackEncTable option) ct' cl' sv' headers = (None, g e, sv' \<or> has_lower headers (str ''server'')))"
    if "appends f" for f ct' cl' sv'
    using Cons.IH [of ct' cl' sv'] appends_comp [OF that] by blast
  note id = comp [OF appends_id]
  show ?case
  proof (cases ?skip)
    case True
    then show ?thesis using id [of ct cl sv] sk by (simp add: h low del: str_simps)
  next
    case False
    consider "?l = str ''content-type''" | "?l = str ''content-length''" | "?l = str ''server''"
      | "?l \<noteq> str ''content-type''" "?l \<noteq> str ''content-length''" "?l \<noteq> str ''server''" by blast
    then show ?thesis
    proof cases
      case 1
      then show ?thesis using False ne id [of ct cl sv] comp [OF appends_static, of hpackStaticContentType v True cl sv]
        by (cases ct) (simp_all add: h low eqs st del: str_simps)
    next
      case 2
      then show ?thesis using False ne id [of ct cl sv] comp [OF appends_fold, of name v ct True sv]
        by (cases cl) (simp_all add: h low eqs del: str_simps)
    next
      case 3
      then show ?thesis using False ne id [of ct cl sv] comp [OF appends_static, of hpackStaticServer v ct cl True]
        by (cases sv) (simp_all add: h low eqs st del: str_simps)
    next
      case 4
      then show ?thesis using False comp [OF appends_fold, of name v ct cl sv] by (simp add: h low eqs cu del: str_simps)
    qed
  qed
qed

lemma plain_block:
  assumes "\<not> has_lower headers (str ''date'')"
  shows "\<exists>tail. \<forall>f. Buf (encodeH2ResponseHeaders f enc code ct cl headers sv) = EncodeStatus (Buf enc) code @ df_enc f @ tail"
proof -
  obtain g where g: "appends g" "\<And>e. encodeHeadersLoop e (None :: hpackEncTable option) (ct \<noteq> []) (cl \<ge> 0) False headers = (None, g e, has_lower headers (str ''server''))"
    using appends_loop [of "ct \<noteq> []" "cl \<ge> 0" False headers] by auto
  let ?ct = "\<lambda>e. if ct \<noteq> [] then encodeStaticFieldCached e hpackStaticContentType ct else e"
  let ?cl = "\<lambda>e. if cl \<ge> 0 then e\<lparr>Buf := EncodeString (EncodeInt (Buf e) 0x00 4 (of_nat hpackStaticContentLength)) (appendUint [] cl)\<rparr> else e"
  let ?sv = "\<lambda>e. if \<not> has_lower headers (str ''server'') then encodeStaticFieldCached e hpackStaticServer sv else e"
  have "appends ?ct" using appends_static by (cases "ct = []") simp_all
  moreover have "appends ?cl" using appends_buf [of "\<lambda>b. EncodeString (EncodeInt b 0 4 (of_nat hpackStaticContentLength)) (appendUint [] cl)", OF append_literal] by (cases "cl \<ge> 0") simp_all
  moreover have "appends ?sv" using appends_static by (cases "has_lower headers (str ''server'')") (simp_all del: str_simps)
  ultimately have "appends (\<lambda>e. ?sv (g (?cl (?ct e))))" (is "appends ?G") using g(1) appends_comp [of ?ct ?cl] appends_comp [of "\<lambda>e. ?cl (?ct e)" g] appends_comp [of "\<lambda>e. g (?cl (?ct e))" ?sv] by blast
  moreover define G where "G = ?G"
  ultimately have "appends G" by simp
  then obtain tail where tail: "\<And>b. Buf (G \<lparr>Buf = b, hpackFieldCache = hpackFieldCache enc\<rparr>) = b @ tail" using appends_tail by blast
  have "encodeH2ResponseHeaders f enc code ct cl headers sv = G \<lparr>Buf = EncodeStatus (Buf enc) code @ df_enc f, hpackFieldCache = hpackFieldCache enc\<rparr>" for f
    using assms unfolding G_def encodeH2ResponseHeaders_def encodeH2ResponseHeadersDated_def Let_def headersHaveFold_iff [OF lower_literals(4)]
    by (cases enc; cases "ct = []"; cases "0 \<le> cl") (use g(2) in \<open>simp_all add: encodeH2StaticField_def del: str_simps\<close>)
  then show ?thesis using tail by auto
qed

text \<open>
  C10: the stored header block of a precomputed response, refreshed with the field of the current second, is
  the block that encoding the response at that second gives.  The refresh overwrites the date where the
  length of the status field says it is, and nothing else.
\<close>

theorem refresh_is_reencoding:
  assumes "code < 10 ^ 10" and "\<not> has_lower headers (str ''date'')" and "date_ok old" and "date_ok new"
  shows "refreshH2DateField (df_enc new) (Buf (encodeH2ResponseHeaders old \<lparr>Buf = [], hpackFieldCache = c\<rparr> code ct cl headers sv))
    = Buf (encodeH2ResponseHeaders new \<lparr>Buf = [], hpackFieldCache = c\<rparr> code ct cl headers sv)"
proof -
  obtain tail where tail: "\<And>f. Buf (encodeH2ResponseHeaders f \<lparr>Buf = [], hpackFieldCache = c\<rparr> code ct cl headers sv) = EncodeStatus [] code @ df_enc f @ tail"
    using plain_block [OF assms(2), of "\<lparr>Buf = [], hpackFieldCache = c\<rparr>" code ct cl sv] by auto
  note at = status_field_len [OF assms(1), of "df_enc old @ tail"]
  have "length (df_enc old) = length (df_enc new)" "take (length h2DateFieldPrefix) (df_enc old) = h2DateFieldPrefix" "length h2DateFieldPrefix \<le> length (df_enc old)"
    using assms(3,4) unfolding date_ok_def by (metis length_append, metis append_eq_conv_conj, metis length_append le_add1)
  then show ?thesis unfolding tail refreshH2DateField_def Let_def at by simp
qed

theorem refresh_is_reencoding_witness:
  "refreshH2DateField (df_enc (newH2DateField (\<lambda>u. replicate 29 (if u = 1 then 50 else 49)) 2 1))
     (Buf (encodeH2ResponseHeaders (newH2DateField (\<lambda>u. replicate 29 (if u = 1 then 50 else 49)) 1 0) \<lparr>Buf = [], hpackFieldCache = replicate 64 None\<rparr> 200 [] 0 [] [65]))
   = Buf (encodeH2ResponseHeaders (newH2DateField (\<lambda>u. replicate 29 (if u = 1 then 50 else 49)) 2 1) \<lparr>Buf = [], hpackFieldCache = replicate 64 None\<rparr> 200 [] 0 [] [65])"
  by (rule refresh_is_reencoding) (simp_all add: has_lower_def new_date_ok h2DateValueLen_def)

end
