(* ===== verification/H2_HeadMemo.thy ===== *)
theory H2_HeadMemo
  imports H2_Response
begin

text \<open>
  The memo of the last response head, \<open>core/h2_headmemo.go\<close>, and the header blocks of a whole connection:
  a peer that reads the blocks in order sees exactly the fields of every response, whatever the memo, the
  shared field cache and the peer's table limits do.
\<close>

section \<open>Model\<close>

definition h2HeadMemoMaxFields :: nat where "h2HeadMemoMaxFields = 16"
definition h2HeadMemoMaxKey :: nat where "h2HeadMemoMaxKey = 1024"
definition h2HeadMemoMissBackoff :: nat where "h2HeadMemoMissBackoff = 64"

record h2HeadMemo =
  hm_gen :: u32
  hm_status :: int
  hm_contentLength :: int
  hm_date :: "h2DateField option"
  ctLen :: nat
  hm_key :: "byte list"
  headerLens :: "nat list"
  hm_block :: "byte list"
  probation :: bool
  hm_skip :: nat

definition zeroMemo :: h2HeadMemo where
  "zeroMemo = \<lparr>hm_gen = 0, hm_status = 0, hm_contentLength = 0, hm_date = None, ctLen = 0, hm_key = [], headerLens = [],
     hm_block = [], probation = False, hm_skip = 0\<rparr>"

record h2EncTable = hpackEncTable +
  headMemo :: "h2HeadMemo option"

definition headerBytes :: "header list \<Rightarrow> nat" where
  "headerBytes headers = sum_list (map (\<lambda>h. length (fst h) + length (snd h)) headers)"

definition h2HeadMemoEligible :: "header list \<Rightarrow> bool" where
  "h2HeadMemoEligible headers =
     (if length headers > h2HeadMemoMaxFields then False
      else headerBytes headers \<le> h2HeadMemoMaxKey \<and> \<not> headersHaveFold headers (str ''date''))"

definition headMemoReady :: "h2EncTable \<Rightarrow> header list \<Rightarrow> h2EncTable \<times> bool" where
  "headMemoReady t headers =
     (case headMemo t of
        Some m \<Rightarrow>
          if hm_skip m > 0 then (t\<lparr>headMemo := Some (m\<lparr>hm_skip := hm_skip m - 1\<rparr>)\<rparr>, False)
          else (t, headers = [] \<or> h2HeadMemoEligible headers)
      | None \<Rightarrow> (t, headers = [] \<or> h2HeadMemoEligible headers))"

text \<open>
  The strings of the headers in the order the code visits them.  The lengths are never shorter than the
  headers when \<open>headersMatch\<close> is called, because \<open>matches\<close> has compared the counts.
\<close>

definition headerStrings :: "header list \<Rightarrow> gostring list" where
  "headerStrings headers = concat (map (\<lambda>h. [fst h, snd h]) headers)"

fun headersMatchLoop :: "byte list \<Rightarrow> nat list \<Rightarrow> nat \<Rightarrow> gostring list \<Rightarrow> bool" where
  "headersMatchLoop key lens off [] = (off = length key)"
| "headersMatchLoop key [] off (s # ss) = False"
| "headersMatchLoop key (n # lens) off (s # ss) =
     (if n \<noteq> length s \<or> off + n > length key \<or> take n (drop off key) \<noteq> s then False
      else headersMatchLoop key lens (off + n) ss)"

definition headersMatch :: "h2HeadMemo \<Rightarrow> nat \<Rightarrow> header list \<Rightarrow> bool" where
  "headersMatch m off headers = headersMatchLoop (hm_key m) (headerLens m) off (headerStrings headers)"

definition memo_matches :: "h2HeadMemo \<Rightarrow> u32 \<Rightarrow> h2DateField \<Rightarrow> int \<Rightarrow> gostring \<Rightarrow> int \<Rightarrow> header list \<Rightarrow> gostring \<Rightarrow> bool" where
  "memo_matches m gen date status contentType contentLength headers serverName =
     (if hm_gen m \<noteq> gen \<or> hm_date m \<noteq> Some date \<or> hm_status m \<noteq> status \<or> hm_contentLength m \<noteq> contentLength
         \<or> length (headerLens m) \<noteq> 2 * length headers \<or> length (hm_block m) = 0 \<or> ctLen m \<noteq> length contentType then False
      else
        let n = ctLen m + length serverName in
        if length (hm_key m) < n \<or> take (ctLen m) (hm_key m) \<noteq> contentType
           \<or> take (length serverName) (drop (ctLen m) (hm_key m)) \<noteq> serverName then False
        else if headers = [] then length (hm_key m) = n
        else headersMatch m n headers)"

definition remember :: "h2HeadMemo \<Rightarrow> u32 \<Rightarrow> h2DateField \<Rightarrow> int \<Rightarrow> gostring \<Rightarrow> int \<Rightarrow> header list \<Rightarrow> gostring \<Rightarrow> byte list \<Rightarrow> h2HeadMemo" where
  "remember m gen date status contentType contentLength headers serverName block =
     m\<lparr>hm_gen := gen, hm_date := Some date, hm_status := status, hm_contentLength := contentLength,
       ctLen := length contentType, hm_key := contentType @ serverName @ concat (headerStrings headers),
       headerLens := map length (headerStrings headers), hm_block := block, probation := True\<rparr>"

definition encodeH2ResponseHeadersRemembered ::
  "h2DateField \<Rightarrow> HpackEncoder \<Rightarrow> h2EncTable \<Rightarrow> h2DateField \<Rightarrow> int \<Rightarrow> gostring \<Rightarrow> int \<Rightarrow> header list \<Rightarrow> gostring \<Rightarrow> h2EncTable option \<times> HpackEncoder" where
  "encodeH2ResponseHeadersRemembered loaded enc tbl date statusCode contentType contentLength headers serverName =
     (let gen = et_gen tbl;
          start = length (Buf enc)
      in case encodeH2ResponseHeadersDated loaded enc (Some tbl) (Some date) statusCode contentType contentLength headers serverName of
           (None, enc) \<Rightarrow> (None, enc)
         | (Some tbl, enc) \<Rightarrow>
             if et_gen tbl \<noteq> gen then (Some tbl, enc)
             else
               let saved = (\<lambda>m. tbl\<lparr>headMemo := Some (remember m gen date statusCode contentType contentLength headers serverName (drop start (Buf enc)))\<rparr>)
               in case headMemo tbl of
                    None \<Rightarrow> (Some (saved zeroMemo), enc)
                  | Some m \<Rightarrow>
                      if probation m \<and> hm_gen m = gen \<and> hm_date m = Some date
                      then (Some (tbl\<lparr>headMemo := Some (m\<lparr>probation := False, hm_skip := h2HeadMemoMissBackoff\<rparr>)\<rparr>), enc)
                      else (Some (saved m), enc))"

text \<open>The \<open>||\<close> in the condition: the memo's counter is touched only when no update is pending.\<close>

definition encodeH2ResponseHeadersIndexed ::
  "h2DateField \<Rightarrow> HpackEncoder \<Rightarrow> h2EncTable option \<Rightarrow> int \<Rightarrow> gostring \<Rightarrow> int \<Rightarrow> header list \<Rightarrow> gostring \<Rightarrow> h2EncTable option \<times> HpackEncoder" where
  "encodeH2ResponseHeadersIndexed loaded enc tbl statusCode contentType contentLength headers serverName =
     (let dated = (\<lambda>tbl. encodeH2ResponseHeadersDated loaded enc tbl None statusCode contentType contentLength headers serverName) in
      case tbl of
        None \<Rightarrow> dated None
      | Some t \<Rightarrow>
          if pendingUpdate t then dated (Some t)
          else
            let (t, ready) = headMemoReady t headers in
            if \<not> ready then dated (Some t)
            else
              case headMemo t of
                Some m \<Rightarrow>
                  if memo_matches m (et_gen t) loaded statusCode contentType contentLength headers serverName
                  then (Some (t\<lparr>headMemo := Some (m\<lparr>probation := False\<rparr>)\<rparr>), enc\<lparr>Buf := Buf enc @ hm_block m\<rparr>)
                  else encodeH2ResponseHeadersRemembered loaded enc t loaded statusCode contentType contentLength headers serverName
              | None \<Rightarrow> encodeH2ResponseHeadersRemembered loaded enc t loaded statusCode contentType contentLength headers serverName)"

section \<open>The key of the memo\<close>

definition memo_key :: "h2HeadMemo \<Rightarrow> gostring \<Rightarrow> header list \<Rightarrow> gostring \<Rightarrow> bool" where
  "memo_key m ct headers sv \<longleftrightarrow> ctLen m = length ct \<and> hm_key m = ct @ sv @ concat (headerStrings headers)
     \<and> headerLens m = map length (headerStrings headers)"

lemma headerStrings_Cons [simp]: "headerStrings (h # hs) = fst h # snd h # headerStrings hs"
  by (simp add: headerStrings_def)

lemma headerStrings_Nil [simp]: "headerStrings [] = []"
  by (simp add: headerStrings_def)

lemma headerStrings_inj: "headerStrings xs = headerStrings ys \<Longrightarrow> xs = ys"
proof (induction xs arbitrary: ys)
  case Nil
  then show ?case by (cases ys) simp_all
next
  case (Cons x xs)
  then show ?case by (cases ys) (auto simp: prod_eq_iff)
qed

lemma concat_same_lengths: "map length xs = map length ys \<Longrightarrow> concat xs = concat ys \<Longrightarrow> xs = ys"
proof (induction xs arbitrary: ys)
  case (Cons x xs)
  then show ?case by (cases ys) auto
qed simp

text \<open>A successful match has compared every string with its part of the key.\<close>

lemma headersMatchLoop_sound:
  "headersMatchLoop key lens off ss \<Longrightarrow> length lens = length ss \<Longrightarrow> off \<le> length key \<Longrightarrow> lens = map length ss \<and> drop off key = concat ss"
proof (induction key lens off ss rule: headersMatchLoop.induct)
  case (3 key n lens off s ss)
  then have n: "n = length s" "off + n \<le> length key" "take n (drop off key) = s" "headersMatchLoop key lens (off + n) ss" "length lens = length ss"
    by (auto split: if_splits)
  then have "lens = map length ss \<and> drop (off + n) key = concat ss" using 3 by auto
  then show ?case using n append_take_drop_id [of n "drop off key"] by (simp add: add.commute)
qed simp_all

lemma memo_matches_key:
  assumes "memo_key m ct headers sv" and "memo_matches m gen date status ct' cl' headers' sv'"
  shows "ct' = ct \<and> headers' = headers \<and> sv' = sv \<and> hm_gen m = gen \<and> hm_date m = Some date \<and> hm_status m = status \<and> hm_contentLength m = cl' \<and> hm_block m \<noteq> []"
proof -
  let ?n = "length ct' + length sv'" and ?key = "hm_key m"
  have m: "hm_gen m = gen" "hm_date m = Some date" "hm_status m = status" "hm_contentLength m = cl'" "length (headerLens m) = 2 * length headers'" "hm_block m \<noteq> []"
      "length ct' = length ct" "?n \<le> length ?key" "take (length ct') ?key = ct'" "take (length sv') (drop (length ct') ?key) = sv'"
      "if headers' = [] then length ?key = ?n else headersMatch m ?n headers'"
    using assms by (auto simp: memo_matches_def memo_key_def Let_def split: if_splits)
  have two: "length (headerStrings hs) = 2 * length hs" for hs by (induction hs) simp_all
  have key: "?key = ct @ sv @ concat (headerStrings headers)" "headerLens m = map length (headerStrings headers)" using assms(1) by (simp_all add: memo_key_def)
  have "take (length ct) ?key = ct" unfolding key by simp
  then have ct: "ct' = ct" using m(7,9) by metis
  have rest: "headerLens m = map length (headerStrings headers') \<and> drop ?n ?key = concat (headerStrings headers')"
    using m(5,8,11) headersMatchLoop_sound [of ?key "headerLens m" ?n "headerStrings headers'"] two [of headers']
    by (auto simp: headersMatch_def split: if_splits)
  have lens: "map length (headerStrings headers') = map length (headerStrings headers)" using rest key(2) by simp
  then have "length (concat (headerStrings headers')) = length (concat (headerStrings headers))" by (simp add: length_concat)
  then have "length sv' = length sv" using m(8) ct arg_cong [OF conjunct2 [OF rest], of length] unfolding key by simp
  moreover have "take (length sv) (drop (length ct) ?key) = sv" "drop (length ct + length sv) ?key = concat (headerStrings headers)" unfolding key by simp_all
  ultimately have sv: "sv' = sv" and "concat (headerStrings headers') = concat (headerStrings headers)"
    using m(10) conjunct2 [OF rest] unfolding ct by metis+
  then show ?thesis using ct m lens headerStrings_inj concat_same_lengths by blast
qed

section \<open>Changes of the table\<close>

text \<open>
  From \<open>t\<close> to \<open>t'\<close> the generation went up \<open>j\<close> times; the memo is untouched, and with no change of the
  generation the entries and sizes are the same.
\<close>

definition gen_adv :: "nat \<Rightarrow> h2EncTable \<Rightarrow> h2EncTable \<Rightarrow> bool" where
  "gen_adv j t t' \<longleftrightarrow> et_gen t' = et_gen t + of_nat j \<and> headMemo t' = headMemo t
     \<and> (j = 0 \<longrightarrow> et_entries t' = et_entries t \<and> et_size t' = et_size t \<and> et_maxSize t' = et_maxSize t)"

lemma gen_adv_refl [simp]: "gen_adv 0 t t"
  by (simp add: gen_adv_def)

lemma gen_adv_trans: "gen_adv j t u \<Longrightarrow> gen_adv k u v \<Longrightarrow> gen_adv (j + k) t v"
  by (auto simp: gen_adv_def)

text \<open>At most \<open>n\<close> changes.\<close>

definition gen_le :: "nat \<Rightarrow> h2EncTable \<Rightarrow> h2EncTable \<Rightarrow> bool" where
  "gen_le n t t' \<longleftrightarrow> (\<exists>j\<le>n. gen_adv j t t')"

lemma gen_le_refl [simp]: "gen_le n t t"
  unfolding gen_le_def using gen_adv_refl by blast

lemma gen_le_trans: "gen_le m t u \<Longrightarrow> gen_le n u v \<Longrightarrow> gen_le (m + n) t v"
  unfolding gen_le_def by (meson add_mono gen_adv_trans)

lemma gen_le_mono: "gen_le m t u \<Longrightarrow> m \<le> n \<Longrightarrow> gen_le n t u"
  unfolding gen_le_def by (meson order_trans)

lemma evictCount_none: "fst (evictCount es sz limit) = 0 \<Longrightarrow> snd (evictCount es sz limit) = sz"
  by (cases es) (auto simp: Let_def split: prod.splits if_splits)

lemma evictTo_gen: "gen_le 1 t (evictTo t limit)"
proof (cases "fst (evictCount (et_entries t) (et_size t) limit) = 0")
  case True
  then show ?thesis using evictCount_none [OF True] by (auto simp: evictTo_def split: prod.splits)
next
  case False
  then have "gen_adv 1 t (evictTo t limit)" by (auto simp: evictTo_def gen_adv_def Let_def split: prod.splits)
  then show ?thesis unfolding gen_le_def by blast
qed

lemma gen_adv_change: "gen_le m t u \<Longrightarrow> et_gen v = et_gen u + 1 \<Longrightarrow> headMemo v = headMemo u \<Longrightarrow> gen_le (m + 1) t v"
  by (rule gen_le_trans) (auto simp: gen_le_def gen_adv_def intro: exI [of _ 1])

lemma et_add_gen: "gen_le 2 t (et_add t n v)"
  using gen_le_mono [OF evictTo_gen [of t 0], of 2] gen_adv_change [OF evictTo_gen [of t "et_maxSize t - hpackEncEntrySize n v"]]
  by (simp add: et_add_def Let_def numeral_2_eq_2)

lemma setPeerLimit_gen: "gen_le 2 t (setPeerLimit t limit)"
proof (cases "min (uint limit) h2EncTableMaxSize = et_maxSize t")
  case False
  let ?m = "min (uint limit) h2EncTableMaxSize"
  have "\<exists>j\<le>1. et_gen (evictTo (t\<lparr>et_maxSize := ?m\<rparr>) ?m) = et_gen t + of_nat j \<and> headMemo (evictTo (t\<lparr>et_maxSize := ?m\<rparr>) ?m) = headMemo t"
    using evictTo_gen [of "t\<lparr>et_maxSize := ?m\<rparr>" ?m] by (auto simp: gen_le_def gen_adv_def)
  then obtain j where "j \<le> 1" "et_gen (evictTo (t\<lparr>et_maxSize := ?m\<rparr>) ?m) = et_gen t + of_nat j" "headMemo (evictTo (t\<lparr>et_maxSize := ?m\<rparr>) ?m) = headMemo t" by blast
  then have "gen_adv (j + 1) t (setPeerLimit t limit)" using False by (simp add: setPeerLimit_def Let_def gen_adv_def)
  then show ?thesis using \<open>j \<le> 1\<close> unfolding gen_le_def by (intro exI [of _ "j + 1"]) simp
qed (simp add: setPeerLimit_def)

lemma encodeField_gen: "encodeField t enc i n v = (t', enc') \<Longrightarrow> gen_le 2 t t'"
  using et_add_gen [of t n v] by (auto simp: encodeField_def Let_def split: if_splits)

lemma beginBlock_gen: "beginBlock t b = (t', b') \<Longrightarrow> gen_le 0 t t'"
  by (auto simp: beginBlock_def gen_le_def gen_adv_def split: if_splits)

text \<open>The same for tables that may be absent.\<close>

definition tbl_le :: "nat \<Rightarrow> h2EncTable option \<Rightarrow> h2EncTable option \<Rightarrow> bool" where
  "tbl_le n tbl tbl' \<longleftrightarrow> (case tbl of None \<Rightarrow> tbl' = None | Some t \<Rightarrow> \<exists>t'. tbl' = Some t' \<and> gen_le n t t')"

lemma tbl_le_refl [simp]: "tbl_le n tbl tbl"
  by (simp add: tbl_le_def split: option.splits)

lemma tbl_le_trans: "tbl_le m tbl tbl1 \<Longrightarrow> tbl_le n tbl1 tbl2 \<Longrightarrow> tbl_le (m + n) tbl tbl2"
  using gen_le_trans by (auto simp: tbl_le_def split: option.splits)

lemma tbl_le_mono: "tbl_le m tbl tbl1 \<Longrightarrow> m \<le> n \<Longrightarrow> tbl_le n tbl tbl1"
  using gen_le_mono by (auto simp: tbl_le_def split: option.splits)

lemma static_gen: "encodeH2StaticField enc tbl i n v = (tbl', enc') \<Longrightarrow> tbl_le 2 tbl tbl'"
  using encodeField_gen by (auto simp: encodeH2StaticField_def tbl_le_def split: option.splits prod.splits)

lemma custom_gen: "encodeH2CustomField enc tbl name v = (tbl', enc') \<Longrightarrow> tbl_le 2 tbl tbl'"
  using encodeField_gen by (auto simp: encodeH2CustomField_def tbl_le_def split: option.splits prod.splits)

lemma loop_gen: "encodeHeadersLoop enc tbl ct cl sv headers = (tbl', enc', sv') \<Longrightarrow> tbl_le (2 * length headers) tbl tbl'"
proof (induction headers arbitrary: enc tbl ct cl sv)
  case (Cons h headers)
  obtain name v where h: "h = (name, v)" by (cases h)
  have step: "tbl_le (2 * length (h # headers)) tbl tbl'" if "encodeHeadersLoop e tbl1 ct1 cl1 sv1 headers = (tbl', enc', sv')" "tbl_le 2 tbl tbl1" for e tbl1 ct1 cl1 sv1
    using tbl_le_trans [OF that(2) Cons.IH [OF that(1)]] by simp
  show ?case
    using Cons.prems step [OF _ tbl_le_refl] step [OF _ static_gen] step [OF _ custom_gen] unfolding h
    by (auto simp: Let_def simp del: str_simps split: if_splits prod.splits)
qed simp

definition head_cost :: "header list \<Rightarrow> nat" where
  "head_cost headers = 2 * (length headers + 3)"

lemma dated_gen:
  assumes "encodeH2ResponseHeadersDated loaded enc (Some t) df code ct cl headers sv = (tbl', enc')"
  shows "tbl_le (head_cost headers) (Some t) tbl'"
proof -
  let ?f = "case df of None \<Rightarrow> loaded | Some f \<Rightarrow> f"
  obtain t1 buf1 where b: "beginBlock t (Buf enc) = (t1, buf1)" by fastforce
  let ?enc = "enc\<lparr>Buf := EncodeStatus buf1 code\<rparr>"
  obtain t2 enc2 where e2: "(if \<not> headersHaveFold headers (str ''date'') then encodeField t1 ?enc hpackStaticDate (str ''date'') (drop (length h2DateFieldPrefix) (df_enc ?f)) else (t1, ?enc)) = (t2, enc2)" (is "?e2 = _")
    by (cases ?e2)
  obtain tbl3 enc3 where e3: "(if ct \<noteq> [] then encodeH2StaticField enc2 (Some t2) hpackStaticContentType (str ''content-type'') ct else (Some t2, enc2)) = (tbl3, enc3)" (is "?e3 = _")
    by (cases ?e3)
  define enc4 where "enc4 = (if cl \<ge> 0 then enc3\<lparr>Buf := EncodeString (EncodeInt (Buf enc3) 0x00 4 (of_nat hpackStaticContentLength)) (appendUint [] cl)\<rparr> else enc3)"
  obtain tbl5 enc5 ws where e5: "encodeHeadersLoop enc4 tbl3 (ct \<noteq> []) (cl \<ge> 0) False headers = (tbl5, enc5, ws)" by (cases "encodeHeadersLoop enc4 tbl3 (ct \<noteq> []) (cl \<ge> 0) False headers")
  have "(if \<not> ws then encodeH2StaticField enc5 tbl5 hpackStaticServer (str ''server'') sv else (tbl5, enc5)) = (tbl', enc')"
    using assms b e2 e3 e5 unfolding encodeH2ResponseHeadersDated_def enc4_def by (auto simp del: str_simps split: if_splits prod.splits)
  then have "tbl_le 2 tbl5 tbl'" using static_gen by (auto simp del: str_simps split: if_splits)
  moreover have "tbl_le 2 (Some t2) tbl3" using e3 static_gen by (auto simp del: str_simps split: if_splits)
  moreover have "tbl_le 2 (Some t1) (Some t2)" using e2 encodeField_gen by (auto simp: tbl_le_def simp del: str_simps split: if_splits)
  moreover have "tbl_le 0 (Some t) (Some t1)" using beginBlock_gen [OF b] by (simp add: tbl_le_def)
  ultimately have "tbl_le (0 + (2 + (2 + (2 * length headers + 2)))) (Some t) tbl'" using loop_gen [OF e5] tbl_le_trans by meson
  then show ?thesis by (rule tbl_le_mono) (simp add: head_cost_def)
qed

section \<open>The memo\<close>

text \<open>The block can be sent again: every peer in step with the table reads the fields and stays in step.\<close>

definition replays :: "h2EncTable \<Rightarrow> byte list \<Rightarrow> header list \<Rightarrow> bool" where
  "replays t b hs \<longleftrightarrow> (\<forall>p d. tbl_step p (Some (t\<lparr>pendingUpdate := False\<rparr>)) d \<longrightarrow> (\<exists>d'. block_read p d b d' hs \<and> tbl_step p (Some (t\<lparr>pendingUpdate := False\<rparr>)) d'))"

definition memo_good :: "h2EncTable \<Rightarrow> h2HeadMemo \<Rightarrow> bool" where
  "memo_good t m \<longleftrightarrow> (\<exists>date ct headers sv. hm_date m = Some date \<and> memo_key m ct headers sv
     \<and> replays t (hm_block m) (response_fields (date_value date) (hm_status m) ct (hm_contentLength m) headers sv))"

text \<open>After \<open>c\<close> changes in all, the memo is \<open>k\<close> changes old, and good if that is none.\<close>

definition memo_inv :: "nat \<Rightarrow> h2EncTable \<Rightarrow> bool" where
  "memo_inv c t \<longleftrightarrow> (\<forall>m. headMemo t = Some m \<longrightarrow> hm_block m \<noteq> [] \<longrightarrow> (\<exists>k\<le>c. et_gen t = hm_gen m + of_nat k \<and> (k = 0 \<longrightarrow> memo_good t m)))"

definition same_core :: "h2EncTable \<Rightarrow> h2EncTable \<Rightarrow> bool" where
  "same_core t t' \<longleftrightarrow> et_entries t' = et_entries t \<and> et_size t' = et_size t \<and> et_maxSize t' = et_maxSize t"

lemma tbl_step_core:
  "same_core t t' \<Longrightarrow> tbl_step p (Some (t\<lparr>pendingUpdate := False\<rparr>)) d = tbl_step p (Some (t'\<lparr>pendingUpdate := False\<rparr>)) d"
  by (simp add: same_core_def tbl_step_def tbl_ok_def in_step_def enc_inv_def enc_entries_def)

lemma memo_good_core: "memo_good t m \<Longrightarrow> same_core t t' \<Longrightarrow> memo_good t' m"
  unfolding memo_good_def replays_def using tbl_step_core by simp

lemma memo_inv_adv:
  assumes "memo_inv c t" and "gen_le n t t'"
  shows "memo_inv (c + n) t'"
  unfolding memo_inv_def
proof (intro allI impI)
  fix m
  assume m: "headMemo t' = Some m" "hm_block m \<noteq> []"
  obtain j where j: "j \<le> n" "gen_adv j t t'" using assms(2) by (auto simp: gen_le_def)
  then have "headMemo t = Some m" using m by (simp add: gen_adv_def)
  then obtain k where k: "k \<le> c" "et_gen t = hm_gen m + of_nat k" "k = 0 \<longrightarrow> memo_good t m" using assms(1) m by (auto simp: memo_inv_def)
  have "k + j = 0 \<longrightarrow> memo_good t' m" using k(3) j(2) memo_good_core [of t m t'] by (auto simp: gen_adv_def same_core_def)
  then show "\<exists>k\<le>c + n. et_gen t' = hm_gen m + of_nat k \<and> (k = 0 \<longrightarrow> memo_good t' m)"
    using k j by (intro exI [of _ "k + j"]) (auto simp: gen_adv_def)
qed

text \<open>The counters of the memo do not matter.\<close>

lemma memo_inv_flags:
  assumes "memo_inv c t" and "headMemo t = Some m" and "hm_gen m' = hm_gen m" "hm_status m' = hm_status m" "hm_contentLength m' = hm_contentLength m"
    "hm_date m' = hm_date m" "ctLen m' = ctLen m" "hm_key m' = hm_key m" "headerLens m' = headerLens m" "hm_block m' = hm_block m"
  shows "memo_inv c (t\<lparr>headMemo := Some m'\<rparr>)"
proof -
  have core: "same_core t (t\<lparr>headMemo := Some m'\<rparr>)" by (simp add: same_core_def)
  have "memo_good t m \<Longrightarrow> memo_good t m'" using assms(3-) by (simp add: memo_good_def memo_key_def)
  then show ?thesis using assms memo_good_core [OF _ core, of m'] by (auto simp: memo_inv_def)
qed

lemma small_generation: "of_nat k = (0 :: u32) \<Longrightarrow> k < 2 ^ 32 \<Longrightarrow> k = 0"
  using unat_of_nat [of k, where 'a = 32] by simp

lemma in_step_memo [simp]: "in_step p (t\<lparr>headMemo := x\<rparr>) d = in_step p t d"
  by (simp add: in_step_def enc_inv_def enc_entries_def)

lemma not_pending: "\<not> pendingUpdate t \<Longrightarrow> t\<lparr>pendingUpdate := False\<rparr> = (t :: h2EncTable)"
  by simp

text \<open>What one response does to a connection whose peer is in step.\<close>

definition response_step :: "int \<Rightarrow> nat \<Rightarrow> HpackEncoder \<Rightarrow> table \<Rightarrow> header list \<Rightarrow> h2EncTable option \<Rightarrow> HpackEncoder \<Rightarrow> bool" where
  "response_step p c enc d hs tbl' enc' \<longleftrightarrow> field_cache_ok (hpackFieldCache enc') \<and> (\<exists>t' b d'. tbl' = Some t' \<and> Buf enc' = Buf enc @ b
     \<and> block_read p d b d' hs \<and> in_step p t' d' \<and> memo_inv c t')"

lemma dated_step:
  assumes "in_step p t d" and "memo_inv c t" and "field_cache_ok (hpackFieldCache enc)" and "response_ok (case df of None \<Rightarrow> loaded | Some f \<Rightarrow> f) code ct cl headers sv"
    and "encodeH2ResponseHeadersDated loaded enc (Some t) df code ct cl headers sv = (tbl', enc')"
  shows "response_step p (c + head_cost headers) enc d (response_fields (date_value (case df of None \<Rightarrow> loaded | Some f \<Rightarrow> f)) code ct cl headers sv) tbl' enc'"
proof -
  obtain t' where t': "tbl' = Some t'" "gen_le (head_cost headers) t t'" using dated_gen [OF assms(5)] by (auto simp: tbl_le_def)
  have "tbl_start p (Some t) d" using assms(1) by (simp add: tbl_start_def)
  from response_block [OF this assms(3-5)] t' memo_inv_adv [OF assms(2) t'(2)] show ?thesis
    unfolding response_step_def tbl_step_def by (metis option.simps(5))
qed

lemma remembered_step:
  assumes "in_step p t d" and "\<not> pendingUpdate t" and "memo_inv c t" and "field_cache_ok (hpackFieldCache enc)" and "response_ok date code ct cl headers sv"
    and "head_cost headers < 2 ^ 32" and "encodeH2ResponseHeadersRemembered loaded enc t date code ct cl headers sv = (tbl', enc')"
  shows "response_step p (c + head_cost headers) enc d (response_fields (date_value date) code ct cl headers sv) tbl' enc'"
proof -
  let ?hs = "response_fields (date_value date) code ct cl headers sv" and ?c = "c + head_cost headers"
  obtain tbl1 enc1 where e: "encodeH2ResponseHeadersDated loaded enc (Some t) (Some date) code ct cl headers sv = (tbl1, enc1)" by fastforce
  have st1: "response_step p ?c enc d ?hs tbl1 enc1" using dated_step [OF assms(1,3,4) _ e] assms(5) by simp
  then obtain t1 b d' where s: "field_cache_ok (hpackFieldCache enc1)" "tbl1 = Some t1" "Buf enc1 = Buf enc @ b" "block_read p d b d' ?hs" "in_step p t1 d'" "memo_inv ?c t1"
    unfolding response_step_def by blast
  have keep: "response_step p ?c enc d ?hs (Some (t1\<lparr>headMemo := mm\<rparr>)) enc1" if "memo_inv ?c (t1\<lparr>headMemo := mm\<rparr>)" for mm
    unfolding response_step_def using that s by (intro conjI exI [of _ "t1\<lparr>headMemo := mm\<rparr>"] exI [of _ b] exI [of _ d']) simp_all
  show ?thesis
  proof (cases "et_gen t1 = et_gen t")
    case False
    then show ?thesis using assms(7) e s(2) st1 unfolding encodeH2ResponseHeadersRemembered_def by (auto simp: Let_def)
  next
    case True
    obtain j where j: "j \<le> head_cost headers" "gen_adv j t t1" using dated_gen [OF e] s(2) by (auto simp: tbl_le_def gen_le_def)
    have "of_nat j = (0 :: u32)" using j(2) True by (simp add: gen_adv_def)
    then have "j = 0" using j(1) assms(6) small_generation [of j] by simp
    then have core: "same_core t t1" using j(2) by (simp add: gen_adv_def same_core_def)
    have rep: "replays t1 b ?hs" unfolding replays_def
    proof (intro allI impI)
      fix q d0
      assume "tbl_step q (Some (t1\<lparr>pendingUpdate := False\<rparr>)) d0"
      then have st: "tbl_step q (Some t) d0" using tbl_step_core [OF core] not_pending [OF assms(2)] by simp
      have "writes q (Some t) enc (Some t1) enc1 ?hs"
        using response_writes [where p = q and tbl = "Some t" and df = "Some date" and tbl' = tbl1] st assms(4,5) e s(2) by (simp add: tbl_step_def response_ok_def)
      from writes_block [OF this st] obtain d1 where d1: "block_read q d0 b d1 ?hs" "tbl_step q (Some t1) d1" using s(3) by auto
      then have np: "\<not> pendingUpdate t1" by (simp add: tbl_step_def tbl_ok_def)
      show "\<exists>d'. block_read q d0 b d' ?hs \<and> tbl_step q (Some (t1\<lparr>pendingUpdate := False\<rparr>)) d'"
        unfolding not_pending [OF np] using d1 by blast
    qed
    have new: "memo_inv ?c (t1\<lparr>headMemo := Some (remember m (et_gen t) date code ct cl headers sv (drop (length (Buf enc)) (Buf enc1)))\<rparr>)" for m
    proof -
      let ?m = "remember m (et_gen t) date code ct cl headers sv b"
      have "memo_good t1 ?m" unfolding memo_good_def memo_key_def by (intro exI conjI) (use rep in \<open>simp_all add: remember_def\<close>)
      then have "memo_good (t1\<lparr>headMemo := Some ?m\<rparr>) ?m" by (rule memo_good_core) (simp add: same_core_def)
      then show ?thesis using True s(3) by (auto simp: memo_inv_def remember_def intro: exI [of _ 0])
    qed
    show ?thesis
    proof (cases "headMemo t1")
      case None
      then show ?thesis using assms(7) e s(2) True keep [OF new] unfolding encodeH2ResponseHeadersRemembered_def by (auto simp: Let_def)
    next
      case (Some m)
      have "memo_inv ?c (t1\<lparr>headMemo := Some (m\<lparr>probation := False, hm_skip := h2HeadMemoMissBackoff\<rparr>)\<rparr>)" by (rule memo_inv_flags [OF s(6) Some]) simp_all
      then show ?thesis using assms(7) e s(2) True Some keep [OF new] keep unfolding encodeH2ResponseHeadersRemembered_def by (auto simp: Let_def split: if_splits)
    qed
  qed
qed

lemma indexed_step:
  assumes "in_step p t d" and "memo_inv c t" and "field_cache_ok (hpackFieldCache enc)" and "response_ok loaded code ct cl headers sv"
    and "c + head_cost headers < 2 ^ 32" and "encodeH2ResponseHeadersIndexed loaded enc (Some t) code ct cl headers sv = (tbl', enc')"
  shows "response_step p (c + head_cost headers) enc d (response_fields (date_value loaded) code ct cl headers sv) tbl' enc'"
proof (cases "pendingUpdate t")
  case True
  then show ?thesis using dated_step [where df = None and loaded = loaded] assms by (simp add: encodeH2ResponseHeadersIndexed_def)
next
  case False
  obtain t1 ready where r: "headMemoReady t headers = (t1, ready)" by fastforce
  have t1: "in_step p t1 d" "\<not> pendingUpdate t1" "memo_inv c t1"
    using r assms(1,2) False memo_inv_flags [OF assms(2)] by (auto simp: headMemoReady_def split: option.splits if_splits)
  note go = assms(6) [unfolded encodeH2ResponseHeadersIndexed_def, simplified, simplified False r, simplified]
  show ?thesis
  proof (cases "\<exists>m. ready \<and> headMemo t1 = Some m \<and> memo_matches m (et_gen t1) loaded code ct cl headers sv")
    case True
    then obtain m where m: "ready" "headMemo t1 = Some m" "memo_matches m (et_gen t1) loaded code ct cl headers sv" by blast
    have same: "hm_gen m = et_gen t1" "hm_block m \<noteq> []" using m(3) by (auto simp: memo_matches_def split: if_splits)
    then obtain k where k: "k \<le> c" "et_gen t1 = hm_gen m + of_nat k" "k = 0 \<longrightarrow> memo_good t1 m" using t1(3) m(2) by (auto simp: memo_inv_def)
    then have "of_nat k = (0 :: u32)" using same by simp
    then have "k = 0" using k(1) assms(5) small_generation [of k] by simp
    then obtain date' ct' headers' sv' where g: "hm_date m = Some date'" "memo_key m ct' headers' sv'"
        "replays t1 (hm_block m) (response_fields (date_value date') (hm_status m) ct' (hm_contentLength m) headers' sv')" using k(3) by (auto simp: memo_good_def)
    from memo_matches_key [OF g(2) m(3)] g have "replays t1 (hm_block m) (response_fields (date_value loaded) code ct cl headers sv)" by simp
    moreover have "tbl_step p (Some t1) d" using t1 by (simp add: tbl_step_def tbl_ok_def in_step_def)
    ultimately obtain d' where d': "block_read p d (hm_block m) d' (response_fields (date_value loaded) code ct cl headers sv)" "in_step p t1 d'"
      unfolding replays_def not_pending [OF t1(2)] tbl_step_def by (metis option.simps(5))
    have "memo_inv c (t1\<lparr>headMemo := Some (m\<lparr>probation := False\<rparr>)\<rparr>)" by (rule memo_inv_flags [OF t1(3) m(2)]) simp_all
    from memo_inv_adv [OF this gen_le_refl] d' go m assms(3) show ?thesis
      unfolding response_step_def by (intro conjI exI [of _ "t1\<lparr>headMemo := Some (m\<lparr>probation := False\<rparr>)\<rparr>"] exI [of _ "hm_block m"] exI [of _ d']) auto
  next
    case no: False
    show ?thesis
    proof (cases ready)
      case True
      then have "encodeH2ResponseHeadersRemembered loaded enc t1 loaded code ct cl headers sv = (tbl', enc')" using go no by (auto split: option.splits if_splits)
      then show ?thesis using remembered_step [OF t1(1,2,3) assms(3,4)] assms(5) by simp
    next
      case False
      then show ?thesis using go dated_step [where df = None and loaded = loaded] t1 assms(3,4) by simp
    qed
  qed
qed

section \<open>A connection\<close>

text \<open>
  The states of a connection: the peer's table limit \<open>p\<close>, the encoder's table, the field cache shared by all
  connections and the peer's table.  The encoder's state is reused from an earlier connection (\<open>reuse\<close>); the
  peer changes its limit (\<open>settings\<close>); other connections fill the cache (\<open>shared\<close>); a response is sent with the
  table (\<open>indexed\<close>), or as a block encoded without it, behind a pending size update (\<open>plain\<close>).  The first
  argument bounds the number of changes of the table since the memory of the state was allocated.
\<close>

definition zeroTable :: h2EncTable where
  "zeroTable = \<lparr>et_entries = [], et_size = 0, et_maxSize = 0, pendingUpdate = False, et_gen = 0, headMemo = None\<rparr>"

inductive h2_connection :: "nat \<Rightarrow> int \<Rightarrow> h2EncTable \<Rightarrow> hpackCachedField option list \<Rightarrow> table \<Rightarrow> bool" where
  start: "h2_connection 1 4096 (et_reset zeroTable) (replicate hpackFieldCacheSlots None) (4096, [])"
| reuse: "h2_connection c p t cache d \<Longrightarrow> h2_connection (c + 1) 4096 (et_reset t) cache (4096, [])"
| settings: "h2_connection c p t cache d \<Longrightarrow> h2_connection (c + 2) (uint limit) (setPeerLimit t limit) cache d"
| shared: "h2_connection c p t cache d \<Longrightarrow> hpackFieldCache (encodeStaticFieldCached \<lparr>Buf = buf, hpackFieldCache = cache\<rparr> idx v) = cache'
    \<Longrightarrow> h2_connection c p t cache' d"
| indexed: "h2_connection c p t cache d \<Longrightarrow> c + head_cost headers < 2 ^ 32 \<Longrightarrow> response_ok loaded code ct cl headers sv
    \<Longrightarrow> encodeH2ResponseHeadersIndexed loaded \<lparr>Buf = buf, hpackFieldCache = cache\<rparr> (Some t) code ct cl headers sv = (Some t', \<lparr>Buf = buf @ b, hpackFieldCache = cache'\<rparr>)
    \<Longrightarrow> ref_block p d [] b = Inr (d', hs) \<Longrightarrow> h2_connection (c + head_cost headers) p t' cache' d'"
| plain: "h2_connection c p t cache d \<Longrightarrow> response_ok loaded code ct cl headers sv
    \<Longrightarrow> encodeH2ResponseHeaders loaded \<lparr>Buf = [], hpackFieldCache = cache\<rparr> code ct cl headers sv = \<lparr>Buf = block, hpackFieldCache = cache'\<rparr>
    \<Longrightarrow> beginBlock t [] = (t', b) \<Longrightarrow> ref_block p d [] (b @ block) = Inr (d', hs) \<Longrightarrow> h2_connection c p t' cache' d'"

lemma reset_in_step: "in_step 4096 (et_reset t) (4096, [])"
  by (simp add: in_step_def et_reset_def enc_inv_def enc_entries_def h2EncTableMaxSize_def)

lemma reset_memo: "memo_inv c t \<Longrightarrow> c + 1 < 2 ^ 32 \<Longrightarrow> memo_inv (c + 1) (et_reset t)"
  unfolding memo_inv_def by (fastforce simp: et_reset_def intro: exI [of _ "Suc _"])

lemma plain_step:
  assumes "in_step p t d" and "field_cache_ok cache" and "response_ok loaded code ct cl headers sv" and "beginBlock t [] = (t', b)"
    and "encodeH2ResponseHeaders loaded \<lparr>Buf = [], hpackFieldCache = cache\<rparr> code ct cl headers sv = \<lparr>Buf = block, hpackFieldCache = cache'\<rparr>"
  shows "field_cache_ok cache' \<and> (\<exists>d'. block_read p d (b @ block) d' (response_fields (date_value loaded) code ct cl headers sv) \<and> in_step p t' d')"
proof -
  let ?hs = "response_fields (date_value loaded) code ct cl headers sv" and ?e = "\<lparr>Buf = [], hpackFieldCache = cache\<rparr> :: HpackEncoder"
  obtain tbl1 where e: "encodeH2ResponseHeadersDated loaded ?e (None :: hpackEncTable option) None code ct cl headers sv = (tbl1, \<lparr>Buf = block, hpackFieldCache = cache'\<rparr>)"
    using assms(5) unfolding encodeH2ResponseHeaders_def by (metis prod.collapse)
  have w: "writes p None ?e tbl1 \<lparr>Buf = block, hpackFieldCache = cache'\<rparr> ?hs"
    using response_writes [OF _ _ _ _ _ _ e] assms(2,3) by (simp add: tbl_ok_def response_ok_def)
  have read: "block_read p d1 block d1 ?hs" for d1
    using writes_block [OF w, of d1] by (auto simp: tbl_step_def tbl_ok_def)
  have "\<exists>b' d'. Buf \<lparr>Buf = b @ block, hpackFieldCache = cache'\<rparr> = Buf ?e @ b' \<and> block_read p d b' d' ?hs \<and> in_step p t' d'"
  proof (rule beginBlock_block [OF assms(1)])
    show "beginBlock t (Buf ?e) = (t', b)" using assms(4) by simp
    show "\<exists>b0 d'. Buf \<lparr>Buf = b @ block, hpackFieldCache = cache'\<rparr> = b @ b0 \<and> block_read p d1 b0 d' ?hs \<and> in_step p t' d'" if "tbl_step p (Some t') d1" for d1
      using that read [of d1] by (intro exI [of _ block] exI [of _ d1]) (simp add: tbl_step_def)
  qed
  then show ?thesis using w by (simp add: writes_def)
qed

lemma h2_connection_inv:
  assumes "h2_connection c p t cache d" and "c < 2 ^ 32"
  shows "in_step p t d \<and> memo_inv c t \<and> field_cache_ok cache"
  using assms
proof (induction rule: h2_connection.induct)
  case start
  have "memo_inv 1 (et_reset zeroTable)" by (simp add: memo_inv_def zeroTable_def et_reset_def)
  then show ?case using reset_in_step by (simp add: field_cache_ok_def list_all_iff)
next
  case (reuse c p t cache d)
  then show ?case using reset_in_step reset_memo by simp
next
  case (settings c p t cache d limit)
  then show ?case using in_step_setPeerLimit [of p t d limit] memo_inv_adv [OF _ setPeerLimit_gen] by simp
next
  case (shared c p t cache d buf idx v cache')
  then show ?case using encodeStaticFieldCached_eq(2) [of "\<lparr>Buf = buf, hpackFieldCache = cache\<rparr>" idx v] by simp
next
  case (indexed c p t cache d headers loaded code ct cl sv buf t' b cache' d' hs)
  then have "in_step p t d" "memo_inv c t" "field_cache_ok (hpackFieldCache (\<lparr>Buf = buf, hpackFieldCache = cache\<rparr> :: HpackEncoder))" by simp_all
  from indexed_step [OF this indexed.hyps(3,2,4)] indexed.hyps(3,5) show ?case by (auto simp: response_step_def block_read_def response_ok_def)
next
  case (plain c p t cache d loaded code ct cl headers sv block cache' t' b d' hs)
  then have "in_step p t d" "memo_inv c t" "field_cache_ok cache" by simp_all
  from plain_step [OF this(1,3) plain.hyps(2,4,3)] plain.hyps(2,5) memo_inv_adv [OF this(2) beginBlock_gen [OF plain.hyps(4)]]
  show ?case by (auto simp: block_read_def response_ok_def)
qed

text \<open>
  C9: on every connection, in every state it can reach with fewer than \<open>2 ^ 32\<close> changes of the table, the
  header block written for a response is read by the peer as exactly the fields of the response: the status,
  the date unless the handler set one, the content type and length, the handler's fields in lower case
  without connection-specific and repeated special ones, and the server's name.  The memo, the shared cache,
  evictions and size updates never show.
\<close>

theorem response_heads_read_back:
  assumes "h2_connection c p t cache d" and "c + head_cost headers < 2 ^ 32" and "response_ok loaded code ct cl headers sv"
    and "encodeH2ResponseHeadersIndexed loaded \<lparr>Buf = buf, hpackFieldCache = cache\<rparr> (Some t) code ct cl headers sv = (tbl', enc')"
  shows "\<exists>b d'. Buf enc' = buf @ b \<and> ref_block p d [] b = Inr (d', response_fields (date_value loaded) code ct cl headers sv)"
proof -
  have "in_step p t d \<and> memo_inv c t \<and> field_cache_ok cache" using h2_connection_inv [OF assms(1)] assms(2) by simp
  then have "response_step p (c + head_cost headers) \<lparr>Buf = buf, hpackFieldCache = cache\<rparr> d (response_fields (date_value loaded) code ct cl headers sv) tbl' enc'"
    using indexed_step [OF _ _ _ assms(3,2,4)] by simp
  then show ?thesis using assms(3) by (auto simp: response_step_def block_read_def response_ok_def)
qed

theorem response_heads_read_back_witness:
  "\<exists>b d'. Buf (snd (encodeH2ResponseHeadersIndexed (newH2DateField (\<lambda>_. replicate 29 49) 1 0) \<lparr>Buf = [7], hpackFieldCache = replicate hpackFieldCacheSlots None\<rparr>
       (Some (et_reset zeroTable)) 200 (str ''text/plain'') 5 [(str ''Vary'', str ''Accept'')] (str ''alos''))) = [7] @ b
     \<and> ref_block 4096 (4096, []) [] b = Inr (d', response_fields (replicate 29 49) 200 (str ''text/plain'') 5 [(str ''Vary'', str ''Accept'')] (str ''alos''))"
proof -
  let ?f = "newH2DateField (\<lambda>_. replicate 29 49) 1 0"
  have d: "date_ok ?f" "date_value ?f = replicate 29 49"
    by (rule new_date_ok) (simp_all add: date_value_def newH2DateField_def h2DateFieldPrefix_def h2DateValueLen_def)
  have "response_ok ?f 200 (str ''text/plain'') 5 [(str ''Vary'', str ''Accept'')] (str ''alos'')"
    using d by (simp add: response_ok_def sizes_ok_def response_fields_def Let_def)
  from response_heads_read_back [OF h2_connection.start _ this prod.collapse [symmetric], of "[7]"] d(2) show ?thesis by (simp add: head_cost_def)
qed

end
