(* ===== verification/H1_Chunked.thy ===== *)
theory H1_Chunked
  imports H1_Scan
begin

text \<open>
  The chunked transfer coding: the incremental decoder of \<open>core/chunked_decoder.go\<close>, the trailer lines of
  \<open>core/trailers.go\<close>, the scan for the end of a body (\<open>asyncChunkedComplete\<close>, \<open>core/conn_shared.go\<close>), the
  decoding of a complete body (\<open>decodeChunkedInto\<close>, \<open>core/epoll_h1_linux_amd64.go\<close>) and the writer
  (\<open>appendH1Chunk\<close>, \<open>core/stream.go\<close>).  A position in a slice is the rest of the slice.
\<close>

section \<open>Model\<close>

definition chunkedFramingLineMax :: nat where "chunkedFramingLineMax = 4096"

datatype chunkedState = ChunkedAwaitSize | ChunkedInData | ChunkedAwaitDataEnd | ChunkedInTrailer | ChunkedDone

record chunkedDecoder =
  cd_state :: chunkedState
  captureTrailers :: bool
  cd_left :: nat
  trailerBytes :: nat
  cd_trailers :: "(gostring \<times> gostring) list"

definition zeroChunked :: chunkedDecoder where
  "zeroChunked = \<lparr>cd_state = ChunkedAwaitSize, captureTrailers = False, cd_left = 0, trailerBytes = 0, cd_trailers = []\<rparr>"

definition skipBWS :: "byte list \<Rightarrow> byte list" where
  "skipBWS b = dropWhile isOWS b"

definition skipTokenBytes :: "byte list \<Rightarrow> byte list" where
  "skipTokenBytes b = dropWhile h1TokenChar b"

definition qdtextByte :: "byte \<Rightarrow> bool" where
  "qdtextByte c \<longleftrightarrow> c = 0x09 \<or> c = b8 CHR '' '' \<or> c = 0x21 \<or> (c \<ge> 0x23 \<and> c \<le> 0x5b) \<or> (c \<ge> 0x5d \<and> c \<le> 0x7e) \<or> c \<ge> 0x80"

definition quotedPairByte :: "byte \<Rightarrow> bool" where
  "quotedPairByte c \<longleftrightarrow> c = 0x09 \<or> (c \<ge> b8 CHR '' '' \<and> c \<le> 0x7e) \<or> c \<ge> 0x80"

fun quotedLoop :: "byte list \<Rightarrow> byte list option" where
  "quotedLoop [] = None"
| "quotedLoop (c # b) =
     (if c = 0x22 then Some b
      else if c = 0x5c then
        (case b of [] \<Rightarrow> None | q # b \<Rightarrow> if \<not> quotedPairByte q then None else quotedLoop b)
      else if \<not> qdtextByte c then None
      else quotedLoop b)"

definition skipChunkExtValue :: "byte list \<Rightarrow> byte list option" where
  "skipChunkExtValue b =
     (if b = [] \<or> hd b \<noteq> 0x22 then
        (let rest = skipTokenBytes b in if length rest < length b then Some rest else None)
      else quotedLoop (tl b))"

lemma quotedLoop_length: "quotedLoop b = Some r \<Longrightarrow> length r < length b"
  by (induction b rule: quotedLoop.induct) (auto split: if_splits list.splits)

lemma skipChunkExtValue_length: "skipChunkExtValue b = Some r \<Longrightarrow> length r < length b"
  using quotedLoop_length [of "tl b" r] by (auto simp: skipChunkExtValue_def Let_def split: if_splits)

lemma skipBWS_length: "length (skipBWS b) \<le> length b"
  by (simp add: skipBWS_def length_dropWhile_le)

lemma skipTokenBytes_length: "length (skipTokenBytes b) \<le> length b"
  by (simp add: skipTokenBytes_def length_dropWhile_le)

function validChunkExtensions :: "byte list \<Rightarrow> bool" where
  "validChunkExtensions ext =
     (if ext = [] then True
      else
        let i = skipBWS ext in
        if i = [] \<or> hd i \<noteq> b8 CHR '';'' then False
        else
          let i = skipBWS (tl i);
              nameEnd = skipTokenBytes i
          in if length nameEnd = length i then False
             else
               let eq = skipBWS nameEnd in
               if eq \<noteq> [] \<and> hd eq = b8 CHR ''='' then
                 (case skipChunkExtValue (skipBWS (tl eq)) of None \<Rightarrow> False | Some i \<Rightarrow> validChunkExtensions i)
               else validChunkExtensions nameEnd)"
  by pat_completeness auto
termination
proof (relation "measure length")
  show "wf (measure (length :: byte list \<Rightarrow> nat))" by simp
next
  fix ext i i1 nameEnd eq r
  assume a: "ext \<noteq> []" "i = skipBWS ext" "\<not> (i = [] \<or> hd i \<noteq> b8 CHR '';'')" "i1 = skipBWS (tl i)" "nameEnd = skipTokenBytes i1"
    "length nameEnd \<noteq> length i1" "eq = skipBWS nameEnd" "eq \<noteq> [] \<and> hd eq = b8 CHR ''=''" "skipChunkExtValue (skipBWS (tl eq)) = Some r"
  have "length r < length (tl eq)" using skipChunkExtValue_length [OF a(9)] skipBWS_length [of "tl eq"] by linarith
  also have "length (tl eq) \<le> length ext"
    using skipBWS_length [of nameEnd] skipTokenBytes_length [of i1] skipBWS_length [of "tl i"] skipBWS_length [of ext] a by simp
  finally show "(r, ext) \<in> measure length" by simp
next
  fix ext i i1 nameEnd eq
  assume a: "ext \<noteq> []" "i = skipBWS ext" "\<not> (i = [] \<or> hd i \<noteq> b8 CHR '';'')" "i1 = skipBWS (tl i)" "nameEnd = skipTokenBytes i1"
    "length nameEnd \<noteq> length i1"
  then have "length nameEnd < length i1" using skipTokenBytes_length [of i1] by simp
  also have "length i1 \<le> length ext" using skipBWS_length [of "tl i"] skipBWS_length [of ext] a by simp
  finally show "(nameEnd, ext) \<in> measure length" by simp
qed

declare validChunkExtensions.simps [simp del]

definition parseChunkSizeLine :: "byte list \<Rightarrow> nat option" where
  "parseChunkSizeLine line =
     (if line = [] \<or> last line \<noteq> 0x0d then None
      else
        let line = butlast line;
            digits = takeWhile hexValid line;
            (size, ok) = parseHex64Bytes digits
        in if \<not> ok \<or> \<not> validChunkExtensions (drop (length digits) line) then None else Some (nat size))"

definition trailerFieldForbidden :: "gostring \<Rightarrow> bool" where
  "trailerFieldForbidden name =
     (if length name = 4 then EqualFoldASCII name (str ''host'')
      else if length name = 7 then EqualFoldASCII name (str ''trailer'')
      else if length name = 10 then EqualFoldASCII name (str ''connection'')
      else if length name = 14 then EqualFoldASCII name (str ''content-length'')
      else if length name = 17 then EqualFoldASCII name (str ''transfer-encoding'')
      else False)"

definition appendTrailerField :: "(gostring \<times> gostring) list \<Rightarrow> gostring \<Rightarrow> gostring \<Rightarrow> (gostring \<times> gostring) list" where
  "appendTrailerField dst name v = (if trailerFieldForbidden name then dst else dst @ [(name, v)])"

text \<open>
  The line ends in a line feed, so its first special byte exists and is followed by another byte or is
  the line feed itself: the result \<open>-1\<close> of \<open>classifyFirstSpecial\<close> does not occur.
\<close>

definition splitTrailerLine :: "h1Vector \<Rightarrow> byte list \<Rightarrow> (gostring \<times> gostring) option" where
  "splitTrailerLine cpu line =
     (let (special, nameEnd) = h1HeaderLineSpecials cpu line;
          (e, bad) = classifyFirstSpecial line special
      in case e of
           None \<Rightarrow> None
         | Some e \<Rightarrow>
             if bad \<or> int e \<noteq> int (length line) - 2 \<or> \<not> validH1Colon (take e line) nameEnd then None
             else Some (take (the nameEnd) line, trimOWS (drop (the nameEnd + 1) (take e line))))"

definition indexByteFrom :: "byte list \<Rightarrow> byte \<Rightarrow> nat \<Rightarrow> nat option" where
  "indexByteFrom b c start =
     (let n = start + length (takeWhile (\<lambda>x. x \<noteq> c) (drop start b)) in if n < length b then Some n else None)"

text \<open>
  One step: the new state, and the consumed bytes with the data among them, or \<open>None\<close> for
  \<open>errChunkedMalformed\<close>.
\<close>

definition nextLine :: "h1Vector \<Rightarrow> chunkedDecoder \<Rightarrow> byte list \<Rightarrow> chunkedDecoder \<times> (nat \<times> byte list) option" where
  "nextLine cpu d src =
     (case indexByteFrom (take chunkedFramingLineMax src) 0x0a 0 of
        None \<Rightarrow> if length src \<ge> chunkedFramingLineMax then (d, None) else (d, Some (0, []))
      | Some nl \<Rightarrow>
          if cd_state d = ChunkedInTrailer then
            let d = d\<lparr>trailerBytes := trailerBytes d + nl + 1\<rparr> in
            if trailerBytes d > chunkedFramingLineMax then (d, None)
            else if nl = 1 \<and> src ! 0 = 0x0d then (d\<lparr>cd_state := ChunkedDone\<rparr>, Some (nl + 1, []))
            else
              (case splitTrailerLine cpu (take (nl + 1) src) of
                 None \<Rightarrow> (d, None)
               | Some (name, v) \<Rightarrow>
                   (if captureTrailers d then d\<lparr>cd_trailers := appendTrailerField (cd_trailers d) name v\<rparr> else d, Some (nl + 1, [])))
          else
            (case parseChunkSizeLine (take nl src) of
               None \<Rightarrow> (d, None)
             | Some sz \<Rightarrow>
                 (if sz = 0 then d\<lparr>cd_state := ChunkedInTrailer\<rparr> else d\<lparr>cd_state := ChunkedInData, cd_left := sz\<rparr>, Some (nl + 1, []))))"

definition chunked_next :: "h1Vector \<Rightarrow> chunkedDecoder \<Rightarrow> byte list \<Rightarrow> chunkedDecoder \<times> (nat \<times> byte list) option" where
  "chunked_next cpu d src =
     (case cd_state d of
        ChunkedInData \<Rightarrow>
          (let n = min (length src) (cd_left d);
               d = d\<lparr>cd_left := cd_left d - n\<rparr>;
               d = (if cd_left d = 0 then d\<lparr>cd_state := ChunkedAwaitDataEnd\<rparr> else d)
           in (d, Some (n, take n src)))
      | ChunkedAwaitDataEnd \<Rightarrow>
          if length src < 2 then (d, Some (0, []))
          else if src ! 0 \<noteq> 0x0d \<or> src ! 1 \<noteq> 0x0a then (d, None)
          else (d\<lparr>cd_state := ChunkedAwaitSize\<rparr>, Some (2, []))
      | ChunkedDone \<Rightarrow> (d, Some (0, []))
      | _ \<Rightarrow> nextLine cpu d src)"

definition chunked_done :: "chunkedDecoder \<Rightarrow> bool" where
  "chunked_done d \<longleftrightarrow> cd_state d = ChunkedDone"

lemma indexByteFrom_less: "indexByteFrom b c start = Some n \<Longrightarrow> n < length b"
  by (auto simp: indexByteFrom_def Let_def split: if_splits)

lemma nextLine_length: "nextLine cpu d src = (d', Some (n, data)) \<Longrightarrow> n \<le> length src"
  by (auto simp: nextLine_def Let_def dest!: indexByteFrom_less split: option.splits if_splits)

lemma chunked_next_length: "chunked_next cpu d src = (d', Some (n, data)) \<Longrightarrow> n \<le> length src"
  using nextLine_length [of cpu d src d' n data] by (auto simp: chunked_next_def Let_def split: chunkedState.splits if_splits)

text \<open>The scan for the end of the body, from position \<open>pos\<close>.\<close>

function completeLoop :: "h1Vector \<Rightarrow> chunkedDecoder \<Rightarrow> nat \<Rightarrow> nat \<Rightarrow> byte list \<Rightarrow> nat \<times> int \<times> nat" where
  "completeLoop cpu d pos chunkStart rest =
     (case chunked_next cpu d rest of
        (d, None) \<Rightarrow> (0, -1, chunkStart)
      | (d, Some (n, _)) \<Rightarrow>
          if n = 0 then (0, 0, chunkStart)
          else if chunked_done d then (pos + n, 1, pos + n)
          else completeLoop cpu d (pos + n) (if cd_state d = ChunkedAwaitSize then pos + n else chunkStart) (drop n rest))"
  by pat_completeness auto
termination by (relation "measure (\<lambda>(cpu, d, pos, chunkStart, rest). length rest)") (auto dest!: chunked_next_length [OF sym])

declare completeLoop.simps [simp del]

definition asyncChunkedComplete :: "h1Vector \<Rightarrow> byte list \<Rightarrow> nat \<Rightarrow> nat \<times> int \<times> nat" where
  "asyncChunkedComplete cpu buf pos = completeLoop cpu zeroChunked pos pos (drop pos buf)"

function decodeChunkedLoop :: "h1Vector \<Rightarrow> chunkedDecoder \<Rightarrow> byte list \<Rightarrow> byte list \<Rightarrow> (byte list \<times> (gostring \<times> gostring) list) option" where
  "decodeChunkedLoop cpu d dst src =
     (if chunked_done d then Some (dst, cd_trailers d)
      else
        case chunked_next cpu d src of
          (d, None) \<Rightarrow> None
        | (d, Some (n, data)) \<Rightarrow> if n = 0 then None else decodeChunkedLoop cpu d (dst @ data) (drop n src))"
  by pat_completeness auto
termination by (relation "measure (\<lambda>(cpu, d, dst, src). length src)") (auto dest!: chunked_next_length [OF sym])

declare decodeChunkedLoop.simps [simp del]

definition decodeChunkedInto :: "h1Vector \<Rightarrow> byte list \<Rightarrow> byte list \<Rightarrow> (byte list \<times> (gostring \<times> gostring) list) option" where
  "decodeChunkedInto cpu dst src = decodeChunkedLoop cpu (zeroChunked\<lparr>captureTrailers := True\<rparr>) dst src"

definition h1LastChunk :: "byte list" where
  "h1LastChunk = [0x30, 0x0d, 0x0a, 0x0d, 0x0a]"

definition appendH1Chunk :: "byte list \<Rightarrow> byte list \<Rightarrow> byte list" where
  "appendH1Chunk buf data = (buf @ appendHex [] (int (length data))) @ [0x0d, 0x0a] @ data @ [0x0d, 0x0a]"

section \<open>Steps on longer buffers\<close>

lemma index_step: "indexByteFrom [] c 0 = None" "indexByteFrom (x # b) c 0 = (if x = c then Some 0 else map_option Suc (indexByteFrom b c 0))"
  by (simp_all add: indexByteFrom_def Let_def)

lemma index_found: "c \<notin> set u \<Longrightarrow> indexByteFrom (u @ c # v) c 0 = Some (length u)"
  by (induction u) (auto simp: index_step)

lemma index_absent: "indexByteFrom b c 0 = None \<longleftrightarrow> c \<notin> set b"
  by (induction b) (auto simp: index_step)

lemma index_split: "indexByteFrom b c 0 = Some n \<Longrightarrow> \<exists>u v. b = u @ c # v \<and> c \<notin> set u \<and> length u = n"
  by (metis index_absent index_found option.distinct(1) option.inject split_list_first)

lemma index_append:
  "indexByteFrom (take m xs) c 0 = Some n \<Longrightarrow> indexByteFrom (take m (xs @ ys)) c 0 = Some n"
  "indexByteFrom (take m xs) c 0 = None \<Longrightarrow> m \<le> length xs \<Longrightarrow> indexByteFrom (take m (xs @ ys)) c 0 = None"
  by (auto dest!: index_split simp: index_found index_absent)

lemma nextLine_append:
  assumes "nextLine cpu d xs = (d', r)" and "r \<noteq> Some (0, [])"
  shows "nextLine cpu d (xs @ ys) = (d', r)"
proof (cases "indexByteFrom (take chunkedFramingLineMax xs) 0x0a 0")
  case None
  then have "chunkedFramingLineMax \<le> length xs" "r = None" "d' = d" using assms by (auto simp: nextLine_def split: if_splits)
  then show ?thesis using index_append(2) [OF None, of ys] by (simp add: nextLine_def)
next
  case (Some nl)
  then have "nl < length xs" using indexByteFrom_less [OF Some] by simp
  then have "take (nl + 1) (xs @ ys) = take (nl + 1) xs" "take nl (xs @ ys) = take nl xs" "nl = 1 \<Longrightarrow> (xs @ ys) ! 0 = xs ! 0" by (auto simp: nth_append)
  then show ?thesis using assms(1) Some index_append(1) [OF Some, of ys] unfolding nextLine_def by (cases "nl = 1") (simp_all add: Let_def split del: if_split del: take_append cong: if_cong)
qed

text \<open>A step that got anywhere is the same on a longer buffer, unless it delivers part of a chunk.\<close>

definition progress :: "(nat \<times> byte list) option \<Rightarrow> bool" where
  "progress r \<longleftrightarrow> (case r of None \<Rightarrow> True | Some (n, data) \<Rightarrow> n > 0)"

lemma chunked_next_append:
  assumes "chunked_next cpu d xs = (d', r)" and "progress r" and "cd_state d = ChunkedInData \<longrightarrow> cd_left d \<le> length xs"
  shows "chunked_next cpu d (xs @ ys) = (d', r)"
proof (cases "cd_state d")
  case ChunkedAwaitSize
  then show ?thesis using assms nextLine_append [of cpu d xs d' r ys] by (auto simp: chunked_next_def progress_def split: option.splits)
next
  case ChunkedInData
  then show ?thesis using assms(1,3) by (simp add: chunked_next_def Let_def min_absorb2)
next
  case ChunkedAwaitDataEnd
  then show ?thesis using assms(1,2) by (auto simp: chunked_next_def progress_def nth_append split: if_splits)
next
  case ChunkedInTrailer
  then show ?thesis using assms nextLine_append [of cpu d xs d' r ys] by (auto simp: chunked_next_def progress_def split: option.splits)
next
  case ChunkedDone
  then show ?thesis using assms by (auto simp: chunked_next_def progress_def)
qed

section \<open>Scanning again from the last chunk\<close>

definition scan_inv :: "chunkedDecoder \<Rightarrow> bool" where
  "scan_inv d \<longleftrightarrow> \<not> captureTrailers d \<and> cd_trailers d = [] \<and> (cd_state d = ChunkedInData \<longrightarrow> 0 < cd_left d) \<and> (cd_state d \<noteq> ChunkedInData \<longrightarrow> cd_left d = 0)
     \<and> (cd_state d \<noteq> ChunkedInTrailer \<and> cd_state d \<noteq> ChunkedDone \<longrightarrow> trailerBytes d = 0)"

lemma scan_inv_zero: "scan_inv zeroChunked" "scan_inv d \<Longrightarrow> cd_state d = ChunkedAwaitSize \<Longrightarrow> d = zeroChunked"
  by (simp_all add: scan_inv_def zeroChunked_def)

lemma scan_inv_next: "scan_inv d \<Longrightarrow> chunked_next cpu d src = (d', Some r) \<Longrightarrow> scan_inv d'"
  by (auto simp: chunked_next_def nextLine_def scan_inv_def Let_def split: chunkedState.splits option.splits if_splits)

lemma completeLoop_resume:
  assumes "completeLoop cpu d pos cs rest = (0, 0, r)" and "scan_inv d"
  shows "r = cs \<or> (pos \<le> r \<and> completeLoop cpu d pos cs (rest @ ext) = completeLoop cpu zeroChunked r r (drop (r - pos) (rest @ ext)))"
  using assms
proof (induction cpu d pos cs rest rule: completeLoop.induct)
  case (1 cpu d pos cs rest)
  obtain d' res where nx: "chunked_next cpu d rest = (d', res)" by fastforce
  show ?case
  proof (cases res)
    case None
    then show ?thesis using "1.prems" nx by (subst (asm) completeLoop.simps) simp
  next
    case (Some nd)
    then obtain n data where s: "res = Some (n, data)" by (cases nd) auto
    let ?cs = "if cd_state d' = ChunkedAwaitSize then pos + n else cs"
    show ?thesis
    proof (cases "n = 0 \<or> chunked_done d'")
      case True
      then show ?thesis using "1.prems" nx s by (subst (asm) completeLoop.simps) (auto split: if_splits)
    next
      case False
      then have go: "completeLoop cpu d pos cs rest = completeLoop cpu d' (pos + n) ?cs (drop n rest)" using nx s by (subst completeLoop.simps) simp
      have inv: "scan_inv d'" using scan_inv_next [OF "1.prems"(2)] nx s by simp
      have n: "n \<le> length rest" using chunked_next_length nx s by blast
      from "1.IH" [OF nx [symmetric] s refl] False go "1.prems"(1) inv
      have IH: "r = ?cs \<or> (pos + n \<le> r \<and> completeLoop cpu d' (pos + n) ?cs (drop n rest @ ext) = completeLoop cpu zeroChunked r r (drop (r - (pos + n)) (drop n rest @ ext)))" by simp
      show ?thesis
      proof (cases "cd_state d = ChunkedInData \<longrightarrow> cd_left d \<le> length rest")
        case True
        have "chunked_next cpu d (rest @ ext) = (d', res)" using chunked_next_append [OF nx _ True] False s by (simp add: progress_def)
        then have go': "completeLoop cpu d pos cs (rest @ ext) = completeLoop cpu d' (pos + n) ?cs (drop n rest @ ext)" using s False n by (subst completeLoop.simps) simp
        show ?thesis
        proof (cases "cd_state d' = ChunkedAwaitSize")
          case True
          then have "d' = zeroChunked" using scan_inv_zero(2) inv by simp
          then show ?thesis using IH go' True n by (auto simp: drop_append)
        next
          case False
          then show ?thesis using IH go' n by (auto simp: drop_append)
        qed
      next
        case part: False
        then have d': "cd_state d' = ChunkedInData" "n = length rest" using nx s by (auto simp: chunked_next_def Let_def)
        then have "completeLoop cpu d' (pos + n) ?cs (drop n rest) = (0, 0, ?cs)" by (subst completeLoop.simps) (simp add: chunked_next_def)
        then show ?thesis using go "1.prems"(1) d' by simp
      qed
    qed
  qed
qed

section \<open>The messages the decoder accepts\<close>

text \<open>
  A chunked body: chunks of a size line, that many bytes and a line break, then a size line of size
  zero and the trailer section. \<open>n\<close> counts the trailer bytes before the position.
\<close>

inductive chunked_trailer :: "h1Vector \<Rightarrow> nat \<Rightarrow> byte list \<Rightarrow> (gostring \<times> gostring) list \<Rightarrow> bool" where
  trailer_end: "n + 2 \<le> chunkedFramingLineMax \<Longrightarrow> chunked_trailer cpu n [0x0d, 0x0a] []"
| trailer_field: "chunked_trailer cpu n (l @ 0x0a # t) (appendTrailerField [] name v @ fs)"
    if "0x0a \<notin> set l" "l \<noteq> [0x0d]" "n + length l + 1 \<le> chunkedFramingLineMax" "splitTrailerLine cpu (l @ [0x0a]) = Some (name, v)"
      "chunked_trailer cpu (n + length l + 1) t fs"

inductive chunked_body :: "h1Vector \<Rightarrow> byte list \<Rightarrow> byte list \<Rightarrow> (gostring \<times> gostring) list \<Rightarrow> bool" where
  last_chunk: "chunked_body cpu (l @ 0x0a # t) [] fs"
    if "0x0a \<notin> set l" "length l < chunkedFramingLineMax" "parseChunkSizeLine l = Some 0" "chunked_trailer cpu 0 t fs"
| chunk: "chunked_body cpu (l @ 0x0a # data @ 0x0d # 0x0a # msg) (data @ body) fs"
    if "0x0a \<notin> set l" "length l < chunkedFramingLineMax" "parseChunkSizeLine l = Some (length data)" "data \<noteq> []" "chunked_body cpu msg body fs"

definition expects :: "h1Vector \<Rightarrow> chunkedDecoder \<Rightarrow> byte list \<Rightarrow> byte list \<Rightarrow> (gostring \<times> gostring) list \<Rightarrow> bool" where
  "expects cpu d msg body fs \<longleftrightarrow>
     (case cd_state d of
        ChunkedAwaitSize \<Rightarrow> chunked_body cpu msg body fs
      | ChunkedInData \<Rightarrow> (\<exists>data m b. length data = cd_left d \<and> msg = data @ 0x0d # 0x0a # m \<and> body = data @ b \<and> chunked_body cpu m b fs)
      | ChunkedAwaitDataEnd \<Rightarrow> (\<exists>m. msg = 0x0d # 0x0a # m \<and> chunked_body cpu m body fs)
      | ChunkedInTrailer \<Rightarrow> body = [] \<and> chunked_trailer cpu (trailerBytes d) msg fs
      | ChunkedDone \<Rightarrow> msg = [] \<and> body = [] \<and> fs = [])"

definition framing_inv :: "chunkedDecoder \<Rightarrow> bool" where
  "framing_inv d \<longleftrightarrow> (cd_state d = ChunkedInData \<longrightarrow> 0 < cd_left d) \<and> (cd_state d \<noteq> ChunkedInTrailer \<and> cd_state d \<noteq> ChunkedDone \<longrightarrow> trailerBytes d = 0)"

lemma framing_inv_next: "framing_inv d \<Longrightarrow> chunked_next cpu d src = (d', Some r) \<Longrightarrow> framing_inv d' \<and> captureTrailers d' = captureTrailers d"
  by (auto simp: chunked_next_def nextLine_def framing_inv_def Let_def split: chunkedState.splits option.splits if_splits)

lemma line_break: "0x0a \<notin> set l \<Longrightarrow> length l < m \<Longrightarrow> indexByteFrom (take m (l @ 0x0a # t)) 0x0a 0 = Some (length l)"
  using index_found [of "0x0a" l "take (m - length l - 1) t"] by (cases "m - length l") auto

lemma line_found:
  assumes "indexByteFrom (take m src) 0x0a 0 = Some n"
  obtains l t where "src = l @ 0x0a # t" "0x0a \<notin> set l" "length l = n" "n < m"
proof -
  obtain u v where u: "take m src = u @ 0x0a # v" "0x0a \<notin> set u" "length u = n" using index_split [OF assms] by blast
  have "src = u @ 0x0a # (v @ drop m src)" using u(1) append_take_drop_id [of m src] by (metis append_Cons append_assoc)
  moreover have "n < m" using u(3) arg_cong [OF u(1), of length] by (simp add: min_def split: if_splits)
  ultimately show thesis using that u by blast
qed

lemma appendTrailerField_append: "appendTrailerField dst name v = dst @ appendTrailerField [] name v"
  by (simp add: appendTrailerField_def)

lemma expects_line:
  assumes nx: "nextLine cpu d src = (d', Some (n, data))" and n: "0 < n" and st: "cd_state d = ChunkedAwaitSize \<or> cd_state d = ChunkedInTrailer"
    and inv: "framing_inv d" and ex: "expects cpu d' msg body fs"
  shows "\<exists>new. (captureTrailers d \<longrightarrow> cd_trailers d' = cd_trailers d @ new) \<and> expects cpu d (take n src @ msg) (data @ body) (new @ fs)"
proof -
  obtain nl where i: "indexByteFrom (take chunkedFramingLineMax src) 0x0a 0 = Some nl" using nx n by (auto simp: nextLine_def split: option.splits if_splits)
  obtain l t where l: "src = l @ 0x0a # t" "0x0a \<notin> set l" "length l = nl" "nl < chunkedFramingLineMax" using line_found [OF i] by blast
  show ?thesis
  proof (cases "cd_state d = ChunkedInTrailer")
    case True
    show ?thesis
    proof (cases "l = [0x0d]")
      case True
      then have "d' = d\<lparr>trailerBytes := trailerBytes d + 2, cd_state := ChunkedDone\<rparr>" "n = 2" "data = []" "trailerBytes d + 2 \<le> chunkedFramingLineMax"
        using nx \<open>cd_state d = ChunkedInTrailer\<close> i l by (auto simp: nextLine_def Let_def split: if_splits)
      moreover then have "take n src = [0x0d, 0x0a]" using l(1) True by simp
      ultimately show ?thesis using ex \<open>cd_state d = ChunkedInTrailer\<close> trailer_end [of "trailerBytes d" cpu] by (intro exI [of _ "[]"]) (simp add: expects_def)
    next
      case False
      then have "\<not> (nl = 1 \<and> src ! 0 = 0x0d)" using l by (cases l) auto
      then obtain name v where s: "splitTrailerLine cpu (l @ [0x0a]) = Some (name, v)" "trailerBytes d + nl + 1 \<le> chunkedFramingLineMax" "n = nl + 1" "data = []"
          "d' = (let d = d\<lparr>trailerBytes := trailerBytes d + nl + 1\<rparr> in if captureTrailers d then d\<lparr>cd_trailers := appendTrailerField (cd_trailers d) name v\<rparr> else d)"
        using nx \<open>cd_state d = ChunkedInTrailer\<close> i l unfolding nextLine_def by (auto simp: Let_def split: if_splits option.splits)
      then have "body = []" "chunked_trailer cpu (trailerBytes d + length l + 1) msg fs" using ex \<open>cd_state d = ChunkedInTrailer\<close> l by (auto simp: expects_def Let_def split: if_splits)
      then have "expects cpu d (l @ 0x0a # msg) (data @ body) (appendTrailerField [] name v @ fs)"
        using trailer_field [OF l(2) False _ s(1)] s l \<open>cd_state d = ChunkedInTrailer\<close> by (simp add: expects_def)
      then show ?thesis using s l appendTrailerField_append [of "cd_trailers d" name v] by (intro exI [of _ "appendTrailerField [] name v"]) (auto simp: Let_def)
    qed
  next
    case False
    then obtain sz where sz: "parseChunkSizeLine l = Some sz" "n = nl + 1" "data = []" "d' = (if sz = 0 then d\<lparr>cd_state := ChunkedInTrailer\<rparr> else d\<lparr>cd_state := ChunkedInData, cd_left := sz\<rparr>)"
      using nx i l by (auto simp: nextLine_def split: option.splits)
    have "expects cpu d (l @ 0x0a # msg) body fs"
      using ex sz l inv False st last_chunk [OF l(2), of cpu msg fs] chunk [OF l(2), of _ cpu]
      by (auto simp: expects_def framing_inv_def split: if_splits)
    then show ?thesis using sz l by (intro exI [of _ "[]"]) simp
  qed
qed

lemma expects_in_data:
  "cd_state d = ChunkedInData \<Longrightarrow> length data = cd_left d \<Longrightarrow> chunked_body cpu m b fs \<Longrightarrow> expects cpu d (data @ 0x0d # 0x0a # m) (data @ b) fs"
  unfolding expects_def by auto

lemma expects_next:
  assumes nx: "chunked_next cpu d src = (d', Some (n, data))" and n: "0 < n" and inv: "framing_inv d" and ex: "expects cpu d' msg body fs"
  shows "\<exists>new. (captureTrailers d \<longrightarrow> cd_trailers d' = cd_trailers d @ new) \<and> expects cpu d (take n src @ msg) (data @ body) (new @ fs)"
proof (cases "cd_state d")
  case ChunkedAwaitSize
  then show ?thesis using expects_line [OF _ n _ inv ex] nx by (simp add: chunked_next_def)
next
  case ChunkedInTrailer
  then show ?thesis using expects_line [OF _ n _ inv ex] nx by (simp add: chunked_next_def)
next
  case ChunkedInData
  have "expects cpu d (take n src @ msg) (data @ body) fs"
  proof (cases "cd_left d \<le> length src")
    case True
    then obtain m where "n = cd_left d" "data = take n src" "msg = 0x0d # 0x0a # m" "chunked_body cpu m body fs" using nx ex ChunkedInData by (auto simp: chunked_next_def expects_def Let_def)
    then show ?thesis using True expects_in_data [OF ChunkedInData, of "take n src"] by simp
  next
    case False
    then have d': "d' = d\<lparr>cd_left := cd_left d - length src\<rparr>" "n = length src" "data = src" using nx ChunkedInData by (auto simp: chunked_next_def Let_def min_absorb1)
    then obtain rest m b where "length rest = cd_left d - length src" "msg = rest @ 0x0d # 0x0a # m" "body = rest @ b" "chunked_body cpu m b fs"
      using ex ChunkedInData unfolding expects_def by auto
    moreover from this have "expects cpu d ((src @ rest) @ 0x0d # 0x0a # m) ((src @ rest) @ b) fs" using False by (intro expects_in_data [OF ChunkedInData]) simp_all
    ultimately show ?thesis using d'(2,3) by simp
  qed
  then show ?thesis using nx ChunkedInData by (intro exI [of _ "[]"]) (auto simp: chunked_next_def Let_def)
next
  case ChunkedAwaitDataEnd
  then have "2 \<le> length src" "src ! 0 = 0x0d" "src ! 1 = 0x0a" "n = 2" "data = []" "d' = d\<lparr>cd_state := ChunkedAwaitSize\<rparr>" using nx n by (auto simp: chunked_next_def split: if_splits)
  moreover then have "take 2 src = [0x0d, 0x0a]" by (cases src; cases "tl src") auto
  ultimately show ?thesis using ex ChunkedAwaitDataEnd by (intro exI [of _ "[]"]) (auto simp: expects_def)
next
  case ChunkedDone
  then show ?thesis using nx n by (simp add: chunked_next_def)
qed

lemma decodeChunkedLoop_sound:
  assumes "decodeChunkedLoop cpu d dst src = Some (out, fs')" and "framing_inv d" and "captureTrailers d"
  shows "\<exists>msg rest body fs. src = msg @ rest \<and> out = dst @ body \<and> fs' = cd_trailers d @ fs \<and> expects cpu d msg body fs"
  using assms
proof (induction cpu d dst src rule: decodeChunkedLoop.induct)
  case (1 cpu d dst src)
  show ?case
  proof (cases "chunked_done d")
    case True
    then have "out = dst" "fs' = cd_trailers d" using "1.prems"(1) by (simp_all add: decodeChunkedLoop.simps [of cpu d])
    then show ?thesis using True by (intro exI [of _ "[]"] exI [of _ src]) (simp add: chunked_done_def expects_def)
  next
    case False
    then obtain d' n data where nx: "chunked_next cpu d src = (d', Some (n, data))" and n: "n \<noteq> 0" and go: "decodeChunkedLoop cpu d' (dst @ data) (drop n src) = Some (out, fs')"
      using "1.prems"(1) by (auto simp: decodeChunkedLoop.simps [of cpu d] split: prod.splits option.splits if_splits)
    have inv: "framing_inv d'" "captureTrailers d'" using framing_inv_next [OF "1.prems"(2) nx] "1.prems"(3) by simp_all
    obtain msg rest body fs where m: "drop n src = msg @ rest" "out = (dst @ data) @ body" "fs' = cd_trailers d' @ fs" "expects cpu d' msg body fs"
      using "1.IH" [OF False nx [symmetric] refl refl n go inv] by blast
    obtain new where "cd_trailers d' = cd_trailers d @ new" "expects cpu d (take n src @ msg) (data @ body) (new @ fs)"
      using expects_next [OF nx _ "1.prems"(2) m(4)] n "1.prems"(3) by blast
    moreover have "src = (take n src @ msg) @ rest" using m(1) append_take_drop_id [of n src] by simp
    ultimately show ?thesis using m by (intro exI conjI) (assumption | simp)+
  qed
qed

lemma completeLoop_sound:
  assumes "completeLoop cpu d pos cs src = (e, 1, r)" and "framing_inv d" and "\<not> chunked_done d"
  shows "\<exists>msg rest body fs. src = msg @ rest \<and> e = pos + length msg \<and> expects cpu d msg body fs"
  using assms
proof (induction cpu d pos cs src rule: completeLoop.induct)
  case (1 cpu d pos cs src)
  obtain d' n data where nx: "chunked_next cpu d src = (d', Some (n, data))" and n: "n \<noteq> 0"
      and go: "if chunked_done d' then e = pos + n else completeLoop cpu d' (pos + n) (if cd_state d' = ChunkedAwaitSize then pos + n else cs) (drop n src) = (e, 1, r)"
    using "1.prems"(1) by (auto simp: completeLoop.simps [of cpu d] split: prod.splits option.splits if_splits)
  have inv: "framing_inv d'" using framing_inv_next [OF "1.prems"(2) nx] by simp
  have len: "n \<le> length src" using chunked_next_length [OF nx] .
  obtain msg rest body fs where m: "drop n src = msg @ rest" "e = pos + n + length msg" "expects cpu d' msg body fs"
  proof (cases "chunked_done d'")
    case True
    then show thesis using that [of "[]" "drop n src" "[]" "[]"] go by (simp add: chunked_done_def expects_def)
  next
    case False
    then show thesis using "1.IH" [OF nx [symmetric] refl refl n False _ inv False] go that by auto
  qed
  obtain new where "expects cpu d (take n src @ msg) (data @ body) (new @ fs)" using expects_next [OF nx _ "1.prems"(2) m(3)] n by blast
  moreover have "src = (take n src @ msg) @ rest" using m(1) append_take_drop_id [of n src] by simp
  moreover have "e = pos + length (take n src @ msg)" using m(2) len by simp
  ultimately show ?case by blast
qed

lemma completeLoop_waits: "completeLoop cpu d pos cs src = (e, 0, r) \<Longrightarrow> e = 0"
proof (induction cpu d pos cs src rule: completeLoop.induct)
  case (1 cpu d pos cs src)
  obtain d' res where nx: "chunked_next cpu d src = (d', res)" by fastforce
  show ?case
  proof (cases res)
    case None
    then show ?thesis using "1.prems" nx by (simp add: completeLoop.simps [of cpu d])
  next
    case (Some nd)
    then obtain n data where s: "res = Some (n, data)" by (cases nd) auto
    then show ?thesis using "1.prems" nx "1.IH" [OF nx [symmetric] s refl]
      by (cases "n = 0"; cases "chunked_done d'") (auto simp: completeLoop.simps [of cpu d])
  qed
qed

lemma decode_trailer:
  "chunked_trailer cpu n t fs \<Longrightarrow> cd_state d = ChunkedInTrailer \<Longrightarrow> trailerBytes d = n \<Longrightarrow> captureTrailers d
    \<Longrightarrow> decodeChunkedLoop cpu d dst (t @ rest) = Some (dst, cd_trailers d @ fs)"
proof (induction arbitrary: d rule: chunked_trailer.induct)
  case (trailer_end n cpu)
  have "indexByteFrom (take chunkedFramingLineMax ([0x0d] @ 0x0a # rest)) 0x0a 0 = Some 1" using line_break [of "[0x0d]"] trailer_end(1) by simp
  then show ?case using trailer_end
    by (simp add: decodeChunkedLoop.simps [of cpu d] decodeChunkedLoop.simps [of cpu "cd_state_update _ _"] chunked_next_def nextLine_def chunked_done_def)
next
  case (trailer_field l n cpu name v t fs)
  let ?d = "d\<lparr>trailerBytes := n + length l + 1, cd_trailers := appendTrailerField (cd_trailers d) name v\<rparr>"
  have "indexByteFrom (take chunkedFramingLineMax (l @ 0x0a # t @ rest)) 0x0a 0 = Some (length l)" using line_break [OF trailer_field(1)] trailer_field(3) by simp
  moreover have "\<not> (length l = 1 \<and> (l @ 0x0a # t @ rest) ! 0 = 0x0d)" using trailer_field(2) by (cases l) auto
  ultimately have "chunked_next cpu d (l @ 0x0a # t @ rest) = (?d, Some (length l + 1, []))"
    using trailer_field.prems trailer_field.hyps(3,4) by (auto simp: chunked_next_def nextLine_def Let_def)
  then have "decodeChunkedLoop cpu d dst (l @ 0x0a # t @ rest) = decodeChunkedLoop cpu ?d dst (t @ rest)"
    using trailer_field.prems by (simp add: decodeChunkedLoop.simps [of cpu d] chunked_done_def)
  then show ?case using trailer_field.IH [of ?d] trailer_field.prems appendTrailerField_append [of "cd_trailers d" name v] by simp
qed

lemma decode_body:
  "chunked_body cpu msg body fs \<Longrightarrow> cd_state d = ChunkedAwaitSize \<Longrightarrow> trailerBytes d = 0 \<Longrightarrow> captureTrailers d
    \<Longrightarrow> decodeChunkedLoop cpu d dst (msg @ rest) = Some (dst @ body, cd_trailers d @ fs)"
proof (induction arbitrary: d dst rule: chunked_body.induct)
  case (last_chunk l cpu t fs)
  have "chunked_next cpu d (l @ 0x0a # t @ rest) = (d\<lparr>cd_state := ChunkedInTrailer\<rparr>, Some (length l + 1, []))"
    using last_chunk line_break [OF last_chunk(1,2), of "t @ rest"] by (simp add: chunked_next_def nextLine_def)
  then show ?case using last_chunk.prems decode_trailer [OF last_chunk(4), of "d\<lparr>cd_state := ChunkedInTrailer\<rparr>"] by (simp add: decodeChunkedLoop.simps [of cpu d] chunked_done_def)
next
  case (chunk l data cpu msg body fs)
  let ?d1 = "d\<lparr>cd_state := ChunkedInData, cd_left := length data\<rparr>" and ?d2 = "d\<lparr>cd_left := 0, cd_state := ChunkedAwaitDataEnd\<rparr>" and ?d3 = "d\<lparr>cd_left := 0, cd_state := ChunkedAwaitSize\<rparr>"
  have 1: "chunked_next cpu d (l @ 0x0a # data @ 0x0d # 0x0a # msg @ rest) = (?d1, Some (length l + 1, []))"
    using chunk.hyps chunk.prems line_break [OF chunk(1,2)] by (simp add: chunked_next_def nextLine_def)
  have 2: "chunked_next cpu ?d1 (data @ 0x0d # 0x0a # msg @ rest) = (?d2, Some (length data, data))" by (simp add: chunked_next_def Let_def)
  have 3: "chunked_next cpu ?d2 (0x0d # 0x0a # msg @ rest) = (?d3, Some (2, []))" by (simp add: chunked_next_def)
  have "decodeChunkedLoop cpu d dst (l @ 0x0a # data @ 0x0d # 0x0a # msg @ rest) = decodeChunkedLoop cpu ?d3 (dst @ data) (msg @ rest)"
    using chunk.prems 1 2 3 chunk.hyps(4)
    by (simp add: decodeChunkedLoop.simps [of cpu d] decodeChunkedLoop.simps [of cpu ?d1] decodeChunkedLoop.simps [of cpu ?d2] chunked_done_def)
  then show ?case using chunk.IH [of ?d3 "dst @ data"] chunk.prems by simp
qed

lemma zero_framing [simp]: "framing_inv (zeroChunked\<lparr>captureTrailers := c\<rparr>)" "framing_inv zeroChunked" "\<not> chunked_done zeroChunked"
  "expects cpu (zeroChunked\<lparr>captureTrailers := c\<rparr>) = chunked_body cpu" "expects cpu zeroChunked = chunked_body cpu"
  by (auto simp: framing_inv_def zeroChunked_def chunked_done_def expects_def fun_eq_iff)

section \<open>What the server writes\<close>

lemma appendHexLoop_length: "n < 16 ^ k \<Longrightarrow> length (appendHexLoop n acc) \<le> k + length acc"
proof (induction k arbitrary: n acc)
  case 0
  then show ?case by (subst appendHexLoop.simps) simp
next
  case (Suc k)
  have "drop_bit 4 n < 16 ^ k" using Suc.prems by (simp add: drop_bit_eq_div)
  then show ?case using Suc.IH [of "drop_bit 4 n" "_ # acc"] by (subst appendHexLoop.simps) (fastforce simp: Let_def)
qed

lemma appendHex_digits: "0 \<le> n \<Longrightarrow> list_all hexValid (appendHex [] n)" "n \<le> maxParsedLength \<Longrightarrow> length (appendHex [] n) \<le> 13"
  using appendHexLoop_val [of n "[]"] appendHexLoop_length [of n 13 "[]"] by (auto simp: appendHex_def hexValid_def maxParsedLength_def)

lemma size_line:
  assumes "int n \<le> maxParsedLength"
  shows "parseChunkSizeLine (appendHex [] (int n) @ [0x0d]) = Some n" and "0x0a \<notin> set (appendHex [] (int n))" and "length (appendHex [] (int n)) + 1 < chunkedFramingLineMax"
proof -
  have h: "list_all hexValid (appendHex [] (int n))" using appendHex_digits(1) by simp
  then have "takeWhile hexValid (appendHex [] (int n)) = appendHex [] (int n)" by (simp add: list_all_iff)
  then show "parseChunkSizeLine (appendHex [] (int n) @ [0x0d]) = Some n"
    using parseHex_appendHex [of "int n"] assms by (simp add: parseChunkSizeLine_def Let_def validChunkExtensions.simps [of "[]"] del: takeWhile_eq_all_conv)
  show "0x0a \<notin> set (appendHex [] (int n))" using h by (auto simp: list_all_iff hexValid_def)
  show "length (appendHex [] (int n)) + 1 < chunkedFramingLineMax" using appendHex_digits(2) [OF assms] by (simp add: chunkedFramingLineMax_def)
qed

lemma written_last: "chunked_body cpu h1LastChunk [] []"
  using last_chunk [of "[0x30, 0x0d]" cpu "[0x0d, 0x0a]" "[]"] trailer_end [of 0 cpu] size_line(1) [of 0]
  by (simp add: h1LastChunk_def chunkedFramingLineMax_def appendHex_def maxParsedLength_def)

lemma written_chunk:
  assumes "chunked_body cpu msg body fs" and "data \<noteq> []" and "int (length data) \<le> maxParsedLength"
  shows "chunked_body cpu (appendH1Chunk [] data @ msg) (data @ body) fs"
  using chunk [of "appendHex [] (int (length data)) @ [0x0d]" data cpu msg body fs] size_line [OF assms(3)] assms(1,2) by (simp add: appendH1Chunk_def)

lemma appendH1Chunk_append: "appendH1Chunk buf data = buf @ appendH1Chunk [] data"
  by (simp add: appendH1Chunk_def)

lemma written_chunks:
  "\<forall>data \<in> set chunks. data \<noteq> [] \<and> int (length data) \<le> maxParsedLength \<Longrightarrow>
   chunked_body cpu (foldl appendH1Chunk [] chunks @ h1LastChunk) (concat chunks) []"
proof -
  have "foldl appendH1Chunk buf chunks = buf @ concat (map (appendH1Chunk []) chunks)" for buf
  proof (induction chunks arbitrary: buf)
    case (Cons data chunks)
    show ?case using Cons.IH [of "appendH1Chunk buf data"] appendH1Chunk_append [of buf data] by simp
  qed simp
  then have "foldl appendH1Chunk [] chunks = concat (map (appendH1Chunk []) chunks)" by simp
  moreover assume "\<forall>data \<in> set chunks. data \<noteq> [] \<and> int (length data) \<le> maxParsedLength"
  then have "chunked_body cpu (concat (map (appendH1Chunk []) chunks) @ h1LastChunk) (concat chunks) []"
    by (induction chunks) (auto simp: written_last intro!: written_chunk)
  ultimately show ?thesis by simp
qed


text \<open>
  C8: the scan that waits for a complete body, whatever the way the bytes arrive.  A scan that ends at
  \<open>e\<close> has found a body of the grammar that the decoder accepts and that ends at \<open>e\<close>.  A scan that asks
  for more bytes may be resumed from the position it reports: once more bytes are there, it finds what
  a scan of the whole buffer finds.
\<close>

theorem chunked_scan:
  assumes "asyncChunkedComplete cpu buf pos = (e, st, r)" and "pos \<le> length buf"
  shows "(st = 1 \<longrightarrow> e \<le> length buf \<and> (\<exists>body fs. chunked_body cpu (take (e - pos) (drop pos buf)) body fs
           \<and> decodeChunkedInto cpu dst (take (e - pos) (drop pos buf)) = Some (dst @ body, fs)))
       \<and> (st = 0 \<longrightarrow> asyncChunkedComplete cpu (buf @ ext) r = asyncChunkedComplete cpu (buf @ ext) pos)"
proof
  show "st = 1 \<longrightarrow> e \<le> length buf \<and> (\<exists>body fs. chunked_body cpu (take (e - pos) (drop pos buf)) body fs
        \<and> decodeChunkedInto cpu dst (take (e - pos) (drop pos buf)) = Some (dst @ body, fs))"
  proof
    assume "st = 1"
    then obtain msg rest body fs where m: "drop pos buf = msg @ rest" "e = pos + length msg" "chunked_body cpu msg body fs"
      using completeLoop_sound [of cpu zeroChunked pos pos "drop pos buf" e r] assms(1) unfolding asyncChunkedComplete_def by auto
    moreover have "e \<le> length buf" using m(2) arg_cong [OF m(1), of length] assms(2) by simp
    moreover have "decodeChunkedInto cpu dst (msg @ []) = Some (dst @ body, fs)"
      using decode_body [OF m(3), of "zeroChunked\<lparr>captureTrailers := True\<rparr>" dst "[]"] by (simp add: decodeChunkedInto_def zeroChunked_def)
    ultimately show "e \<le> length buf \<and> (\<exists>body fs. chunked_body cpu (take (e - pos) (drop pos buf)) body fs
        \<and> decodeChunkedInto cpu dst (take (e - pos) (drop pos buf)) = Some (dst @ body, fs))" by auto
  qed
  show "st = 0 \<longrightarrow> asyncChunkedComplete cpu (buf @ ext) r = asyncChunkedComplete cpu (buf @ ext) pos"
  proof
    assume "st = 0"
    then have "completeLoop cpu zeroChunked pos pos (drop pos buf) = (0, 0, r)" using completeLoop_waits [of cpu zeroChunked pos pos "drop pos buf" e r] assms(1) unfolding asyncChunkedComplete_def by simp
    from completeLoop_resume [OF this scan_inv_zero(1), of ext]
    show "asyncChunkedComplete cpu (buf @ ext) r = asyncChunkedComplete cpu (buf @ ext) pos" using assms(2) by (auto simp: asyncChunkedComplete_def)
  qed
qed

theorem chunked_scan_witness:
  "\<exists>cpu msg. msg = [0x33, 0x0d, 0x0a, 0x61, 0x62, 0x63, 0x0d, 0x0a, 0x30] \<and> asyncChunkedComplete cpu msg 0 = (0, 0, 8)
     \<and> asyncChunkedComplete cpu (msg @ [0x0d, 0x0a, 0x0d, 0x0a]) 8 = asyncChunkedComplete cpu (msg @ [0x0d, 0x0a, 0x0d, 0x0a]) 0"
proof -
  let ?cpu = "\<lparr>hasAVX2 = False, firstH1SpecialAVX2 = \<lambda>_. None, h1HeaderLineAVX2 = \<lambda>_. (None, None)\<rparr>"
  let ?msg = "[0x33, 0x0d, 0x0a, 0x61, 0x62, 0x63, 0x0d, 0x0a, 0x30] :: byte list"
  have "asyncChunkedComplete ?cpu ?msg 0 = (0, 0, 8)" by code_simp
  then show ?thesis using chunked_scan [of ?cpu ?msg 0 0 0 8 "[]" "[0x0d, 0x0a, 0x0d, 0x0a]"] by (intro exI [of _ ?cpu] exI [of _ ?msg]) (simp del: append.simps)
qed

end
