(* ===== verification/H1_Body.thy ===== *)
theory H1_Body
  imports H1_Chunked
begin

text \<open>
  Streaming of an HTTP/1 request body to its handler: the reader shared by the connection's worker and
  the handler (\<open>BodyReader\<close>, \<open>core/request_body_stream.go\<close>) and the worker's side, which decodes what the
  connection received and pushes it (\<open>core/epoll_h1_body_linux_amd64.go\<close>).  Every method of the reader
  holds its lock, so it is one step; the notification \<open>onAck\<close> runs after the lock is released and is a
  step of its own.  Objects shared by the two sides are addressed by their position in a list.
\<close>

section \<open>The reader\<close>

definition bodyStreamAckThreshold :: nat where "bodyStreamAckThreshold = 32768"

datatype bodyErr = ErrBodyStreamAborted | ErrBodyTooLarge | ErrChunkedMalformed

text \<open>
  \<open>br_onAck\<close> holds what the callback captured: the body it belongs to and the generation of the
  connection.  A timer is \<open>Some\<close> of the wait it is armed with, or of \<open>None\<close> when it is stopped.
\<close>

record BodyReader =
  br_buf :: "byte list"
  br_off :: nat
  br_eof :: bool
  br_err :: "bodyErr option"
  br_closed :: bool
  br_unacked :: nat
  br_ackQueued :: bool
  br_onAck :: "nat \<times> 32 word"
  br_received :: nat
  br_trailers :: "(gostring \<times> gostring) list"
  br_deadlineAt :: int
  br_deadlineHit :: bool
  br_deadlineTimer :: "int option option"

definition newBodyReader :: "nat \<times> 32 word \<Rightarrow> BodyReader" where
  "newBodyReader onAck =
     \<lparr>br_buf = [], br_off = 0, br_eof = False, br_err = None, br_closed = False, br_unacked = 0, br_ackQueued = False, br_onAck = onAck,
      br_received = 0, br_trailers = [], br_deadlineAt = 0, br_deadlineHit = False, br_deadlineTimer = None\<rparr>"

definition buffered :: "BodyReader \<Rightarrow> nat" where
  "buffered b = length (br_buf b) - br_off b"

definition claimAckLocked :: "BodyReader \<Rightarrow> bool \<times> BodyReader" where
  "claimAckLocked b =
     (if br_ackQueued b \<or> br_unacked b = 0 then (False, b)
      else if br_unacked b < bodyStreamAckThreshold \<and> br_off b < length (br_buf b) \<and> \<not> br_closed b then (False, b)
      else (True, b\<lparr>br_ackQueued := True\<rparr>))"

datatype readErr = ReadEOF | ReadBroken bodyErr | ReadDeadlineExceeded

text \<open>The answer of \<open>Read\<close>; \<open>ReadWaits\<close> is a reader that waits for the condition \<open>ready\<close>.\<close>

datatype readAnswer = ReadWaits | ReadBytes "byte list" | ReadErr readErr

definition body_Read :: "nat \<Rightarrow> BodyReader \<Rightarrow> readAnswer \<times> bool \<times> BodyReader" where
  "body_Read plen b =
     (if plen = 0 then (ReadBytes [], False, b)
      else if br_off b = length (br_buf b) \<and> \<not> br_eof b \<and> br_err b = None \<and> \<not> br_closed b \<and> \<not> br_deadlineHit b then (ReadWaits, False, b)
      else if br_off b = length (br_buf b) then
        (ReadErr (case br_err b of Some e \<Rightarrow> ReadBroken e | None \<Rightarrow> if br_eof b \<or> br_closed b then ReadEOF else ReadDeadlineExceeded), False, b)
      else
        let data = take plen (drop (br_off b) (br_buf b));
            b = b\<lparr>br_off := br_off b + length data\<rparr>;
            b = (if br_off b = length (br_buf b) then b\<lparr>br_buf := [], br_off := 0\<rparr> else b);
            b = b\<lparr>br_unacked := br_unacked b + length data\<rparr>;
            (notify, b) = claimAckLocked b
        in (ReadBytes data, notify, b))"

definition stopDeadlineLocked :: "BodyReader \<Rightarrow> BodyReader" where
  "stopDeadlineLocked b = b\<lparr>br_deadlineAt := 0, br_deadlineTimer := map_option (\<lambda>_. None) (br_deadlineTimer b)\<rparr>"

definition body_Close :: "BodyReader \<Rightarrow> bool \<times> BodyReader" where
  "body_Close b =
     (if br_closed b then (False, b)
      else
        let b = b\<lparr>br_closed := True, br_unacked := br_unacked b + (length (br_buf b) - br_off b), br_buf := [], br_off := 0\<rparr>
        in claimAckLocked (stopDeadlineLocked b))"

text \<open>\<open>t\<close> is the deadline or \<open>None\<close> for the zero time, \<open>now\<close> the clock.\<close>

definition setReadDeadline :: "int \<Rightarrow> int option \<Rightarrow> BodyReader \<Rightarrow> BodyReader" where
  "setReadDeadline now t b =
     (let b = b\<lparr>br_deadlineHit := False\<rparr> in
      case t of
        None \<Rightarrow> stopDeadlineLocked b
      | Some t \<Rightarrow>
          let b = b\<lparr>br_deadlineAt := t\<rparr>; wait = t - now in
          if wait \<le> 0 then b\<lparr>br_deadlineHit := True\<rparr> else b\<lparr>br_deadlineTimer := Some (Some wait)\<rparr>)"

definition deadlineFired :: "int \<Rightarrow> BodyReader \<Rightarrow> BodyReader" where
  "deadlineFired now b =
     (if br_deadlineAt b = 0 then b
      else
        let wait = br_deadlineAt b - now in
        if wait > 0 then b\<lparr>br_deadlineTimer := Some (Some wait)\<rparr> else b\<lparr>br_deadlineHit := True\<rparr>)"

definition body_push :: "byte list \<Rightarrow> BodyReader \<Rightarrow> BodyReader" where
  "body_push data b =
     (let b = b\<lparr>br_received := br_received b + length data\<rparr> in
      if br_closed b then b\<lparr>br_unacked := br_unacked b + length data\<rparr>
      else
        let b = (if br_off b > 0 \<and> br_off b \<ge> length (br_buf b) div 2 then b\<lparr>br_buf := drop (br_off b) (br_buf b), br_off := 0\<rparr> else b)
        in b\<lparr>br_buf := br_buf b @ data\<rparr>)"

definition body_finish :: "bodyErr option \<Rightarrow> BodyReader \<Rightarrow> BodyReader" where
  "body_finish e b =
     (if \<not> br_eof b \<and> br_err b = None then (case e of Some e \<Rightarrow> b\<lparr>br_err := Some e\<rparr> | None \<Rightarrow> b\<lparr>br_eof := True\<rparr>) else b)"

definition finishWithTrailers :: "(gostring \<times> gostring) list \<Rightarrow> BodyReader \<Rightarrow> BodyReader" where
  "finishWithTrailers ts b = (if \<not> br_eof b \<and> br_err b = None then b\<lparr>br_trailers := ts, br_eof := True\<rparr> else b)"

definition takeAck :: "BodyReader \<Rightarrow> nat \<times> BodyReader" where
  "takeAck b = (br_unacked b, b\<lparr>br_unacked := 0, br_ackQueued := False\<rparr>)"

section \<open>The worker's side\<close>

definition h1BodyStreamCap :: nat where "h1BodyStreamCap = 262144"

definition h1ContinueHeader :: gostring where
  "h1ContinueHeader = str ''HTTP/1.1 100 Continue'' @ [0x0d, 0x0a, 0x0d, 0x0a]"

text \<open>\<open>in_left\<close> is \<open>None\<close> where the code stores \<open>h1NoContentLength\<close>.\<close>

record h1BodyIn =
  in_reader :: BodyReader
  in_left :: "nat option"
  in_chunk :: chunkedDecoder
  in_done :: bool
  in_broken :: bool

text \<open>The part of \<open>epollConn\<close> the body stream uses; \<open>h1In\<close> is the address of the body.\<close>

record bodyConn =
  bc_tls :: bool
  appBuf :: "byte list"
  appBufOff :: nat
  readBuf :: "byte list"
  h1Off :: nat
  readN :: nat
  h1In :: "nat option"
  bc_generation :: "32 word"
  bc_fd :: int
  inputEOF :: bool
  peerHup :: bool
  readPending :: bool
  expectContinue :: bool
  h1ContinueSent :: bool

definition h1Unread :: "bodyConn \<Rightarrow> byte list" where
  "h1Unread c = (if bc_tls c then drop (appBufOff c) (appBuf c) else take (readN c - h1Off c) (drop (h1Off c) (readBuf c)))"

definition h1Advance :: "nat \<Rightarrow> bodyConn \<Rightarrow> bodyConn" where
  "h1Advance n c = (if bc_tls c then c\<lparr>appBufOff := appBufOff c + n\<rparr> else c\<lparr>h1Off := h1Off c + n\<rparr>)"

definition compactApp :: "nat \<Rightarrow> bodyConn \<Rightarrow> bodyConn" where
  "compactApp consumed c = (if consumed = 0 then c else c\<lparr>appBuf := drop consumed (appBuf c)\<rparr>)"

definition compactAppConsumed :: "bodyConn \<Rightarrow> bodyConn" where
  "compactAppConsumed c = (if appBufOff c > 0 then (compactApp (appBufOff c) c)\<lparr>appBufOff := 0\<rparr> else c)"

definition compactH1ReadBuffer :: "bodyConn \<Rightarrow> bodyConn" where
  "compactH1ReadBuffer c =
     (if h1Off c = 0 then c
      else
        let remaining = readN c - h1Off c;
            c = c\<lparr>readBuf := take remaining (drop (h1Off c) (readBuf c)) @ drop remaining (readBuf c)\<rparr>
        in c\<lparr>readN := remaining, h1Off := 0\<rparr>)"

definition h1CompactUnread :: "bodyConn \<Rightarrow> bodyConn" where
  "h1CompactUnread c = (if bc_tls c then compactAppConsumed c else compactH1ReadBuffer c)"

definition in_end :: "bodyErr option \<Rightarrow> h1BodyIn \<Rightarrow> h1BodyIn" where
  "in_end e inn =
     (let inn = inn\<lparr>in_done := True, in_broken := e \<noteq> None\<rparr> in
      if e \<noteq> None then inn\<lparr>in_reader := body_finish e (in_reader inn)\<rparr>
      else inn\<lparr>in_reader := finishWithTrailers (cd_trailers (in_chunk inn)) (in_reader inn)\<rparr>)"

definition bodyTooLarge :: "int \<Rightarrow> int \<Rightarrow> bool" where
  "bodyTooLarge maxBodySize n \<longleftrightarrow> maxBodySize > 0 \<and> n > maxBodySize"

lemma h1Unread_advance: "n \<le> length (h1Unread c) \<Longrightarrow> h1Unread (h1Advance n c) = drop n (h1Unread c)"
  by (auto simp: h1Unread_def h1Advance_def drop_take add.commute)

lemma in_end_done [simp]: "in_done (in_end e inn)"
  by (simp add: in_end_def Let_def)

lemma next_unread: "chunked_next cpu d (take k xs) = (d', Some (n, piece)) \<Longrightarrow> n \<le> length xs"
  using chunked_next_length [of cpu d "take k xs" d' n piece] by simp

function feedLoop :: "h1Vector \<Rightarrow> int \<Rightarrow> h1BodyIn \<Rightarrow> bodyConn \<Rightarrow> h1BodyIn \<times> bodyConn" where
  "feedLoop cpu maxBodySize inn c =
     (if in_done inn then (inn, c)
      else
        let data = h1Unread c; room = h1BodyStreamCap - buffered (in_reader inn) in
        if data = [] \<or> room = 0 then (inn, c)
        else
          case in_left inn of
            Some left \<Rightarrow>
              let n = min (min (length data) room) left;
                  inn = inn\<lparr>in_reader := body_push (take n data) (in_reader inn), in_left := Some (left - n)\<rparr>
              in feedLoop cpu maxBodySize (if left - n = 0 then in_end None inn else inn) (h1Advance n c)
          | None \<Rightarrow>
              let src = (if cd_state (in_chunk inn) = ChunkedInData then take room data else data) in
              case chunked_next cpu (in_chunk inn) src of
                (d, None) \<Rightarrow> (in_end (Some ErrChunkedMalformed) (inn\<lparr>in_chunk := d\<rparr>), c)
              | (d, Some (consumed, piece)) \<Rightarrow>
                  let inn = inn\<lparr>in_chunk := d\<rparr> in
                  if consumed = 0 then (inn, c)
                  else if piece \<noteq> [] \<and> bodyTooLarge maxBodySize (int (br_received (in_reader inn)) + int (length piece)) then (in_end (Some ErrBodyTooLarge) inn, c)
                  else
                    let inn = (if piece \<noteq> [] then inn\<lparr>in_reader := body_push piece (in_reader inn)\<rparr> else inn)
                    in feedLoop cpu maxBodySize (if chunked_done d then in_end None inn else inn) (h1Advance consumed c))"
  by pat_completeness auto

termination
proof (relation "measure (\<lambda>(cpu, m, inn, c). length (h1Unread c) + (if in_done inn then 0 else 1))", goal_cases)
  case 2
  then show ?case by (auto simp: h1Unread_advance dest!: next_unread [OF sym] chunked_next_length [OF sym] split: if_splits)
next
  case 3
  then show ?case by (auto simp: h1Unread_advance min_def)
qed simp

declare feedLoop.simps [simp del]

text \<open>The bodies, and the tasks posted to the worker or about to be posted.\<close>

record bodyWorld =
  bw_conn :: bodyConn
  bw_ins :: "h1BodyIn list"
  bw_posting :: "(nat \<times> 32 word) list"
  bw_posted :: "(nat \<times> 32 word) list"

definition h1FeedBody :: "h1Vector \<Rightarrow> int \<Rightarrow> bodyWorld \<Rightarrow> bodyWorld" where
  "h1FeedBody cpu maxBodySize w =
     (case h1In (bw_conn w) of
        None \<Rightarrow> w
      | Some a \<Rightarrow>
          if in_done (bw_ins w ! a) then w
          else
            let (inn, c) = feedLoop cpu maxBodySize (bw_ins w ! a) (bw_conn w)
            in w\<lparr>bw_ins := (bw_ins w)[a := inn], bw_conn := h1CompactUnread c\<rparr>)"

definition streamsH1Body :: "int \<Rightarrow> bool \<Rightarrow> bool \<Rightarrow> bool \<Rightarrow> bool \<Rightarrow> int \<Rightarrow> bool" where
  "streamsH1Body streamBodyAbove inlineHandlers proxyActive chunked hasContentLength contentLength =
     (if streamBodyAbove \<le> 0 \<or> inlineHandlers \<or> proxyActive then False
      else chunked \<or> hasContentLength \<and> contentLength > streamBodyAbove)"

definition startH1BodyStream :: "h1Vector \<Rightarrow> int \<Rightarrow> byte list \<Rightarrow> bool \<Rightarrow> nat \<Rightarrow> bodyWorld \<Rightarrow> byte list \<times> bodyWorld" where
  "startH1BodyStream cpu maxBodySize out chunked contentLength w =
     (let a = length (bw_ins w);
          c = bw_conn w;
          inn = \<lparr>in_reader = newBodyReader (a, bc_generation c), in_left = (if chunked then None else Some contentLength),
                 in_chunk = zeroChunked\<lparr>captureTrailers := True\<rparr>, in_done = False, in_broken = False\<rparr>;
          out = (if expectContinue c then out @ h1ContinueHeader else out)
      in (out, h1FeedBody cpu maxBodySize (w\<lparr>bw_ins := bw_ins w @ [inn], bw_conn := c\<lparr>h1In := Some a\<rparr>\<rparr>)))"

definition h1Continue :: "byte list \<Rightarrow> bodyConn \<Rightarrow> byte list \<times> bodyConn" where
  "h1Continue out c =
     (if \<not> expectContinue c \<or> h1ContinueSent c then (out, c) else (out @ h1ContinueHeader, c\<lparr>h1ContinueSent := True\<rparr>))"

definition h1BodyStreaming :: "bodyWorld \<Rightarrow> bool" where
  "h1BodyStreaming w \<longleftrightarrow> (case h1In (bw_conn w) of None \<Rightarrow> False | Some a \<Rightarrow> \<not> in_done (bw_ins w ! a))"

definition h1BodyDrainsToEOF :: "bodyWorld \<Rightarrow> bool" where
  "h1BodyDrainsToEOF w \<longleftrightarrow> peerHup (bw_conn w) \<and> h1BodyStreaming w"

definition h1BodyStarved :: "bodyWorld \<Rightarrow> bool" where
  "h1BodyStarved w \<longleftrightarrow> inputEOF (bw_conn w) \<and> h1BodyStreaming w \<and> length (h1Unread (bw_conn w)) = 0 \<and> (\<not> bc_tls (bw_conn w) \<or> readN (bw_conn w) = 0)"

definition h1AbortIn :: "bodyWorld \<Rightarrow> bodyWorld" where
  "h1AbortIn w =
     (case h1In (bw_conn w) of
        None \<Rightarrow> w
      | Some a \<Rightarrow>
          let inn = bw_ins w ! a; w = w\<lparr>bw_conn := (bw_conn w)\<lparr>h1In := None\<rparr>\<rparr> in
          if \<not> in_done inn then w\<lparr>bw_ins := (bw_ins w)[a := inn\<lparr>in_reader := body_finish (Some ErrBodyStreamAborted) (in_reader inn)\<rparr>]\<rparr> else w)"

text \<open>What \<open>closeConn\<close> does to this part of the connection.\<close>

definition closeConn :: "bodyWorld \<Rightarrow> bodyWorld" where
  "closeConn w =
     (if bc_fd (bw_conn w) < 0 then w
      else
        let w = h1AbortIn (w\<lparr>bw_conn := (bw_conn w)\<lparr>bc_fd := -1, bc_generation := bc_generation (bw_conn w) + 1\<rparr>\<rparr>);
            c = bw_conn w
        in w\<lparr>bw_conn := c\<lparr>readN := 0, h1Off := 0, readPending := False, peerHup := False, inputEOF := False, h1ContinueSent := False,
              appBufOff := 0, appBuf := [], bc_tls := False\<rparr>\<rparr>)"

definition abortStarvedBody :: "bodyWorld \<Rightarrow> bool \<times> bodyWorld" where
  "abortStarvedBody w = (if bc_fd (bw_conn w) < 0 \<or> \<not> h1BodyStarved w then (False, w) else (True, closeConn w))"

definition h1BodyWantsInput :: "bodyWorld \<Rightarrow> bool" where
  "h1BodyWantsInput w \<longleftrightarrow>
     (case h1In (bw_conn w) of None \<Rightarrow> False | Some a \<Rightarrow> \<not> in_done (bw_ins w ! a) \<and> buffered (in_reader (bw_ins w ! a)) < h1BodyStreamCap)"

text \<open>The call a worker makes after an acknowledgement: none, \<open>readable\<close> or \<open>serviceBuffered\<close>.\<close>

datatype ackedCall = AckedNone | AckedReadable | AckedServiceBuffered

definition h1BodyAcked :: "h1Vector \<Rightarrow> int \<Rightarrow> nat \<Rightarrow> 32 word \<Rightarrow> bodyWorld \<Rightarrow> ackedCall \<times> bodyWorld" where
  "h1BodyAcked cpu maxBodySize a gen w =
     (let inn = bw_ins w ! a;
          w = w\<lparr>bw_ins := (bw_ins w)[a := inn\<lparr>in_reader := snd (takeAck (in_reader inn))\<rparr>]\<rparr>;
          c = bw_conn w
      in if bc_generation c \<noteq> gen \<or> bc_fd c < 0 \<or> h1In c \<noteq> Some a then (AckedNone, w)
         else
           let w = h1FeedBody cpu maxBodySize w;
               (aborted, w) = abortStarvedBody w
           in if aborted \<or> \<not> h1BodyWantsInput w then (AckedNone, w)
              else if readPending (bw_conn w) \<or> peerHup (bw_conn w) \<and> \<not> inputEOF (bw_conn w) then (AckedReadable, w)
              else (AckedServiceBuffered, w))"

definition h1EndBodyStream :: "bodyWorld \<Rightarrow> bool \<times> bodyWorld" where
  "h1EndBodyStream w =
     (case h1In (bw_conn w) of
        None \<Rightarrow> (False, w)
      | Some a \<Rightarrow>
          let inn = bw_ins w ! a; w = w\<lparr>bw_conn := (bw_conn w)\<lparr>h1In := None\<rparr>\<rparr> in
          if \<not> in_done inn then (True, w\<lparr>bw_ins := (bw_ins w)[a := inn\<lparr>in_reader := body_finish (Some ErrBodyStreamAborted) (in_reader inn)\<rparr>]\<rparr>)
          else (in_broken inn, w))"

section \<open>Reader and decoder\<close>

definition content :: "BodyReader \<Rightarrow> byte list" where
  "content b = drop (br_off b) (br_buf b)"

definition reader_ok :: "BodyReader \<Rightarrow> bool" where
  "reader_ok b \<longleftrightarrow> br_off b \<le> length (br_buf b) \<and> (br_closed b \<longrightarrow> br_buf b = [])"

lemma buffered_content: "buffered b = length (content b)"
  by (simp add: buffered_def content_def)

lemma reader_ok_new [simp]: "reader_ok (newBodyReader x)" "content (newBodyReader x) = []"
  by (simp_all add: reader_ok_def newBodyReader_def content_def)

definition same_acks :: "BodyReader \<Rightarrow> BodyReader \<Rightarrow> bool" where
  "same_acks b b' \<longleftrightarrow> br_ackQueued b' = br_ackQueued b \<and> br_onAck b' = br_onAck b \<and> br_closed b' = br_closed b"

lemma same_acks_trans: "same_acks a b \<Longrightarrow> same_acks b c \<Longrightarrow> same_acks a c"
  by (simp add: same_acks_def)

lemma body_push_spec:
  assumes "reader_ok b"
  shows "reader_ok (body_push data b)" "content (body_push data b) = (if br_closed b then [] else content b @ data)" "same_acks b (body_push data b)"
    "br_eof (body_push data b) = br_eof b" "br_err (body_push data b) = br_err b" "br_trailers (body_push data b) = br_trailers b"
  using assms by (auto simp: body_push_def reader_ok_def content_def same_acks_def Let_def)

lemma finish_spec:
  "reader_ok (body_finish e b) = reader_ok b" "content (body_finish e b) = content b" "same_acks b (body_finish e b)"
  "reader_ok (finishWithTrailers ts b) = reader_ok b" "content (finishWithTrailers ts b) = content b" "same_acks b (finishWithTrailers ts b)"
  "br_eof (body_finish (Some x) b) = br_eof b" "br_trailers (body_finish e b) = br_trailers b"
  "\<not> br_eof b \<Longrightarrow> br_eof (finishWithTrailers ts b) \<Longrightarrow> br_trailers (finishWithTrailers ts b) = ts"
  "br_eof (finishWithTrailers ts b) \<or> (\<exists>e. br_err (finishWithTrailers ts b) = Some e)" "br_eof b \<or> (\<exists>e. br_err (body_finish (Some x) b) = Some e)"
  "br_err b = Some e' \<Longrightarrow> br_err (body_finish e b) = Some e'"
  by (auto simp: body_finish_def finishWithTrailers_def reader_ok_def content_def same_acks_def split: option.splits)

lemma claimAck_spec:
  assumes "claimAckLocked b = (notify, b')"
  shows "reader_ok b' = reader_ok b" "content b' = content b" "br_closed b' = br_closed b" "br_onAck b' = br_onAck b" "br_eof b' = br_eof b" "br_trailers b' = br_trailers b" "br_err b' = br_err b"
    "br_ackQueued b' = (br_ackQueued b \<or> notify)" "notify \<Longrightarrow> \<not> br_ackQueued b" "br_unacked b \<noteq> 0 \<Longrightarrow> content b = [] \<or> br_closed b \<Longrightarrow> br_ackQueued b'"
  using assms by (auto simp: claimAckLocked_def reader_ok_def content_def split: if_splits)

text \<open>What \<open>Read\<close> returns leaves the front of the buffer.\<close>

definition answer_bytes :: "readAnswer \<Rightarrow> byte list" where
  "answer_bytes ans = (case ans of ReadBytes bs \<Rightarrow> bs | _ \<Rightarrow> [])"

lemma append_take_drop_length: "drop i xs = take n (drop i xs) @ drop (i + min (length xs - i) n) xs"
  using append_take_drop_id [of n "drop i xs"] by (simp add: min_def add.commute)

lemma body_Read_spec:
  assumes "body_Read plen b = (ans, notify, b')" and "reader_ok b"
  shows "reader_ok b' \<and> content b = answer_bytes ans @ content b' \<and> br_closed b' = br_closed b \<and> br_onAck b' = br_onAck b \<and> br_eof b' = br_eof b
    \<and> br_trailers b' = br_trailers b \<and> br_err b' = br_err b \<and> br_ackQueued b' = (br_ackQueued b \<or> notify) \<and> (notify \<longrightarrow> \<not> br_ackQueued b)
    \<and> (content b \<noteq> [] \<and> content b' = [] \<longrightarrow> br_ackQueued b')"
proof (cases "plen = 0 \<or> br_off b = length (br_buf b)")
  case True
  then show ?thesis using assms by (auto simp: body_Read_def answer_bytes_def content_def split: if_splits)
next
  case False
  define data where "data = take plen (drop (br_off b) (br_buf b))"
  define b1 where "b1 = b\<lparr>br_off := br_off b + length data\<rparr>"
  define b2 where "b2 = (if br_off b1 = length (br_buf b1) then b1\<lparr>br_buf := [], br_off := 0\<rparr> else b1)"
  define b3 where "b3 = b2\<lparr>br_unacked := br_unacked b2 + length data\<rparr>"
  have "data \<noteq> []" using False assms(2) by (auto simp: reader_ok_def data_def)
  have claim: "claimAckLocked b3 = (notify, b')" "ans = ReadBytes data"
    using assms(1) False unfolding b3_def b2_def b1_def data_def by (auto simp: body_Read_def Let_def split: prod.splits)
  have b2: "content b2 = drop (br_off b + length data) (br_buf b)" "reader_ok b2" "br_closed b2 = br_closed b" "br_onAck b2 = br_onAck b" "br_eof b2 = br_eof b"
      "br_trailers b2 = br_trailers b" "br_err b2 = br_err b" "br_ackQueued b2 = br_ackQueued b"
    using assms(2) by (auto simp: b2_def b1_def content_def reader_ok_def data_def)
  have b3: "content b3 = content b2" "reader_ok b3" "br_closed b3 = br_closed b" "br_onAck b3 = br_onAck b" "br_eof b3 = br_eof b"
      "br_trailers b3 = br_trailers b" "br_err b3 = br_err b" "br_ackQueued b3 = br_ackQueued b" "br_unacked b3 \<noteq> 0"
    using b2 \<open>data \<noteq> []\<close> by (auto simp: b3_def content_def reader_ok_def)
  have "content b = data @ content b3" unfolding b3 b2 unfolding content_def data_def by (simp add: append_take_drop_length)
  then show ?thesis using claimAck_spec [OF claim(1)] b3 claim(2) by (simp add: answer_bytes_def)
qed

lemma body_Close_spec:
  assumes "body_Close b = (notify, b')" and "reader_ok b"
  shows "reader_ok b' \<and> content b' = [] \<and> br_closed b' \<and> br_onAck b' = br_onAck b \<and> br_eof b' = br_eof b
    \<and> br_trailers b' = br_trailers b \<and> br_err b' = br_err b \<and> br_ackQueued b' = (br_ackQueued b \<or> notify) \<and> (notify \<longrightarrow> \<not> br_ackQueued b) \<and> (content b \<noteq> [] \<longrightarrow> br_ackQueued b')"
proof (cases "br_closed b")
  case True
  then show ?thesis using assms by (auto simp: body_Close_def content_def reader_ok_def)
next
  case False
  let ?b1 = "stopDeadlineLocked (b\<lparr>br_closed := True, br_unacked := br_unacked b + (length (br_buf b) - br_off b), br_buf := [], br_off := 0\<rparr>)"
  have "claimAckLocked ?b1 = (notify, b')" using assms(1) False by (simp add: body_Close_def)
  from claimAck_spec [OF this] show ?thesis by (auto simp: stopDeadlineLocked_def reader_ok_def content_def)
qed

lemma deadline_spec:
  "reader_ok (setReadDeadline now t b) = reader_ok b" "content (setReadDeadline now t b) = content b" "same_acks b (setReadDeadline now t b)"
  "br_eof (setReadDeadline now t b) = br_eof b" "br_trailers (setReadDeadline now t b) = br_trailers b" "br_err (setReadDeadline now t b) = br_err b"
  "reader_ok (deadlineFired now b) = reader_ok b" "content (deadlineFired now b) = content b" "same_acks b (deadlineFired now b)"
  "br_eof (deadlineFired now b) = br_eof b" "br_trailers (deadlineFired now b) = br_trailers b" "br_err (deadlineFired now b) = br_err b"
  by (auto simp: setReadDeadline_def deadlineFired_def stopDeadlineLocked_def reader_ok_def content_def same_acks_def Let_def split: option.splits)

text \<open>The decoder after some of a body, the bytes it consumed and the data among them.\<close>

inductive chunk_run :: "h1Vector \<Rightarrow> byte list \<Rightarrow> byte list \<Rightarrow> chunkedDecoder \<Rightarrow> bool" for cpu where
  run_start: "chunk_run cpu [] [] (zeroChunked\<lparr>captureTrailers := True\<rparr>)"
| run_step: "chunk_run cpu consumed data d \<Longrightarrow> chunked_next cpu d src = (d', Some (n, piece)) \<Longrightarrow> 0 < n
    \<Longrightarrow> chunk_run cpu (consumed @ take n src) (data @ piece) d'"

lemma chunk_run_inv: "chunk_run cpu consumed data d \<Longrightarrow> framing_inv d \<and> captureTrailers d"
  by (induction rule: chunk_run.induct) (auto dest: framing_inv_next)

lemma chunk_run_expects:
  "chunk_run cpu consumed data d \<Longrightarrow> expects cpu d msg body fs \<Longrightarrow> chunked_body cpu (consumed @ msg) (data @ body) (cd_trailers d @ fs)"
proof (induction arbitrary: msg body fs rule: chunk_run.induct)
  case run_start
  then show ?case by (simp add: zeroChunked_def [THEN arg_cong [of _ _ cd_trailers]])
next
  case (run_step consumed data d src d' n piece)
  obtain new where "cd_trailers d' = cd_trailers d @ new" "expects cpu d (take n src @ msg) (piece @ body) (new @ fs)"
    using expects_next [OF run_step(2,3) _ run_step.prems] chunk_run_inv [OF run_step(1)] by blast
  then show ?case using run_step.IH by fastforce
qed

lemma chunk_run_done: "chunk_run cpu consumed data d \<Longrightarrow> chunked_done d \<Longrightarrow> chunked_body cpu consumed data (cd_trailers d)"
  using chunk_run_expects [of cpu consumed data d "[]" "[]" "[]"] by (simp add: expects_def chunked_done_def)

section \<open>What feeding keeps\<close>

text \<open>The log of a body: its declared length, the bytes taken from the connection, what \<open>Read\<close> returned.\<close>

record bodyLog =
  bl_declared :: "nat option"
  bl_taken :: "byte list"
  bl_got :: "byte list"

definition decoded :: "h1Vector \<Rightarrow> h1BodyIn \<Rightarrow> bodyLog \<Rightarrow> byte list \<Rightarrow> bool" where
  "decoded cpu inn l pushed \<longleftrightarrow>
     (case bl_declared l of
        Some n \<Rightarrow> pushed = bl_taken l \<and> \<not> in_broken inn \<and> (\<exists>left. in_left inn = Some left \<and> length (bl_taken l) + left = n \<and> (in_done inn \<longrightarrow> left = 0))
      | None \<Rightarrow> in_left inn = None \<and> (\<exists>d. chunk_run cpu (bl_taken l) pushed d \<and> (\<not> in_broken inn \<longrightarrow> d = in_chunk inn \<and> in_done inn = chunked_done d)))"

definition in_ok :: "h1Vector \<Rightarrow> h1BodyIn \<Rightarrow> bodyLog \<Rightarrow> bool" where
  "in_ok cpu inn l \<longleftrightarrow> reader_ok (in_reader inn) \<and> buffered (in_reader inn) \<le> h1BodyStreamCap
     \<and> (\<exists>pushed. decoded cpu inn l pushed \<and> (\<not> br_closed (in_reader inn) \<longrightarrow> pushed = bl_got l @ content (in_reader inn)))
     \<and> (br_eof (in_reader inn) \<longrightarrow> in_done inn \<and> \<not> in_broken inn \<and> (bl_declared l = None \<longrightarrow> br_trailers (in_reader inn) = cd_trailers (in_chunk inn)))
     \<and> (\<not> in_done inn \<longrightarrow> \<not> in_broken inn) \<and> (in_done inn \<longrightarrow> br_eof (in_reader inn) \<or> br_err (in_reader inn) \<noteq> None)"

lemma in_end_spec:
  "in_left (in_end e inn) = in_left inn" "in_chunk (in_end e inn) = in_chunk inn" "in_broken (in_end e inn) = (e \<noteq> None)"
  "in_reader (in_end (Some x) inn) = body_finish (Some x) (in_reader inn)" "in_reader (in_end None inn) = finishWithTrailers (cd_trailers (in_chunk inn)) (in_reader inn)"
  by (simp_all add: in_end_def Let_def)

lemma in_ok_end_broken:
  assumes "in_ok cpu inn l" and "\<not> in_done inn" and "bl_declared l = None"
  shows "in_ok cpu (in_end (Some e) (inn\<lparr>in_chunk := d\<rparr>)) l"
  using assms finish_spec(11) [of "in_reader inn"] by (auto simp: in_ok_def in_end_spec finish_spec buffered_content decoded_def finish_spec(3) [unfolded same_acks_def])

lemma in_ok_end:
  assumes "in_ok cpu inn l" and "\<not> in_done inn" and "decoded cpu (in_end None inn) l pushed" and "\<not> br_closed (in_reader inn) \<longrightarrow> pushed = bl_got l @ content (in_reader inn)"
  shows "in_ok cpu (in_end None inn) l"
  using assms finish_spec(9) [of "in_reader inn" "cd_trailers (in_chunk inn)"] finish_spec(6) [of "in_reader inn", unfolded same_acks_def] finish_spec(10)
  by (auto simp: in_ok_def in_end_spec finish_spec(4,5) buffered_content)

definition conn_ok :: "bodyConn \<Rightarrow> bool" where
  "conn_ok c \<longleftrightarrow> (if bc_tls c then appBufOff c \<le> length (appBuf c) else h1Off c \<le> readN c \<and> readN c \<le> length (readBuf c))"

definition same_conn :: "bodyConn \<Rightarrow> bodyConn \<Rightarrow> bool" where
  "same_conn c c' \<longleftrightarrow> h1In c' = h1In c \<and> bc_generation c' = bc_generation c \<and> bc_fd c' = bc_fd c \<and> bc_tls c' = bc_tls c"

lemma same_conn_trans: "same_conn a b \<Longrightarrow> same_conn b c \<Longrightarrow> same_conn a c"
  by (simp add: same_conn_def)

lemma h1Advance_spec: "conn_ok c \<Longrightarrow> n \<le> length (h1Unread c) \<Longrightarrow> conn_ok (h1Advance n c)" "same_conn c (h1Advance n c)"
  by (auto simp: conn_ok_def h1Advance_def h1Unread_def same_conn_def)

lemma h1CompactUnread_spec:
  assumes "conn_ok c"
  shows "conn_ok (h1CompactUnread c)" "same_conn c (h1CompactUnread c)" "h1Unread (h1CompactUnread c) = h1Unread c"
  using assms by (auto simp: conn_ok_def h1CompactUnread_def compactAppConsumed_def compactApp_def compactH1ReadBuffer_def h1Unread_def same_conn_def Let_def)

text \<open>Why a worker stops: the body ended, nothing is left to decode, the reader is full, or a line is incomplete.\<close>

definition idle :: "h1Vector \<Rightarrow> h1BodyIn \<Rightarrow> byte list \<Rightarrow> bool" where
  "idle cpu inn data \<longleftrightarrow> in_done inn \<or> data = [] \<or> in_left inn = None \<and> \<not> chunked_done (in_chunk inn) \<and> chunked_next cpu (in_chunk inn) data = (in_chunk inn, Some (0, []))"

lemma next_stays:
  assumes "framing_inv d" and "chunked_next cpu d src = (d', Some (0, piece))" and "src \<noteq> []"
  shows "d' = d \<and> piece = [] \<and> cd_state d \<noteq> ChunkedInData"
  using assms by (cases "cd_state d") (auto simp: chunked_next_def nextLine_def framing_inv_def Let_def split: option.splits if_splits)

lemma next_piece: "chunked_next cpu d src = (d', Some (n, piece)) \<Longrightarrow> length piece \<le> length src \<and> (piece \<noteq> [] \<longrightarrow> cd_state d = ChunkedInData)"
  by (auto simp: chunked_next_def nextLine_def Let_def split: chunkedState.splits option.splits if_splits)

lemma push_buffered: "reader_ok b \<Longrightarrow> length data \<le> m - buffered b \<Longrightarrow> buffered b \<le> m \<Longrightarrow> buffered (body_push data b) \<le> m"
  by (auto simp: buffered_content body_push_spec)

lemma length_step:
  assumes ok: "in_ok cpu inn l" and nd: "\<not> in_done inn" and left: "in_left inn = Some left"
    and n: "n \<le> length data" "n \<le> h1BodyStreamCap - buffered (in_reader inn)" "n \<le> left"
    and inn1: "inn1 = inn\<lparr>in_reader := body_push (take n data) (in_reader inn), in_left := Some (left - n)\<rparr>"
  shows "in_ok cpu (if left - n = 0 then in_end None inn1 else inn1) (l\<lparr>bl_taken := bl_taken l @ take n data\<rparr>)"
proof -
  let ?l = "l\<lparr>bl_taken := bl_taken l @ take n data\<rparr>"
  have rk: "reader_ok (in_reader inn)" "buffered (in_reader inn) \<le> h1BodyStreamCap" using ok by (simp_all add: in_ok_def)
  note push = body_push_spec [OF rk(1), of "take n data"]
  obtain declared where d: "bl_declared l = Some declared" "length (bl_taken l) + left = declared" "\<not> in_broken inn"
    "\<not> br_closed (in_reader inn) \<longrightarrow> bl_taken l = bl_got l @ content (in_reader inn)"
    using ok left by (auto simp: in_ok_def decoded_def split: option.splits)
  have eof: "\<not> br_eof (in_reader inn)" using ok nd by (auto simp: in_ok_def)
  have logged: "\<not> br_closed (in_reader inn1) \<longrightarrow> bl_taken ?l = bl_got ?l @ content (in_reader inn1)" using d push by (simp add: inn1 same_acks_def)
  have dec: "decoded cpu inn1 ?l (bl_taken ?l)" using d n nd by (simp add: decoded_def inn1)
  have one: "in_ok cpu inn1 ?l"
    unfolding in_ok_def using push rk n nd d logged dec eof push_buffered [OF rk(1), of "take n data" h1BodyStreamCap] by (auto simp: inn1)
  show ?thesis
  proof (cases "left - n = 0")
    case True
    have "decoded cpu (in_end None inn1) ?l (bl_taken ?l)" using d n True by (simp add: decoded_def in_end_spec inn1)
    then show ?thesis using in_ok_end [OF one _ _ logged] nd True by (simp add: inn1)
  qed (use one in simp)
qed

lemma chunk_step:
  assumes ok: "in_ok cpu inn l" and nd: "\<not> in_done inn" and left: "in_left inn = None"
    and nx: "chunked_next cpu (in_chunk inn) src = (d, Some (n, piece))" and n: "0 < n" and src: "take n src = take n data"
    and room: "length piece \<le> h1BodyStreamCap - buffered (in_reader inn)"
    and inn1: "inn1 = (if piece \<noteq> [] then inn\<lparr>in_chunk := d, in_reader := body_push piece (in_reader inn)\<rparr> else inn\<lparr>in_chunk := d\<rparr>)"
  shows "in_ok cpu (if chunked_done d then in_end None inn1 else inn1) (l\<lparr>bl_taken := bl_taken l @ take n data\<rparr>)"
proof -
  let ?l = "l\<lparr>bl_taken := bl_taken l @ take n data\<rparr>"
  have rk: "reader_ok (in_reader inn)" "buffered (in_reader inn) \<le> h1BodyStreamCap" using ok by (simp_all add: in_ok_def)
  note push = body_push_spec [OF rk(1), of piece]
  have br: "\<not> in_broken inn" and eof: "\<not> br_eof (in_reader inn)" using ok nd by (auto simp: in_ok_def)
  obtain pushed where p: "bl_declared l = None" "chunk_run cpu (bl_taken l) pushed (in_chunk inn)" "\<not> br_closed (in_reader inn) \<longrightarrow> pushed = bl_got l @ content (in_reader inn)"
    using ok left br nd by (auto simp: in_ok_def decoded_def split: option.splits)
  have run: "chunk_run cpu (bl_taken ?l) (pushed @ piece) d" using run_step [OF p(2) nx n] src by simp
  have f: "in_broken inn1 = in_broken inn" "in_done inn1 = in_done inn" "in_left inn1 = None" "in_chunk inn1 = d" "reader_ok (in_reader inn1)" "br_closed (in_reader inn1) = br_closed (in_reader inn)"
      "br_eof (in_reader inn1) = br_eof (in_reader inn)" "\<not> br_closed (in_reader inn) \<longrightarrow> content (in_reader inn1) = content (in_reader inn) @ piece" "buffered (in_reader inn1) \<le> h1BodyStreamCap"
    using push rk left push_buffered [OF rk(1) room rk(2)] by (auto simp: inn1 same_acks_def)
  have logged: "\<not> br_closed (in_reader inn1) \<longrightarrow> pushed @ piece = bl_got ?l @ content (in_reader inn1)" using p(3) f by simp
  show ?thesis
  proof (cases "chunked_done d")
    case True
    have "in_broken (in_end None inn1) = False" "in_done (in_end None inn1)" by (simp_all add: in_end_spec)
    moreover have "decoded cpu (in_end None inn1) ?l (pushed @ piece)" using p(1) run f True by (simp add: decoded_def in_end_spec)
    ultimately show ?thesis using True f logged eof finish_spec(6) [of "in_reader inn1" "cd_trailers d", unfolded same_acks_def]
      finish_spec(9) [of "in_reader inn1" "cd_trailers d"] finish_spec(10)
      by (auto simp: in_ok_def in_end_spec finish_spec(4,5) buffered_content)
  next
    case False
    then have "decoded cpu inn1 ?l (pushed @ piece)" using p(1) run f br nd by (simp add: decoded_def)
    then show ?thesis using False f logged eof br nd by (auto simp: in_ok_def)
  qed
qed

text \<open>One round of the loop: it stops, or it takes some bytes and goes on.\<close>

definition stops :: "h1Vector \<Rightarrow> int \<Rightarrow> h1BodyIn \<Rightarrow> bodyConn \<Rightarrow> bodyLog \<Rightarrow> bool" where
  "stops cpu m inn c l \<longleftrightarrow> (\<exists>inn'. feedLoop cpu m inn c = (inn', c) \<and> in_ok cpu inn' l \<and> same_acks (in_reader inn) (in_reader inn')
     \<and> (idle cpu inn' (h1Unread c) \<or> h1BodyStreamCap \<le> buffered (in_reader inn')))"

definition goes_on :: "h1Vector \<Rightarrow> int \<Rightarrow> h1BodyIn \<Rightarrow> bodyConn \<Rightarrow> bodyLog \<Rightarrow> bool" where
  "goes_on cpu m inn c l \<longleftrightarrow> (\<exists>inn' n. feedLoop cpu m inn c = feedLoop cpu m inn' (h1Advance n c) \<and> n \<le> length (h1Unread c) \<and> (0 < n \<or> in_done inn') \<and> \<not> in_done inn
     \<and> in_ok cpu inn' (l\<lparr>bl_taken := bl_taken l @ take n (h1Unread c)\<rparr>) \<and> same_acks (in_reader inn) (in_reader inn'))"

lemma same_acks_end: "same_acks b (in_reader inn) \<Longrightarrow> same_acks b (in_reader (in_end e inn))"
  by (cases e) (simp_all add: in_end_spec same_acks_trans [OF _ finish_spec(3)] same_acks_trans [OF _ finish_spec(6)])

lemma same_acks_refl [simp]: "same_acks b b"
  by (simp add: same_acks_def)

lemma feedLoop_length:
  assumes ok: "in_ok cpu inn l" and len: "\<not> in_done inn" "h1Unread c \<noteq> []" "buffered (in_reader inn) < h1BodyStreamCap" "in_left inn = Some left"
  shows "goes_on cpu m inn c l"
proof -
  define n where "n = min (min (length (h1Unread c)) (h1BodyStreamCap - buffered (in_reader inn))) left"
  define inn1 where "inn1 = inn\<lparr>in_reader := body_push (take n (h1Unread c)) (in_reader inn), in_left := Some (left - n)\<rparr>"
  let ?inn = "if left - n = 0 then in_end None inn1 else inn1"
  have rk: "reader_ok (in_reader inn)" using ok by (simp add: in_ok_def)
  have "in_ok cpu ?inn (l\<lparr>bl_taken := bl_taken l @ take n (h1Unread c)\<rparr>)"
    by (rule length_step [OF ok len(1,4) _ _ _ inn1_def]) (simp_all add: n_def)
  moreover have a1: "same_acks (in_reader inn) (in_reader inn1)" using body_push_spec(3) [OF rk] by (simp add: inn1_def)
  moreover have "same_acks (in_reader inn) (in_reader ?inn)" using a1 same_acks_end [OF a1] by simp
  moreover have "feedLoop cpu m inn c = feedLoop cpu m ?inn (h1Advance n c)" using len by (subst feedLoop.simps) (simp add: Let_def n_def inn1_def)
  moreover have "n \<le> length (h1Unread c)" "0 < n \<or> in_done ?inn" using len by (auto simp: n_def)
  ultimately show ?thesis using len(1) unfolding goes_on_def by blast
qed

lemma feedLoop_chunked:
  assumes ok: "in_ok cpu inn l" and ch: "\<not> in_done inn" "h1Unread c \<noteq> []" "buffered (in_reader inn) < h1BodyStreamCap" "in_left inn = None"
  shows "stops cpu m inn c l \<or> goes_on cpu m inn c l"
proof -
  define data where "data = h1Unread c"
  define room where "room = h1BodyStreamCap - buffered (in_reader inn)"
  define src where "src = (if cd_state (in_chunk inn) = ChunkedInData then take room data else data)"
  have room: "room \<noteq> 0" using ch by (simp add: room_def)
  obtain d res where nx: "chunked_next cpu (in_chunk inn) src = (d, res)" by fastforce
  have loop: "feedLoop cpu m inn c = (case res of None \<Rightarrow> (in_end (Some ErrChunkedMalformed) (inn\<lparr>in_chunk := d\<rparr>), c)
      | Some (n, piece) \<Rightarrow> if n = 0 then (inn\<lparr>in_chunk := d\<rparr>, c)
          else if piece \<noteq> [] \<and> bodyTooLarge m (int (br_received (in_reader inn)) + int (length piece)) then (in_end (Some ErrBodyTooLarge) (inn\<lparr>in_chunk := d\<rparr>), c)
          else let inn1 = (if piece \<noteq> [] then inn\<lparr>in_chunk := d, in_reader := body_push piece (in_reader inn)\<rparr> else inn\<lparr>in_chunk := d\<rparr>)
            in feedLoop cpu m (if chunked_done d then in_end None inn1 else inn1) (h1Advance n c))"
    using ch nx room by (subst feedLoop.simps) (simp add: Let_def flip: data_def room_def src_def split: option.split)
  have rk: "reader_ok (in_reader inn)" using ok by (simp add: in_ok_def)
  have src: "src \<noteq> []" "k \<le> length src \<Longrightarrow> take k src = take k data" "length src \<le> length data" for k using ch by (auto simp: src_def data_def room_def)
  have decl: "bl_declared l = None" using ok ch by (auto simp: in_ok_def decoded_def split: option.splits)
  have inv: "framing_inv (in_chunk inn)" "\<not> chunked_done (in_chunk inn)" using ok ch decl chunk_run_inv by (auto simp: in_ok_def decoded_def)
  have broken: "stops cpu m inn c l" if "feedLoop cpu m inn c = (in_end (Some e) (inn\<lparr>in_chunk := d\<rparr>), c)" for e
    using that in_ok_end_broken [OF ok ch(1) decl] finish_spec(3) by (auto simp: stops_def idle_def in_end_spec)
  consider (bad) "res = None"
    | (large) n piece where "res = Some (n, piece)" "0 < n" "piece \<noteq> [] \<and> bodyTooLarge m (int (br_received (in_reader inn)) + int (length piece))"
    | (wait) piece where "res = Some (0, piece)"
    | (go) n piece where "res = Some (n, piece)" "0 < n" "\<not> (piece \<noteq> [] \<and> bodyTooLarge m (int (br_received (in_reader inn)) + int (length piece)))"
    by (cases res) (auto simp del: not_None_eq, blast)
  then show ?thesis
  proof cases
    case wait
    have "d = in_chunk inn \<and> piece = [] \<and> cd_state (in_chunk inn) \<noteq> ChunkedInData" using next_stays [OF inv(1) nx [unfolded wait] src(1)] .
    then have st: "d = in_chunk inn" "piece = []" "src = data" by (simp_all add: src_def)
    then have "feedLoop cpu m inn c = (inn, c)" using wait unfolding loop by simp
    moreover have "idle cpu inn data" using st nx wait ch inv by (simp add: idle_def)
    ultimately show ?thesis using ok unfolding stops_def data_def by auto
  next
    case go
    define inn1 where "inn1 = (if piece \<noteq> [] then inn\<lparr>in_chunk := d, in_reader := body_push piece (in_reader inn)\<rparr> else inn\<lparr>in_chunk := d\<rparr>)"
    let ?inn = "if chunked_done d then in_end None inn1 else inn1"
    have nl: "n \<le> length src" using chunked_next_length nx go(1) by blast
    have "length piece \<le> room" using next_piece nx go(1) by (cases "piece = []") (fastforce simp: src_def)+
    then have "in_ok cpu ?inn (l\<lparr>bl_taken := bl_taken l @ take n data\<rparr>)"
      using chunk_step [OF ok ch(1,4) nx [unfolded go(1)] go(2) src(2) [OF nl] _ inn1_def] by (simp add: room_def)
    moreover have a1: "same_acks (in_reader inn) (in_reader inn1)" using body_push_spec(3) [OF rk] by (simp add: inn1_def)
    moreover have "same_acks (in_reader inn) (in_reader ?inn)" using a1 same_acks_end [OF a1] by simp
    moreover have "feedLoop cpu m inn c = feedLoop cpu m ?inn (h1Advance n c)" using go unfolding loop by (auto simp: Let_def inn1_def)
    moreover have "n \<le> length data" using nl src(3) by simp
    ultimately show ?thesis using go(2) ch(1) unfolding goes_on_def data_def by blast
  next
    case bad
    then show ?thesis using broken [of ErrChunkedMalformed] loop by simp
  next
    case large
    then show ?thesis using broken [of ErrBodyTooLarge] loop by simp
  qed
qed

lemma feedLoop_round:
  assumes "in_ok cpu inn l"
  shows "stops cpu m inn c l \<or> goes_on cpu m inn c l"
proof (cases "in_done inn \<or> h1Unread c = [] \<or> h1BodyStreamCap \<le> buffered (in_reader inn)")
  case True
  then have "feedLoop cpu m inn c = (inn, c)" by (subst feedLoop.simps) (auto simp: Let_def)
  then show ?thesis using True assms unfolding stops_def idle_def by auto
next
  case False
  then show ?thesis using feedLoop_length [OF assms] feedLoop_chunked [OF assms] by (cases "in_left inn") auto
qed

lemma feedLoop_spec:
  assumes "feedLoop cpu m inn c = (inn', c')" and "in_ok cpu inn l" and "conn_ok c"
  shows "\<exists>taken. h1Unread c = taken @ h1Unread c' \<and> in_ok cpu inn' (l\<lparr>bl_taken := bl_taken l @ taken\<rparr>) \<and> conn_ok c' \<and> same_conn c c'
    \<and> same_acks (in_reader inn) (in_reader inn') \<and> (idle cpu inn' (h1Unread c') \<or> h1BodyStreamCap \<le> buffered (in_reader inn'))"
  using assms
proof (induction "length (h1Unread c) + (if in_done inn then 0 else 1)" arbitrary: inn c l rule: less_induct)
  case less
  from feedLoop_round [OF less.prems(2), of m c] show ?case
  proof
    assume "stops cpu m inn c l"
    then have "c' = c" "in_ok cpu inn' l" "same_acks (in_reader inn) (in_reader inn')" "idle cpu inn' (h1Unread c) \<or> h1BodyStreamCap \<le> buffered (in_reader inn')"
      using less.prems(1) unfolding stops_def by auto
    then show ?thesis using less.prems(3) by (intro exI [of _ "[]"]) (simp add: same_conn_def)
  next
    assume "goes_on cpu m inn c l"
    then obtain inn1 n where g: "feedLoop cpu m inn1 (h1Advance n c) = (inn', c')" "n \<le> length (h1Unread c)" "0 < n \<or> in_done inn1" "\<not> in_done inn"
      "in_ok cpu inn1 (l\<lparr>bl_taken := bl_taken l @ take n (h1Unread c)\<rparr>)" "same_acks (in_reader inn) (in_reader inn1)"
      using less.prems(1) unfolding goes_on_def by auto
    have "length (h1Unread (h1Advance n c)) + (if in_done inn1 then 0 else 1) < length (h1Unread c) + (if in_done inn then 0 else 1)"
      using g by (auto simp: h1Unread_advance)
    from less.hyps [OF this g(1,5) h1Advance_spec(1) [OF less.prems(3) g(2)]]
    obtain taken where t: "h1Unread (h1Advance n c) = taken @ h1Unread c'" "in_ok cpu inn' (l\<lparr>bl_taken := (bl_taken l @ take n (h1Unread c)) @ taken\<rparr>)" "conn_ok c'"
      "same_conn (h1Advance n c) c'" "same_acks (in_reader inn1) (in_reader inn')" "idle cpu inn' (h1Unread c') \<or> h1BodyStreamCap \<le> buffered (in_reader inn')" by auto
    have "h1Unread c = (take n (h1Unread c) @ taken) @ h1Unread c'" using t(1) g(2) append_take_drop_id [of n "h1Unread c"] by (simp add: h1Unread_advance)
    moreover have "same_conn c c'" "same_acks (in_reader inn) (in_reader inn')" using same_conn_trans [OF h1Advance_spec(2) t(4)] same_acks_trans [OF g(6) t(5)] .
    ultimately show ?thesis using t(2,3,6) by (intro exI [of _ "take n (h1Unread c) @ taken"]) simp
  qed
qed

section \<open>The two sides together\<close>

text \<open>Bytes that arrive on a connection are appended to what it has not read.\<close>

definition received :: "bodyConn \<Rightarrow> byte list \<Rightarrow> bodyConn \<Rightarrow> bool" where
  "received c bs c' \<longleftrightarrow> conn_ok c' \<and> same_conn c c' \<and> h1Unread c' = h1Unread c @ bs"

definition set_reader :: "nat \<Rightarrow> BodyReader \<Rightarrow> bodyWorld \<Rightarrow> bodyWorld" where
  "set_reader a r w = w\<lparr>bw_ins := (bw_ins w)[a := (bw_ins w ! a)\<lparr>in_reader := r\<rparr>]\<rparr>"

definition reader_at :: "bodyWorld \<Rightarrow> nat \<Rightarrow> BodyReader" where
  "reader_at w a = in_reader (bw_ins w ! a)"

text \<open>The log entry of the body being fed grows by what the worker takes from the unread bytes \<open>before\<close>.\<close>

definition log_taken :: "byte list \<Rightarrow> bodyWorld \<Rightarrow> nat \<Rightarrow> (nat \<Rightarrow> bodyLog) \<Rightarrow> nat \<Rightarrow> bodyLog" where
  "log_taken before w' a lg = lg(a := (lg a)\<lparr>bl_taken := bl_taken (lg a) @ take (length before - length (h1Unread (bw_conn w'))) before\<rparr>)"

definition notifies :: "bool \<Rightarrow> BodyReader \<Rightarrow> bodyWorld \<Rightarrow> bodyWorld" where
  "notifies notify r w = (if notify then w\<lparr>bw_posting := bw_posting w @ [br_onAck r]\<rparr> else w)"

text \<open>
  Everything a worker and the handlers of a connection do with its bodies, in any order: a request
  with a body starts, bytes arrive, the handler reads, closes or sets a deadline, a notification is
  posted, a posted task runs, the request ends, the connection closes, and other requests use the
  connection while it has no body.
\<close>

inductive body_reach :: "h1Vector \<Rightarrow> int \<Rightarrow> bodyWorld \<Rightarrow> (nat \<Rightarrow> bodyLog) \<Rightarrow> bool" for cpu m where
  br_init: "conn_ok c \<Longrightarrow> h1In c = None \<Longrightarrow> body_reach cpu m \<lparr>bw_conn = c, bw_ins = [], bw_posting = [], bw_posted = []\<rparr> lg"
| br_other: "body_reach cpu m w lg \<Longrightarrow> h1In (bw_conn w) = None \<Longrightarrow> conn_ok c \<Longrightarrow> h1In c = None \<Longrightarrow> body_reach cpu m (w\<lparr>bw_conn := c\<rparr>) lg"
| br_begin: "body_reach cpu m w' (log_taken (h1Unread (bw_conn w)) w' a (lg(a := \<lparr>bl_declared = (if chunked then None else Some n), bl_taken = [], bl_got = []\<rparr>)))"
    if "body_reach cpu m w lg" "h1In (bw_conn w) = None" "0 \<le> bc_fd (bw_conn w)" "a = length (bw_ins w)" "startH1BodyStream cpu m out chunked n w = (out', w')"
| br_arrive: "body_reach cpu m w' (log_taken (h1Unread c) w' a lg)"
    if "body_reach cpu m w lg" "h1In (bw_conn w) = Some a" "received (bw_conn w) bs c" "h1FeedBody cpu m (w\<lparr>bw_conn := c\<rparr>) = w'"
| br_read: "body_reach cpu m (notifies notify r (set_reader a r w)) (lg(a := (lg a)\<lparr>bl_got := bl_got (lg a) @ answer_bytes ans\<rparr>))"
    if "body_reach cpu m w lg" "a < length (bw_ins w)" "body_Read plen (reader_at w a) = (ans, notify, r)"
| br_close: "body_reach cpu m (notifies notify r (set_reader a r w)) lg"
    if "body_reach cpu m w lg" "a < length (bw_ins w)" "body_Close (reader_at w a) = (notify, r)"
| br_deadline: "body_reach cpu m (set_reader a (setReadDeadline now t (reader_at w a)) w) lg" if "body_reach cpu m w lg" "a < length (bw_ins w)"
| br_fired: "body_reach cpu m (set_reader a (deadlineFired now (reader_at w a)) w) lg" if "body_reach cpu m w lg" "a < length (bw_ins w)"
| br_post: "body_reach cpu m (w\<lparr>bw_posting := ps @ qs, bw_posted := bw_posted w @ [p]\<rparr>) lg" if "body_reach cpu m w lg" "bw_posting w = ps @ p # qs"
| br_task: "body_reach cpu m w' (if h1In (bw_conn w) = Some a then log_taken (h1Unread (bw_conn w)) w' a lg else lg)"
    if "body_reach cpu m w lg" "bw_posted w = (a, g) # ps" "h1BodyAcked cpu m a g (w\<lparr>bw_posted := ps\<rparr>) = (call, w')"
| br_end: "body_reach cpu m w' lg" if "body_reach cpu m w lg" "h1EndBodyStream w = (mustClose, w')"
| br_shut: "body_reach cpu m (closeConn w) lg" if "body_reach cpu m w lg"

definition pending :: "bodyWorld \<Rightarrow> nat \<Rightarrow> nat" where
  "pending w a = length (filter (\<lambda>p. fst p = a) (bw_posting w @ bw_posted w))"

definition awake :: "h1Vector \<Rightarrow> bodyWorld \<Rightarrow> nat \<Rightarrow> bool" where
  "awake cpu w a \<longleftrightarrow> idle cpu (bw_ins w ! a) (h1Unread (bw_conn w)) \<or> br_ackQueued (reader_at w a) \<or> \<not> br_closed (reader_at w a) \<and> content (reader_at w a) \<noteq> []"

definition world_base :: "h1Vector \<Rightarrow> bodyWorld \<Rightarrow> (nat \<Rightarrow> bodyLog) \<Rightarrow> bool" where
  "world_base cpu w lg \<longleftrightarrow> conn_ok (bw_conn w)
     \<and> (\<forall>a < length (bw_ins w). in_ok cpu (bw_ins w ! a) (lg a) \<and> fst (br_onAck (reader_at w a)) = a \<and> pending w a = (if br_ackQueued (reader_at w a) then 1 else 0))
     \<and> (\<forall>p \<in> set (bw_posting w @ bw_posted w). fst p < length (bw_ins w) \<and> p = br_onAck (reader_at w (fst p)))
     \<and> (\<forall>a. h1In (bw_conn w) = Some a \<longrightarrow> a < length (bw_ins w) \<and> 0 \<le> bc_fd (bw_conn w) \<and> snd (br_onAck (reader_at w a)) = bc_generation (bw_conn w))"

definition world_ok :: "h1Vector \<Rightarrow> bodyWorld \<Rightarrow> (nat \<Rightarrow> bodyLog) \<Rightarrow> bool" where
  "world_ok cpu w lg \<longleftrightarrow> world_base cpu w lg \<and> (\<forall>a. h1In (bw_conn w) = Some a \<longrightarrow> awake cpu w a)"

lemma in_ok_reader:
  assumes "in_ok cpu inn l" and "reader_ok r" and "length (content r) \<le> length (content (in_reader inn))" and "br_eof r = br_eof (in_reader inn)" and "br_trailers r = br_trailers (in_reader inn)"
    and "br_err (in_reader inn) \<noteq> None \<longrightarrow> br_err r \<noteq> None"
    and "\<not> br_closed r \<longrightarrow> \<not> br_closed (in_reader inn) \<and> bl_got l @ content (in_reader inn) = g @ content r"
  shows "in_ok cpu (inn\<lparr>in_reader := r\<rparr>) (l\<lparr>bl_got := g\<rparr>)"
  using assms by (fastforce simp: in_ok_def decoded_def buffered_content split: option.splits)

lemma set_reader_base:
  assumes "world_base cpu w lg" and "a < length (bw_ins w)" and "in_ok cpu ((bw_ins w ! a)\<lparr>in_reader := r\<rparr>) (lg' a)" and "\<forall>b. b \<noteq> a \<longrightarrow> lg' b = lg b"
    and "br_onAck r = br_onAck (reader_at w a)" and "br_ackQueued r = (br_ackQueued (reader_at w a) \<or> notify)" and "notify \<longrightarrow> \<not> br_ackQueued (reader_at w a)"
  shows "world_base cpu (notifies notify r (set_reader a r w)) lg'"
proof -
  have at: "reader_at (notifies notify r (set_reader a r w)) b = (if b = a then r else reader_at w b)" for b
    using assms(2) by (simp add: reader_at_def set_reader_def notifies_def nth_list_update)
  have "pending (notifies notify r (set_reader a r w)) b = pending w b + (if notify \<and> b = a then 1 else 0)" if "b < length (bw_ins w)" for b
    using assms(1,2,5) by (auto simp: pending_def set_reader_def notifies_def world_base_def)
  moreover have "length (bw_ins (notifies notify r (set_reader a r w))) = length (bw_ins w)" "bw_conn (notifies notify r (set_reader a r w)) = bw_conn w"
      "bw_ins (notifies notify r (set_reader a r w)) ! b = (if b = a then (bw_ins w ! a)\<lparr>in_reader := r\<rparr> else bw_ins w ! b)"
      "set (bw_posting (notifies notify r (set_reader a r w)) @ bw_posted (notifies notify r (set_reader a r w)))
         = set (bw_posting w @ bw_posted w) \<union> (if notify then {br_onAck (reader_at w a)} else {})" for b
    using assms(2,5) by (auto simp: set_reader_def notifies_def nth_list_update)
  ultimately show ?thesis using assms unfolding world_base_def at by auto
qed

lemma set_reader_ok:
  assumes "world_ok cpu w lg" and "a < length (bw_ins w)" and "in_ok cpu ((bw_ins w ! a)\<lparr>in_reader := r\<rparr>) (lg' a)" and "\<forall>b. b \<noteq> a \<longrightarrow> lg' b = lg b"
    and "br_onAck r = br_onAck (reader_at w a)" and "br_ackQueued r = (br_ackQueued (reader_at w a) \<or> notify)" and "notify \<longrightarrow> \<not> br_ackQueued (reader_at w a)"
    and wake: "\<not> br_closed (reader_at w a) \<and> content (reader_at w a) \<noteq> [] \<longrightarrow> br_ackQueued r \<or> \<not> br_closed r \<and> content r \<noteq> []"
  shows "world_ok cpu (notifies notify r (set_reader a r w)) lg'"
proof -
  have "awake cpu (notifies notify r (set_reader a r w)) b" if "awake cpu w b" for b
    using that assms(2,6) wake by (auto simp: awake_def reader_at_def set_reader_def notifies_def nth_list_update idle_def)
  then show ?thesis using assms(1) set_reader_base [OF _ assms(2-7)] by (auto simp: world_ok_def set_reader_def notifies_def)
qed

lemma feed_ok:
  assumes base: "world_base cpu w lg" and h: "h1In (bw_conn w) = Some a" and f: "h1FeedBody cpu m w = w'"
  shows "world_ok cpu w' (log_taken (h1Unread (bw_conn w)) w' a lg) \<and> same_conn (bw_conn w) (bw_conn w')"
proof (cases "in_done (bw_ins w ! a)")
  case True
  then have "w' = w" "awake cpu w a" using h f by (simp_all add: h1FeedBody_def awake_def idle_def)
  then show ?thesis using base h by (simp add: world_ok_def log_taken_def same_conn_def)
next
  case False
  obtain inn c where l: "feedLoop cpu m (bw_ins w ! a) (bw_conn w) = (inn, c)" by fastforce
  have w': "w' = w\<lparr>bw_ins := (bw_ins w)[a := inn], bw_conn := h1CompactUnread c\<rparr>" using False h f l by (auto simp: h1FeedBody_def)
  have a: "a < length (bw_ins w)" "in_ok cpu (bw_ins w ! a) (lg a)" "conn_ok (bw_conn w)" using base h by (auto simp: world_base_def)
  obtain taken where t: "h1Unread (bw_conn w) = taken @ h1Unread c" "in_ok cpu inn ((lg a)\<lparr>bl_taken := bl_taken (lg a) @ taken\<rparr>)" "conn_ok c" "same_conn (bw_conn w) c"
    "same_acks (in_reader (bw_ins w ! a)) (in_reader inn)" "idle cpu inn (h1Unread c) \<or> h1BodyStreamCap \<le> buffered (in_reader inn)"
    using feedLoop_spec [OF l a(2,3)] by blast
  note c = h1CompactUnread_spec [OF t(3)]
  have lg: "log_taken (h1Unread (bw_conn w)) w' a lg = lg(a := (lg a)\<lparr>bl_taken := bl_taken (lg a) @ taken\<rparr>)" using t(1) c by (simp add: log_taken_def w')
  have at: "reader_at w' b = (if b = a then in_reader inn else reader_at w b)" for b using a(1) by (simp add: reader_at_def w' nth_list_update)
  have sc: "same_conn (bw_conn w) (bw_conn w')" using same_conn_trans [OF t(4) c(2)] by (simp add: w')
  have ins: "bw_ins w' ! b = (if b = a then inn else bw_ins w ! b)" "length (bw_ins w') = length (bw_ins w)" "bw_conn w' = h1CompactUnread c" "pending w' b = pending w b"
      "bw_posting w' = bw_posting w" "bw_posted w' = bw_posted w" for b
    using a(1) by (simp_all add: w' nth_list_update pending_def)
  have "\<not> br_closed (in_reader inn) \<and> content (in_reader inn) \<noteq> []" if "h1BodyStreamCap \<le> buffered (in_reader inn)"
    using that t(2) by (auto simp: in_ok_def reader_ok_def buffered_content content_def h1BodyStreamCap_def)
  then have "awake cpu w' a" using t(6) c(3) unfolding awake_def at ins by auto
  moreover have "world_base cpu w' (lg(a := (lg a)\<lparr>bl_taken := bl_taken (lg a) @ taken\<rparr>))"
    using base t(2,5) c(1) sc a(1) unfolding world_base_def at same_conn_def ins same_acks_def reader_at_def [of w a, symmetric] by auto
  ultimately show ?thesis using sc h unfolding lg world_ok_def same_conn_def by auto
qed

text \<open>Ending a body and closing the connection.\<close>

lemma set_reader_same:
  assumes "world_ok cpu w lg" and "a < length (bw_ins w)" and "same_acks (reader_at w a) r" and "reader_ok r" and "content r = content (reader_at w a)"
    and "br_eof r = br_eof (reader_at w a)" and "br_trailers r = br_trailers (reader_at w a)"
    and "\<forall>e. br_err (reader_at w a) = Some e \<longrightarrow> br_err r = Some e"
  shows "world_ok cpu (set_reader a r w) lg"
proof -
  have ok: "in_ok cpu (bw_ins w ! a) (lg a)" using assms(1,2) by (simp add: world_ok_def world_base_def)
  have "in_ok cpu ((bw_ins w ! a)\<lparr>in_reader := r\<rparr>) ((lg a)\<lparr>bl_got := bl_got (lg a)\<rparr>)"
    by (rule in_ok_reader [OF ok]) (use assms in \<open>auto simp: reader_at_def same_acks_def\<close>)
  then have "world_ok cpu (notifies False r (set_reader a r w)) lg"
    by (intro set_reader_ok [OF assms(1,2)]) (use assms in \<open>auto simp: same_acks_def\<close>)
  then show ?thesis by (simp add: notifies_def)
qed

lemma detach_ok: "world_ok cpu w lg \<Longrightarrow> conn_ok c \<Longrightarrow> h1In c = None \<Longrightarrow> world_ok cpu (w\<lparr>bw_conn := c\<rparr>) lg"
  by (auto simp: world_ok_def world_base_def reader_at_def pending_def)

lemma finish_at:
  assumes "world_ok cpu w lg" and "h1In (bw_conn w) = Some a"
  shows "world_ok cpu (set_reader a (body_finish (Some e) (reader_at w a)) w) lg"
proof -
  have "a < length (bw_ins w)" "reader_ok (reader_at w a)" using assms by (auto simp: world_ok_def world_base_def in_ok_def reader_at_def)
  then show ?thesis by (intro set_reader_same [OF assms(1)]) (simp_all add: finish_spec)
qed

lemma end_ok:
  assumes "world_ok cpu w lg" and "h1EndBodyStream w = (mustClose, w')"
  shows "world_ok cpu w' lg"
proof (cases "h1In (bw_conn w)")
  case None
  then show ?thesis using assms by (simp add: h1EndBodyStream_def)
next
  case (Some a)
  have c: "conn_ok ((bw_conn w)\<lparr>h1In := None\<rparr>)" using assms(1) by (simp add: world_ok_def world_base_def conn_ok_def)
  have swap: "v\<lparr>bw_ins := x, bw_conn := y\<rparr> = v\<lparr>bw_conn := y, bw_ins := x\<rparr>" for v :: bodyWorld and x y by simp
  show ?thesis using assms(2) Some detach_ok [OF assms(1) c] detach_ok [OF finish_at [OF assms(1) Some, of ErrBodyStreamAborted] c] unfolding set_reader_def swap
    by (auto simp: h1EndBodyStream_def Let_def set_reader_def reader_at_def split: if_splits)
qed

lemma abort_ok: "world_ok cpu w lg \<Longrightarrow> world_ok cpu (h1AbortIn w) lg"
  using end_ok [of cpu w lg "fst (h1EndBodyStream w)" "h1AbortIn w"]
  by (cases "h1In (bw_conn w)") (auto simp: h1AbortIn_def h1EndBodyStream_def Let_def)

lemma abort_detached: "h1In (bw_conn (h1AbortIn w)) = None"
  by (cases "h1In (bw_conn w)") (auto simp: h1AbortIn_def Let_def)

lemma abort_conn: "h1AbortIn (w\<lparr>bw_conn := c\<lparr>bc_fd := x, bc_generation := y\<rparr>\<rparr>) =
    (h1AbortIn (w\<lparr>bw_conn := c\<rparr>))\<lparr>bw_conn := (bw_conn (h1AbortIn (w\<lparr>bw_conn := c\<rparr>)))\<lparr>bc_fd := x, bc_generation := y\<rparr>\<rparr>"
  by (cases "h1In c") (auto simp: h1AbortIn_def Let_def)

lemma close_ok: "world_ok cpu w lg \<Longrightarrow> world_ok cpu (closeConn w) lg"
proof -
  assume ok: "world_ok cpu w lg"
  have w: "w\<lparr>bw_conn := bw_conn w\<rparr> = w" by simp
  show ?thesis
  proof (cases "bc_fd (bw_conn w) < 0")
    case False
    then have "\<exists>c. closeConn w = (h1AbortIn w)\<lparr>bw_conn := c\<rparr> \<and> conn_ok c \<and> h1In c = None"
      using abort_conn [where w = w and c = "bw_conn w"] abort_detached [of w] unfolding w
      by (auto simp: closeConn_def Let_def conn_ok_def)
    then show ?thesis using detach_ok [OF abort_ok [OF ok]] by auto
  qed (use ok in \<open>simp add: closeConn_def\<close>)
qed

lemma close_unread: "0 \<le> bc_fd (bw_conn w) \<Longrightarrow> h1Unread (bw_conn (closeConn w)) = []"
  by (simp add: closeConn_def h1Unread_def Let_def)

lemma starved_ok:
  assumes "world_ok cpu w lg" and "abortStarvedBody w = (aborted, w')"
  shows "world_ok cpu w' lg \<and> h1Unread (bw_conn w') = h1Unread (bw_conn w)"
  using assms close_ok [OF assms(1)] close_unread [of w] by (auto simp: abortStarvedBody_def h1BodyStarved_def split: if_splits)

lemma take_ack_base:
  assumes ok: "world_ok cpu w lg" and posted: "bw_posted w = (a, g) # ps" and w1: "w1 = set_reader a (snd (takeAck (reader_at w a))) (w\<lparr>bw_posted := ps\<rparr>)"
  shows "world_base cpu w1 lg" "a < length (bw_ins w)" "(a, g) = br_onAck (reader_at w a)" "bw_conn w1 = bw_conn w" "b \<noteq> a \<Longrightarrow> awake cpu w1 b = awake cpu w b"
proof -
  have base: "world_base cpu w lg" using ok by (simp add: world_ok_def)
  have mem: "(a, g) \<in> set (bw_posting w @ bw_posted w)" using posted by simp
  then show a: "a < length (bw_ins w)" "(a, g) = br_onAck (reader_at w a)" using base unfolding world_base_def by fastforce+
  let ?r = "snd (takeAck (reader_at w a))"
  have r: "reader_ok ?r = reader_ok (reader_at w a)" "content ?r = content (reader_at w a)" "br_onAck ?r = br_onAck (reader_at w a)" "\<not> br_ackQueued ?r"
      "br_eof ?r = br_eof (reader_at w a)" "br_trailers ?r = br_trailers (reader_at w a)" "br_err ?r = br_err (reader_at w a)" "br_closed ?r = br_closed (reader_at w a)"
    by (simp_all add: takeAck_def reader_ok_def content_def)
  have at: "reader_at w1 b = (if b = a then ?r else reader_at w b)" "bw_ins w1 ! b = (if b = a then (bw_ins w ! a)\<lparr>in_reader := ?r\<rparr> else bw_ins w ! b)" "length (bw_ins w1) = length (bw_ins w)"
      "set (bw_posting w1 @ bw_posted w1) \<subseteq> set (bw_posting w @ bw_posted w)" for b
    using a(1) posted by (auto simp: reader_at_def w1 set_reader_def nth_list_update)
  show c: "bw_conn w1 = bw_conn w" by (simp add: w1 set_reader_def)
  have old: "in_ok cpu (bw_ins w ! b) (lg b)" "fst (br_onAck (reader_at w b)) = b" "pending w b = (if br_ackQueued (reader_at w b) then 1 else 0)" if "b < length (bw_ins w)" for b
    using base that by (simp_all add: world_base_def)
  have "pending w a = pending w1 a + 1" using posted by (simp add: pending_def w1 set_reader_def)
  then have p0: "pending w1 a = 0" using old(3) [OF a(1)] by (simp split: if_splits)
  have p1: "pending w1 b = pending w b" if "b \<noteq> a" for b using that posted by (simp add: pending_def w1 set_reader_def)
  have "in_ok cpu ((bw_ins w ! a)\<lparr>in_reader := ?r\<rparr>) ((lg a)\<lparr>bl_got := bl_got (lg a)\<rparr>)"
    by (rule in_ok_reader [OF old(1) [OF a(1)]]) (use r old(1) [OF a(1)] in \<open>auto simp: reader_at_def in_ok_def\<close>)
  then have "\<forall>b < length (bw_ins w). in_ok cpu (bw_ins w1 ! b) (lg b) \<and> fst (br_onAck (reader_at w1 b)) = b \<and> pending w1 b = (if br_ackQueued (reader_at w1 b) then 1 else 0)"
    using old r(3,4) p0 p1 unfolding at by simp
  moreover have "\<forall>p \<in> set (bw_posting w1 @ bw_posted w1). fst p < length (bw_ins w) \<and> p = br_onAck (reader_at w1 (fst p))"
    using base at(4) r(3) unfolding world_base_def at(1) by auto
  ultimately show "world_base cpu w1 lg" using base r(3) unfolding world_base_def at(1,3) c by auto
  show "awake cpu w1 b = awake cpu w b" if "b \<noteq> a" using that unfolding awake_def at c by simp
qed

lemma task_ok:
  assumes ok: "world_ok cpu w lg" and posted: "bw_posted w = (a, g) # ps" and run: "h1BodyAcked cpu m a g (w\<lparr>bw_posted := ps\<rparr>) = (call, w')"
  shows "world_ok cpu w' (if h1In (bw_conn w) = Some a then log_taken (h1Unread (bw_conn w)) w' a lg else lg)"
proof -
  define w1 where "w1 = set_reader a (snd (takeAck (reader_at w a))) (w\<lparr>bw_posted := ps\<rparr>)"
  note t = take_ack_base [OF ok posted w1_def]
  have acked: "h1BodyAcked cpu m a g (w\<lparr>bw_posted := ps\<rparr>) =
     (if bc_generation (bw_conn w1) \<noteq> g \<or> bc_fd (bw_conn w1) < 0 \<or> h1In (bw_conn w1) \<noteq> Some a then (AckedNone, w1)
      else let w = h1FeedBody cpu m w1; (aborted, w) = abortStarvedBody w in
        if aborted \<or> \<not> h1BodyWantsInput w then (AckedNone, w)
        else if readPending (bw_conn w) \<or> peerHup (bw_conn w) \<and> \<not> inputEOF (bw_conn w) then (AckedReadable, w) else (AckedServiceBuffered, w))"
    by (simp add: h1BodyAcked_def Let_def w1_def set_reader_def reader_at_def)
  show ?thesis
  proof (cases "h1In (bw_conn w) = Some a")
    case True
    have "bc_generation (bw_conn w) = g" "0 \<le> bc_fd (bw_conn w)" using ok True t(3) by (auto simp: world_ok_def world_base_def dest: arg_cong [of _ _ snd])
    then obtain aborted where ab: "abortStarvedBody (h1FeedBody cpu m w1) = (aborted, w')"
      using run True t(4) unfolding acked by (auto simp: Let_def split: prod.splits if_splits)
    have f: "world_ok cpu (h1FeedBody cpu m w1) (log_taken (h1Unread (bw_conn w)) (h1FeedBody cpu m w1) a lg)"
      using feed_ok [OF t(1) _ refl, of a m] True t(4) by simp
    show ?thesis using starved_ok [OF f ab] True by (simp add: log_taken_def)
  next
    case False
    then have "w' = w1" using run t(4) unfolding acked by simp
    then show ?thesis using t ok False by (auto simp: world_ok_def)
  qed
qed

lemma begin_ok:
  assumes ok: "world_ok cpu w lg" and h: "h1In (bw_conn w) = None" "0 \<le> bc_fd (bw_conn w)" and a: "a = length (bw_ins w)" and st: "startH1BodyStream cpu m out chunked n w = (out', w')"
  shows "world_ok cpu w' (log_taken (h1Unread (bw_conn w)) w' a (lg(a := \<lparr>bl_declared = (if chunked then None else Some n), bl_taken = [], bl_got = []\<rparr>)))"
proof -
  define inn where "inn = \<lparr>in_reader = newBodyReader (a, bc_generation (bw_conn w)), in_left = (if chunked then None else Some n),
    in_chunk = zeroChunked\<lparr>captureTrailers := True\<rparr>, in_done = False, in_broken = False\<rparr>"
  define w1 where "w1 = w\<lparr>bw_ins := bw_ins w @ [inn], bw_conn := (bw_conn w)\<lparr>h1In := Some a\<rparr>\<rparr>"
  let ?lg = "lg(a := \<lparr>bl_declared = (if chunked then None else Some n), bl_taken = [], bl_got = []\<rparr>)"
  have base: "world_base cpu w lg" using ok by (simp add: world_ok_def)
  have "decoded cpu inn (?lg a) []" using run_start [of cpu] by (auto simp: decoded_def inn_def chunked_done_def zeroChunked_def)
  moreover have f: "in_reader inn = newBodyReader (a, bc_generation (bw_conn w))" "\<not> in_done inn" "\<not> in_broken inn" "bl_got (?lg a) = []" by (simp_all add: inn_def)
  ultimately have new: "in_ok cpu inn (?lg a)" unfolding in_ok_def f(1,4) buffered_content using f(2,3) by (intro conjI exI [of _ "[]"]) (simp_all add: newBodyReader_def [THEN arg_cong [of _ _ br_eof]] split del: if_split)
  have p: "\<forall>p \<in> set (bw_posting w @ bw_posted w). fst p < a" using base a by (simp add: world_base_def)
  then have p0: "pending w1 a = 0" "pending w1 b = pending w b" for b by (auto simp: pending_def w1_def filter_empty_conv)
  have at: "reader_at w1 b = (if b = a then in_reader inn else reader_at w b)" "bw_ins w1 ! b = (if b = a then inn else bw_ins w ! b)" if "b \<le> a" for b
    using that a by (auto simp: reader_at_def w1_def nth_append)
  have one: "\<forall>b < length (bw_ins w1). in_ok cpu (bw_ins w1 ! b) (?lg b) \<and> fst (br_onAck (reader_at w1 b)) = b \<and> pending w1 b = (if br_ackQueued (reader_at w1 b) then 1 else 0)"
  proof (intro allI impI)
    fix b
    assume "b < length (bw_ins w1)"
    then have b: "b \<le> a" using a by (simp add: w1_def)
    show "in_ok cpu (bw_ins w1 ! b) (?lg b) \<and> fst (br_onAck (reader_at w1 b)) = b \<and> pending w1 b = (if br_ackQueued (reader_at w1 b) then 1 else 0)"
    proof (cases "b = a")
      case True
      then show ?thesis unfolding at [OF b] using new p0(1) by (simp add: inn_def) (simp add: newBodyReader_def)
    next
      case False
      then show ?thesis unfolding at [OF b] using base b a p0(2) by (simp add: world_base_def)
    qed
  qed
  have two: "\<forall>p \<in> set (bw_posting w1 @ bw_posted w1). fst p < length (bw_ins w1) \<and> p = br_onAck (reader_at w1 (fst p))"
  proof
    fix q
    assume "q \<in> set (bw_posting w1 @ bw_posted w1)"
    then have q: "q \<in> set (bw_posting w @ bw_posted w)" by (simp add: w1_def)
    then have "fst q < a" "q = br_onAck (reader_at w (fst q))" using p base unfolding world_base_def by blast+
    then show "fst q < length (bw_ins w1) \<and> q = br_onAck (reader_at w1 (fst q))" using at(1) [of "fst q"] a by (simp add: w1_def)
  qed
  have "snd (br_onAck (reader_at w1 a)) = bc_generation (bw_conn w)" using at(1) [of a] by (simp add: inn_def newBodyReader_def)
  then have "world_base cpu w1 ?lg" using one two base h(2) a by (simp add: world_base_def conn_ok_def) (simp add: w1_def)
  moreover have "h1FeedBody cpu m w1 = w'" using st a by (simp add: startH1BodyStream_def Let_def w1_def inn_def)
  moreover have "h1In (bw_conn w1) = Some a" "h1Unread (bw_conn w1) = h1Unread (bw_conn w)" by (simp_all add: w1_def h1Unread_def)
  ultimately show ?thesis using feed_ok [of cpu w1 ?lg a m w'] by simp
qed

lemma arrive_ok:
  assumes "world_ok cpu w lg" and "h1In (bw_conn w) = Some a" and "received (bw_conn w) bs c" and "h1FeedBody cpu m (w\<lparr>bw_conn := c\<rparr>) = w'"
  shows "world_ok cpu w' (log_taken (h1Unread c) w' a lg)"
proof -
  have "world_base cpu (w\<lparr>bw_conn := c\<rparr>) lg" using assms(1,3) by (auto simp: world_ok_def world_base_def received_def same_conn_def reader_at_def pending_def)
  then show ?thesis using feed_ok [OF _ _ assms(4), of lg a] assms(2,3) by (simp add: received_def same_conn_def)
qed

lemma read_ok:
  assumes ok: "world_ok cpu w lg" and a: "a < length (bw_ins w)" and r: "body_Read plen (reader_at w a) = (ans, notify, r)"
  shows "world_ok cpu (notifies notify r (set_reader a r w)) (lg(a := (lg a)\<lparr>bl_got := bl_got (lg a) @ answer_bytes ans\<rparr>))"
proof -
  have i: "in_ok cpu (bw_ins w ! a) (lg a)" using ok a by (simp add: world_ok_def world_base_def)
  then have "reader_ok (reader_at w a)" by (simp add: in_ok_def reader_at_def)
  note s = body_Read_spec [OF r this]
  have "in_ok cpu ((bw_ins w ! a)\<lparr>in_reader := r\<rparr>) ((lg a)\<lparr>bl_got := bl_got (lg a) @ answer_bytes ans\<rparr>)"
    by (rule in_ok_reader [OF i]) (use s in \<open>auto simp: reader_at_def\<close>)
  then show ?thesis by (intro set_reader_ok [OF ok a]) (use s in auto)
qed

lemma body_close_ok:
  assumes ok: "world_ok cpu w lg" and a: "a < length (bw_ins w)" and r: "body_Close (reader_at w a) = (notify, r)"
  shows "world_ok cpu (notifies notify r (set_reader a r w)) lg"
proof -
  have i: "in_ok cpu (bw_ins w ! a) (lg a)" using ok a by (simp add: world_ok_def world_base_def)
  then have "reader_ok (reader_at w a)" by (simp add: in_ok_def reader_at_def)
  note s = body_Close_spec [OF r this]
  have "in_ok cpu ((bw_ins w ! a)\<lparr>in_reader := r\<rparr>) ((lg a)\<lparr>bl_got := bl_got (lg a)\<rparr>)"
    by (rule in_ok_reader [OF i]) (use s in \<open>auto simp: reader_at_def\<close>)
  then show ?thesis by (intro set_reader_ok [OF ok a]) (use s in auto)
qed

lemma body_reach_ok: "body_reach cpu m w lg \<Longrightarrow> world_ok cpu w lg"
proof (induction rule: body_reach.induct)
  case (br_init c lg)
  then show ?case by (simp add: world_ok_def world_base_def)
next
  case (br_deadline w lg a now t)
  then have "reader_ok (reader_at w a)" by (simp add: world_ok_def world_base_def in_ok_def reader_at_def)
  then show ?case by (intro set_reader_same [OF br_deadline(3,2)]) (simp_all add: deadline_spec)
next
  case (br_fired w lg a now)
  then have "reader_ok (reader_at w a)" by (simp add: world_ok_def world_base_def in_ok_def reader_at_def)
  then show ?case by (intro set_reader_same [OF br_fired(3,2)]) (simp_all add: deadline_spec)
next
  case (br_read w lg a plen ans notify r)
  show ?case by (rule read_ok [OF br_read(4,2,3)])
next
  case (br_post w lg ps p qs)
  let ?w = "w\<lparr>bw_posting := ps @ qs, bw_posted := bw_posted w @ [p]\<rparr>"
  have "pending ?w a = pending w a" "set (bw_posting ?w @ bw_posted ?w) = set (bw_posting w @ bw_posted w)" for a using br_post(2) by (auto simp: pending_def)
  moreover have "bw_ins ?w = bw_ins w" "bw_conn ?w = bw_conn w" "reader_at ?w = reader_at w" by (simp_all add: reader_at_def fun_eq_iff)
  ultimately show ?case using br_post(3) unfolding world_ok_def world_base_def awake_def by simp
qed (simp_all add: detach_ok begin_ok arrive_ok read_ok body_close_ok task_ok end_ok close_ok)

text \<open>Nothing the connection has received can be delivered: the decoder waits for the peer.\<close>

definition needs_input :: "h1Vector \<Rightarrow> bodyWorld \<Rightarrow> nat \<Rightarrow> bool" where
  "needs_input cpu w a \<longleftrightarrow> h1Unread (bw_conn w) = []
     \<or> in_left (bw_ins w ! a) = None \<and> \<not> chunked_done (in_chunk (bw_ins w ! a))
       \<and> chunked_next cpu (in_chunk (bw_ins w ! a)) (h1Unread (bw_conn w)) = (in_chunk (bw_ins w ! a), Some (0, []))"

lemma waits_iff:
  "fst (body_Read plen b) = ReadWaits \<longleftrightarrow> plen > 0 \<and> br_off b = length (br_buf b) \<and> \<not> br_eof b \<and> br_err b = None \<and> \<not> br_closed b \<and> \<not> br_deadlineHit b"
  by (auto simp: body_Read_def Let_def split: prod.splits)

lemma waiting_wakes:
  assumes "world_ok cpu w lg" and "h1In (bw_conn w) = Some a" and "fst (body_Read plen (reader_at w a)) = ReadWaits"
  shows "needs_input cpu w a \<or> br_ackQueued (reader_at w a)"
proof -
  have a: "awake cpu w a" "in_ok cpu (bw_ins w ! a) (lg a)" using assms(1,2) by (auto simp: world_ok_def world_base_def)
  have "content (reader_at w a) = []" "\<not> in_done (bw_ins w ! a)" using assms(3) a(2) by (auto simp: waits_iff content_def in_ok_def reader_at_def)
  then show ?thesis using a(1) by (auto simp: awake_def idle_def needs_input_def)
qed

lemma acked_keeps_tasks:
  assumes "h1BodyAcked cpu m a g w = (call, w')"
  shows "bw_posting w' = bw_posting w \<and> bw_posted w' = bw_posted w"
proof -
  have f: "bw_posting (h1FeedBody cpu m v) = bw_posting v \<and> bw_posted (h1FeedBody cpu m v) = bw_posted v" for v
    by (auto simp: h1FeedBody_def split: option.splits prod.splits)
  have "bw_posting (closeConn v) = bw_posting v \<and> bw_posted (closeConn v) = bw_posted v" for v
    by (auto simp: closeConn_def h1AbortIn_def Let_def split: option.splits)
  then have "abortStarvedBody v = (x, v') \<Longrightarrow> bw_posting v' = bw_posting v \<and> bw_posted v' = bw_posted v" for v v' x
    by (auto simp: abortStarvedBody_def split: if_splits)
  from this [of "h1FeedBody cpu m _"] show ?thesis using assms f by (auto simp: h1BodyAcked_def Let_def split: if_splits prod.splits)
qed

definition sample_cpu :: h1Vector where
  "sample_cpu = \<lparr>hasAVX2 = False, firstH1SpecialAVX2 = \<lambda>_. None, h1HeaderLineAVX2 = \<lambda>_. (None, None)\<rparr>"

definition sample_conn :: bodyConn where
  "sample_conn = \<lparr>bc_tls = False, appBuf = [], appBufOff = 0, readBuf = [0x61, 0], h1Off = 0, readN = 1, h1In = None, bc_generation = 3, bc_fd = 7,
     inputEOF = False, peerHup = False, readPending = False, expectContinue = False, h1ContinueSent = False\<rparr>"

definition sample_started :: bodyWorld where
  "sample_started = snd (startH1BodyStream sample_cpu 0 [] False 2 \<lparr>bw_conn = sample_conn, bw_ins = [], bw_posting = [], bw_posted = []\<rparr>)"

lemma sample_started_eval:
  "sample_started = \<lparr>bw_conn = sample_conn\<lparr>readBuf := [0x61, 0], readN := 0, h1In := Some 0\<rparr>,
     bw_ins = [\<lparr>in_reader = (newBodyReader (0, 3))\<lparr>br_buf := [0x61], br_received := 1\<rparr>, in_left = Some 1,
       in_chunk = zeroChunked\<lparr>captureTrailers := True\<rparr>, in_done = False, in_broken = False\<rparr>],
     bw_posting = [], bw_posted = []\<rparr>"
proof -
  let ?c = "sample_conn\<lparr>h1In := Some 0\<rparr>"
  let ?inn = "\<lparr>in_reader = newBodyReader (0, 3), in_left = Some 2, in_chunk = zeroChunked\<lparr>captureTrailers := True\<rparr>, in_done = False, in_broken = False\<rparr>"
  let ?inn' = "?inn\<lparr>in_reader := (newBodyReader (0, 3))\<lparr>br_buf := [0x61], br_received := 1\<rparr>, in_left := Some 1\<rparr>"
  have u: "h1Unread ?c = [0x61]" "h1Unread (h1Advance 1 ?c) = []" by (simp_all add: h1Unread_def h1Advance_def sample_conn_def)
  have "feedLoop sample_cpu 0 ?inn ?c = feedLoop sample_cpu 0 ?inn' (h1Advance 1 ?c)"
    using u(1) by (subst feedLoop.simps) (simp add: Let_def buffered_def h1BodyStreamCap_def body_push_def newBodyReader_def min_def)
  moreover have "feedLoop sample_cpu 0 ?inn' (h1Advance 1 ?c) = (?inn', h1Advance 1 ?c)" using u(2) by (subst feedLoop.simps) simp
  moreover have "h1CompactUnread (h1Advance 1 ?c) = ?c\<lparr>readBuf := [0x61, 0], readN := 0\<rparr>"
    by (simp add: h1CompactUnread_def compactH1ReadBuffer_def h1Advance_def sample_conn_def Let_def)
  moreover have "bc_generation sample_conn = 3" "\<not> expectContinue sample_conn" by (simp_all add: sample_conn_def)
  ultimately show ?thesis by (simp add: sample_started_def startH1BodyStream_def h1FeedBody_def Let_def)
qed

lemma sample_reach:
  "\<exists>lg. body_reach sample_cpu 0 sample_started lg \<and> bl_declared (lg 0) = Some 2 \<and> bl_taken (lg 0) = [0x61] \<and> bl_got (lg 0) = []"
proof -
  let ?w = "\<lparr>bw_conn = sample_conn, bw_ins = [], bw_posting = [], bw_posted = []\<rparr>"
  let ?lg = "\<lambda>_. \<lparr>bl_declared = None, bl_taken = [], bl_got = []\<rparr>"
  have "body_reach sample_cpu 0 ?w ?lg" by (rule br_init) (simp_all add: sample_conn_def conn_ok_def)
  moreover have "startH1BodyStream sample_cpu 0 [] False 2 ?w = (fst (startH1BodyStream sample_cpu 0 [] False 2 ?w), sample_started)" by (simp add: sample_started_def)
  moreover have "h1In sample_conn = None" "0 \<le> bc_fd sample_conn" by (simp_all add: sample_conn_def)
  ultimately
  have "body_reach sample_cpu 0 sample_started (log_taken (h1Unread sample_conn) sample_started 0 (?lg(0 := \<lparr>bl_declared = Some 2, bl_taken = [], bl_got = []\<rparr>)))"
    using br_begin [of sample_cpu 0 ?w ?lg 0 "[]" False 2 _ sample_started] by simp
  moreover have "h1Unread sample_conn = [0x61]" "h1Unread (bw_conn sample_started) = []" by (simp_all add: sample_started_eval h1Unread_def sample_conn_def)
  ultimately show ?thesis by (fastforce simp: log_taken_def)
qed



text \<open>
  C6: what the handler of a streamed body is given.  At every moment the reader holds at most its
  256 KiB, and what \<open>Read\<close> has returned so far followed by what it holds is the data of the bytes taken
  from the connection, in order: these bytes themselves where the request declared a length, of which
  no more than the length are taken, and the data of the chunks otherwise.  The reader reports the end
  of the body only after all of it: the declared length, or a complete chunked body of the grammar
  together with its trailer fields.
\<close>

theorem body_delivery:
  assumes "body_reach cpu m w lg" and "a < length (bw_ins w)" and "\<not> br_closed (reader_at w a)"
  shows "buffered (reader_at w a) \<le> h1BodyStreamCap \<and>
    (let given = bl_got (lg a) @ content (reader_at w a); taken = bl_taken (lg a) in
     case bl_declared (lg a) of
       Some n \<Rightarrow> given = taken \<and> length taken \<le> n \<and> (br_eof (reader_at w a) \<longrightarrow> length taken = n)
     | None \<Rightarrow> (\<exists>d. chunk_run cpu taken given d) \<and> (br_eof (reader_at w a) \<longrightarrow> chunked_body cpu taken given (br_trailers (reader_at w a))))"
proof -
  have ok: "in_ok cpu (bw_ins w ! a) (lg a)" using body_reach_ok [OF assms(1)] assms(2) by (simp add: world_ok_def world_base_def)
  then show ?thesis using assms(3) by (auto simp: in_ok_def decoded_def reader_at_def Let_def chunk_run_done split: option.splits)
qed

theorem body_delivery_witness:
  "\<exists>w lg. body_reach sample_cpu 0 w lg \<and> 0 < length (bw_ins w) \<and> \<not> br_closed (reader_at w 0) \<and> content (reader_at w 0) = [0x61]
     \<and> bl_got (lg 0) @ content (reader_at w 0) = bl_taken (lg 0) \<and> length (bl_taken (lg 0)) \<le> 2"
proof -
  obtain lg where reach: "body_reach sample_cpu 0 sample_started lg" "bl_declared (lg 0) = Some 2" using sample_reach by blast
  have "0 < length (bw_ins sample_started)" "\<not> br_closed (reader_at sample_started 0)" "content (reader_at sample_started 0) = [0x61]"
    by (simp_all add: sample_started_eval reader_at_def newBodyReader_def content_def)
  then show ?thesis using body_delivery [OF reach(1), of 0] reach by (intro exI [of _ sample_started] exI [of _ lg]) (simp add: Let_def)
qed

end
