(* ===== verification/H1_Head.thy ===== *)
theory H1_Head
  imports H1_Chunked Path_Utils
begin

text \<open>
  The head of an HTTP/1 request: \<open>parseH1RequestHead\<close> of \<open>core/h1_plain.go\<close> with the reject reasons of
  \<open>core/h1_reject.go\<close>, and the lookup of request header fields through the cache the parser fills
  (\<open>Header\<close>, \<open>core/request.go\<close>).  Positions are indices into the buffer, as in the code.
\<close>

section \<open>Model\<close>

datatype h1RejectReason =
  H1RejectNone | H1RejectRequestLine | H1RejectName | H1RejectCTL | H1RejectFold | H1RejectNoColon | H1RejectHost | H1RejectTransferEncoding

datatype h1Expect = H1ExpectNone | H1ExpectContinue | H1ExpectUnknown

definition asciiEqualFoldBytes :: "byte list \<Rightarrow> gostring \<Rightarrow> bool" where
  "asciiEqualFoldBytes line v = (if length line \<noteq> length v then False else list_all2 (\<lambda>a b. asciiLower a = asciiLower b) line v)"

definition classifyExpect :: "h1Expect \<Rightarrow> byte list \<Rightarrow> h1Expect" where
  "classifyExpect prev v =
     (if prev = H1ExpectUnknown \<or> length v = 0 then prev
      else if asciiEqualFoldBytes v (str ''100-continue'') then H1ExpectContinue
      else H1ExpectUnknown)"

definition h1HeaderLineReject :: "byte list \<Rightarrow> h1RejectReason" where
  "h1HeaderLineReject line =
     (if line ! 0 = b8 CHR '' '' \<or> line ! 0 = b8 CHR 0x09 then H1RejectFold
      else if indexByte line (b8 CHR '':'') = None \<or> indexByte line (b8 CHR '':'') = Some 0 then H1RejectNoColon
      else H1RejectName)"

definition splitAbsoluteForm :: "gostring \<Rightarrow> (gostring \<times> gostring) option" where
  "splitAbsoluteForm target =
     (let schemeLen =
        (if length target \<ge> 7 \<and> EqualFoldASCII (take 7 target) (str ''http://'') then Some 7
         else if length target \<ge> 8 \<and> EqualFoldASCII (take 8 target) (str ''https://'') then Some 8
         else None)
      in case schemeLen of
           None \<Rightarrow> None
         | Some n \<Rightarrow>
             let after = drop n target;
                 authority = takeWhile (\<lambda>c. \<not> (c = b8 CHR ''/'' \<or> c = b8 CHR ''?'')) after;
                 rest = drop (length authority) after;
                 rest = (if rest = [] \<or> hd rest = b8 CHR ''?'' then b8 CHR ''/'' # rest else rest)
             in Some (authority, rest))"

function containsTokenFold :: "gostring \<Rightarrow> gostring \<Rightarrow> bool" where
  "containsTokenFold header token =
     (if header = [] then False
      else
        let (part, header') = (case indexByte header (b8 CHR '','') of Some i \<Rightarrow> (take i header, drop (i + 1) header) | None \<Rightarrow> (header, []))
        in if EqualFoldASCII (trimOWS part) token then True else containsTokenFold header' token)"
  by pat_completeness auto
termination by (relation "measure (\<lambda>(header, token). length header)") (auto split: option.splits)

declare containsTokenFold.simps [simp del]

definition connectionOptionList :: "gostring \<Rightarrow> bool \<times> bool" where
  "connectionOptionList options = (containsTokenFold options (str ''close''), containsTokenFold options (str ''keep-alive''))"

definition connectionOptions :: "byte list \<Rightarrow> bool \<times> bool" where
  "connectionOptions v =
     (if asciiEqualFoldBytes v (str ''keep-alive'') then (False, True)
      else if asciiEqualFoldBytes v (str ''close'') then (True, False)
      else connectionOptionList v)"

definition validH1Version :: "byte list \<Rightarrow> bool" where
  "validH1Version v \<longleftrightarrow> length v = 8 \<and> v ! 0 = b8 CHR ''H'' \<and> v ! 1 = b8 CHR ''T'' \<and> v ! 2 = b8 CHR ''T'' \<and> v ! 3 = b8 CHR ''P''
     \<and> v ! 4 = b8 CHR ''/'' \<and> v ! 5 = b8 CHR ''1'' \<and> v ! 6 = b8 CHR ''.'' \<and> (v ! 7 = b8 CHR ''0'' \<or> v ! 7 = b8 CHR ''1'')"

subsection \<open>The request and its header cache\<close>

definition headerCacheContentLength :: "32 word" where "headerCacheContentLength = 1"
definition headerCacheConnection :: "32 word" where "headerCacheConnection = 2"
definition headerCacheTransferEncoding :: "32 word" where "headerCacheTransferEncoding = 4"
definition headerCacheHost :: "32 word" where "headerCacheHost = 8"
definition headerCacheAcceptEncoding :: "32 word" where "headerCacheAcceptEncoding = 16"
definition headerCacheOrigin :: "32 word" where "headerCacheOrigin = 32"
definition headerCacheXForwardedFor :: "32 word" where "headerCacheXForwardedFor = 64"
definition headerCacheXRealIP :: "32 word" where "headerCacheXRealIP = 128"
definition headerCacheAuthorization :: "32 word" where "headerCacheAuthorization = 256"
definition headerCacheUpgrade :: "32 word" where "headerCacheUpgrade = 512"
definition headerCacheWSKey :: "32 word" where "headerCacheWSKey = 1024"
definition headerCacheWSVersion :: "32 word" where "headerCacheWSVersion = 2048"

text \<open>The fields of \<open>Request\<close> the parser writes; the twelve cached values in the order of their bits.\<close>

record h1Request =
  rq_Proto :: gostring
  rq_Method :: gostring
  rq_Path :: gostring
  rq_Query :: gostring
  rq_RawPath :: gostring
  rq_Host :: gostring
  rq_Headers :: "(gostring \<times> gostring) list"
  rq_expect :: h1Expect
  rq_aliasesReadBuf :: bool
  cachedCL :: gostring
  cachedConn :: gostring
  cachedTE :: gostring
  cachedHost :: gostring
  cachedAE :: gostring
  cachedOrigin :: gostring
  cachedXFF :: gostring
  cachedXRI :: gostring
  cachedAuth :: gostring
  cachedUpgrade :: gostring
  cachedWSKey :: gostring
  cachedWSVer :: gostring
  headerCacheMask :: "32 word"

definition cacheBit :: "32 word \<Rightarrow> h1Request \<Rightarrow> h1Request" where
  "cacheBit b r = r\<lparr>headerCacheMask := headerCacheMask r OR b\<rparr>"

text \<open>The state of the loop over the header lines.\<close>

record headState =
  hs_req :: h1Request
  hs_contentLength :: int
  hs_hasContentLength :: bool
  hs_close :: bool
  hs_chunked :: bool
  hs_badTE :: bool
  hs_keepAlive :: bool
  hs_hostCount :: nat

definition headStart :: "h1Request \<Rightarrow> headState" where
  "headStart req = \<lparr>hs_req = req, hs_contentLength = 0, hs_hasContentLength = False, hs_close = False, hs_chunked = False, hs_badTE = False, hs_keepAlive = False, hs_hostCount = 0\<rparr>"

text \<open>One field: the \<open>switch\<close> on the length of its name.  \<open>None\<close> rejects the host.\<close>

definition headField :: "gostring \<Rightarrow> gostring \<Rightarrow> bool \<Rightarrow> headState \<Rightarrow> headState option" where
  "headField name v hostSafe s =
     (let r = hs_req s; first = name ! 0 in
      if length name = 4 then
        (if (first = b8 CHR ''H'' \<or> first = b8 CHR ''h'') \<and> EqualFoldASCII name (str ''Host'') then
           if \<not> hostSafe \<and> \<not> ValidateHost v then None
           else Some (s\<lparr>hs_hostCount := hs_hostCount s + 1, hs_req := cacheBit headerCacheHost (r\<lparr>rq_Host := v, cachedHost := v\<rparr>)\<rparr>)
         else Some s)
      else if length name = 6 then
        (if (first = b8 CHR ''O'' \<or> first = b8 CHR ''o'') \<and> EqualFoldASCII name (str ''Origin'') then
           Some (s\<lparr>hs_req := cacheBit headerCacheOrigin (r\<lparr>cachedOrigin := v\<rparr>)\<rparr>)
         else if (first = b8 CHR ''E'' \<or> first = b8 CHR ''e'') \<and> EqualFoldASCII name (str ''Expect'') then
           Some (s\<lparr>hs_req := r\<lparr>rq_expect := classifyExpect (rq_expect r) v\<rparr>\<rparr>)
         else Some s)
      else if length name = 7 then
        (if (first = b8 CHR ''U'' \<or> first = b8 CHR ''u'') \<and> EqualFoldASCII name (str ''Upgrade'') then
           Some (s\<lparr>hs_req := cacheBit headerCacheUpgrade (r\<lparr>cachedUpgrade := v\<rparr>)\<rparr>)
         else Some s)
      else if length name = 9 then
        (if (first = b8 CHR ''X'' \<or> first = b8 CHR ''x'') \<and> EqualFoldASCII name (str ''X-Real-IP'') then
           Some (s\<lparr>hs_req := cacheBit headerCacheXRealIP (r\<lparr>cachedXRI := v\<rparr>)\<rparr>)
         else Some s)
      else if length name = 10 then
        (if (first = b8 CHR ''C'' \<or> first = b8 CHR ''c'') \<and> EqualFoldASCII name (str ''Connection'') then
           let (closeRequested, keepAliveListed) = connectionOptions v
           in Some (s\<lparr>hs_req := cacheBit headerCacheConnection (r\<lparr>cachedConn := v\<rparr>), hs_close := hs_close s \<or> closeRequested,
                hs_keepAlive := hs_keepAlive s \<or> keepAliveListed\<rparr>)
         else Some s)
      else if length name = 13 then
        (if (first = b8 CHR ''A'' \<or> first = b8 CHR ''a'') \<and> EqualFoldASCII name (str ''Authorization'') then
           Some (s\<lparr>hs_req := cacheBit headerCacheAuthorization (r\<lparr>cachedAuth := v\<rparr>)\<rparr>)
         else Some s)
      else if length name = 14 then
        (if (first = b8 CHR ''C'' \<or> first = b8 CHR ''c'') \<and> EqualFoldASCII name (str ''Content-Length'') then
           let s = s\<lparr>hs_req := cacheBit headerCacheContentLength (r\<lparr>cachedCL := v\<rparr>)\<rparr>;
               (parsedCL, parsedOK) = parseUint v
           in if hs_hasContentLength s then
                Some (if \<not> parsedOK \<or> hs_contentLength s < 0 \<or> parsedCL \<noteq> hs_contentLength s then s\<lparr>hs_contentLength := -1\<rparr> else s)
              else Some (s\<lparr>hs_hasContentLength := True, hs_contentLength := if parsedOK then parsedCL else -1\<rparr>)
         else Some s)
      else if length name = 15 then
        (if (first = b8 CHR ''A'' \<or> first = b8 CHR ''a'') \<and> EqualFoldASCII name (str ''Accept-Encoding'') then
           Some (s\<lparr>hs_req := cacheBit headerCacheAcceptEncoding (r\<lparr>cachedAE := v\<rparr>)\<rparr>)
         else if (first = b8 CHR ''X'' \<or> first = b8 CHR ''x'') \<and> EqualFoldASCII name (str ''X-Forwarded-For'') then
           Some (s\<lparr>hs_req := cacheBit headerCacheXForwardedFor (r\<lparr>cachedXFF := v\<rparr>)\<rparr>)
         else Some s)
      else if length name = 17 then
        (if (first = b8 CHR ''T'' \<or> first = b8 CHR ''t'') \<and> EqualFoldASCII name (str ''Transfer-Encoding'') then
           let s = s\<lparr>hs_req := cacheBit headerCacheTransferEncoding (r\<lparr>cachedTE := v\<rparr>)\<rparr>
           in Some (if EqualFoldASCII v (str ''chunked'') then s\<lparr>hs_chunked := True\<rparr> else s\<lparr>hs_badTE := True\<rparr>)
         else if (first = b8 CHR ''S'' \<or> first = b8 CHR ''s'') \<and> EqualFoldASCII name (str ''Sec-WebSocket-Key'') then
           Some (s\<lparr>hs_req := cacheBit headerCacheWSKey (r\<lparr>cachedWSKey := v\<rparr>)\<rparr>)
         else Some s)
      else if length name = 21 then
        (if (first = b8 CHR ''S'' \<or> first = b8 CHR ''s'') \<and> EqualFoldASCII name (str ''Sec-WebSocket-Version'') then
           Some (s\<lparr>hs_req := cacheBit headerCacheWSVersion (r\<lparr>cachedWSVer := v\<rparr>)\<rparr>)
         else Some s)
      else Some s)"

text \<open>The results of the parser, in the order of the source.\<close>

record h1Head =
  hd_end :: nat
  hd_contentLength :: int
  hd_hasContentLength :: bool
  hd_close :: bool
  hd_reject :: h1RejectReason
  hd_chunked :: bool
  hd_tooLarge :: bool
  hd_ok :: bool

definition headResult :: "h1RejectReason \<Rightarrow> bool \<Rightarrow> bool \<Rightarrow> h1Head" where
  "headResult reject tooLarge ok =
     \<lparr>hd_end = 0, hd_contentLength = 0, hd_hasContentLength = False, hd_close = False, hd_reject = reject, hd_chunked = False, hd_tooLarge = tooLarge, hd_ok = ok\<rparr>"

text \<open>The empty line: the checks on the whole head and its result.\<close>

definition headComplete :: "bool \<Rightarrow> gostring option \<Rightarrow> nat \<Rightarrow> headState \<Rightarrow> h1Head \<times> h1Request" where
  "headComplete http10 absoluteHost nl s =
     (let r = hs_req s in
      if hs_badTE s \<or> hs_chunked s \<and> (hs_hasContentLength s \<or> http10) then (headResult H1RejectTransferEncoding False True, r)
      else if hs_hostCount s > 1 \<or> hs_hostCount s = 0 \<and> \<not> http10 then (headResult H1RejectHost False True, r)
      else
        let r = (if http10 then r\<lparr>rq_expect := H1ExpectNone\<rparr> else r);
            r = (case absoluteHost of Some h \<Rightarrow> cacheBit headerCacheHost (r\<lparr>rq_Host := h, cachedHost := h\<rparr>) | None \<Rightarrow> r);
            closeConn = (if http10 \<and> \<not> hs_keepAlive s then True else hs_close s);
            r = r\<lparr>rq_aliasesReadBuf := True\<rparr>
        in (\<lparr>hd_end = nl + 2, hd_contentLength = hs_contentLength s, hd_hasContentLength = hs_hasContentLength s, hd_close = closeConn,
             hd_reject = H1RejectNone, hd_chunked = hs_chunked s, hd_tooLarge = False, hd_ok = True\<rparr>, r))"

text \<open>The scan of the line at the start of \<open>remaining\<close>: its end or a bad byte, the end of the name, the flag.\<close>

definition headLine :: "h1Vector \<Rightarrow> byte list \<Rightarrow> (nat option \<times> bool) \<times> nat option \<times> bool" where
  "headLine cpu remaining =
     (let (special, nameEnd, hostSafe) =
        (if length remaining < h1ScalarScanMax then h1HeaderLineScalar remaining
         else (let (special, nameEnd) = h1HeaderLineSpecials cpu remaining in (special, nameEnd, False)))
      in (classifyFirstSpecial remaining special, nameEnd, hostSafe))"

function parseFields :: "h1Vector \<Rightarrow> byte list \<Rightarrow> nat \<Rightarrow> nat \<Rightarrow> bool \<Rightarrow> gostring option \<Rightarrow> headState \<Rightarrow> nat \<Rightarrow> h1Head \<times> h1Request" where
  "parseFields cpu data maxBytes maxCount http10 absoluteHost s pos =
     (if pos \<ge> length data then (headResult H1RejectNone False False, hs_req s)
      else if pos > maxBytes then (headResult H1RejectNone True False, hs_req s)
      else
        case headLine cpu (drop pos data) of
          ((lineEnd, bad), nameEnd, hostSafe) \<Rightarrow>
            if bad then (headResult H1RejectCTL False True, hs_req s)
            else
              case lineEnd of
                None \<Rightarrow> (headResult H1RejectNone (length data > maxBytes) False, hs_req s)
              | Some lineEndOff \<Rightarrow>
                  let nl = pos + lineEndOff in
                  if nl = pos then headComplete http10 absoluteHost nl s
                  else
                    let line = take lineEndOff (drop pos data) in
                    if \<not> validH1Colon line nameEnd then (headResult (h1HeaderLineReject line) False True, hs_req s)
                    else
                      let colon = the nameEnd;
                          name = take colon line;
                          v = trimOWS (drop (colon + 1) line);
                          s = s\<lparr>hs_req := (hs_req s)\<lparr>rq_Headers := rq_Headers (hs_req s) @ [(name, v)]\<rparr>\<rparr>
                      in if length (rq_Headers (hs_req s)) > maxCount then
                           (\<lparr>hd_end = nl + 2, hd_contentLength = hs_contentLength s, hd_hasContentLength = hs_hasContentLength s, hd_close = hs_close s,
                             hd_reject = H1RejectNone, hd_chunked = hs_chunked s, hd_tooLarge = True, hd_ok = False\<rparr>, hs_req s)
                         else
                           case headField name v hostSafe s of
                             None \<Rightarrow> (headResult H1RejectHost False True, hs_req s)
                           | Some s \<Rightarrow> parseFields cpu data maxBytes maxCount http10 absoluteHost s (nl + 2))"
  by pat_completeness auto
termination by (relation "measure (\<lambda>(cpu, data, maxBytes, maxCount, http10, absoluteHost, s, pos). length data - pos)") auto

declare parseFields.simps [simp del]

definition defaultMaxHeaderCount :: nat where "defaultMaxHeaderCount = 128"

text \<open>What the request line gives: its version, the host of an absolute target, and the request with them.\<close>

definition parseRequestLine :: "byte list \<Rightarrow> h1Request \<Rightarrow> (h1RejectReason \<times> h1Request) + (bool \<times> gostring option \<times> h1Request)" where
  "parseRequestLine rl req =
     (case indexByte rl (b8 CHR '' '') of
        None \<Rightarrow> Inl (H1RejectRequestLine, req)
      | Some sp1 \<Rightarrow>
          (case indexByte (drop (sp1 + 1) rl) (b8 CHR '' '') of
             None \<Rightarrow> Inl (H1RejectRequestLine, req)
           | Some off \<Rightarrow>
               if off = 0 then Inl (H1RejectRequestLine, req)
               else
                 let sp2 = off + sp1 + 1 in
                 if \<not> validH1Version (drop (sp2 + 1) rl) then Inl (H1RejectRequestLine, req)
                 else
                   let http10 = (rl ! (sp2 + 8) = b8 CHR ''0'');
                       req = req\<lparr>rq_Proto := if http10 then str ''HTTP/1.0'' else str ''HTTP/1.1''\<rparr>;
                       methodBytes = take sp1 rl
                   in if \<not> isH1Token methodBytes then Inl (H1RejectRequestLine, req)
                      else
                        let req = req\<lparr>rq_Method := methodBytes\<rparr>;
                            rawURI = take (sp2 - (sp1 + 1)) (drop (sp1 + 1) rl);
                            absolute = (if length rawURI > 0 \<and> rawURI ! 0 \<noteq> b8 CHR ''/'' then splitAbsoluteForm rawURI else None)
                        in if (case absolute of Some (h, t) \<Rightarrow> h = [] \<or> \<not> ValidateHost h | None \<Rightarrow> False) then Inl (H1RejectHost, req)
                           else
                             let rawURI = (case absolute of Some (h, t) \<Rightarrow> t | None \<Rightarrow> rawURI);
                                 (pathPart, query) = splitPathQuery rawURI
                             in Inr (http10, map_option fst absolute, req\<lparr>rq_Path := sanitizeSplitPath pathPart, rq_Query := query, rq_RawPath := rawURI\<rparr>)))"

definition parseH1RequestHead :: "h1Vector \<Rightarrow> byte list \<Rightarrow> h1Request \<Rightarrow> int \<Rightarrow> int \<Rightarrow> h1Head \<times> h1Request" where
  "parseH1RequestHead cpu data req maxHeaderBytes maxHeaderCount =
     (let maxBytes = (if maxHeaderBytes \<le> 0 then 8192 else nat maxHeaderBytes);
          maxCount = (if maxHeaderCount \<le> 0 then defaultMaxHeaderCount else nat maxHeaderCount);
          (idx, bad) = classifyFirstSpecial data (firstH1Special cpu data)
      in if bad then (headResult H1RejectRequestLine False True, req)
         else
           case idx of
             None \<Rightarrow> (headResult H1RejectNone (length data > maxBytes) False, req)
           | Some idx \<Rightarrow>
               (case parseRequestLine (take idx data) req of
                  Inl (reject, req) \<Rightarrow> (headResult reject False True, req)
                | Inr (http10, absoluteHost, req) \<Rightarrow>
                    parseFields cpu data maxBytes maxCount http10 absoluteHost (headStart req) (idx + 2)))"

text \<open>The exported form reports a rejection only as a flag.\<close>

definition ParseH1RequestHead :: "h1Vector \<Rightarrow> byte list \<Rightarrow> h1Request \<Rightarrow> int \<Rightarrow> int \<Rightarrow> (nat \<times> int \<times> bool \<times> bool \<times> bool \<times> bool \<times> bool \<times> bool) \<times> h1Request" where
  "ParseH1RequestHead cpu data req maxHeaderBytes maxHeaderCount =
     (let (h, r) = parseH1RequestHead cpu data req maxHeaderBytes maxHeaderCount
      in ((hd_end h, hd_contentLength h, hd_hasContentLength h, hd_close h, hd_reject h \<noteq> H1RejectNone, hd_chunked h, hd_tooLarge h, hd_ok h), r))"

subsection \<open>Reading a header field\<close>

fun findHeaderLoop :: "(gostring \<times> gostring) list \<Rightarrow> gostring \<Rightarrow> gostring \<times> bool" where
  "findHeaderLoop [] name = ([], False)"
| "findHeaderLoop (h # hs) name = (if length (fst h) = length name \<and> EqualFoldASCII (fst h) name then (snd h, True) else findHeaderLoop hs name)"

definition findHeader :: "h1Request \<Rightarrow> gostring \<Rightarrow> gostring \<times> bool" where
  "findHeader r name = findHeaderLoop (rq_Headers r) name"

definition cacheHeaderLookup :: "32 word \<Rightarrow> (h1Request \<Rightarrow> gostring) \<Rightarrow> ((gostring \<Rightarrow> gostring) \<Rightarrow> h1Request \<Rightarrow> h1Request) \<Rightarrow> gostring \<Rightarrow> h1Request \<Rightarrow> gostring \<times> h1Request" where
  "cacheHeaderLookup b slot upd name r =
     (if headerCacheMask r AND b \<noteq> 0 then (slot r, r)
      else
        let v = fst (findHeader r name) in (v, cacheBit b (upd (\<lambda>_. v) r)))"

definition Header :: "gostring \<Rightarrow> h1Request \<Rightarrow> gostring \<times> h1Request" where
  "Header name r =
     (if length name = 4 \<and> EqualFoldASCII name (str ''Host'') then cacheHeaderLookup headerCacheHost cachedHost cachedHost_update (str ''Host'') r
      else if length name = 6 \<and> EqualFoldASCII name (str ''Origin'') then cacheHeaderLookup headerCacheOrigin cachedOrigin cachedOrigin_update (str ''Origin'') r
      else if length name = 7 \<and> EqualFoldASCII name (str ''Upgrade'') then cacheHeaderLookup headerCacheUpgrade cachedUpgrade cachedUpgrade_update (str ''Upgrade'') r
      else if length name = 9 \<and> EqualFoldASCII name (str ''X-Real-IP'') then cacheHeaderLookup headerCacheXRealIP cachedXRI cachedXRI_update (str ''X-Real-IP'') r
      else if length name = 10 \<and> EqualFoldASCII name (str ''Connection'') then cacheHeaderLookup headerCacheConnection cachedConn cachedConn_update (str ''Connection'') r
      else if length name = 13 \<and> EqualFoldASCII name (str ''Authorization'') then cacheHeaderLookup headerCacheAuthorization cachedAuth cachedAuth_update (str ''Authorization'') r
      else if length name = 14 \<and> EqualFoldASCII name (str ''Content-Length'') then cacheHeaderLookup headerCacheContentLength cachedCL cachedCL_update (str ''Content-Length'') r
      else if length name = 15 \<and> EqualFoldASCII name (str ''Accept-Encoding'') then cacheHeaderLookup headerCacheAcceptEncoding cachedAE cachedAE_update (str ''Accept-Encoding'') r
      else if length name = 15 \<and> EqualFoldASCII name (str ''X-Forwarded-For'') then cacheHeaderLookup headerCacheXForwardedFor cachedXFF cachedXFF_update (str ''X-Forwarded-For'') r
      else if length name = 17 \<and> EqualFoldASCII name (str ''Transfer-Encoding'') then cacheHeaderLookup headerCacheTransferEncoding cachedTE cachedTE_update (str ''Transfer-Encoding'') r
      else if length name = 17 \<and> EqualFoldASCII name (str ''Sec-WebSocket-Key'') then cacheHeaderLookup headerCacheWSKey cachedWSKey cachedWSKey_update (str ''Sec-WebSocket-Key'') r
      else if length name = 21 \<and> EqualFoldASCII name (str ''Sec-WebSocket-Version'') then cacheHeaderLookup headerCacheWSVersion cachedWSVer cachedWSVer_update (str ''Sec-WebSocket-Version'') r
      else (fst (findHeader r name), r))"

section \<open>Lines\<close>

definition clean :: "byte list \<Rightarrow> bool" where
  "clean l \<longleftrightarrow> list_all (\<lambda>c. \<not> isH1Special c) l"

lemma tail_None: "firstSpecialTail p i = None \<longleftrightarrow> clean p"
  by (induction p arbitrary: i) (auto simp: clean_def)

lemma tail_Some: "firstSpecialTail p i = Some j \<longleftrightarrow> (\<exists>u c v. p = u @ c # v \<and> clean u \<and> isH1Special c \<and> j = i + length u)"
proof (induction p arbitrary: i)
  case (Cons x p)
  show ?case
  proof (cases "isH1Special x")
    case True
    then show ?thesis by (fastforce simp: clean_def Cons_eq_append_conv)
  next
    case False
    then have "firstSpecialTail (x # p) i = Some j \<longleftrightarrow> (\<exists>u c v. p = u @ c # v \<and> clean u \<and> isH1Special c \<and> j = i + 1 + length u)"
      using Cons.IH [of "i + 1"] by simp
    also have "\<dots> \<longleftrightarrow> (\<exists>u c v. x # p = u @ c # v \<and> clean u \<and> isH1Special c \<and> j = i + length u)"
    proof (intro iffI)
      assume "\<exists>u c v. p = u @ c # v \<and> clean u \<and> isH1Special c \<and> j = i + 1 + length u"
      then obtain u c v where "p = u @ c # v" "clean u" "isH1Special c" "j = i + 1 + length u" by blast
      then show "\<exists>u c v. x # p = u @ c # v \<and> clean u \<and> isH1Special c \<and> j = i + length u" using False by (intro exI [of _ "x # u"]) (auto simp: clean_def)
    next
      assume "\<exists>u c v. x # p = u @ c # v \<and> clean u \<and> isH1Special c \<and> j = i + length u"
      then obtain u c v where "x # p = u @ c # v" "clean u" "isH1Special c" "j = i + length u" by blast
      then show "\<exists>u c v. p = u @ c # v \<and> clean u \<and> isH1Special c \<and> j = i + 1 + length u" using False by (cases u) (auto simp: clean_def)
    qed
    finally show ?thesis .
  qed
qed simp

text \<open>The first special byte of a buffer decides: the end of a line, a bad byte, or nothing yet.\<close>

definition scanLine :: "byte list \<Rightarrow> nat option \<times> bool" where
  "scanLine p = classifyFirstSpecial p (firstSpecialTail p 0)"

lemma scanLine_end: "scanLine p = (Some e, False) \<longleftrightarrow> (\<exists>l rest. p = l @ 0x0d # 0x0a # rest \<and> clean l \<and> length l = e)"
proof (cases "firstSpecialTail p 0")
  case None
  then have "clean p" by (simp add: tail_None)
  then show ?thesis using None by (auto simp: scanLine_def classifyFirstSpecial_def clean_def isH1Special_def)
next
  case (Some j)
  then obtain u c v where p: "p = u @ c # v" "clean u" "isH1Special c" "j = length u" by (auto simp: tail_Some)
  have u: "l = u" if "p = l @ 0x0d # 0x0a # rest" "clean l" for l rest
  proof -
    have "firstSpecialTail p 0 = Some (length l)" using that by (auto simp: tail_Some isH1Special_def intro!: exI [of _ l])
    then show ?thesis using Some p that(1) by (metis append_eq_append_conv option.inject)
  qed
  have f: "scanLine p = (if c = 0x0d \<and> v = [] then (None, False) else if c = 0x0d \<and> hd v = 0x0a then (Some j, False) else (Some j, True))"
    using Some p by (cases v) (auto simp: scanLine_def classifyFirstSpecial_def classifyH1Special_def nth_append)
  show ?thesis
  proof
    assume "scanLine p = (Some e, False)"
    then have "c = 0x0d" "v = 0x0a # tl v" "e = j" using f by (cases v; auto split: if_splits)+
    then show "\<exists>l rest. p = l @ 0x0d # 0x0a # rest \<and> clean l \<and> length l = e" using p by blast
  next
    assume "\<exists>l rest. p = l @ 0x0d # 0x0a # rest \<and> clean l \<and> length l = e"
    then obtain l rest where l: "p = l @ 0x0d # 0x0a # rest" "clean l" "length l = e" by blast
    then have "l = u" using u by blast
    then have "c = 0x0d" "v = 0x0a # rest" "e = j" using l p by simp_all
    then show "scanLine p = (Some e, False)" using f by simp
  qed
qed

lemma scanLine_append:
  assumes "scanLine p = (r, b)" and "r \<noteq> None"
  shows "scanLine (p @ q) = (r, b)"
proof -
  obtain j where j: "firstSpecialTail p 0 = Some j" using assms by (cases "firstSpecialTail p 0") (auto simp: scanLine_def classifyFirstSpecial_def)
  then have "firstSpecialTail (p @ q) 0 = Some j" by (simp add: firstSpecialTail_append)
  moreover have "j < length p" using j by (auto simp: tail_Some)
  ultimately show ?thesis using assms j by (auto simp: scanLine_def classifyFirstSpecial_def classifyH1Special_def nth_append split: if_splits)
qed

lemma scanLine_bad: "scanLine p = (r, True) \<Longrightarrow> r \<noteq> None"
  by (cases "firstSpecialTail p 0"; cases r) (simp_all add: scanLine_def classifyFirstSpecial_def classifyH1Special_def split: if_splits)

lemma token_clean: "list_all h1TokenChar u \<Longrightarrow> clean u"
  using not_special(1) by (auto simp: clean_def list_all_iff)

lemma swar_line: "h1HeaderLineSWAR p = (if list_all h1TokenChar p then (None, None) else (firstSpecialTail p 0, Some (length (takeWhile h1TokenChar p))))"
proof (cases "list_all h1TokenChar p")
  case True
  then have "length (takeWhile h1TokenChar p) = length p" by (metis list_all_iff takeWhile_eq_all_conv)
  then show ?thesis using True by (simp add: h1HeaderLineSWAR_def firstNonTokenByte_def nonTokenLoop_eq)
next
  case False
  let ?n = "length (takeWhile h1TokenChar p)"
  have "?n \<noteq> length p" using False by (metis (no_types, lifting) length_takeWhile_le list_all_iff set_takeWhileD takeWhile_eq_take take_all_iff)
  moreover have "clean (takeWhile h1TokenChar p)" by (rule token_clean) (auto simp: list_all_iff dest: set_takeWhileD)
  then have "firstSpecialTail p 0 = firstSpecialTail (drop ?n p) ?n"
    using firstSpecialTail_skip [of "takeWhile h1TokenChar p" "dropWhile h1TokenChar p" 0] by (simp add: clean_def dropWhile_eq_drop [symmetric])
  ultimately show ?thesis using False firstSpecialTail_shift [of "drop ?n p" ?n 0]
    by (simp add: h1HeaderLineSWAR_def firstNonTokenByte_def nonTokenLoop_eq firstH1SpecialSWAR_tail split: option.splits)
qed

lemma trimOWS_id: "list_all (\<lambda>c. \<not> isOWS c) v \<Longrightarrow> trimOWS v = v"
proof -
  assume "list_all (\<lambda>c. \<not> isOWS c) v"
  then have "dropWhile isOWS v = v" "dropWhile isOWS (rev v) = rev v" by (auto simp: list_all_iff dropWhile_eq_self_iff last_rev hd_rev)
  then show ?thesis by (simp add: trimOWS_def)
qed

lemma host_no_space: "ValidateHost v \<Longrightarrow> list_all (\<lambda>c. \<not> isOWS c) v"
  by (auto simp: ValidateHost_iff list_all_iff isOWS_def invalidHostChar_def validHostChars_def)

text \<open>A host the byte-class scanner calls safe is valid, so the flag does not show.\<close>

lemma trimOWS_dropWhile: "trimOWS (dropWhile isOWS v) = trimOWS v"
  by (simp add: trimOWS_def)

lemma hostSafe_valid:
  assumes "h1HeaderLineScalar p = (special, Some n, True)" and "p = l @ 0x0d # rest" and "clean l" and "n < length l"
  shows "ValidateHost (trimOWS (drop (n + 1) l))"
proof -
  have "special \<noteq> None" "ValidateHost (line_value p n)"
    using assms(1) unfolding header_line_scalar by (auto split: prod.splits option.splits)
  moreover have "line_value p n = dropWhile isOWS (drop (n + 1) l)"
  proof -
    have d: "drop (n + 1) p = drop (n + 1) l @ 0x0d # rest" using assms(2,4) by simp
    have c: "list_all (\<lambda>c. \<not> isH1Special c) (dropWhile isOWS (drop (n + 1) l))" using assms(3) by (auto simp: clean_def list_all_iff dest: set_dropWhileD in_set_dropD)
    have "dropWhile isOWS (drop (n + 1) l @ 0x0d # rest) = dropWhile isOWS (drop (n + 1) l) @ 0x0d # rest"
    proof (cases "\<forall>x \<in> set (drop (n + 1) l). isOWS x")
      case True
      then have "dropWhile isOWS (drop (n + 1) l) = []" by simp
      then show ?thesis using True by (simp add: dropWhile_append isOWS_def)
    next
      case False
      then show ?thesis by (auto simp: dropWhile_append1)
    qed
    then show ?thesis using c takeWhile_append2 [of "dropWhile isOWS (drop (n + 1) l)" "\<lambda>c. \<not> isH1Special c" "0x0d # rest"]
      unfolding line_value_def d by (simp add: list_all_iff isH1Special_def)
  qed
  ultimately have "ValidateHost (dropWhile isOWS (drop (n + 1) l))" by simp
  then show ?thesis using trimOWS_id [OF host_no_space] trimOWS_dropWhile by metis
qed

lemma headLine_scan:
  assumes "vector_ok cpu"
  obtains special hostSafe where "headLine cpu p = (scanLine p, if list_all h1TokenChar p then None else Some (length (takeWhile h1TokenChar p)), hostSafe)"
    and "hostSafe \<Longrightarrow> h1HeaderLineScalar p = (special, Some (length (takeWhile h1TokenChar p)), True)"
proof (cases "length p < h1ScalarScanMax")
  case True
  obtain special n hostSafe where s: "h1HeaderLineScalar p = (special, n, hostSafe)" by (cases "h1HeaderLineScalar p") auto
  then have "special = fst (h1HeaderLineSWAR p)" "n = snd (h1HeaderLineSWAR p)" "hostSafe \<Longrightarrow> n \<noteq> None" unfolding header_line_scalar by (auto split: prod.splits option.splits)
  then show thesis using True s that [of hostSafe special] tail_None [of p 0] token_clean [of p] unfolding swar_line headLine_def scanLine_def by (auto split: if_splits)
next
  case False
  then show thesis using that [of False] tail_None [of p 0] token_clean [of p] vector_scans(2) [OF assms, of p] unfolding swar_line headLine_def scanLine_def by (auto split: if_splits)
qed

lemma headField_safe: "(hostSafe \<Longrightarrow> ValidateHost v) \<Longrightarrow> headField name v hostSafe s = headField name v False s"
proof (cases hostSafe)
  case True
  assume "hostSafe \<Longrightarrow> ValidateHost v"
  then have "ValidateHost v = True" using True by simp
  then show ?thesis using True by (simp only: headField_def simp_thms not_True_eq_False not_False_eq_True if_False)
qed simp

text \<open>One line of the head, apart from the way it is scanned.\<close>

definition lineStep :: "nat \<Rightarrow> byte list \<Rightarrow> nat \<Rightarrow> headState \<Rightarrow> (h1Head \<times> h1Request) + headState" where
  "lineStep maxCount l nl s =
     (let n = length (takeWhile h1TokenChar l) in
      if \<not> (0 < n \<and> n < length l \<and> l ! n = b8 CHR '':'') then Inl (headResult (h1HeaderLineReject l) False True, hs_req s)
      else
        let s = s\<lparr>hs_req := (hs_req s)\<lparr>rq_Headers := rq_Headers (hs_req s) @ [(take n l, trimOWS (drop (n + 1) l))]\<rparr>\<rparr>
        in if length (rq_Headers (hs_req s)) > maxCount then
             Inl (\<lparr>hd_end = nl + 2, hd_contentLength = hs_contentLength s, hd_hasContentLength = hs_hasContentLength s, hd_close = hs_close s,
               hd_reject = H1RejectNone, hd_chunked = hs_chunked s, hd_tooLarge = True, hd_ok = False\<rparr>, hs_req s)
           else
             case headField (take n l) (trimOWS (drop (n + 1) l)) False s of
               None \<Rightarrow> Inl (headResult H1RejectHost False True, hs_req s)
             | Some s \<Rightarrow> Inr s)"

lemma token_in_line:
  assumes "p = l @ 0x0d # rest"
  shows "length (takeWhile h1TokenChar p) = length (takeWhile h1TokenChar l)" "\<not> list_all h1TokenChar p"
proof -
  have "\<not> h1TokenChar 0x0d" by (simp add: h1TokenChar_def word_le_nat_alt)
  then show "length (takeWhile h1TokenChar p) = length (takeWhile h1TokenChar l)" "\<not> list_all h1TokenChar p"
    using assms by (auto simp: takeWhile_append list_all_iff takeWhile_tail) (metis takeWhile_eq_all_conv)
qed

lemma parseFields_step:
  assumes ok: "vector_ok cpu" and pos: "pos < length data" "pos \<le> maxBytes"
  shows "parseFields cpu data maxBytes maxCount http10 absoluteHost s pos =
     (case scanLine (drop pos data) of
        (_, True) \<Rightarrow> (headResult H1RejectCTL False True, hs_req s)
      | (None, False) \<Rightarrow> (headResult H1RejectNone (length data > maxBytes) False, hs_req s)
      | (Some e, False) \<Rightarrow>
          if e = 0 then headComplete http10 absoluteHost pos s
          else case lineStep maxCount (take e (drop pos data)) (pos + e) s of
            Inl res \<Rightarrow> res | Inr s \<Rightarrow> parseFields cpu data maxBytes maxCount http10 absoluteHost s (pos + e + 2))"
proof -
  obtain special hostSafe where h: "headLine cpu (drop pos data) = (scanLine (drop pos data), if list_all h1TokenChar (drop pos data) then None else Some (length (takeWhile h1TokenChar (drop pos data))), hostSafe)"
    "hostSafe \<Longrightarrow> h1HeaderLineScalar (drop pos data) = (special, Some (length (takeWhile h1TokenChar (drop pos data))), True)"
    using headLine_scan [OF ok] by blast
  obtain r b where sc: "scanLine (drop pos data) = (r, b)" by fastforce
  show ?thesis
  proof (cases "b = False \<and> (\<exists>e. r = Some e \<and> e \<noteq> 0)")
    case False
    then show ?thesis using h sc pos by (subst parseFields.simps) (auto split: option.splits)
  next
    case True
    then obtain e where e: "r = Some e" "\<not> b" "e \<noteq> 0" by blast
    obtain l rest where l: "drop pos data = l @ 0x0d # 0x0a # rest" "clean l" "length l = e" using sc e by (auto simp: scanLine_end)
    note t = token_in_line [OF l(1)]
    have tk: "take e (drop pos data) = l" using l by simp
    let ?n = "length (takeWhile h1TokenChar l)"
    show ?thesis
    proof (cases "0 < ?n \<and> ?n < length l \<and> l ! ?n = b8 CHR '':''")
      case True
      have "headField name (trimOWS (drop (?n + 1) l)) hostSafe s = headField name (trimOWS (drop (?n + 1) l)) False s" for name s
        using hostSafe_valid [OF _ l(1,2)] h(2) t True by (intro headField_safe) simp
      then show ?thesis using h(1) sc pos e t True l(3) unfolding lineStep_def tk by (subst parseFields.simps) (simp add: tk Let_def validH1Colon_def split: option.splits)
    next
      case False
      then show ?thesis using h(1) sc pos e t l(3) unfolding lineStep_def tk by (subst parseFields.simps) (auto simp: tk Let_def validH1Colon_def)
    qed
  qed
qed

section \<open>Arrival in pieces\<close>

lemma parseFields_append:
  assumes "vector_ok cpu" and "hd_ok (fst (parseFields cpu data maxBytes maxCount http10 absoluteHost s pos))"
  shows "parseFields cpu (data @ ext) maxBytes maxCount http10 absoluteHost s pos = parseFields cpu data maxBytes maxCount http10 absoluteHost s pos"
  using assms(2)
proof (induction "length data - pos" arbitrary: s pos rule: less_induct)
  case less
  have pos: "pos < length data" "pos \<le> maxBytes" using less.prems by (auto simp: parseFields.simps [of cpu data] headResult_def split: if_splits)
  note step = parseFields_step [OF assms(1), of pos data maxBytes, OF pos] and step' = parseFields_step [OF assms(1), of pos "data @ ext" maxBytes, OF _ pos(2)]
  obtain r b where sc: "scanLine (drop pos data) = (r, b)" by fastforce
  have r: "r \<noteq> None" using less.prems scanLine_bad sc unfolding step by (cases b; cases r) (auto simp: headResult_def)
  have sc': "scanLine (drop pos (data @ ext)) = (r, b)" using scanLine_append [OF sc r, of ext] pos(1) by simp
  obtain e where e: "r = Some e" using r by blast
  have "drop pos (data @ ext) = drop pos data @ ext" using pos(1) by simp
  then have tk: "take e (drop pos (data @ ext)) = take e (drop pos data)" if "\<not> b" using that sc e by (auto simp only: scanLine_end) simp
  have IH: "parseFields cpu (data @ ext) maxBytes maxCount http10 absoluteHost s' (pos + e + 2) = parseFields cpu data maxBytes maxCount http10 absoluteHost s' (pos + e + 2)"
    if "\<not> b" "e \<noteq> 0" "lineStep maxCount (take e (drop pos data)) (pos + e) s = Inr s'" for s'
    using less.prems that sc e pos(1) unfolding step by (intro less.hyps) auto
  show ?case unfolding step using step' sc sc' e pos(1) tk IH by (cases b) (auto split: sum.splits)
qed

lemma head_append:
  assumes "vector_ok cpu" and "hd_ok (fst (parseH1RequestHead cpu data req mb mc))"
  shows "parseH1RequestHead cpu (data @ ext) req mb mc = parseH1RequestHead cpu data req mb mc"
proof -
  obtain r b where sc: "scanLine data = (r, b)" by fastforce
  have scan: "classifyFirstSpecial p (firstH1Special cpu p) = scanLine p" for p
    using vector_scans(1) [OF assms(1)] by (simp add: scanLine_def firstH1SpecialSWAR_tail)
  have r: "r \<noteq> None" using assms(2) scanLine_bad sc by (cases b; cases r) (auto simp: parseH1RequestHead_def scan headResult_def)
  have sc': "scanLine (data @ ext) = (r, b)" using scanLine_append [OF sc r, of ext] .
  obtain e where e: "r = Some e" using r by blast
  have tk: "take e (data @ ext) = take e data" if "\<not> b" using that sc e by (auto simp: scanLine_end)
  show ?thesis using assms(2) parseFields_append [OF assms(1), of data] sc sc' e tk
    by (cases b) (auto simp: parseH1RequestHead_def scan Let_def split: sum.splits prod.splits)
qed

section \<open>The fields of an accepted head\<close>

lemma lower_first: "EqualFoldASCII name (c # l) \<Longrightarrow> name \<noteq> [] \<and> asciiLower (name ! 0) = asciiLower c"
  by (cases name) (simp_all add: EqualFoldASCII_iff)

lemma lower_cases: "asciiLower c = l \<Longrightarrow> c = l \<or> c = l - 0x20"
  by (auto simp: asciiLower_def split: if_splits)

lemma fold_length: "EqualFoldASCII name l \<Longrightarrow> length name = length l"
  by (metis EqualFoldASCII_iff length_map)

lemma fold_first: "EqualFoldASCII name l \<Longrightarrow> l \<noteq> [] \<Longrightarrow> name ! 0 = asciiLower (hd l) - 0x20 \<or> name ! 0 = asciiLower (hd l)"
  using lower_first [of name "hd l" "tl l"] lower_cases [of "name ! 0" "asciiLower (hd l)"] by auto

lemma fold_firsts:
  "EqualFoldASCII name (str ''Host'') \<Longrightarrow> name ! 0 = b8 CHR ''H'' \<or> name ! 0 = b8 CHR ''h''"
  "EqualFoldASCII name (str ''Origin'') \<Longrightarrow> name ! 0 = b8 CHR ''O'' \<or> name ! 0 = b8 CHR ''o''"
  "EqualFoldASCII name (str ''Expect'') \<Longrightarrow> name ! 0 = b8 CHR ''E'' \<or> name ! 0 = b8 CHR ''e''"
  "EqualFoldASCII name (str ''Upgrade'') \<Longrightarrow> name ! 0 = b8 CHR ''U'' \<or> name ! 0 = b8 CHR ''u''"
  "EqualFoldASCII name (str ''X-Real-IP'') \<Longrightarrow> name ! 0 = b8 CHR ''X'' \<or> name ! 0 = b8 CHR ''x''"
  "EqualFoldASCII name (str ''Connection'') \<Longrightarrow> name ! 0 = b8 CHR ''C'' \<or> name ! 0 = b8 CHR ''c''"
  "EqualFoldASCII name (str ''Authorization'') \<Longrightarrow> name ! 0 = b8 CHR ''A'' \<or> name ! 0 = b8 CHR ''a''"
  "EqualFoldASCII name (str ''Content-Length'') \<Longrightarrow> name ! 0 = b8 CHR ''C'' \<or> name ! 0 = b8 CHR ''c''"
  "EqualFoldASCII name (str ''Accept-Encoding'') \<Longrightarrow> name ! 0 = b8 CHR ''A'' \<or> name ! 0 = b8 CHR ''a''"
  "EqualFoldASCII name (str ''X-Forwarded-For'') \<Longrightarrow> name ! 0 = b8 CHR ''X'' \<or> name ! 0 = b8 CHR ''x''"
  "EqualFoldASCII name (str ''Transfer-Encoding'') \<Longrightarrow> name ! 0 = b8 CHR ''T'' \<or> name ! 0 = b8 CHR ''t''"
  "EqualFoldASCII name (str ''Sec-WebSocket-Key'') \<Longrightarrow> name ! 0 = b8 CHR ''S'' \<or> name ! 0 = b8 CHR ''s''"
  "EqualFoldASCII name (str ''Sec-WebSocket-Version'') \<Longrightarrow> name ! 0 = b8 CHR ''S'' \<or> name ! 0 = b8 CHR ''s''"
  by (auto dest!: fold_first simp: asciiLower_def)

lemma fold_other: "length name \<noteq> length l \<Longrightarrow> EqualFoldASCII name l = False"
  using fold_length by blast

lemma guard_absorb: "(b \<Longrightarrow> a) \<Longrightarrow> (a \<and> b) = b"
  by blast

lemma fold_guards:
  "(name ! 0 = b8 CHR ''H'' \<or> name ! 0 = b8 CHR ''h'') \<and> EqualFoldASCII name (str ''Host'') \<longleftrightarrow> EqualFoldASCII name (str ''Host'')"
  "(name ! 0 = b8 CHR ''O'' \<or> name ! 0 = b8 CHR ''o'') \<and> EqualFoldASCII name (str ''Origin'') \<longleftrightarrow> EqualFoldASCII name (str ''Origin'')"
  "(name ! 0 = b8 CHR ''E'' \<or> name ! 0 = b8 CHR ''e'') \<and> EqualFoldASCII name (str ''Expect'') \<longleftrightarrow> EqualFoldASCII name (str ''Expect'')"
  "(name ! 0 = b8 CHR ''U'' \<or> name ! 0 = b8 CHR ''u'') \<and> EqualFoldASCII name (str ''Upgrade'') \<longleftrightarrow> EqualFoldASCII name (str ''Upgrade'')"
  "(name ! 0 = b8 CHR ''X'' \<or> name ! 0 = b8 CHR ''x'') \<and> EqualFoldASCII name (str ''X-Real-IP'') \<longleftrightarrow> EqualFoldASCII name (str ''X-Real-IP'')"
  "(name ! 0 = b8 CHR ''C'' \<or> name ! 0 = b8 CHR ''c'') \<and> EqualFoldASCII name (str ''Connection'') \<longleftrightarrow> EqualFoldASCII name (str ''Connection'')"
  "(name ! 0 = b8 CHR ''A'' \<or> name ! 0 = b8 CHR ''a'') \<and> EqualFoldASCII name (str ''Authorization'') \<longleftrightarrow> EqualFoldASCII name (str ''Authorization'')"
  "(name ! 0 = b8 CHR ''C'' \<or> name ! 0 = b8 CHR ''c'') \<and> EqualFoldASCII name (str ''Content-Length'') \<longleftrightarrow> EqualFoldASCII name (str ''Content-Length'')"
  "(name ! 0 = b8 CHR ''A'' \<or> name ! 0 = b8 CHR ''a'') \<and> EqualFoldASCII name (str ''Accept-Encoding'') \<longleftrightarrow> EqualFoldASCII name (str ''Accept-Encoding'')"
  "(name ! 0 = b8 CHR ''X'' \<or> name ! 0 = b8 CHR ''x'') \<and> EqualFoldASCII name (str ''X-Forwarded-For'') \<longleftrightarrow> EqualFoldASCII name (str ''X-Forwarded-For'')"
  "(name ! 0 = b8 CHR ''T'' \<or> name ! 0 = b8 CHR ''t'') \<and> EqualFoldASCII name (str ''Transfer-Encoding'') \<longleftrightarrow> EqualFoldASCII name (str ''Transfer-Encoding'')"
  "(name ! 0 = b8 CHR ''S'' \<or> name ! 0 = b8 CHR ''s'') \<and> EqualFoldASCII name (str ''Sec-WebSocket-Key'') \<longleftrightarrow> EqualFoldASCII name (str ''Sec-WebSocket-Key'')"
  "(name ! 0 = b8 CHR ''S'' \<or> name ! 0 = b8 CHR ''s'') \<and> EqualFoldASCII name (str ''Sec-WebSocket-Version'') \<longleftrightarrow> EqualFoldASCII name (str ''Sec-WebSocket-Version'')"
  by (rule guard_absorb, erule fold_firsts)+

text \<open>The names the parser knows, in lower case.\<close>

definition low :: "gostring \<Rightarrow> gostring" where
  "low name = map asciiLower name"

lemma known_names:
  "EqualFoldASCII name (str ''Host'') \<longleftrightarrow> low name = str ''host''"
  "EqualFoldASCII name (str ''Origin'') \<longleftrightarrow> low name = str ''origin''"
  "EqualFoldASCII name (str ''Expect'') \<longleftrightarrow> low name = str ''expect''"
  "EqualFoldASCII name (str ''Upgrade'') \<longleftrightarrow> low name = str ''upgrade''"
  "EqualFoldASCII name (str ''X-Real-IP'') \<longleftrightarrow> low name = str ''x-real-ip''"
  "EqualFoldASCII name (str ''Connection'') \<longleftrightarrow> low name = str ''connection''"
  "EqualFoldASCII name (str ''Authorization'') \<longleftrightarrow> low name = str ''authorization''"
  "EqualFoldASCII name (str ''Content-Length'') \<longleftrightarrow> low name = str ''content-length''"
  "EqualFoldASCII name (str ''Accept-Encoding'') \<longleftrightarrow> low name = str ''accept-encoding''"
  "EqualFoldASCII name (str ''X-Forwarded-For'') \<longleftrightarrow> low name = str ''x-forwarded-for''"
  "EqualFoldASCII name (str ''Transfer-Encoding'') \<longleftrightarrow> low name = str ''transfer-encoding''"
  "EqualFoldASCII name (str ''Sec-WebSocket-Key'') \<longleftrightarrow> low name = str ''sec-websocket-key''"
  "EqualFoldASCII name (str ''Sec-WebSocket-Version'') \<longleftrightarrow> low name = str ''sec-websocket-version''"
  by (simp_all add: EqualFoldASCII_iff low_def asciiLower_def)

lemma low_length: "length (low name) = length name"
  by (simp add: low_def)

lemma headField_flat:
  "headField name v hostSafe s =
     (let r = hs_req s; k = low name in
      if k = str ''host'' then
        (if \<not> hostSafe \<and> \<not> ValidateHost v then None
         else Some (s\<lparr>hs_hostCount := hs_hostCount s + 1, hs_req := cacheBit headerCacheHost (r\<lparr>rq_Host := v, cachedHost := v\<rparr>)\<rparr>))
      else if k = str ''origin'' then Some (s\<lparr>hs_req := cacheBit headerCacheOrigin (r\<lparr>cachedOrigin := v\<rparr>)\<rparr>)
      else if k = str ''expect'' then Some (s\<lparr>hs_req := r\<lparr>rq_expect := classifyExpect (rq_expect r) v\<rparr>\<rparr>)
      else if k = str ''upgrade'' then Some (s\<lparr>hs_req := cacheBit headerCacheUpgrade (r\<lparr>cachedUpgrade := v\<rparr>)\<rparr>)
      else if k = str ''x-real-ip'' then Some (s\<lparr>hs_req := cacheBit headerCacheXRealIP (r\<lparr>cachedXRI := v\<rparr>)\<rparr>)
      else if k = str ''connection'' then
        Some (s\<lparr>hs_req := cacheBit headerCacheConnection (r\<lparr>cachedConn := v\<rparr>), hs_close := hs_close s \<or> fst (connectionOptions v),
          hs_keepAlive := hs_keepAlive s \<or> snd (connectionOptions v)\<rparr>)
      else if k = str ''authorization'' then Some (s\<lparr>hs_req := cacheBit headerCacheAuthorization (r\<lparr>cachedAuth := v\<rparr>)\<rparr>)
      else if k = str ''content-length'' then
        (let s = s\<lparr>hs_req := cacheBit headerCacheContentLength (r\<lparr>cachedCL := v\<rparr>)\<rparr>; (parsedCL, parsedOK) = parseUint v in
         if hs_hasContentLength s then Some (if \<not> parsedOK \<or> hs_contentLength s < 0 \<or> parsedCL \<noteq> hs_contentLength s then s\<lparr>hs_contentLength := -1\<rparr> else s)
         else Some (s\<lparr>hs_hasContentLength := True, hs_contentLength := if parsedOK then parsedCL else -1\<rparr>))
      else if k = str ''accept-encoding'' then Some (s\<lparr>hs_req := cacheBit headerCacheAcceptEncoding (r\<lparr>cachedAE := v\<rparr>)\<rparr>)
      else if k = str ''x-forwarded-for'' then Some (s\<lparr>hs_req := cacheBit headerCacheXForwardedFor (r\<lparr>cachedXFF := v\<rparr>)\<rparr>)
      else if k = str ''transfer-encoding'' then
        (let s = s\<lparr>hs_req := cacheBit headerCacheTransferEncoding (r\<lparr>cachedTE := v\<rparr>)\<rparr>
         in Some (if EqualFoldASCII v (str ''chunked'') then s\<lparr>hs_chunked := True\<rparr> else s\<lparr>hs_badTE := True\<rparr>))
      else if k = str ''sec-websocket-key'' then Some (s\<lparr>hs_req := cacheBit headerCacheWSKey (r\<lparr>cachedWSKey := v\<rparr>)\<rparr>)
      else if k = str ''sec-websocket-version'' then Some (s\<lparr>hs_req := cacheBit headerCacheWSVersion (r\<lparr>cachedWSVer := v\<rparr>)\<rparr>)
      else Some s)"
proof -
  have other: "low name = l \<Longrightarrow> length name = length l" for l using low_length [of name] by auto
  have k: "length name \<noteq> length l \<Longrightarrow> (low name = l) = False" for l using other by blast
  note nos = k [of "str ''host''"] k [of "str ''origin''"] k [of "str ''expect''"] k [of "str ''upgrade''"] k [of "str ''x-real-ip''"] k [of "str ''connection''"] k [of "str ''authorization''"]
    k [of "str ''content-length''"] k [of "str ''accept-encoding''"] k [of "str ''x-forwarded-for''"] k [of "str ''transfer-encoding''"] k [of "str ''sec-websocket-key''"] k [of "str ''sec-websocket-version''"]
  have lens: "length (str ''host'') = 4" "length (str ''origin'') = 6" "length (str ''expect'') = 6" "length (str ''upgrade'') = 7" "length (str ''x-real-ip'') = 9" "length (str ''connection'') = 10"
    "length (str ''authorization'') = 13" "length (str ''content-length'') = 14" "length (str ''accept-encoding'') = 15" "length (str ''x-forwarded-for'') = 15" "length (str ''transfer-encoding'') = 17"
    "length (str ''sec-websocket-key'') = 17" "length (str ''sec-websocket-version'') = 21" by simp_all
  consider "length name = 4" | "length name = 6" | "length name = 7" | "length name = 9" | "length name = 10" | "length name = 13" | "length name = 14" | "length name = 15" | "length name = 17" | "length name = 21"
    | "length name \<notin> {4, 6, 7, 9, 10, 13, 14, 15, 17, 21}" by auto
  then show ?thesis
    unfolding headField_def Let_def fold_guards unfolding known_names
    by cases (simp_all add: nos [unfolded lens] case_prod_beta del: str_simps split del: if_split cong: if_cong)
qed

lemma cacheBit_same [simp]: "rq_Headers (cacheBit b r) = rq_Headers r" "rq_Proto (cacheBit b r) = rq_Proto r" "rq_Method (cacheBit b r) = rq_Method r"
  "rq_Path (cacheBit b r) = rq_Path r" "rq_Query (cacheBit b r) = rq_Query r" "rq_RawPath (cacheBit b r) = rq_RawPath r"
  by (simp_all add: cacheBit_def)

definition same_line :: "h1Request \<Rightarrow> h1Request \<Rightarrow> bool" where
  "same_line r r' \<longleftrightarrow> rq_Headers r' = rq_Headers r \<and> rq_Proto r' = rq_Proto r \<and> rq_Method r' = rq_Method r \<and> rq_Path r' = rq_Path r \<and> rq_Query r' = rq_Query r \<and> rq_RawPath r' = rq_RawPath r"

definition same_framing :: "headState \<Rightarrow> headState \<Rightarrow> bool" where
  "same_framing s s' \<longleftrightarrow> hs_contentLength s' = hs_contentLength s \<and> hs_hasContentLength s' = hs_hasContentLength s \<and> hs_close s' = hs_close s \<and> hs_chunked s' = hs_chunked s
     \<and> hs_badTE s' = hs_badTE s \<and> hs_keepAlive s' = hs_keepAlive s \<and> hs_hostCount s' = hs_hostCount s"

lemma headField_same_line: "headField name v hostSafe s = Some s' \<Longrightarrow> same_line (hs_req s) (hs_req s')"
proof -
  have "pred_option (\<lambda>s'. same_line (hs_req s) (hs_req s')) (headField name v hostSafe s)"
    unfolding headField_flat Let_def case_prod_beta
    by (simp add: same_line_def if_distrib [where f = "pred_option _"] if_distrib [where f = hs_req] del: str_simps split del: if_split cong del: if_weak_cong)
  then show "headField name v hostSafe s = Some s' \<Longrightarrow> same_line (hs_req s) (hs_req s')" by simp
qed

lemma headField_other:
  assumes "headField name v hostSafe s = Some s'" and "low name \<notin> {str ''host'', str ''connection'', str ''content-length'', str ''transfer-encoding''}"
  shows "same_framing s s'"
proof -
  have "pred_option (same_framing s) (headField name v hostSafe s)"
    using assms(2) unfolding headField_flat Let_def by (simp add: same_framing_def del: str_simps)
  then show ?thesis using assms(1) by simp
qed

lemma headField_host: "headField name v False s = Some s' \<Longrightarrow> low name = str ''host'' \<Longrightarrow> ValidateHost v \<and> same_framing (s\<lparr>hs_hostCount := hs_hostCount s + 1\<rparr>) s'"
  unfolding headField_flat by (auto simp: same_framing_def Let_def simp del: str_simps split: if_splits)

lemma headField_connection:
  "headField name v hostSafe s = Some s' \<Longrightarrow> low name = str ''connection''
    \<Longrightarrow> same_framing (s\<lparr>hs_close := hs_close s \<or> fst (connectionOptions v), hs_keepAlive := hs_keepAlive s \<or> snd (connectionOptions v)\<rparr>) s'"
  unfolding headField_flat by (auto simp: same_framing_def Let_def)

lemma headField_length:
  "headField name v hostSafe s = Some s' \<Longrightarrow> low name = str ''content-length''
    \<Longrightarrow> same_framing (s\<lparr>hs_hasContentLength := True, hs_contentLength :=
         (let (n, ok) = parseUint v in if ok \<and> (hs_hasContentLength s \<longrightarrow> n = hs_contentLength s \<and> 0 \<le> n) then n else -1)\<rparr>) s'"
  unfolding headField_flat by (auto simp: same_framing_def Let_def case_prod_beta split: if_splits)

lemma headField_coding:
  "headField name v hostSafe s = Some s' \<Longrightarrow> low name = str ''transfer-encoding''
    \<Longrightarrow> same_framing (if EqualFoldASCII v (str ''chunked'') then s\<lparr>hs_chunked := True\<rparr> else s\<lparr>hs_badTE := True\<rparr>) s'"
  unfolding headField_flat by (auto simp: same_framing_def Let_def split: if_splits)

definition vals :: "gostring \<Rightarrow> (gostring \<times> gostring) list \<Rightarrow> gostring list" where
  "vals k fs = map snd (filter (\<lambda>f. low (fst f) = k) fs)"

lemma vals_snoc: "vals k (fs @ [(name, v)]) = vals k fs @ (if low name = k then [v] else [])"
  by (simp add: vals_def)

definition head_inv :: "(gostring \<times> gostring) list \<Rightarrow> headState \<Rightarrow> bool" where
  "head_inv fs s \<longleftrightarrow> hs_hostCount s = length (vals (str ''host'') fs) \<and> list_all ValidateHost (vals (str ''host'') fs)
     \<and> hs_hasContentLength s = (vals (str ''content-length'') fs \<noteq> [])
     \<and> (hs_hasContentLength s \<and> 0 \<le> hs_contentLength s \<longrightarrow> list_all (\<lambda>v. parseUint v = (hs_contentLength s, True)) (vals (str ''content-length'') fs))
     \<and> hs_chunked s = list_ex (\<lambda>v. EqualFoldASCII v (str ''chunked'')) (vals (str ''transfer-encoding'') fs)
     \<and> hs_badTE s = list_ex (\<lambda>v. \<not> EqualFoldASCII v (str ''chunked'')) (vals (str ''transfer-encoding'') fs)
     \<and> hs_close s = list_ex (\<lambda>v. fst (connectionOptions v)) (vals (str ''connection'') fs)
     \<and> hs_keepAlive s = list_ex (\<lambda>v. snd (connectionOptions v)) (vals (str ''connection'') fs)"

lemma headField_inv:
  assumes "headField name v False s = Some s'" and "head_inv fs s"
  shows "head_inv (fs @ [(name, v)]) s'"
proof -
  have ne: "str ''host'' \<noteq> str ''connection''" "str ''host'' \<noteq> str ''content-length''" "str ''host'' \<noteq> str ''transfer-encoding''" "str ''connection'' \<noteq> str ''content-length''"
    "str ''connection'' \<noteq> str ''transfer-encoding''" "str ''content-length'' \<noteq> str ''transfer-encoding''" by simp_all
  consider "low name = str ''host''" | "low name = str ''connection''" | "low name = str ''content-length''" | "low name = str ''transfer-encoding''"
    | "low name \<notin> {str ''host'', str ''connection'', str ''content-length'', str ''transfer-encoding''}" by (simp del: str_simps) blast
  then show ?thesis
  proof cases
    case 1
    then show ?thesis using headField_host [OF assms(1)] assms(2) ne by (simp add: head_inv_def same_framing_def vals_snoc del: str_simps)
  next
    case 2
    then show ?thesis using headField_connection [OF assms(1)] assms(2) ne by (simp add: head_inv_def same_framing_def vals_snoc del: str_simps)
  next
    case 3
    obtain n ok where pu: "parseUint v = (n, ok)" by fastforce
    define c where "c = (if ok \<and> (hs_hasContentLength s \<longrightarrow> n = hs_contentLength s \<and> 0 \<le> n) then n else -1)"
    have f: "same_framing (s\<lparr>hs_hasContentLength := True, hs_contentLength := c\<rparr>) s'" using headField_length [OF assms(1) 3] pu by (simp add: c_def)
    have "list_all (\<lambda>v. parseUint v = (c, True)) (vals (str ''content-length'') fs @ [v])" if "0 \<le> c"
    proof -
      have "ok" "n = c" "hs_hasContentLength s \<longrightarrow> n = hs_contentLength s" using that by (auto simp: c_def split: if_splits)
      then show ?thesis using pu that assms(2) unfolding head_inv_def by (cases "hs_hasContentLength s") auto
    qed
    then show ?thesis using f assms(2) 3 ne by (simp add: head_inv_def same_framing_def vals_snoc del: str_simps)
  next
    case 4
    then show ?thesis using headField_coding [OF assms(1)] assms(2) ne by (auto simp: head_inv_def same_framing_def vals_snoc simp del: str_simps split: if_splits)
  next
    case 5
    then show ?thesis using headField_other [OF assms(1)] assms(2) by (simp add: head_inv_def same_framing_def vals_snoc del: str_simps)
  qed
qed

text \<open>A header line and its field.\<close>

definition head_field :: "byte list \<Rightarrow> gostring \<times> gostring" where
  "head_field l = (let n = length (takeWhile h1TokenChar l) in (take n l, trimOWS (drop (n + 1) l)))"

definition header_line :: "byte list \<Rightarrow> bool" where
  "header_line l \<longleftrightarrow> clean l \<and> (\<exists>name v. isH1Token name \<and> l = name @ b8 CHR '':'' # v \<and> head_field l = (name, trimOWS v))"

lemma header_line_colon:
  assumes "0 < length (takeWhile h1TokenChar l)" and "length (takeWhile h1TokenChar l) < length l" and "l ! length (takeWhile h1TokenChar l) = b8 CHR '':''" and "clean l"
  shows "header_line l"
proof -
  let ?name = "takeWhile h1TokenChar l"
  have "l = ?name @ b8 CHR '':'' # drop (length ?name + 1) l"
    using id_take_nth_drop [OF assms(2)] assms(3) takeWhile_eq_take [of h1TokenChar l] by simp
  moreover have "isH1Token ?name" using assms(1) by (auto simp: isH1Token_iff list_all_iff dest: set_takeWhileD)
  moreover have "head_field l = (?name, trimOWS (drop (length ?name + 1) l))" by (simp add: head_field_def Let_def takeWhile_eq_take [symmetric])
  ultimately show ?thesis using assms(4) unfolding header_line_def by blast
qed

section \<open>The header cache\<close>

text \<open>The cached names with their bit and their slot.\<close>

definition cacheSlots :: "(gostring \<times> 32 word \<times> (h1Request \<Rightarrow> gostring)) list" where
  "cacheSlots = [(str ''host'', headerCacheHost, cachedHost), (str ''origin'', headerCacheOrigin, cachedOrigin), (str ''upgrade'', headerCacheUpgrade, cachedUpgrade),
     (str ''x-real-ip'', headerCacheXRealIP, cachedXRI), (str ''connection'', headerCacheConnection, cachedConn), (str ''authorization'', headerCacheAuthorization, cachedAuth),
     (str ''content-length'', headerCacheContentLength, cachedCL), (str ''accept-encoding'', headerCacheAcceptEncoding, cachedAE),
     (str ''x-forwarded-for'', headerCacheXForwardedFor, cachedXFF), (str ''transfer-encoding'', headerCacheTransferEncoding, cachedTE),
     (str ''sec-websocket-key'', headerCacheWSKey, cachedWSKey), (str ''sec-websocket-version'', headerCacheWSVersion, cachedWSVer)]"

definition cachedBits :: "32 word list" where
  "cachedBits = [headerCacheHost, headerCacheOrigin, headerCacheUpgrade, headerCacheXRealIP, headerCacheConnection, headerCacheAuthorization, headerCacheContentLength,
     headerCacheAcceptEncoding, headerCacheXForwardedFor, headerCacheTransferEncoding, headerCacheWSKey, headerCacheWSVersion]"

lemmas cache_bit_defs = headerCacheHost_def headerCacheOrigin_def headerCacheUpgrade_def headerCacheXRealIP_def headerCacheConnection_def headerCacheAuthorization_def
  headerCacheContentLength_def headerCacheAcceptEncoding_def headerCacheXForwardedFor_def headerCacheTransferEncoding_def headerCacheWSKey_def headerCacheWSVersion_def

lemma power_and: "(m OR b) AND b' = (m AND b') OR (b AND b')" for m b b' :: "32 word"
  by (simp add: bit_eq_iff bit_and_iff bit_or_iff) blast

lemma or_nonzero: "(a OR b = 0) = (a = 0 \<and> b = 0)" for a b :: "32 word"
  by (auto simp: bit_eq_iff bit_or_iff)

lemma bits_disjoint:
  "list_all (\<lambda>i. list_all (\<lambda>j. (cachedBits ! i AND cachedBits ! j = 0) = (i \<noteq> j)) [0..<12]) [0..<12]"
  by code_simp

definition has_bit :: "h1Request \<Rightarrow> 32 word \<Rightarrow> bool" where
  "has_bit r b \<longleftrightarrow> headerCacheMask r AND b \<noteq> 0"

lemma has_bit_set: "has_bit (cacheBit b r) b' = (has_bit r b' \<or> b AND b' \<noteq> 0)"
  by (simp add: has_bit_def cacheBit_def power_and or_nonzero)

text \<open>A field sets its slot and its bit and leaves the others.\<close>

definition slot_after :: "gostring \<Rightarrow> gostring \<Rightarrow> h1Request \<Rightarrow> h1Request \<Rightarrow> gostring \<times> 32 word \<times> (h1Request \<Rightarrow> gostring) \<Rightarrow> bool" where
  "slot_after key v r r' slot = (case slot of (k, b, get) \<Rightarrow> if key = k then get r' = v \<and> has_bit r' b else get r' = get r \<and> has_bit r' b = has_bit r b)"

lemma cacheBit_gets:
  "cachedCL (cacheBit b r) = cachedCL r" "cachedConn (cacheBit b r) = cachedConn r" "cachedTE (cacheBit b r) = cachedTE r" "cachedHost (cacheBit b r) = cachedHost r"
  "cachedAE (cacheBit b r) = cachedAE r" "cachedOrigin (cacheBit b r) = cachedOrigin r" "cachedXFF (cacheBit b r) = cachedXFF r" "cachedXRI (cacheBit b r) = cachedXRI r"
  "cachedAuth (cacheBit b r) = cachedAuth r" "cachedUpgrade (cacheBit b r) = cachedUpgrade r" "cachedWSKey (cacheBit b r) = cachedWSKey r"
  "cachedWSVer (cacheBit b r) = cachedWSVer r"
  by (simp_all add: cacheBit_def)

lemma has_bit_upds:
  "has_bit (cachedCL_update f r) b = has_bit r b" "has_bit (cachedConn_update f r) b = has_bit r b" "has_bit (cachedTE_update f r) b = has_bit r b"
  "has_bit (cachedHost_update f r) b = has_bit r b" "has_bit (cachedAE_update f r) b = has_bit r b" "has_bit (cachedOrigin_update f r) b = has_bit r b"
  "has_bit (cachedXFF_update f r) b = has_bit r b" "has_bit (cachedXRI_update f r) b = has_bit r b" "has_bit (cachedAuth_update f r) b = has_bit r b"
  "has_bit (cachedUpgrade_update f r) b = has_bit r b" "has_bit (cachedWSKey_update f r) b = has_bit r b" "has_bit (cachedWSVer_update f r) b = has_bit r b"
  "has_bit (rq_Host_update f r) b = has_bit r b" "has_bit (rq_expect_update g r) b = has_bit r b" "has_bit (rq_Headers_update h r) b = has_bit r b"
  by (simp_all add: has_bit_def)

lemma headField_slots: "headField name v hostSafe s = Some s' \<Longrightarrow> list_all (slot_after (low name) v (hs_req s) (hs_req s')) cacheSlots"
proof -
  note simps = cacheSlots_def slot_after_def has_bit_set has_bit_upds cacheBit_gets cache_bit_defs
  consider "low name = str ''host''" | "low name = str ''origin''" | "low name = str ''expect''" | "low name = str ''upgrade''" | "low name = str ''x-real-ip''" | "low name = str ''connection''"
    | "low name = str ''authorization''" | "low name = str ''content-length''" | "low name = str ''accept-encoding''" | "low name = str ''x-forwarded-for''" | "low name = str ''transfer-encoding''"
    | "low name = str ''sec-websocket-key''" | "low name = str ''sec-websocket-version''"
    | (other) "low name \<notin> set [str ''host'', str ''origin'', str ''expect'', str ''upgrade'', str ''x-real-ip'', str ''connection'', str ''authorization'', str ''content-length'',
         str ''accept-encoding'', str ''x-forwarded-for'', str ''transfer-encoding'', str ''sec-websocket-key'', str ''sec-websocket-version'']"
    by (simp del: str_simps) blast
  then have "pred_option (\<lambda>s'. list_all (slot_after (low name) v (hs_req s) (hs_req s')) cacheSlots) (headField name v hostSafe s)"
  proof cases
    case other
    then show ?thesis unfolding headField_flat Let_def by (simp add: simps del: str_simps)
  qed (simp_all add: headField_flat Let_def case_prod_beta simps if_distrib [where f = hs_req] cong del: if_weak_cong)
  then show "headField name v hostSafe s = Some s' \<Longrightarrow> list_all (slot_after (low name) v (hs_req s) (hs_req s')) cacheSlots" by simp
qed

definition cache_inv :: "(gostring \<times> gostring) list \<Rightarrow> headState \<Rightarrow> bool" where
  "cache_inv fs s \<longleftrightarrow> list_all (\<lambda>(k, b, get). has_bit (hs_req s) b = (vals k fs \<noteq> []) \<and> (vals k fs \<noteq> [] \<longrightarrow> get (hs_req s) = last (vals k fs))) cacheSlots"

lemma headField_cache: "headField name v hostSafe s = Some s' \<Longrightarrow> cache_inv fs s \<Longrightarrow> cache_inv (fs @ [(name, v)]) s'"
  by (drule headField_slots) (fastforce simp: cache_inv_def slot_after_def list_all_iff vals_snoc split: if_splits)

lemma cache_inv_headers: "cache_inv fs (s\<lparr>hs_req := (hs_req s)\<lparr>rq_Headers := x\<rparr>\<rparr>) = cache_inv fs s"
  by (simp add: cache_inv_def cacheSlots_def has_bit_def)

section \<open>From the lines to the fields\<close>

text \<open>
  A property of the fields seen so far and the state of the loop that every field keeps: the state at
  the end of an accepted head has it for the fields of the head.
\<close>

lemma lineStep_stops: "lineStep maxCount l nl s = Inl (h, r) \<Longrightarrow> \<not> (hd_ok h \<and> hd_reject h = H1RejectNone)"
  by (auto simp: lineStep_def Let_def headResult_def h1HeaderLineReject_def split: if_splits option.splits)

definition crlf :: "byte list" where
  "crlf = [0x0d, 0x0a]"

lemma requestLine_spec:
  "parseRequestLine rl req = Inr (http10, absoluteHost, r) \<Longrightarrow> rq_Headers r = rq_Headers req \<and> isH1Token (rq_Method r)
    \<and> rq_Proto r = (if http10 then str ''HTTP/1.0'' else str ''HTTP/1.1'') \<and> headerCacheMask r = headerCacheMask req"
  by (auto simp: parseRequestLine_def Let_def simp del: str_simps split: option.splits if_splits prod.splits)

lemma headComplete_accepts:
  assumes "headComplete http10 absoluteHost nl s = (h, r)" and "hd_reject h = H1RejectNone"
  shows "\<not> hs_badTE s \<and> (hs_chunked s \<longrightarrow> \<not> hs_hasContentLength s \<and> \<not> http10) \<and> hs_hostCount s \<le> 1 \<and> (hs_hostCount s = 0 \<longrightarrow> http10)
    \<and> hd_end h = nl + 2 \<and> hd_chunked h = hs_chunked s \<and> hd_hasContentLength h = hs_hasContentLength s \<and> hd_contentLength h = hs_contentLength s
    \<and> rq_Headers r = rq_Headers (hs_req s) \<and> rq_Proto r = rq_Proto (hs_req s) \<and> rq_Method r = rq_Method (hs_req s)
    \<and> (http10 \<and> \<not> hs_keepAlive s \<longrightarrow> hd_close h) \<and> (hs_close s \<longrightarrow> hd_close h)"
  using assms by (auto simp: headComplete_def headResult_def Let_def split: if_splits option.splits)

locale head_invariant =
  fixes I :: "(gostring \<times> gostring) list \<Rightarrow> headState \<Rightarrow> bool"
  assumes keeps: "headField name v False s = Some s' \<Longrightarrow> I fs s \<Longrightarrow> I (fs @ [(name, v)]) s'"
    and headers: "I fs (s\<lparr>hs_req := (hs_req s)\<lparr>rq_Headers := x\<rparr>\<rparr>) = I fs s"
begin

lemma lineStep_accepts:
  assumes "lineStep maxCount l nl s = Inr s'" and "clean l" and "I fs s"
  shows "header_line l \<and> I (fs @ [head_field l]) s' \<and> rq_Headers (hs_req s') = rq_Headers (hs_req s) @ [head_field l]
    \<and> rq_Proto (hs_req s') = rq_Proto (hs_req s) \<and> rq_Method (hs_req s') = rq_Method (hs_req s)"
proof -
  let ?n = "length (takeWhile h1TokenChar l)"
  let ?s = "s\<lparr>hs_req := (hs_req s)\<lparr>rq_Headers := rq_Headers (hs_req s) @ [head_field l]\<rparr>\<rparr>"
  have n: "0 < ?n" "?n < length l" "l ! ?n = b8 CHR '':''" and f: "headField (fst (head_field l)) (snd (head_field l)) False ?s = Some s'"
    using assms(1) by (auto simp: lineStep_def head_field_def Let_def split: if_splits option.splits)
  have "I (fs @ [(fst (head_field l), snd (head_field l))]) s'" using keeps [OF f] assms(3) headers by simp
  then show ?thesis using headField_same_line [OF f] header_line_colon [OF n assms(2)] by (simp add: same_line_def)
qed

lemma parseFields_accepts:
  assumes "vector_ok cpu" and "parseFields cpu data maxBytes maxCount http10 absoluteHost s pos = (h, r)" and "hd_ok h" and "hd_reject h = H1RejectNone" and "I fs s"
  shows "\<exists>ls s' nl. drop pos data = concat (map (\<lambda>l. l @ crlf) ls) @ crlf @ drop (nl + 2) data \<and> list_all header_line ls
    \<and> I (fs @ map head_field ls) s' \<and> rq_Headers (hs_req s') = rq_Headers (hs_req s) @ map head_field ls
    \<and> rq_Proto (hs_req s') = rq_Proto (hs_req s) \<and> rq_Method (hs_req s') = rq_Method (hs_req s) \<and> headComplete http10 absoluteHost nl s' = (h, r)"
  using assms(2,5)
proof (induction "length data - pos" arbitrary: s pos fs rule: less_induct)
  case less
  have pos: "pos < length data" "pos \<le> maxBytes" using less.prems assms(3) by (auto simp: parseFields.simps [of cpu data] headResult_def split: if_splits)
  note step = parseFields_step [OF assms(1), of pos data maxBytes, OF pos]
  obtain x b where sc: "scanLine (drop pos data) = (x, b)" by fastforce
  have "\<not> b" "x \<noteq> None" using less.prems(1) assms(3,4) sc unfolding step by (cases b; cases x; auto simp: headResult_def)+
  then obtain e where e: "x = Some e" "\<not> b" by blast
  obtain l rest where l: "drop pos data = l @ 0x0d # 0x0a # rest" "clean l" "length l = e" using sc e by (auto simp: scanLine_end)
  have rest: "drop (pos + e + 2) data = rest" using arg_cong [OF l(1), of "drop (e + 2)"] l(3) by (simp add: add.commute add.left_commute)
  show ?case
  proof (cases "e = 0")
    case True
    then show ?thesis using less.prems sc e l rest unfolding step by (intro exI [of _ "[]"] exI [of _ s] exI [of _ pos]) (simp add: crlf_def)
  next
    case False
    have tk: "take e (drop pos data) = l" using l by simp
    obtain s1 where s1: "lineStep maxCount l (pos + e) s = Inr s1" "parseFields cpu data maxBytes maxCount http10 absoluteHost s1 (pos + e + 2) = (h, r)"
      using less.prems(1) sc e False assms(3,4) lineStep_stops [of maxCount l "pos + e" s h r] unfolding step
      by (cases "lineStep maxCount l (pos + e) s") (auto simp: tk)
    note a = lineStep_accepts [OF s1(1) l(2) less.prems(2)]
    have "length data - (pos + e + 2) < length data - pos" using pos by simp
    from less.hyps [OF this s1(2)] a
    obtain ls s' nl where IH: "rest = concat (map (\<lambda>l. l @ crlf) ls) @ crlf @ drop (nl + 2) data" "list_all header_line ls" "I ((fs @ [head_field l]) @ map head_field ls) s'"
      "rq_Headers (hs_req s') = rq_Headers (hs_req s1) @ map head_field ls" "rq_Proto (hs_req s') = rq_Proto (hs_req s1)" "rq_Method (hs_req s') = rq_Method (hs_req s1)"
      "headComplete http10 absoluteHost nl s' = (h, r)" unfolding rest by blast
    then show ?thesis using a l by (intro exI [of _ "l # ls"] exI [of _ s'] exI [of _ nl]) (simp add: crlf_def)
  qed
qed

lemma head_accepts:
  assumes "vector_ok cpu" and "parseH1RequestHead cpu data req mb mc = (h, r)" and "hd_ok h" and "hd_reject h = H1RejectNone"
    and start: "\<And>r. headerCacheMask r = headerCacheMask req \<Longrightarrow> I [] (headStart r)"
  obtains rl ls s http10 absoluteHost nl req1 where "data = rl @ crlf @ concat (map (\<lambda>l. l @ crlf) ls) @ crlf @ drop (hd_end h) data" "clean rl" "list_all header_line ls"
    "parseRequestLine rl req = Inr (http10, absoluteHost, req1)" "I (map head_field ls) s" "rq_Headers (hs_req s) = rq_Headers req @ map head_field ls"
    "rq_Proto (hs_req s) = rq_Proto req1" "rq_Method (hs_req s) = rq_Method req1" "headComplete http10 absoluteHost nl s = (h, r)"
proof -
  obtain x b where sc: "scanLine data = (x, b)" by fastforce
  have scan: "classifyFirstSpecial data (firstH1Special cpu data) = (x, b)"
    using vector_scans(1) [OF assms(1)] sc by (simp add: scanLine_def firstH1SpecialSWAR_tail)
  have "\<not> b" "x \<noteq> None" using assms(2-4) scan by (cases b; cases x; auto simp: parseH1RequestHead_def headResult_def)+
  then obtain e where e: "x = Some e" "\<not> b" by blast
  obtain rl rest where l: "data = rl @ 0x0d # 0x0a # rest" "clean rl" "length rl = e" using sc e by (auto simp: scanLine_end)
  have tk: "take e data = rl" "drop (e + 2) data = rest" using l by auto
  have rej: "parseRequestLine rl req = Inl (reject, r') \<Longrightarrow> reject \<noteq> H1RejectNone" for reject r'
    by (auto simp: parseRequestLine_def Let_def split: option.splits if_splits prod.splits)
  obtain http10 ah req1 mb' mc' where rl: "parseRequestLine rl req = Inr (http10, ah, req1)" and pf: "parseFields cpu data mb' mc' http10 ah (headStart req1) (e + 2) = (h, r)"
    using assms(2,4) scan e rej unfolding parseH1RequestHead_def by (cases "parseRequestLine rl req") (auto simp: tk Let_def headResult_def split: prod.splits)
  have i: "I [] (headStart req1)" using start requestLine_spec [OF rl] by simp
  obtain ls s' nl where f: "rest = concat (map (\<lambda>l. l @ crlf) ls) @ crlf @ drop (nl + 2) data" "list_all header_line ls" "I (map head_field ls) s'"
    "rq_Headers (hs_req s') = rq_Headers req1 @ map head_field ls" "rq_Proto (hs_req s') = rq_Proto req1" "rq_Method (hs_req s') = rq_Method req1" "headComplete http10 ah nl s' = (h, r)"
    using parseFields_accepts [OF assms(1) pf assms(3,4) i] unfolding tk by (auto simp: headStart_def)
  have e: "hd_end h = nl + 2" using headComplete_accepts [OF f(7) assms(4)] by simp
  have "data = rl @ crlf @ rest" using l(1) by (simp add: crlf_def)
  also have "\<dots> = rl @ crlf @ concat (map (\<lambda>l. l @ crlf) ls) @ crlf @ drop (hd_end h) data" unfolding e using f(1) by simp
  finally have d: "data = rl @ crlf @ concat (map (\<lambda>l. l @ crlf) ls) @ crlf @ drop (hd_end h) data" .
  show thesis by (rule that [OF d l(2) f(2) rl f(3) _ f(5,6,7)]) (use f(4) requestLine_spec [OF rl] in simp)
qed

end

interpretation framing: head_invariant head_inv
proof
  show "headField name v False s = Some s' \<Longrightarrow> head_inv fs s \<Longrightarrow> head_inv (fs @ [(name, v)]) s'" for name v s s' fs by (rule headField_inv)
  show "head_inv fs (s\<lparr>hs_req := (hs_req s)\<lparr>rq_Headers := x\<rparr>\<rparr>) = head_inv fs s" for fs s x by (simp add: head_inv_def)
qed

interpretation caching: head_invariant cache_inv
  by unfold_locales (rule headField_cache, assumption, assumption, rule cache_inv_headers)

section \<open>Accepted heads\<close>

lemma head_start_inv: "head_inv [] (headStart r)" "headerCacheMask r = 0 \<Longrightarrow> cache_inv [] (headStart r)"
  by (simp_all add: head_inv_def cache_inv_def cacheSlots_def has_bit_def vals_def headStart_def)

definition plain_cpu :: h1Vector where
  "plain_cpu = \<lparr>hasAVX2 = False, firstH1SpecialAVX2 = firstH1SpecialSWAR, h1HeaderLineAVX2 = h1HeaderLineSWAR\<rparr>"

lemma plain_cpu_ok: "vector_ok plain_cpu"
  by (simp add: vector_ok_def plain_cpu_def)

definition sample_head :: "byte list" where
  "sample_head = str ''GET / HTTP/1.1'' @ crlf @ str ''Host: a'' @ crlf @ crlf"

definition sample_request :: h1Request where
  "sample_request = \<lparr>rq_Proto = [], rq_Method = [], rq_Path = [], rq_Query = [], rq_RawPath = [], rq_Host = [], rq_Headers = [], rq_expect = H1ExpectNone, rq_aliasesReadBuf = False,
     cachedCL = [], cachedConn = [], cachedTE = [], cachedHost = [], cachedAE = [], cachedOrigin = [], cachedXFF = [], cachedXRI = [], cachedAuth = [], cachedUpgrade = [],
     cachedWSKey = [], cachedWSVer = [], headerCacheMask = 0\<rparr>"

definition sample_state :: headState where
  "sample_state = headStart (case parseRequestLine (str ''GET / HTTP/1.1'') sample_request of Inr (_, _, r) \<Rightarrow> r | Inl (_, r) \<Rightarrow> r)"

lemma sample_parse:
  "parseH1RequestHead plain_cpu sample_head sample_request 100 9 = headComplete False None 25 (projr (lineStep 9 (str ''Host: a'') 23 sample_state))"
proof -
  have scan: "classifyFirstSpecial p (firstH1Special plain_cpu p) = scanLine p" for p using vector_scans(1) [OF plain_cpu_ok] by (simp add: scanLine_def firstH1SpecialSWAR_tail)
  have s: "scanLine sample_head = (Some 14, False)" "scanLine (drop 16 sample_head) = (Some 7, False)" "scanLine (drop 25 sample_head) = (Some 0, False)" by code_simp+
  have d: "take 14 sample_head = str ''GET / HTTP/1.1''" "take 7 (drop 16 sample_head) = str ''Host: a''" "length sample_head = 27" by code_simp+
  have r: "case parseRequestLine (str ''GET / HTTP/1.1'') sample_request of Inr (http10, absoluteHost, r) \<Rightarrow> \<not> http10 \<and> absoluteHost = None | Inl _ \<Rightarrow> False" by code_simp
  have l: "isl (lineStep 9 (str ''Host: a'') 23 sample_state) = False" by code_simp
  obtain s1 where s1: "lineStep 9 (str ''Host: a'') 23 sample_state = Inr s1" using l by (cases "lineStep 9 (str ''Host: a'') 23 sample_state") (simp_all del: str_simps)
  obtain rq where rq: "parseRequestLine (str ''GET / HTTP/1.1'') sample_request = Inr (False, None, rq)" using r by (auto simp del: str_simps split: sum.splits)
  have "parseH1RequestHead plain_cpu sample_head sample_request 100 9 = parseFields plain_cpu sample_head 100 9 False None sample_state 16"
    by (simp add: parseH1RequestHead_def scan s d(1) rq sample_state_def del: str_simps)
  also have "\<dots> = parseFields plain_cpu sample_head 100 9 False None (projr (lineStep 9 (str ''Host: a'') 23 sample_state)) 25"
    by (subst parseFields_step [OF plain_cpu_ok]) (simp_all add: s d s1 del: str_simps)
  also have "\<dots> = headComplete False None 25 (projr (lineStep 9 (str ''Host: a'') 23 sample_state))"
    by (subst parseFields_step [OF plain_cpu_ok]) (simp_all add: s d del: str_simps)
  finally show ?thesis .
qed

lemma sample_accepted: "hd_ok (fst (parseH1RequestHead plain_cpu sample_head sample_request 100 9))" "hd_reject (fst (parseH1RequestHead plain_cpu sample_head sample_request 100 9)) = H1RejectNone"
  "hd_end (fst (parseH1RequestHead plain_cpu sample_head sample_request 100 9)) = 27"
  unfolding sample_parse by code_simp+

text \<open>
  C36: the framing of an accepted request head is unambiguous.  The head is a request line and header
  lines, each ended by CRLF and free of control bytes, then an empty line; every header line is a
  token, a colon and a value, and the fields of the request are these.  There is one valid host, which
  only HTTP/1.0 may leave out.  The body is chunked exactly when there is a Transfer-Encoding field,
  all of them are \<open>chunked\<close>, and then the head has no Content-Length and is not HTTP/1.0.  A length
  that is not negative is the value of every Content-Length field.
\<close>

theorem head_framing_safe:
  assumes "vector_ok cpu" and "parseH1RequestHead cpu data req mb mc = (h, r)" and "hd_ok h" and "hd_reject h = H1RejectNone"
  shows "\<exists>rl ls. data = rl @ crlf @ concat (map (\<lambda>l. l @ crlf) ls) @ crlf @ drop (hd_end h) data \<and> clean rl \<and> list_all header_line ls
    \<and> isH1Token (rq_Method r) \<and> rq_Headers r = rq_Headers req @ map head_field ls
    \<and> (let fs = map head_field ls; http10 = (rq_Proto r = str ''HTTP/1.0'') in
       list_all ValidateHost (vals (str ''host'') fs) \<and> length (vals (str ''host'') fs) \<le> 1 \<and> (vals (str ''host'') fs = [] \<longrightarrow> http10)
       \<and> hd_chunked h = (vals (str ''transfer-encoding'') fs \<noteq> []) \<and> list_all (\<lambda>v. EqualFoldASCII v (str ''chunked'')) (vals (str ''transfer-encoding'') fs)
       \<and> (hd_chunked h \<longrightarrow> vals (str ''content-length'') fs = [] \<and> \<not> http10)
       \<and> hd_hasContentLength h = (vals (str ''content-length'') fs \<noteq> [])
       \<and> (0 \<le> hd_contentLength h \<longrightarrow> list_all (\<lambda>v. parseUint v = (hd_contentLength h, True)) (vals (str ''content-length'') fs)))"
proof -
  obtain rl ls s http10 absoluteHost nl req1 where a: "data = rl @ crlf @ concat (map (\<lambda>l. l @ crlf) ls) @ crlf @ drop (hd_end h) data" "clean rl" "list_all header_line ls"
    "parseRequestLine rl req = Inr (http10, absoluteHost, req1)" "head_inv (map head_field ls) s" "rq_Headers (hs_req s) = rq_Headers req @ map head_field ls"
    "rq_Proto (hs_req s) = rq_Proto req1" "rq_Method (hs_req s) = rq_Method req1" "headComplete http10 absoluteHost nl s = (h, r)"
    by (rule framing.head_accepts [OF assms]) (rule head_start_inv(1))
  have ne: "str ''HTTP/1.0'' \<noteq> str ''HTTP/1.1''" by simp
  note c = headComplete_accepts [OF a(9) assms(4)] and q = requestLine_spec [OF a(4)]
  have p: "(rq_Proto r = str ''HTTP/1.0'') = http10" using c q a(7) ne by (simp del: str_simps)
  have te: "hd_chunked h = (vals (str ''transfer-encoding'') (map head_field ls) \<noteq> [])" "list_all (\<lambda>v. EqualFoldASCII v (str ''chunked'')) (vals (str ''transfer-encoding'') (map head_field ls))"
    using a(5) c unfolding head_inv_def by (cases "vals (str ''transfer-encoding'') (map head_field ls)"; auto simp: list_all_iff list_ex_iff simp del: str_simps)+
  have host: "list_all ValidateHost (vals (str ''host'') (map head_field ls))" "length (vals (str ''host'') (map head_field ls)) \<le> 1" "vals (str ''host'') (map head_field ls) = [] \<longrightarrow> http10"
    using a(5) c unfolding head_inv_def by (auto simp del: str_simps)
  have i: "hs_hasContentLength s = (vals (str ''content-length'') (map head_field ls) \<noteq> [])"
    "hs_hasContentLength s \<and> 0 \<le> hs_contentLength s \<longrightarrow> list_all (\<lambda>v. parseUint v = (hs_contentLength s, True)) (vals (str ''content-length'') (map head_field ls))"
    using a(5) unfolding head_inv_def by blast+
  have cl: "hd_hasContentLength h = (vals (str ''content-length'') (map head_field ls) \<noteq> [])" "hd_chunked h \<longrightarrow> vals (str ''content-length'') (map head_field ls) = [] \<and> \<not> http10"
    using i(1) c by (simp_all del: str_simps)
  have cl': "0 \<le> hd_contentLength h \<longrightarrow> list_all (\<lambda>v. parseUint v = (hd_contentLength h, True)) (vals (str ''content-length'') (map head_field ls))"
    using i c by (cases "vals (str ''content-length'') (map head_field ls) = []") (simp_all del: str_simps)
  have "isH1Token (rq_Method r)" "rq_Headers r = rq_Headers req @ map head_field ls" using a(6,8) c q by simp_all
  then show ?thesis unfolding Let_def p using a(1-3) host te cl cl' by blast
qed

theorem head_framing_safe_witness:
  "\<exists>h r. parseH1RequestHead plain_cpu sample_head sample_request 100 9 = (h, r) \<and> hd_ok h \<and> hd_reject h = H1RejectNone \<and> isH1Token (rq_Method r) \<and> hd_end h = 27"
proof -
  let ?p = "parseH1RequestHead plain_cpu sample_head sample_request 100 9"
  have "hd_ok (fst ?p)" "hd_reject (fst ?p) = H1RejectNone" "hd_end (fst ?p) = 27" using sample_accepted .
  then show ?thesis using head_framing_safe [OF plain_cpu_ok, of sample_head sample_request 100 9 "fst ?p" "snd ?p"]
    by (intro exI [of _ "fst ?p"] exI [of _ "snd ?p"]) (auto simp del: str_simps)
qed

text \<open>
  C37: a request head does not depend on how it arrives.  Once the parser has accepted or rejected a
  head, its decision, the end of the head, the framing and the request are the same whatever bytes
  follow in the buffer.
\<close>

theorem head_arrives_in_pieces:
  assumes "vector_ok cpu" and "hd_ok (fst (parseH1RequestHead cpu data req mb mc))"
  shows "parseH1RequestHead cpu (data @ ext) req mb mc = parseH1RequestHead cpu data req mb mc"
  using assms by (rule head_append)

theorem head_arrives_in_pieces_witness:
  "hd_ok (fst (parseH1RequestHead plain_cpu sample_head sample_request 100 9))
   \<and> parseH1RequestHead plain_cpu (sample_head @ [0, 1, 2]) sample_request 100 9 = parseH1RequestHead plain_cpu sample_head sample_request 100 9"
proof -
  show ?thesis using sample_accepted(1) head_arrives_in_pieces [OF plain_cpu_ok] by blast
qed

section \<open>Reading a field of an accepted head\<close>

definition cachedNames :: "gostring list" where
  "cachedNames = map fst cacheSlots"

lemma find_first: "fst (findHeaderLoop fs name) = (case vals (low name) fs of [] \<Rightarrow> [] | v # _ \<Rightarrow> v)"
proof (induction fs)
  case (Cons f fs)
  have "length (fst f) = length name \<and> EqualFoldASCII (fst f) name \<longleftrightarrow> low (fst f) = low name"
    by (auto simp: EqualFoldASCII_iff low_def dest: map_eq_imp_length_eq)
  then show ?case using Cons by (simp add: vals_def)
qed (simp add: vals_def)

lemma low_lits:
  "low (str ''Host'') = str ''host''" "low (str ''Origin'') = str ''origin''" "low (str ''Upgrade'') = str ''upgrade''" "low (str ''X-Real-IP'') = str ''x-real-ip''"
  "low (str ''Connection'') = str ''connection''" "low (str ''Authorization'') = str ''authorization''" "low (str ''Content-Length'') = str ''content-length''"
  "low (str ''Accept-Encoding'') = str ''accept-encoding''" "low (str ''X-Forwarded-For'') = str ''x-forwarded-for''"
  "low (str ''Transfer-Encoding'') = str ''transfer-encoding''" "low (str ''Sec-WebSocket-Key'') = str ''sec-websocket-key''"
  "low (str ''Sec-WebSocket-Version'') = str ''sec-websocket-version''"
  by (simp_all add: low_def asciiLower_def)

text \<open>\<^const>\<open>Header\<close> walks the table of cached names, and falls back to the field list.\<close>

lemma lookup_value: "fst (cacheHeaderLookup b get upd name r) = (if has_bit r b then get r else fst (findHeader r name))"
  by (simp add: cacheHeaderLookup_def has_bit_def Let_def)

lemma findHeader_low: "low name = low name' \<Longrightarrow> fst (findHeader r name) = fst (findHeader r name')"
  by (simp add: findHeader_def find_first)

definition slotValue :: "gostring \<Rightarrow> h1Request \<Rightarrow> (gostring \<times> 32 word \<times> (h1Request \<Rightarrow> gostring)) option \<Rightarrow> gostring" where
  "slotValue name r slot = (case slot of Some (_, b, get) \<Rightarrow> if has_bit r b then get r else fst (findHeader r name) | None \<Rightarrow> fst (findHeader r name))"

lemma slotValue_if: "slotValue name r (if c then Some (k, b, get) else rest) = (if c then (if has_bit r b then get r else fst (findHeader r name)) else slotValue name r rest)"
  "slotValue name r None = fst (findHeader r name)"
  by (simp_all add: slotValue_def)

lemma length_guard: "length k = n \<Longrightarrow> (length name = n \<and> low name = k) = (low name = k)"
  using low_length [of name] by auto

lemma name_guards:
  "(length name = 4 \<and> low name = str ''host'') = (low name = str ''host'')" "(length name = 6 \<and> low name = str ''origin'') = (low name = str ''origin'')"
  "(length name = 7 \<and> low name = str ''upgrade'') = (low name = str ''upgrade'')" "(length name = 9 \<and> low name = str ''x-real-ip'') = (low name = str ''x-real-ip'')"
  "(length name = 10 \<and> low name = str ''connection'') = (low name = str ''connection'')" "(length name = 13 \<and> low name = str ''authorization'') = (low name = str ''authorization'')"
  "(length name = 14 \<and> low name = str ''content-length'') = (low name = str ''content-length'')" "(length name = 15 \<and> low name = str ''accept-encoding'') = (low name = str ''accept-encoding'')"
  "(length name = 15 \<and> low name = str ''x-forwarded-for'') = (low name = str ''x-forwarded-for'')" "(length name = 17 \<and> low name = str ''transfer-encoding'') = (low name = str ''transfer-encoding'')"
  "(length name = 17 \<and> low name = str ''sec-websocket-key'') = (low name = str ''sec-websocket-key'')" "(length name = 21 \<and> low name = str ''sec-websocket-version'') = (low name = str ''sec-websocket-version'')"
  by (rule length_guard; simp)+

lemma Header_table: "fst (Header name r) = slotValue name r (find (\<lambda>(k, b, get). low name = k) cacheSlots)"
  unfolding Header_def known_names name_guards cacheSlots_def find.simps prod.case slotValue_if if_distrib [where f = fst] lookup_value fst_conv
  by (intro if_cong refl) (rule findHeader_low, simp only: low_lits)+

lemma headComplete_slots:
  assumes "headComplete http10 absoluteHost nl s = (h, r)" and "hd_reject h = H1RejectNone"
  shows "list_all (\<lambda>(k, b, get). k \<noteq> str ''host'' \<longrightarrow> has_bit r b = has_bit (hs_req s) b \<and> get r = get (hs_req s)) cacheSlots"
  using assms unfolding headComplete_def cacheSlots_def list.pred_inject prod.case has_bit_def
  by (auto simp: headResult_def Let_def cacheBit_def cache_bit_defs power_and bit.conj_disj_distrib2 simp del: str_simps split: if_splits option.splits)

lemma slotValue_cases:
  assumes "list_all (\<lambda>(k, b, get). k = low name \<longrightarrow> has_bit r b = (vals k fs \<noteq> []) \<and> (vals k fs \<noteq> [] \<longrightarrow> get r = last (vals k fs))) cacheSlots"
    and "rq_Headers r = fs"
  shows "fst (Header name r) = (let vs = vals (low name) fs in if vs = [] then [] else if low name \<in> set cachedNames then last vs else hd vs)"
proof (cases "find (\<lambda>(k, b, get). low name = k) cacheSlots")
  case None
  then have "low name \<notin> set cachedNames" by (auto simp: find_None_iff cachedNames_def)
  then show ?thesis using None assms(2) unfolding Header_table by (simp add: slotValue_def findHeader_def find_first Let_def split: list.split)
next
  case (Some slot)
  then obtain b get where s: "slot = (low name, b, get)" "slot \<in> set cacheSlots" by (auto simp: find_Some_iff in_set_conv_nth)
  then have "low name \<in> set cachedNames" by (force simp: cachedNames_def)
  moreover have "has_bit r b = (vals (low name) fs \<noteq> [])" "vals (low name) fs \<noteq> [] \<longrightarrow> get r = last (vals (low name) fs)"
    using assms(1) s unfolding list_all_iff by force+
  ultimately show ?thesis using Some s assms(2) unfolding Header_table by (simp add: slotValue_def findHeader_def find_first Let_def split: list.split)
qed



end
