(* ===== verification/Crlf_Search.thy ===== *)
theory Crlf_Search
  imports Swar
begin

text \<open>
  The searches for CRLF and CRLFCRLF of \<open>core/indexcrlf_amd64.go\<close>: eight bytes are tested for carriage
  returns at once, and the pattern is compared as a 16 or 32-bit word at every flagged position.  The
  AVX2 routines are a parameter.
\<close>

section \<open>Model\<close>

definition crFlags :: "u64 \<Rightarrow> u64" where
  "crFlags w = (let x = w XOR 0x0d * swarOnes in (x - swarOnes) AND NOT x AND swarHigh)"

definition crlf2At :: "byte list \<Rightarrow> nat \<Rightarrow> bool" where
  "crlf2At b pos \<longleftrightarrow> pos + 2 \<le> length b \<and> le_int (take 2 (drop pos b)) = 0x0A0D"

definition crlf4At :: "byte list \<Rightarrow> nat \<Rightarrow> bool" where
  "crlf4At b pos \<longleftrightarrow> pos + 4 \<le> length b \<and> le_int (take 4 (drop pos b)) = 0x0A0D0A0D"

text \<open>The loops, with the comparison of the pattern and its width \<open>k\<close>.\<close>

function crlfTail :: "(nat \<Rightarrow> bool) \<Rightarrow> nat \<Rightarrow> nat \<Rightarrow> nat \<Rightarrow> nat option" where
  "crlfTail hit k n i = (if i + k \<le> n \<and> i < n then (if hit i then Some i else crlfTail hit k n (i + 1)) else None)"
  by auto
termination by (relation "measure (\<lambda>(_, _, n, i). n - i)") auto

declare crlfTail.simps [simp del]

function crlfLoop :: "(nat \<Rightarrow> bool) \<Rightarrow> nat \<Rightarrow> byte list \<Rightarrow> nat \<Rightarrow> nat option" where
  "crlfLoop hit k b i =
     (if i + 8 \<le> length b then
        (case flagLoop hit 64 i (crFlags (le_word (drop i b))) of
           Some pos \<Rightarrow> Some pos
         | None \<Rightarrow> crlfLoop hit k b (i + 8))
      else crlfTail hit k (length b) i)"
  by auto
termination by (relation "measure (\<lambda>(_, _, b, i). length b - i)") auto

declare crlfLoop.simps [simp del]

definition indexCRLF2Swar :: "byte list \<Rightarrow> nat option" where
  "indexCRLF2Swar b = (if length b < 2 then None else crlfLoop (crlf2At b) 2 b 0)"

definition indexCRLFCRLFSwar :: "byte list \<Rightarrow> nat option" where
  "indexCRLFCRLFSwar b = (if length b < 4 then None else crlfLoop (crlf4At b) 4 b 0)"

record crlfVector =
  cv_hasAVX2 :: bool
  indexCRLF2AVX2 :: "byte list \<Rightarrow> nat option"
  indexCRLF4AVX2 :: "byte list \<Rightarrow> nat option"

definition indexCRLF2 :: "crlfVector \<Rightarrow> byte list \<Rightarrow> nat option" where
  "indexCRLF2 cpu b =
     (if length b < 2 then None else if cv_hasAVX2 cpu then indexCRLF2AVX2 cpu b else indexCRLF2Swar b)"

definition indexCRLFCRLF :: "crlfVector \<Rightarrow> byte list \<Rightarrow> nat option" where
  "indexCRLFCRLF cpu b =
     (if length b < 4 then None else if cv_hasAVX2 cpu then indexCRLF4AVX2 cpu b else indexCRLFCRLFSwar b)"

text \<open>What the callers rely on: the vector routines return what the loops return.\<close>

definition crlf_ok :: "crlfVector \<Rightarrow> bool" where
  "crlf_ok cpu \<longleftrightarrow> indexCRLF2AVX2 cpu = indexCRLF2Swar \<and> indexCRLF4AVX2 cpu = indexCRLFCRLFSwar"

section \<open>The loops return the first occurrence\<close>

lemma crlfTail_find:
  assumes "\<And>p. hit p \<Longrightarrow> p + k \<le> n" and "0 < k"
  shows "crlfTail hit k n i = find hit [i..<n]"
proof (induction "n - i" arbitrary: i rule: less_induct)
  case less
  have "find hit [i..<n] = None" if "\<not> i + k \<le> n" using assms(1) that by (force simp: find_None_iff)
  moreover have "[i..<n] = i # [i + 1..<n]" if "i < n" using that by (simp add: upt_conv_Cons)
  ultimately show ?case using less assms(2) by (subst crlfTail.simps) (auto simp del: upt_Suc)
qed

lemma crFlags_flags: "crFlags w = flags_below 1 (w XOR 0x0d * swarOnes)"
  by (simp add: crFlags_def flags_below_def Let_def)

lemma crFlags_high: "bit (crFlags w) k \<Longrightarrow> \<exists>a < 8. k = 8 * a + 7"
  using bit_swarHighD by (auto simp: crFlags_flags flags_below_def bit_and_iff)

lemma cr_flagged:
  assumes "8 \<le> length bs" and "a < 8" and "bs ! a = 0x0d"
  shows "bit (crFlags (le_word bs)) (8 * a + 7)"
proof -
  have "le_word bs XOR 0x0d * swarOnes = le_word (map (\<lambda>b. b XOR 0x0d) bs)" using le_word_xor [OF assms(1), of "0x0d"] by simp
  moreover have "bit (flags_below (word_of_int 1) (le_word (map (\<lambda>b. b XOR 0x0d) bs))) (8 * a + 7)" using assms by (intro flags_hit) auto
  ultimately show ?thesis by (simp add: crFlags_flags)
qed

lemma crlf_word:
  assumes "i + 8 \<le> length b" and "\<And>p. hit p \<Longrightarrow> b ! p = 0x0d"
  shows "flagLoop hit 64 i (crFlags (le_word (drop i b))) = find hit [i..<i + 8]"
proof -
  let ?m = "crFlags (le_word (drop i b))"
  have "length (flagged ?m) \<le> 8" unfolding flagged_def by (metis length_filter_le length_upt minus_nat.diff_0)
  then have "flagLoop hit 64 i ?m = map_option ((+) i) (find (\<lambda>a. hit (i + a)) (flagged ?m))" using crFlags_high by (intro flagLoop_find) auto
  also have "find (\<lambda>a. hit (i + a)) (flagged ?m) = find (\<lambda>a. hit (i + a)) [0..<8]"
    unfolding flagged_def using cr_flagged [of "drop i b"] assms by (intro find_filter) auto
  also have "map_option ((+) i) (find (\<lambda>a. hit (i + a)) [0..<8]) = find hit (map ((+) i) [0..<8])" by (simp add: find_map_option)
  also have "map ((+) i) [0..<8] = [i..<i + 8]" by (rule nth_equalityI) simp_all
  finally show ?thesis .
qed

lemma find_append: "find P (xs @ ys) = (case find P xs of Some x \<Rightarrow> Some x | None \<Rightarrow> find P ys)"
  by (induction xs) auto

lemma crlfLoop_find:
  assumes "\<And>p. hit p \<Longrightarrow> p + k \<le> length b \<and> b ! p = 0x0d" and "0 < k"
  shows "crlfLoop hit k b i = find hit [i..<length b]"
proof (induction "length b - i" arbitrary: i rule: less_induct)
  case less
  show ?case
  proof (cases "i + 8 \<le> length b")
    case True
    have "[i..<length b] = [i..<i + 8] @ [i + 8..<length b]" using True upt_add_eq_append [of i "i + 8" "length b - (i + 8)"] by simp
    then show ?thesis using True less [of "i + 8"] crlf_word [OF True] assms by (subst crlfLoop.simps) (simp add: find_append split: option.splits)
  next
    case False
    then show ?thesis using crlfTail_find [of hit k "length b" i] assms by (subst crlfLoop.simps) simp
  qed
qed

lemma byte_split: "0 \<le> a \<Longrightarrow> a < 256 \<Longrightarrow> 0 \<le> b \<Longrightarrow> b < (256 :: int) \<Longrightarrow> a + 256 * x = b + 256 * y \<longleftrightarrow> a = b \<and> x = y"
proof -
  assume "0 \<le> a" "a < 256" "0 \<le> b" "b < (256 :: int)"
  then have m: "(a + 256 * x) mod 256 = a" "(b + 256 * y) mod 256 = b" by simp_all
  show ?thesis
  proof
    assume e: "a + 256 * x = b + 256 * y"
    then have "a = b" using m by argo
    then show "a = b \<and> x = y" using e by simp
  qed simp
qed

lemma le_int_inject: "length xs = length ys \<Longrightarrow> le_int xs = le_int ys \<longleftrightarrow> xs = ys"
proof (induction xs ys rule: list_induct2)
  case (Cons x xs y ys)
  have "uint x < 256" "uint y < 256" "0 \<le> uint x" "0 \<le> uint y" using uint_bounded [of x] uint_bounded [of y] by simp_all
  then show ?case using Cons byte_split [of "uint x" "uint y" "le_int xs" "le_int ys"] by (simp add: word_uint_eq_iff)
qed simp

lemma pattern_at:
  assumes "length pat = n" and "0 < n"
  shows "p + n \<le> length b \<and> le_int (take n (drop p b)) = le_int pat \<longleftrightarrow> take n (drop p b) = pat"
proof (cases "p + n \<le> length b")
  case True
  then show ?thesis using le_int_inject [of "take n (drop p b)" pat] assms by simp
next
  case False
  then have "length (take n (drop p b)) \<noteq> length pat" using assms by auto
  then show ?thesis using False by metis
qed

lemma pattern_first:
  assumes "take n (drop p b) = pat" and "length pat = n" and "0 < n"
  shows "p + n \<le> length b \<and> b ! p = hd (pat :: byte list)"
proof -
  have l: "p + n \<le> length b" using pattern_at [OF assms(2,3), of p b] assms(1) by blast
  then have "hd (drop p b) = hd pat" using assms by (metis hd_take)
  then show ?thesis using l assms(3) by (simp add: hd_drop_conv_nth)
qed

lemma crlf2At_iff: "crlf2At b p \<longleftrightarrow> take 2 (drop p b) = [0x0d, 0x0a]"
proof -
  have "le_int [0x0d, 0x0a] = 0x0A0D" by simp
  then show ?thesis unfolding crlf2At_def using pattern_at [of "[0x0d, 0x0a]" 2 p b] by (simp del: le_int.simps)
qed

lemma crlf4At_iff: "crlf4At b p \<longleftrightarrow> take 4 (drop p b) = [0x0d, 0x0a, 0x0d, 0x0a]"
proof -
  have "le_int [0x0d, 0x0a, 0x0d, 0x0a] = 0x0A0D0A0D" by simp
  then show ?thesis unfolding crlf4At_def using pattern_at [of "[0x0d, 0x0a, 0x0d, 0x0a]" 4 p b] by (simp del: le_int.simps)
qed

lemma indexCRLF2Swar_find: "indexCRLF2Swar b = find (\<lambda>p. take 2 (drop p b) = [0x0d, 0x0a]) [0..<length b]"
proof -
  have "crlfLoop (crlf2At b) 2 b 0 = find (crlf2At b) [0..<length b]"
    by (rule crlfLoop_find) (use pattern_first [of 2 _ b "[0x0d, 0x0a]"] in \<open>simp_all add: crlf2At_iff\<close>)
  moreover have "find (crlf2At b) [0..<length b] = None" if "length b < 2" using that by (auto simp: find_None_iff crlf2At_def)
  ultimately show ?thesis by (simp add: indexCRLF2Swar_def crlf2At_iff [abs_def])
qed

lemma indexCRLFCRLFSwar_find: "indexCRLFCRLFSwar b = find (\<lambda>p. take 4 (drop p b) = [0x0d, 0x0a, 0x0d, 0x0a]) [0..<length b]"
proof -
  have "crlfLoop (crlf4At b) 4 b 0 = find (crlf4At b) [0..<length b]"
    by (rule crlfLoop_find) (use pattern_first [of 4 _ b "[0x0d, 0x0a, 0x0d, 0x0a]"] in \<open>simp_all add: crlf4At_iff\<close>)
  moreover have "find (crlf4At b) [0..<length b] = None" if "length b < 4" using that by (auto simp: find_None_iff crlf4At_def)
  ultimately show ?thesis by (simp add: indexCRLFCRLFSwar_def crlf4At_iff [abs_def])
qed

lemma crlf_searches:
  assumes "crlf_ok cpu"
  shows "indexCRLF2 cpu b = find (\<lambda>p. take 2 (drop p b) = [0x0d, 0x0a]) [0..<length b]"
    and "indexCRLFCRLF cpu b = find (\<lambda>p. take 4 (drop p b) = [0x0d, 0x0a, 0x0d, 0x0a]) [0..<length b]"
  using assms unfolding crlf_ok_def indexCRLF2_def indexCRLFCRLF_def indexCRLF2Swar_find [symmetric] indexCRLFCRLFSwar_find [symmetric]
  by (auto simp: indexCRLF2Swar_def indexCRLFCRLFSwar_def)

end
