(* ===== verification/H1_RootFast.thy ===== *)
theory H1_RootFast
  imports H1_Head Crlf_Search
begin

text \<open>
  The fast path for \<open>GET / HTTP/1.1\<close> of \<open>core/h1_plain.go\<close>: the server keeps the complete response for
  the root, and \<open>matchPlainRootFastRequest\<close> answers a request with it when its header lines allow that.
  The lines are read by three scanners (byte by byte up to 96 bytes, line by line, or through an index
  of the whole block made by an AVX2 routine of \<open>core/h1scan_amd64.s\<close>, which is a parameter).  The theorem
  is that the fast path never disagrees with the full parser \<^const>\<open>parseH1RequestHead\<close>.
\<close>

section \<open>Model\<close>

subsection \<open>The index of a header block\<close>

definition h1BlockMaxChunks :: nat where "h1BlockMaxChunks = 16"
definition h1BlockMaxBytes :: nat where "h1BlockMaxBytes = h1BlockMaxChunks * 64"
definition h1BlockMinBytes :: nat where "h1BlockMinBytes = 48"

record h1BlockIndexOut =
  bi_starts :: "u64 list"
  bi_ends :: "u64 list"
  bi_cands :: "u64 list"

function nextBitLoop :: "u64 list \<Rightarrow> nat \<Rightarrow> u64 \<Rightarrow> nat \<Rightarrow> nat option" where
  "nextBitLoop ws i w chunks =
     (if w = 0 then
        (let i = i + 1 in if i \<ge> chunks then None else nextBitLoop ws i (ws ! i) chunks)
      else Some (64 * i + trailingZeros64 w))"
  by auto
termination by (relation "measure (\<lambda>(_, i, _, chunks). chunks - i)") (auto simp: Let_def)

declare nextBitLoop.simps [simp del]

definition h1NextBit :: "u64 list \<Rightarrow> nat \<Rightarrow> nat \<Rightarrow> nat option" where
  "h1NextBit ws start chunks =
     (let i = start div 64 in
      if i \<ge> chunks then None else nextBitLoop ws i (ws ! i AND push_bit (start mod 64) (NOT 0)) chunks)"

text \<open>The processor: the scanners of single lines, the search for CRLF and the block index.\<close>

record rootVector =
  rv_lines :: h1Vector
  rv_crlf :: crlfVector
  h1BlockIndexAVX2 :: "byte list \<Rightarrow> h1BlockIndexOut option"

definition h1BlockIndex :: "rootVector \<Rightarrow> byte list \<Rightarrow> h1BlockIndexOut option" where
  "h1BlockIndex cpu block =
     (let n = length block in
      if \<not> hasAVX2 (rv_lines cpu) \<or> n < 2 \<or> n > h1BlockMaxBytes \<or> block ! (n - 2) \<noteq> b8 CHR 0x0D \<or> block ! (n - 1) \<noteq> b8 CHR 0x0A then None
      else h1BlockIndexAVX2 cpu block)"

subsection \<open>The fields of a root request\<close>

record rootFastState =
  rf_hosts :: nat
  rf_maxCount :: nat
  rf_keepAlive :: bool

definition rf_field :: "gostring \<Rightarrow> byte list \<Rightarrow> bool \<Rightarrow> rootFastState \<Rightarrow> rootFastState \<times> bool" where
  "rf_field name v hostSafe st =
     (if length name = 4 then
        (if asciiEqualFoldBytes name (str ''host'') then (st\<lparr>rf_hosts := rf_hosts st + 1\<rparr>, hostSafe \<or> ValidateHost (trimOWS v)) else (st, True))
      else if length name = 10 then
        (if asciiEqualFoldBytes name (str ''connection'') then
           (let v = trimOWS v in
            if \<not> asciiEqualFoldBytes v (str ''keep-alive'') \<and> fst (connectionOptionList v) then (st\<lparr>rf_keepAlive := False\<rparr>, True) else (st, True))
         else (st, True))
      else if length name = 6 \<or> length name = 14 \<or> length name = 17 then
        (st, \<not> asciiEqualFoldBytes name (str ''expect'') \<and> \<not> asciiEqualFoldBytes name (str ''content-length'') \<and> \<not> asciiEqualFoldBytes name (str ''transfer-encoding''))
      else (st, True))"

fun valueClassLoop :: "byte list \<Rightarrow> nat \<Rightarrow> byte \<Rightarrow> byte \<Rightarrow> nat \<times> byte \<times> byte" where
  "valueClassLoop [] i seen common = (i, seen, common)"
| "valueClassLoop (c # p) i seen common =
     (if c \<noteq> b8 CHR 0x0D then valueClassLoop p (i + 1) (seen OR h1FieldClass c) (common AND h1FieldClass c) else (i, seen, common))"

definition rootFieldScalar :: "byte list \<Rightarrow> nat \<Rightarrow> (gostring \<times> byte list \<times> nat \<times> bool) option" where
  "rootFieldScalar fs start =
     (let i = skipToken (drop start fs) start in
      if i = start \<or> i = length fs \<or> fs ! i \<noteq> b8 CHR '':'' then None
      else
        let name = take (i - start) (drop start fs);
            valueStart = skipOWS (drop (i + 1) fs) (i + 1);
            (i, seen, common) = valueClassLoop (drop valueStart fs) valueStart 0 (NOT 0)
        in if i + 1 \<ge> length fs \<or> seen AND h1ClassSpecial \<noteq> 0 \<or> fs ! (i + 1) \<noteq> b8 CHR 0x0A then None
           else Some (name, take (i - valueStart) (drop valueStart fs), i + 2, common AND h1ClassHost \<noteq> 0))"

definition rootFieldVector :: "h1Vector \<Rightarrow> byte list \<Rightarrow> nat \<Rightarrow> (gostring \<times> byte list \<times> nat) option" where
  "rootFieldVector cpu fs i =
     (let rest = drop i fs;
          (special, nameEnd) = h1HeaderLineSpecials cpu rest;
          (e, bad) = classifyFirstSpecial rest special
      in if bad \<or> e = None \<or> e = Some 0 \<or> \<not> validH1Colon (take (the e) rest) nameEnd then None
         else Some (take (the nameEnd) rest, trimOWS (take (the e - (the nameEnd + 1)) (drop (the nameEnd + 1) rest)), i + the e + 2))"

text \<open>Both scanners move forward; the loops over the lines end.\<close>

lemma valueClassLoop_ge: "valueClassLoop p i seen common = (j, s, c) \<Longrightarrow> i \<le> j"
  by (induction p i seen common rule: valueClassLoop.induct) (auto split: if_splits)

lemma skip_ge: "i \<le> skipToken p i" "i \<le> skipOWS p i"
  by (simp_all add: skipToken_eq skipOWS_eq)

lemma rootFieldScalar_next: "rootFieldScalar fs i = Some (name, v, j, hs) \<Longrightarrow> i < j"
  using skip_ge(1) [of i "drop i fs"] skip_ge(2) [of "skipToken (drop i fs) i + 1" "drop (skipToken (drop i fs) i + 1) fs"]
  by (auto simp: rootFieldScalar_def Let_def split: if_splits prod.splits dest!: valueClassLoop_ge)

lemma rootFieldVector_next: "rootFieldVector cpu fs i = Some (name, v, j) \<Longrightarrow> i < j"
  by (auto simp: rootFieldVector_def Let_def split: if_splits prod.splits)

text \<open>\<open>scanFields\<close>: the end of the head and the state, or nothing.\<close>

function scanFields :: "byte list \<Rightarrow> nat \<Rightarrow> rootFastState \<Rightarrow> (nat \<times> rootFastState) option" where
  "scanFields buf i st =
     (if i + 1 < length buf then
        if buf ! i = b8 CHR 0x0D then (if buf ! (i + 1) = b8 CHR 0x0A then Some (i + 2, st) else None)
        else
          case rootFieldScalar buf i of
            None \<Rightarrow> None
          | Some (name, v, next, hostSafe) \<Rightarrow>
              (case rf_field name v hostSafe st of (st, ok) \<Rightarrow> if ok then scanFields buf next st else None)
      else None)"
  by pat_completeness auto
termination by (relation "measure (\<lambda>(buf, i, st). length buf - i)") (auto dest: rootFieldScalar_next)

declare scanFields.simps [simp del]

function lineFieldsLoop :: "h1Vector \<Rightarrow> byte list \<Rightarrow> nat \<Rightarrow> nat \<Rightarrow> rootFastState \<Rightarrow> rootFastState \<times> bool" where
  "lineFieldsLoop cpu block i count st =
     (if i < length block then
        case (if length block - i \<ge> h1ScalarScanMax then map_option (\<lambda>(name, v, next). (name, v, next, False)) (rootFieldVector cpu block i)
              else rootFieldScalar block i) of
          None \<Rightarrow> (st, False)
        | Some (name, v, next, hostSafe) \<Rightarrow>
            (case rf_field name v hostSafe st of (st, ok) \<Rightarrow> if ok then lineFieldsLoop cpu block next (count + 1) st else (st, False))
      else (st, count \<le> rf_maxCount st))"
  by pat_completeness auto
termination by (relation "measure (\<lambda>(cpu, block, i, count, st). length block - i)")
    (auto dest: rootFieldScalar_next rootFieldVector_next split: if_splits option.splits)

declare lineFieldsLoop.simps [simp del]

definition lineFields :: "h1Vector \<Rightarrow> byte list \<Rightarrow> rootFastState \<Rightarrow> rootFastState \<times> bool" where
  "lineFields cpu block st = lineFieldsLoop cpu block 0 0 st"

definition minH1FieldLineBytes :: nat where "minH1FieldLineBytes = 4"
definition maxH1FieldStartsPerChunk :: nat where "maxH1FieldStartsPerChunk = 64 div minH1FieldLineBytes"

text \<open>
  The field that starts at a flagged position: its name ends at the next flag of \<open>ends\<close>, its line at the
  next flag of \<open>starts\<close> or with the block.  A start without an end would be an index out of range.
\<close>

definition candField :: "byte list \<Rightarrow> h1BlockIndexOut \<Rightarrow> nat \<Rightarrow> nat \<Rightarrow> rootFastState \<Rightarrow> rootFastState \<times> bool" where
  "candField block idx chunks start st =
     (case h1NextBit (bi_ends idx) start chunks of
        None \<Rightarrow> (st, False)
      | Some colon \<Rightarrow>
          let e = (case h1NextBit (bi_starts idx) colon chunks of Some next \<Rightarrow> next - 2 | None \<Rightarrow> length block - 2)
          in rf_field (take (colon - start) (drop start block)) (take (e - (colon + 1)) (drop (colon + 1) block)) False st)"

text \<open>The flags \<open>c\<close> of chunk \<open>ci\<close>; at most 64 of them, which is the fuel.\<close>

fun candLoop :: "nat \<Rightarrow> byte list \<Rightarrow> h1BlockIndexOut \<Rightarrow> nat \<Rightarrow> nat \<Rightarrow> u64 \<Rightarrow> rootFastState \<Rightarrow> rootFastState \<times> bool" where
  "candLoop 0 block idx chunks ci c st = (st, True)"
| "candLoop (Suc fuel) block idx chunks ci c st =
     (if c \<noteq> 0 then
        (case candField block idx chunks (64 * ci + trailingZeros64 c) st of
           (st, ok) \<Rightarrow> if ok then candLoop fuel block idx chunks ci (c AND (c - 1)) st else (st, False))
      else (st, True))"

function chunkLoop :: "byte list \<Rightarrow> h1BlockIndexOut \<Rightarrow> nat \<Rightarrow> nat \<Rightarrow> rootFastState \<Rightarrow> rootFastState \<times> bool" where
  "chunkLoop block idx chunks ci st =
     (if ci < chunks then
        (case candLoop 64 block idx chunks ci (bi_cands idx ! ci) st of
           (st, ok) \<Rightarrow> if ok then chunkLoop block idx chunks (ci + 1) st else (st, False))
      else (st, True))"
  by pat_completeness auto
termination by (relation "measure (\<lambda>(block, idx, chunks, ci, st). chunks - ci)") auto

declare chunkLoop.simps [simp del]

definition onesCount64 :: "u64 \<Rightarrow> nat" where
  "onesCount64 w = length (filter (bit w) [0..<64])"

function startsLoop :: "u64 list \<Rightarrow> nat \<Rightarrow> nat \<Rightarrow> nat \<Rightarrow> nat \<Rightarrow> bool" where
  "startsLoop ws chunks maxCount ci count =
     (if ci < chunks then
        let count = count + onesCount64 (ws ! ci) in
        if count + (chunks - 1 - ci) * maxH1FieldStartsPerChunk \<le> maxCount then True
        else startsLoop ws chunks maxCount (ci + 1) count
      else count \<le> maxCount)"
  by pat_completeness auto
termination by (relation "measure (\<lambda>(ws, chunks, maxCount, ci, count). chunks - ci)") (auto simp: Let_def)

declare startsLoop.simps [simp del]

definition h1BlockStartsWithin :: "h1BlockIndexOut \<Rightarrow> nat \<Rightarrow> nat \<Rightarrow> bool" where
  "h1BlockStartsWithin idx chunks maxCount = startsLoop (bi_starts idx) chunks maxCount 0 0"

text \<open>\<open>indexedFields\<close>: nothing when the block has no index, otherwise the state and the answer.\<close>

definition indexedFields :: "rootVector \<Rightarrow> byte list \<Rightarrow> rootFastState \<Rightarrow> (rootFastState \<times> bool) option" where
  "indexedFields cpu block st =
     (case h1BlockIndex cpu block of
        None \<Rightarrow> None
      | Some idx \<Rightarrow>
          let chunks = (length block + 63) div 64 in
          Some (case chunkLoop block idx chunks 0 st of
                  (st, ok) \<Rightarrow>
                    if \<not> ok then (st, False)
                    else (st, length block \<le> rf_maxCount st * minH1FieldLineBytes \<or> h1BlockStartsWithin idx chunks (rf_maxCount st))))"

definition rf_fields :: "rootVector \<Rightarrow> byte list \<Rightarrow> rootFastState \<Rightarrow> rootFastState \<times> bool" where
  "rf_fields cpu block st =
     (case (if length block \<ge> h1BlockMinBytes then indexedFields cpu block st else None) of
        Some res \<Rightarrow> res
      | None \<Rightarrow> lineFields (rv_lines cpu) block st)"

definition rootFastHeaders :: "rootVector \<Rightarrow> byte list \<Rightarrow> nat \<Rightarrow> bool option" where
  "rootFastHeaders cpu block maxHeaderCount =
     (case rf_fields cpu block \<lparr>rf_hosts = 0, rf_maxCount = maxHeaderCount, rf_keepAlive = True\<rparr> of
        (st, ok) \<Rightarrow> if \<not> ok \<or> rf_hosts st \<noteq> 1 then None else Some (rf_keepAlive st))"

subsection \<open>The request\<close>

definition rootPrefix16 :: "byte list" where
  "rootPrefix16 = str ''GET / HTTP/1.1'' @ [0x0d, 0x0a]"

definition equalPrefix16 :: "byte list \<Rightarrow> byte list \<Rightarrow> bool" where
  "equalPrefix16 data ref \<longleftrightarrow> le_word data = le_word ref \<and> le_word (drop 8 data) = le_word (drop 8 ref)"

definition rootScalarScanMaxBytes :: nat where "rootScalarScanMaxBytes = 96"
definition rootFastHeadTerminatorLen :: nat where "rootFastHeadTerminatorLen = 2"

definition rootFastUncountedHeadLen :: "nat \<Rightarrow> nat" where
  "rootFastUncountedHeadLen maxHeaderCount = length rootPrefix16 + maxHeaderCount * minH1FieldLineBytes + rootFastHeadTerminatorLen"

definition scalarRootFieldsExceed :: "byte list \<Rightarrow> nat \<Rightarrow> nat \<Rightarrow> bool" where
  "scalarRootFieldsExceed data consumed maxHeaderCount \<longleftrightarrow>
     consumed \<le> rootScalarScanMaxBytes
     \<and> count_list (take (consumed - rootFastHeadTerminatorLen - length rootPrefix16) (drop (length rootPrefix16) data)) 0x0a > maxHeaderCount"

definition endsWithHeaderTerminator :: "byte list \<Rightarrow> nat \<Rightarrow> bool" where
  "endsWithHeaderTerminator buf lineLen \<longleftrightarrow>
     (let n = length buf in n \<ge> lineLen + 2 \<and> n \<ge> 4 \<and> drop (n - 4) buf = [0x0d, 0x0a, 0x0d, 0x0a])"

definition findHeaderTerminatorBytes :: "crlfVector \<Rightarrow> byte list \<Rightarrow> nat \<Rightarrow> nat option" where
  "findHeaderTerminatorBytes cpu buf start =
     (if start \<ge> length buf then None
      else case indexCRLFCRLF cpu (drop start buf) of None \<Rightarrow> None | Some idx \<Rightarrow> Some (start + idx + 4))"

text \<open>The consumed bytes and whether to keep the connection; a request that needs more input is not answered either.\<close>

definition parsePlainFastRootRequest :: "rootVector \<Rightarrow> byte list \<Rightarrow> nat \<Rightarrow> nat \<Rightarrow> (nat \<times> bool) option" where
  "parsePlainFastRootRequest cpu buf lineLen maxHeaderCount =
     (let first =
        (if length buf \<le> rootScalarScanMaxBytes then
           (case scanFields buf lineLen \<lparr>rf_hosts = 0, rf_maxCount = 0, rf_keepAlive = True\<rparr> of
              Some (headerEnd, st) \<Rightarrow> if rf_hosts st = 1 then Some (headerEnd, rf_keepAlive st) else None
            | None \<Rightarrow> None)
         else if endsWithHeaderTerminator buf lineLen then
           map_option (\<lambda>keepAlive. (length buf, keepAlive)) (rootFastHeaders cpu (take (length buf - 2 - lineLen) (drop lineLen buf)) maxHeaderCount)
         else None)
      in case first of
           Some res \<Rightarrow> Some res
         | None \<Rightarrow>
             (case findHeaderTerminatorBytes (rv_crlf cpu) buf lineLen of
                None \<Rightarrow> None
              | Some headerEnd \<Rightarrow>
                  map_option (\<lambda>keepAlive. (headerEnd, keepAlive)) (rootFastHeaders cpu (take (headerEnd - 2 - lineLen) (drop lineLen buf)) maxHeaderCount)))"

record plainRootFastResponse =
  getKeepAlive :: "byte list"
  getClose :: "byte list"
  tlsKeepAlive :: "byte list option"
  tlsClose :: "byte list option"
  rr_maxHeaderCount :: nat
  uncountedHeadLen :: nat

definition bytesFor :: "plainRootFastResponse \<Rightarrow> bool \<Rightarrow> bool \<Rightarrow> byte list" where
  "bytesFor f keepAlive tls =
     (if tls \<and> tlsKeepAlive f \<noteq> None then (if keepAlive then the (tlsKeepAlive f) else (case tlsClose f of Some b \<Rightarrow> b | None \<Rightarrow> []))
      else if keepAlive then getKeepAlive f else getClose f)"

definition matchPlainRootFastRequest :: "rootVector \<Rightarrow> plainRootFastResponse option \<Rightarrow> int \<Rightarrow> byte list \<Rightarrow> bool \<Rightarrow> (byte list \<times> nat \<times> bool) option" where
  "matchPlainRootFastRequest cpu fast maxHeaderSize data tls =
     (case fast of
        None \<Rightarrow> None
      | Some f \<Rightarrow>
          if length data < length rootPrefix16 + 4 \<or> \<not> equalPrefix16 data rootPrefix16 then None
          else
            let maxHeaderBytes = (if maxHeaderSize \<le> 0 then 8192 else nat maxHeaderSize) in
            (case parsePlainFastRootRequest cpu data (length rootPrefix16) (rr_maxHeaderCount f) of
               None \<Rightarrow> None
             | Some (consumed, keepAlive) \<Rightarrow>
                 if consumed > maxHeaderBytes + 2 \<or> consumed > uncountedHeadLen f \<and> scalarRootFieldsExceed data consumed (rr_maxHeaderCount f) then None
                 else Some (bytesFor f keepAlive tls, consumed, \<not> keepAlive)))"

section \<open>Header lines\<close>

abbreviation lines_of :: "byte list list \<Rightarrow> byte list" where
  "lines_of ls \<equiv> concat (map (\<lambda>l. l @ crlf) ls)"

lemma colon_no_token: "\<not> h1TokenChar (b8 CHR '':'')"
  by (simp add: h1TokenChar_def word_le_nat_alt)

lemma header_line_parts:
  assumes "isH1Token name" and "clean v"
  shows "header_line (name @ b8 CHR '':'' # v)" and "head_field (name @ b8 CHR '':'' # v) = (name, trimOWS v)"
    and "takeWhile h1TokenChar (name @ b8 CHR '':'' # v) = name"
proof -
  show t: "takeWhile h1TokenChar (name @ b8 CHR '':'' # v) = name"
    using assms(1) colon_no_token by (simp add: isH1Token_iff list_all_iff takeWhile_append2)
  then show "head_field (name @ b8 CHR '':'' # v) = (name, trimOWS v)" by (simp add: head_field_def)
  have "clean (name @ b8 CHR '':'' # v)" using assms not_special(3) token_clean [of name] by (simp add: clean_def isH1Token_iff)
  then show "header_line (name @ b8 CHR '':'' # v)" using assms(1) t by (intro header_line_colon) (simp_all add: isH1Token_iff)
qed

lemma header_lineE:
  assumes "header_line l"
  obtains name v where "isH1Token name" "clean v" "l = name @ b8 CHR '':'' # v" "head_field l = (name, trimOWS v)"
  using assms unfolding header_line_def by (auto simp: clean_def)

lemma header_line_nonempty: "header_line l \<Longrightarrow> 2 \<le> length l"
  by (erule header_lineE) (auto simp: isH1Token_iff Suc_le_eq)

lemma trimOWS_idem: "trimOWS (trimOWS v) = trimOWS v"
proof -
  have d: "dropWhile P (dropWhile P xs) = dropWhile P xs" for P and xs :: "byte list" by (induction xs) auto
  let ?u = "dropWhile isOWS v" and ?w = "rev (dropWhile isOWS (rev (dropWhile isOWS v)))"
  have "dropWhile isOWS ?w = ?w"
  proof (cases "?w = []")
    case False
    then have "hd ?w = hd ?u"
      by (metis hd_append2 rev_append rev_rev_ident takeWhile_dropWhile_id)
    moreover have "?u \<noteq> []" using False by (metis dropWhile.simps(1) rev.simps(1))
    ultimately show ?thesis using hd_dropWhile [of isOWS v] False by (cases ?w) auto
  next
    case True
    then show ?thesis by (simp only: dropWhile.simps)
  qed
  then show ?thesis unfolding trimOWS_def by (simp add: d)
qed

section \<open>The effect of one field\<close>

lemma fold_bytes: "asciiEqualFoldBytes a b \<longleftrightarrow> low a = low b"
  by (auto simp: asciiEqualFoldBytes_def low_def list_all2_conv_all_nth list_eq_iff_nth_eq)

lemma low_plain: "low (str ''host'') = str ''host''" "low (str ''connection'') = str ''connection''" "low (str ''expect'') = str ''expect''"
  "low (str ''content-length'') = str ''content-length''" "low (str ''transfer-encoding'') = str ''transfer-encoding''" "low (str ''close'') = str ''close''"
  "low (str ''keep-alive'') = str ''keep-alive''"
  by (simp_all add: low_def asciiLower_def)

lemma close_token: "low v = str ''close'' \<Longrightarrow> containsTokenFold v (str ''close'')"
proof -
  assume v: "low v = str ''close''"
  have "b8 CHR '','' \<notin> set (low v)" "b8 CHR '' '' \<notin> set (low v)" "b8 CHR 0x09 \<notin> set (low v)" unfolding v by simp_all
  moreover have "asciiLower (b8 CHR '','') = b8 CHR '',''" "asciiLower (b8 CHR '' '') = b8 CHR '' ''" "asciiLower (b8 CHR 0x09) = b8 CHR 0x09"
    by (simp_all add: asciiLower_def)
  ultimately have n: "b8 CHR '','' \<notin> set v" "b8 CHR '' '' \<notin> set v" "b8 CHR 0x09 \<notin> set v" unfolding low_def by (metis image_eqI set_map)+
  then have "trimOWS v = v" by (intro trimOWS_id) (auto simp: list_all_iff isOWS_def)
  moreover have "indexByte v (b8 CHR '','') = None" using n by (simp add: indexByte_None)
  moreover have "v \<noteq> []" using v by (auto simp: low_def)
  ultimately show ?thesis using v by (subst containsTokenFold.simps) (simp add: EqualFoldASCII_iff low_def low_plain(6) [unfolded low_def] del: str_simps)
qed

lemma close_requested: "fst (connectionOptions v) \<longleftrightarrow> \<not> asciiEqualFoldBytes v (str ''keep-alive'') \<and> fst (connectionOptionList v)"
  using close_token [of v] by (auto simp: connectionOptions_def connectionOptionList_def fold_bytes low_plain simp del: str_simps)

lemma rf_field_flat:
  "rf_field name v hostSafe st =
     (let k = low name; v = trimOWS v in
      if k = str ''host'' then (st\<lparr>rf_hosts := rf_hosts st + 1\<rparr>, hostSafe \<or> ValidateHost v)
      else if k = str ''connection'' then (if fst (connectionOptions v) then st\<lparr>rf_keepAlive := False\<rparr> else st, True)
      else (st, k \<noteq> str ''expect'' \<and> k \<noteq> str ''content-length'' \<and> k \<noteq> str ''transfer-encoding''))"
proof -
  have l: "low name = k \<Longrightarrow> length name = length k" for k using low_length [of name] by auto
  have k: "low name = str ''host'' \<Longrightarrow> length name = 4" "low name = str ''connection'' \<Longrightarrow> length name = 10" "low name = str ''expect'' \<Longrightarrow> length name = 6"
    "low name = str ''content-length'' \<Longrightarrow> length name = 14" "low name = str ''transfer-encoding'' \<Longrightarrow> length name = 17"
    by (drule l, simp)+
  show ?thesis unfolding rf_field_def Let_def fold_bytes low_plain close_requested using k by (auto simp del: str_simps)
qed

lemma rf_field_trim: "(hostSafe \<Longrightarrow> ValidateHost (trimOWS v)) \<Longrightarrow> rf_field name v hostSafe st = rf_field name (trimOWS v) False st"
  by (cases hostSafe) (simp_all add: rf_field_flat trimOWS_idem Let_def del: str_simps)

text \<open>The lines of a head, one after the other.\<close>

fun rootRun :: "byte list list \<Rightarrow> rootFastState \<Rightarrow> rootFastState option" where
  "rootRun [] st = Some st"
| "rootRun (l # ls) st = (case rf_field (fst (head_field l)) (snd (head_field l)) False st of (st, ok) \<Rightarrow> if ok then rootRun ls st else None)"

lemma rf_field_maxCount: "rf_field name v hs st = (st', ok) \<Longrightarrow> rf_maxCount st' = rf_maxCount st"
  by (auto simp: rf_field_flat Let_def simp del: str_simps split: if_splits)

section \<open>The scanners read header lines\<close>

lemma valueClassLoop_end: "fst (valueClassLoop p i seen common) = i + length (takeWhile (\<lambda>c. c \<noteq> b8 CHR 0x0D) p)"
  by (induction p i seen common rule: valueClassLoop.induct) simp_all

lemma or_special: "(x OR y) AND h1ClassSpecial \<noteq> 0 \<longleftrightarrow> x AND h1ClassSpecial \<noteq> 0 \<or> y AND h1ClassSpecial \<noteq> 0"
proof -
  have "z AND h1ClassSpecial = 0 \<longleftrightarrow> \<not> bit z 2" for z :: byte
    using and_exp_eq_0_iff_not_bit [of z 2] by (simp add: h1ClassSpecial_def)
  then show ?thesis by (simp add: bit_or_iff)
qed

lemma valueClassLoop_seen:
  "fst (snd (valueClassLoop p i seen common)) AND h1ClassSpecial \<noteq> 0 \<longleftrightarrow>
     seen AND h1ClassSpecial \<noteq> 0 \<or> list_ex isH1Special (takeWhile (\<lambda>c. c \<noteq> b8 CHR 0x0D) p)"
  by (induction p i seen common rule: valueClassLoop.induct) (auto simp: or_special class_bits)

lemma valueClassLoop_common:
  "snd (snd (valueClassLoop p i seen common)) AND h1ClassHost \<noteq> 0 \<longleftrightarrow>
     common AND h1ClassHost \<noteq> 0 \<and> list_all (\<lambda>c. invalidHostChar c = 0) (takeWhile (\<lambda>c. c \<noteq> b8 CHR 0x0D) p)"
  by (induction p i seen common rule: valueClassLoop.induct) (auto simp: and_host class_bits)

lemma takeWhile_stop: "length (takeWhile P p) < length p \<Longrightarrow> p = takeWhile P p @ p ! length (takeWhile P p) # drop (length (takeWhile P p) + 1) p"
  by (metis append_take_drop_id Cons_nth_drop_Suc takeWhile_eq_take Suc_eq_plus1)

lemma trimOWS_leading: "list_all isOWS w \<Longrightarrow> trimOWS (w @ u) = trimOWS u"
  by (simp add: trimOWS_def list_all_iff)

lemma validHost: "invalidHostChar c = 0 \<longleftrightarrow> c \<in> set validHostChars"
  by (simp add: invalidHostChar_def)

lemma rootFieldScalar_line:
  assumes "rootFieldScalar fs i = Some (name, v, next, hostSafe)"
  obtains l rest where "drop i fs = l @ crlf @ rest" "header_line l" "head_field l = (name, trimOWS v)" "next = i + length l + 2"
    and "hostSafe \<Longrightarrow> ValidateHost (trimOWS v)"
proof -
  let ?p = "drop i fs"
  let ?name = "takeWhile h1TokenChar ?p"
  let ?q = "drop (i + length ?name + 1) fs"
  let ?w = "takeWhile isOWS ?q" and ?d = "dropWhile isOWS ?q"
  let ?u = "takeWhile (\<lambda>c. c \<noteq> b8 CHR 0x0D) ?d"
  let ?vs = "i + length ?name + 1 + length ?w"
  have d: "drop ?vs fs = ?d" by (simp add: dropWhile_eq_drop add.commute add.left_commute)
  obtain seen common where loop: "valueClassLoop ?d ?vs 0 (NOT 0) = (?vs + length ?u, seen, common)"
    using valueClassLoop_end [of ?d ?vs 0 "NOT 0"] by (cases "valueClassLoop ?d ?vs 0 (NOT 0)") auto
  have c: "?name \<noteq> []" "i + length ?name \<noteq> length fs" "fs ! (i + length ?name) = b8 CHR '':''" "name = ?name"
    "?vs + length ?u + 1 < length fs" "seen AND h1ClassSpecial = 0" "fs ! (?vs + length ?u + 1) = b8 CHR 0x0A" "v = ?u" "next = ?vs + length ?u + 2"
    "hostSafe = (common AND h1ClassHost \<noteq> 0)"
    using assms loop d unfolding rootFieldScalar_def skipToken_eq skipOWS_eq Let_def by (auto simp: takeWhile_eq_take [symmetric] split: if_splits)
  have clean_u: "clean ?u" and host: "hostSafe \<Longrightarrow> ValidateHost ?u"
    using valueClassLoop_seen [of ?d ?vs 0 "NOT 0"] valueClassLoop_common [of ?d ?vs 0 "NOT 0"] loop c(6,10)
    by (auto simp: clean_def list_ex_iff list_all_iff ValidateHost_iff validHost)
  have "length ?u < length ?d" using c(5) arg_cong [OF d, of length] by simp
  from takeWhile_stop [OF this] have "?d = ?u @ ?d ! length ?u # drop (length ?u + 1) ?d" .
  moreover have "?d ! length ?u = b8 CHR 0x0D" using nth_length_takeWhile [OF \<open>length ?u < length ?d\<close>] by simp
  moreover have "drop (length ?u + 1) ?d = b8 CHR 0x0A # drop (?vs + length ?u + 2) fs"
  proof -
    have "drop (k + 1) ?d = drop (?vs + k + 1) fs" for k unfolding d [symmetric] by (simp add: add.commute add.left_commute)
    then show ?thesis using Cons_nth_drop_Suc [OF c(5)] c(7) by simp
  qed
  ultimately have ud: "?d = ?u @ crlf @ drop (?vs + length ?u + 2) fs" by (simp add: crlf_def)
  have "length ?name < length ?p" using c(2) length_takeWhile_le [of h1TokenChar ?p] c(5) by simp
  from takeWhile_stop [OF this] have "?p = ?name @ b8 CHR '':'' # ?q" using c(3,5) by (simp add: add.commute add.left_commute)
  also have "?q = ?w @ ?d" by simp
  also note ud
  finally have p: "?p = (?name @ b8 CHR '':'' # ?w @ ?u) @ crlf @ drop (?vs + length ?u + 2) fs" by simp
  have t: "isH1Token ?name" using c(1) by (auto simp: isH1Token_iff list_all_iff dest: set_takeWhileD)
  have w: "list_all isOWS ?w" by (auto simp: list_all_iff dest: set_takeWhileD)
  then have "clean (?w @ ?u)" using clean_u not_special(2) by (auto simp: clean_def list_all_iff)
  note h = header_line_parts [OF t this] 
  show thesis
    using that [OF p h(1)] h(2) trimOWS_leading [OF w] c(4,8,9) host trimOWS_id [OF host_no_space] by simp
qed

lemma rootFieldVector_line:
  assumes "vector_ok cpu" and "rootFieldVector cpu fs i = Some (name, v, next)"
  obtains l rest where "drop i fs = l @ crlf @ rest" "header_line l" "head_field l = (name, trimOWS v)" "next = i + length l + 2"
proof -
  let ?p = "drop i fs"
  obtain special nameEnd e bad where sp: "h1HeaderLineSWAR ?p = (special, nameEnd)" "classifyFirstSpecial ?p special = (e, bad)" by fastforce
  have c: "\<not> bad" "e \<noteq> None" "e \<noteq> Some 0" "validH1Colon (take (the e) ?p) nameEnd" "name = take (the nameEnd) ?p"
    "v = trimOWS (take (the e - (the nameEnd + 1)) (drop (the nameEnd + 1) ?p))" "next = i + the e + 2"
    using assms(2) sp unfolding rootFieldVector_def vector_scans(2) [OF assms(1)] Let_def by (auto split: if_splits)
  then obtain n where n: "nameEnd = Some n" "0 < n" "n < length (take (the e) ?p)" "take (the e) ?p ! n = b8 CHR '':''" by (auto simp: validH1Colon_def split: option.splits)
  have tk: "special = firstSpecialTail ?p 0" "n = length (takeWhile h1TokenChar ?p)" using sp(1) n(1) unfolding swar_line by (auto split: if_splits)
  then obtain l rest where l: "?p = l @ 0x0d # 0x0a # rest" "clean l" "e = Some (length l)"
    using sp(2) c(1,2) scanLine_end [of ?p "the e"] by (auto simp: scanLine_def)
  then have le: "take (the e) ?p = l" by simp
  have n': "n = length (takeWhile h1TokenChar l)" using token_in_line(1) [OF l(1)] tk(2) by simp
  have h: "header_line l" using n n' l(2) unfolding le by (intro header_line_colon) auto
  moreover have "head_field l = (name, trimOWS v)"
    using c(5,6) n l n' by (simp add: head_field_def Let_def trimOWS_idem)
  ultimately show thesis using that [of l rest] l(1,3) c(7) by (simp add: crlf_def)
qed

lemma line_after: "drop i buf = l @ crlf @ rest \<Longrightarrow> drop (i + length l + 2) buf = rest"
proof -
  assume "drop i buf = l @ crlf @ rest"
  moreover have "drop (i + length l + 2) buf = drop (length l + 2) (drop i buf)" by (simp add: add.commute)
  ultimately show ?thesis by (simp add: crlf_def del: drop_drop)
qed

lemma scanFields_lines:
  "scanFields buf i st = Some (e, st') \<Longrightarrow> \<exists>ls rest. drop i buf = lines_of ls @ crlf @ rest \<and> list_all header_line ls \<and> e = i + length (lines_of ls) + 2 \<and> rootRun ls st = Some st'"
proof (induction "length buf - i" arbitrary: i st rule: less_induct)
  case less
  have i: "i + 1 < length buf" using less.prems by (subst (asm) scanFields.simps) (auto split: if_splits)
  show ?case
  proof (cases "buf ! i = b8 CHR 0x0D")
    case True
    then have "e = i + 2" "st' = st" "buf ! (i + 1) = b8 CHR 0x0A" using less.prems i by (subst (asm) scanFields.simps, auto split: if_splits)+
    moreover have "drop i buf = buf ! i # buf ! (i + 1) # drop (i + 2) buf" using i by (simp add: Cons_nth_drop_Suc)
    ultimately show ?thesis using True by (intro exI [of _ "[]"] exI [of _ "drop (i + 2) buf"]) (simp add: crlf_def)
  next
    case False
    obtain name v nx hostSafe where f: "rootFieldScalar buf i = Some (name, v, nx, hostSafe)"
      using less.prems i False by (subst (asm) scanFields.simps) (auto split: option.splits)
    obtain l rest where l: "drop i buf = l @ crlf @ rest" "header_line l" "head_field l = (name, trimOWS v)" "nx = i + length l + 2" "hostSafe \<Longrightarrow> ValidateHost (trimOWS v)"
      using rootFieldScalar_line [OF f] by metis
    obtain st1 where st1: "rf_field name v hostSafe st = (st1, True)" "scanFields buf nx st1 = Some (e, st')"
      using less.prems i False f by (subst (asm) scanFields.simps) (auto split: if_splits prod.splits)
    have "length buf - nx < length buf - i" using rootFieldScalar_next [OF f] i by simp
    from less.hyps [OF this st1(2)]
    obtain ls rest' where IH: "rest = lines_of ls @ crlf @ rest'" "list_all header_line ls" "e = nx + length (lines_of ls) + 2" "rootRun ls st1 = Some st'"
      using line_after [OF l(1)] l(4) by auto
    then show ?thesis using l st1(1) rf_field_trim [of hostSafe v name st, OF l(5)]
      by (intro exI [of _ "l # ls"] exI [of _ rest']) (simp add: crlf_def)
  qed
qed

lemma lineFieldsLoop_lines:
  assumes "vector_ok cpu"
  shows "lineFieldsLoop cpu block i count st = (st', True) \<Longrightarrow> \<exists>ls. drop i block = lines_of ls \<and> list_all header_line ls \<and> rootRun ls st = Some st' \<and> count + length ls \<le> rf_maxCount st'"
proof (induction "length block - i" arbitrary: i count st rule: less_induct)
  case less
  show ?case
  proof (cases "i < length block")
    case False
    then show ?thesis using less.prems by (subst (asm) lineFieldsLoop.simps) (auto intro!: exI [of _ "[]"])
  next
    case True
    let ?f = "if length block - i \<ge> h1ScalarScanMax then map_option (\<lambda>(name, v, next). (name, v, next, False)) (rootFieldVector cpu block i) else rootFieldScalar block i"
    obtain name v nx hostSafe where f: "?f = Some (name, v, nx, hostSafe)"
      using less.prems True by (subst (asm) lineFieldsLoop.simps) (auto split: option.splits if_splits)
    obtain l rest where l: "drop i block = l @ crlf @ rest" "header_line l" "head_field l = (name, trimOWS v)" "nx = i + length l + 2" "hostSafe \<Longrightarrow> ValidateHost (trimOWS v)"
      using f rootFieldScalar_line [of block i name v nx hostSafe] rootFieldVector_line [OF assms, of block i name v nx] by (auto split: if_splits)
    obtain st1 where st1: "rf_field name v hostSafe st = (st1, True)" "lineFieldsLoop cpu block nx (count + 1) st1 = (st', True)"
      using less.prems True unfolding lineFieldsLoop.simps [of cpu block i] f by (auto split: if_splits prod.splits)
    have "length block - nx < length block - i" using l(4) True by simp
    from less.hyps [OF this st1(2)]
    obtain ls where IH: "rest = lines_of ls" "list_all header_line ls" "rootRun ls st1 = Some st'" "count + 1 + length ls \<le> rf_maxCount st'"
      using line_after [OF l(1)] l(4) by auto
    then show ?thesis using l st1(1) rf_field_trim [of hostSafe v name st, OF l(5)] by (intro exI [of _ "l # ls"]) simp
  qed
qed

section \<open>The flags of the index\<close>

definition flag :: "u64 list \<Rightarrow> nat \<Rightarrow> bool" where
  "flag ws p \<longleftrightarrow> bit (ws ! (p div 64)) (p mod 64)"

lemma flag_at: "j < 64 \<Longrightarrow> flag ws (64 * i + j) = bit (ws ! i) j"
  by (simp add: flag_def)

lemma find_upt_iff: "find P [a..<n] = Some q \<longleftrightarrow> a \<le> q \<and> q < n \<and> P q \<and> (\<forall>r. a \<le> r \<and> r < q \<longrightarrow> \<not> P r)"
proof (induction "n - a" arbitrary: a)
  case (Suc d)
  then have "find P [a..<n] = (if P a then Some a else find P [Suc a..<n])" by (simp add: upt_conv_Cons)
  moreover have "find P [Suc a..<n] = Some q \<longleftrightarrow> Suc a \<le> q \<and> q < n \<and> P q \<and> (\<forall>r. Suc a \<le> r \<and> r < q \<longrightarrow> \<not> P r)" using Suc by auto
  ultimately show ?case using Suc.hyps(2) by (auto simp: Suc_le_eq) (metis le_less not_less_eq_eq order_le_less)+
qed auto

lemma find_upt_None: "find P [a..<n] = None \<longleftrightarrow> (\<forall>r. a \<le> r \<and> r < n \<longrightarrow> \<not> P r)"
  by (auto simp: find_None_iff)

lemma bit_below_64: "bit (w :: u64) j \<Longrightarrow> j < 64"
  using bit_imp_le_length by fastforce

lemma word_eq_0_iff_bits: "(w :: u64) = 0 \<longleftrightarrow> (\<forall>j < 64. \<not> bit w j)"
  using bit_below_64 by (auto simp: bit_eq_iff)

lemma nextBitLoop_find:
  assumes "i < chunks" and "\<And>j. j < 64 \<Longrightarrow> bit w j \<longleftrightarrow> k \<le> j \<and> flag ws (64 * i + j)" and "k < 64"
  shows "nextBitLoop ws i w chunks = find (flag ws) [64 * i + k..<64 * chunks]"
  using assms
proof (induction "chunks - i" arbitrary: i w k rule: less_induct)
  case less
  show ?case
  proof (cases "w = 0")
    case False
    let ?t = "trailingZeros64 w"
    note t = trailingZeros64_ok [OF False]
    have t64: "?t < 64" using t(1) by (rule bit_below_64)
    have "k \<le> ?t" "flag ws (64 * i + ?t)" using less.prems(2) [OF t64] t(1) by auto
    moreover have "\<not> flag ws r" if r: "64 * i + k \<le> r" "r < 64 * i + ?t" for r
    proof -
      have "r = 64 * i + (r - 64 * i)" "r - 64 * i < ?t" "k \<le> r - 64 * i" using r by auto
      then show ?thesis using less.prems(2) [of "r - 64 * i"] t(2) [of "r - 64 * i"] t64 by auto
    qed
    ultimately have "find (flag ws) [64 * i + k..<64 * chunks] = Some (64 * i + ?t)" unfolding find_upt_iff using t64 less.prems(1) by auto
    then show ?thesis using False by (subst nextBitLoop.simps) simp
  next
    case True
    have no: "\<not> flag ws r" if r: "64 * i + k \<le> r" "r < 64 * (i + 1)" for r
    proof -
      have "r = 64 * i + (r - 64 * i)" "r - 64 * i < 64" "k \<le> r - 64 * i" using r by auto
      then show ?thesis using less.prems(2) [of "r - 64 * i"] True by auto
    qed
    show ?thesis
    proof (cases "i + 1 < chunks")
      case False
      then have "chunks = i + 1" using less.prems(1) by simp
      then have "find (flag ws) [64 * i + k..<64 * chunks] = None" unfolding find_upt_None using no by auto
      then show ?thesis using True False by (subst nextBitLoop.simps) simp
    next
      case less': True
      have "nextBitLoop ws (i + 1) (ws ! (i + 1)) chunks = find (flag ws) [64 * (i + 1) + 0..<64 * chunks]"
        using less' by (intro less.hyps) (simp_all only: flag_at, auto)
      moreover have "[64 * i + k..<64 * chunks] = [64 * i + k..<64 * (i + 1)] @ [64 * (i + 1)..<64 * chunks]"
        using upt_add_eq_append [of "64 * i + k" "64 * (i + 1)" "64 * chunks - 64 * (i + 1)"] less' less.prems(3) by simp
      moreover have "find (flag ws) [64 * i + k..<64 * (i + 1)] = None" unfolding find_upt_None using no by auto
      ultimately show ?thesis using True less' by (subst nextBitLoop.simps) (simp add: find_append)
    qed
  qed
qed

lemma h1NextBit_find: "h1NextBit ws start chunks = find (flag ws) [start..<64 * chunks]"
proof (cases "start div 64 < chunks")
  case True
  have "bit (ws ! (start div 64) AND push_bit (start mod 64) (NOT 0)) j \<longleftrightarrow> start mod 64 \<le> j \<and> flag ws (64 * (start div 64) + j)" if "j < 64" for j
    using that by (auto simp: flag_at bit_and_iff bit_push_bit_iff bit_not_iff bit_mask_iff)
  from nextBitLoop_find [OF True this] show ?thesis using True by (simp add: h1NextBit_def Let_def)
next
  case False
  then have "64 * chunks \<le> start" by (metis div_le_mono less_mult_imp_div_less linorder_not_less mult.commute nonzero_mult_div_cancel_left zero_neq_numeral)
  then show ?thesis using False by (simp add: h1NextBit_def)
qed

fun runAll :: "('a \<Rightarrow> 's \<Rightarrow> 's \<times> bool) \<Rightarrow> 'a list \<Rightarrow> 's \<Rightarrow> 's \<times> bool" where
  "runAll f [] st = (st, True)"
| "runAll f (x # xs) st = (case f x st of (st, ok) \<Rightarrow> if ok then runAll f xs st else (st, False))"

lemma runAll_append: "runAll f (xs @ ys) st = (case runAll f xs st of (st, ok) \<Rightarrow> if ok then runAll f ys st else (st, False))"
  by (induction xs arbitrary: st) (simp_all split: prod.split)

lemma runAll_map: "runAll f (map g xs) st = runAll (\<lambda>x. f (g x)) xs st"
  by (induction xs arbitrary: st) (simp_all split: prod.split)

lemma runAll_cong: "(\<And>x st. x \<in> set xs \<Longrightarrow> f x st = g x st) \<Longrightarrow> runAll f xs st = runAll g xs st"
  by (induction xs arbitrary: st) (simp_all split: prod.split)

lemma runAll_filter: "(\<And>x st. x \<in> set xs \<Longrightarrow> \<not> P x \<Longrightarrow> f x st = (st, True)) \<Longrightarrow> runAll f (filter P xs) st = runAll f xs st"
  by (induction xs arbitrary: st) (simp_all split: prod.split)

lemma rootRun_all: "rootRun ls st = (case runAll (\<lambda>l. rf_field (fst (head_field l)) (snd (head_field l)) False) ls st of (st, ok) \<Rightarrow> if ok then Some st else None)"
  by (induction ls arbitrary: st) (simp_all split: prod.split)

lemma candLoop_all:
  "length (filter (bit c) [0..<64]) \<le> fuel \<Longrightarrow>
     candLoop fuel block idx chunks ci c st = runAll (candField block idx chunks) (map (\<lambda>j. 64 * ci + j) (filter (bit c) [0..<64])) st"
proof (induction fuel arbitrary: c st)
  case 0
  then show ?case by simp
next
  case (Suc fuel)
  show ?case
  proof (cases "c = 0")
    case True
    then show ?thesis by simp
  next
    case False
    note t = trailingZeros64_ok [OF False]
    let ?c = "c AND (c - 1)"
    have clear: "bit ?c k \<longleftrightarrow> bit c k \<and> k \<noteq> trailingZeros64 c" for k using clear_lowest_bit [OF t] by blast
    have f: "filter (bit c) [0..<64] = trailingZeros64 c # filter (bit ?c) [0..<64]"
      using filter_least [of "trailingZeros64 c" 64 "bit c"] t bit_below_64 unfolding clear by auto
    have "candLoop fuel block idx chunks ci ?c st' = runAll (candField block idx chunks) (map (\<lambda>j. 64 * ci + j) (filter (bit ?c) [0..<64])) st'" for st'
      using Suc.prems unfolding f by (intro Suc.IH) simp
    then show ?thesis using False unfolding f by (simp split: prod.split)
  qed
qed

lemma flags_chunk: "map (\<lambda>j. 64 * ci + j) (filter (bit (ws ! ci)) [0..<64]) = filter (flag ws) [64 * ci..<64 * (ci + 1)]"
proof -
  have "[64 * ci..<64 * (ci + 1)] = map (\<lambda>j. 64 * ci + j) [0..<64]" by (rule nth_equalityI) simp_all
  then have "filter (flag ws) [64 * ci..<64 * (ci + 1)] = map (\<lambda>j. 64 * ci + j) (filter (\<lambda>j. flag ws (64 * ci + j)) [0..<64])" by (simp only: filter_map o_def)
  also have "filter (\<lambda>j. flag ws (64 * ci + j)) [0..<64] = filter (bit (ws ! ci)) [0..<64]" by (rule filter_cong) (simp_all add: flag_at)
  finally show ?thesis ..
qed

lemma chunk_upt: "ci < chunks \<Longrightarrow> [64 * ci..<64 * chunks] = [64 * ci..<64 * (ci + 1)] @ [64 * (ci + 1)..<64 * chunks]"
  using upt_add_eq_append [of "64 * ci" "64 * (ci + 1)" "64 * chunks - 64 * (ci + 1)"] by simp

lemma chunkLoop_all: "chunkLoop block idx chunks ci st = runAll (candField block idx chunks) (filter (flag (bi_cands idx)) [64 * ci..<64 * chunks]) st"
proof (induction "chunks - ci" arbitrary: ci st rule: less_induct)
  case less
  show ?case
  proof (cases "ci < chunks")
    case True
    have "length (filter (bit c) [0..<64]) \<le> 64" for c :: u64 by (metis length_filter_le length_upt minus_nat.diff_0)
    note c = candLoop_all [OF this, of block idx chunks ci "bi_cands idx ! ci" st, unfolded flags_chunk]
    show ?thesis unfolding chunk_upt [OF True] filter_append runAll_append chunkLoop.simps [of block idx chunks ci] c
      using True less [of "ci + 1"] by (auto split: prod.split)
  qed (simp add: chunkLoop.simps)
qed

section \<open>What the index of a block says\<close>

text \<open>
  What the code relies on of the vector routine, which its test states as a reference: a block that has
  an index is a sequence of header lines, and the flags are at the starts of the lines, at the ends of
  their names, and at the starts of the lines whose first letter a name of interest has.
\<close>

definition line_start :: "byte list list \<Rightarrow> nat \<Rightarrow> nat" where
  "line_start ls k = length (lines_of (take k ls))"

definition name_end :: "byte list list \<Rightarrow> nat \<Rightarrow> nat" where
  "name_end ls k = line_start ls k + length (fst (head_field (ls ! k)))"

definition candidate :: "byte list \<Rightarrow> bool" where
  "candidate l \<longleftrightarrow> hd l \<in> set (str ''cehtCEHT'')"

definition index_of :: "byte list list \<Rightarrow> nat \<Rightarrow> h1BlockIndexOut \<Rightarrow> bool" where
  "index_of ls n idx \<longleftrightarrow>
     (\<forall>p < n. (flag (bi_starts idx) p \<longleftrightarrow> (\<exists>k < length ls. p = line_start ls k))
       \<and> (flag (bi_ends idx) p \<longleftrightarrow> (\<exists>k < length ls. p = name_end ls k))
       \<and> (flag (bi_cands idx) p \<longleftrightarrow> (\<exists>k < length ls. candidate (ls ! k) \<and> p = line_start ls k)))"

definition block_ok :: "rootVector \<Rightarrow> bool" where
  "block_ok cpu \<longleftrightarrow> (\<forall>block idx. h1BlockIndexAVX2 cpu block = Some idx \<longrightarrow>
     (\<exists>ls. block = lines_of ls \<and> list_all header_line ls \<and> index_of ls (64 * ((length block + 63) div 64)) idx))"

lemma line_start_Suc: "k < length ls \<Longrightarrow> line_start ls (Suc k) = line_start ls k + length (ls ! k) + 2"
  by (simp add: line_start_def take_Suc_conv_app_nth crlf_def)

lemma line_start_mono: "j < k \<Longrightarrow> k \<le> length ls \<Longrightarrow> line_start ls (Suc j) \<le> line_start ls k"
proof (induction k)
  case (Suc k)
  then show ?case by (cases "j = k") (auto simp: line_start_Suc)
qed simp

lemma line_at: "k < length ls \<Longrightarrow> drop (line_start ls k) (lines_of ls) = ls ! k @ crlf @ drop (line_start ls (Suc k)) (lines_of ls)"
proof -
  assume k: "k < length ls"
  then have "lines_of ls = lines_of (take k ls) @ (ls ! k @ crlf) @ lines_of (drop (Suc k) ls)" by (metis concat_append concat.simps(2) id_take_nth_drop list.map(2) map_append)
  then show ?thesis using k by (simp add: line_start_def take_Suc_conv_app_nth crlf_def)
qed

lemma name_end_between:
  assumes "list_all header_line ls" and "k < length ls"
  shows "line_start ls k < name_end ls k" "name_end ls k < line_start ls k + length (ls ! k)"
proof -
  have "header_line (ls ! k)" using assms by (simp add: list_all_length)
  then show "line_start ls k < name_end ls k" "name_end ls k < line_start ls k + length (ls ! k)"
    by (auto elim!: header_lineE simp: name_end_def isH1Token_iff)
qed

lemma line_start_total: "line_start ls (length ls) = length (lines_of ls)"
  by (simp add: line_start_def)

lemma index_flags:
  assumes "index_of ls n idx" and "p < n"
  shows "flag (bi_starts idx) p \<longleftrightarrow> (\<exists>k < length ls. p = line_start ls k)" "flag (bi_ends idx) p \<longleftrightarrow> (\<exists>k < length ls. p = name_end ls k)"
    "flag (bi_cands idx) p \<longleftrightarrow> (\<exists>k < length ls. candidate (ls ! k) \<and> p = line_start ls k)"
  using assms unfolding index_of_def by blast+

lemma next_name_end:
  assumes "index_of ls n idx" and "list_all header_line ls" and "length (lines_of ls) \<le> n" and "k < length ls"
  shows "find (flag (bi_ends idx)) [line_start ls k..<n] = Some (name_end ls k)"
proof -
  have le: "name_end ls k < line_start ls (Suc k)" "line_start ls (Suc k) \<le> n"
    using name_end_between [OF assms(2,4)] line_start_Suc [OF assms(4)] line_start_mono [of k "length ls" ls] line_start_total [of ls] assms(3,4) by simp_all
  have "\<not> flag (bi_ends idx) r" if r: "line_start ls k \<le> r" "r < name_end ls k" for r
  proof
    assume "flag (bi_ends idx) r"
    then obtain j where j: "j < length ls" "r = name_end ls j" using index_flags(2) [OF assms(1), of r] r le by auto
    have "j \<noteq> k" using j r by auto
    moreover have "\<not> j < k" using line_start_mono [of j k ls] name_end_between [OF assms(2) j(1)] line_start_Suc [OF j(1)] j r assms(4) by auto
    moreover have "\<not> k < j" using line_start_mono [of k j ls] name_end_between [OF assms(2) j(1)] le(1) j r by auto
    ultimately show False by simp
  qed
  then show ?thesis unfolding find_upt_iff using index_flags(2) [OF assms(1), of "name_end ls k"] assms(4) name_end_between [OF assms(2,4)] le by auto
qed

lemma next_line_start:
  assumes "index_of ls n idx" and "list_all header_line ls" and "length (lines_of ls) \<le> n" and "k < length ls"
  shows "find (flag (bi_starts idx)) [name_end ls k..<n] = (if Suc k < length ls then Some (line_start ls (Suc k)) else None)"
proof -
  have b: "line_start ls k < name_end ls k" "name_end ls k < line_start ls (Suc k)" using name_end_between [OF assms(2,4)] line_start_Suc [OF assms(4)] by simp_all
  have at: "Suc k \<le> j" if "j < length ls" "name_end ls k \<le> line_start ls j" for j
    using that b(1) line_start_mono [of j k ls] line_start_Suc [of j ls] assms(4) by (cases "j < k"; cases "j = k") auto
  show ?thesis
  proof (cases "Suc k < length ls")
    case True
    have "line_start ls (Suc k) < n" using line_start_Suc [OF True] line_start_mono [of "Suc k" "length ls" ls] True line_start_total [of ls] assms(3) by simp
    moreover have "\<not> flag (bi_starts idx) r" if r: "name_end ls k \<le> r" "r < line_start ls (Suc k)" for r
    proof
      assume "flag (bi_starts idx) r"
      then obtain j where j: "j < length ls" "r = line_start ls j" using index_flags(1) [OF assms(1), of r] r \<open>line_start ls (Suc k) < n\<close> by auto
      then have "Suc k \<le> j" using at r by blast
      then show False using line_start_mono [of "Suc k" j ls] line_start_Suc [OF True] r j by (cases "Suc k = j") auto
    qed
    ultimately show ?thesis using True b index_flags(1) [OF assms(1), of "line_start ls (Suc k)"] by (simp only: find_upt_iff if_True) auto
  next
    case False
    then have "\<not> (\<exists>j < length ls. r = line_start ls j)" if "name_end ls k \<le> r" for r using at that by (metis Suc_leI le_less_trans leD)
    then have "find (flag (bi_starts idx)) [name_end ls k..<n] = None" unfolding find_upt_None using index_flags(1) [OF assms(1)] by blast
    then show ?thesis using False by simp
  qed
qed

lemma candField_line:
  assumes "index_of ls (64 * chunks) idx" and "list_all header_line ls" and "length (lines_of ls) \<le> 64 * chunks" and "k < length ls"
  shows "candField (lines_of ls) idx chunks (line_start ls k) st = rf_field (fst (head_field (ls ! k))) (snd (head_field (ls ! k))) False st"
proof -
  obtain name v where l: "isH1Token name" "clean v" "ls ! k = name @ b8 CHR '':'' # v" "head_field (ls ! k) = (name, trimOWS v)"
    using assms(2,4) by (metis header_lineE list_all_length)
  let ?b = "lines_of ls" and ?s = "line_start ls k"
  have d: "drop ?s ?b = name @ b8 CHR '':'' # v @ crlf @ drop (line_start ls (Suc k)) ?b" using line_at [OF assms(4)] l(3) by simp
  have n: "name_end ls k = ?s + length name" using l(4) by (simp add: name_end_def)
  have s: "line_start ls (Suc k) = ?s + length name + 1 + length v + 2" using line_start_Suc [OF assms(4)] l(3) by simp
  have e: "(case find (flag (bi_starts idx)) [name_end ls k..<64 * chunks] of Some next \<Rightarrow> next - 2 | None \<Rightarrow> length ?b - 2) = ?s + length name + 1 + length v"
    using next_line_start [OF assms] s line_start_total [of ls] assms(4) by (cases "Suc k < length ls") (auto simp: not_less le_Suc_eq)
  have dc: "drop (name_end ls k + 1) ?b = v @ crlf @ drop (line_start ls (Suc k)) ?b"
  proof -
    have "drop (name_end ls k + 1) ?b = drop (length name + 1) (drop ?s ?b)" by (simp add: n add.commute)
    then show ?thesis unfolding d by simp
  qed
  show ?thesis unfolding candField_def h1NextBit_find next_name_end [OF assms] option.case Let_def e dc
    using d n l(4) rf_field_trim [of False v name st] by simp
qed

lemma field_no_candidate:
  assumes "header_line l" and "\<not> candidate l"
  shows "rf_field (fst (head_field l)) v False st = (st, True)"
proof -
  obtain name w where l: "isH1Token name" "l = name @ b8 CHR '':'' # w" "fst (head_field l) = name" using assms(1) by (auto elim: header_lineE)
  have h: "hd l = hd name" "name \<noteq> []" using l by (auto simp: isH1Token_iff)
  have "hd (low name) = asciiLower (hd name)" using h(2) by (simp add: low_def hd_map)
  moreover have "asciiLower c \<notin> set (str ''ceht'')" if "c \<notin> set (str ''cehtCEHT'')" for c
    using that by (auto simp: asciiLower_def word_le_nat_alt word_less_nat_alt)
  ultimately have "hd (low name) \<notin> set (str ''ceht'')" using assms(2) h by (simp add: candidate_def)
  then have "low name \<noteq> str ''host''" "low name \<noteq> str ''connection''" "low name \<noteq> str ''expect''" "low name \<noteq> str ''content-length''" "low name \<noteq> str ''transfer-encoding''"
    by auto
  then show ?thesis by (simp add: rf_field_flat l(3) Let_def del: str_simps)
qed

lemma cands_in_order:
  assumes "index_of ls n idx" and "length (lines_of ls) \<le> n"
  shows "filter (flag (bi_cands idx)) [0..<n] = map (line_start ls) (filter (\<lambda>k. candidate (ls ! k)) [0..<length ls])"
proof (rule sorted_distinct_set_unique)
  have mono: "line_start ls j < line_start ls k" if "j < k" "k \<le> length ls" for j k
    using line_start_mono [OF that] line_start_Suc [of j ls] that by simp
  then have "sorted_wrt (<) (map (line_start ls) [0..<length ls])" by (auto simp: sorted_wrt_iff_nth_less)
  then have s: "sorted_wrt (<) (map (line_start ls) (filter (\<lambda>k. candidate (ls ! k)) [0..<length ls]))" by (simp add: sorted_wrt_map sorted_wrt_filter)
  then show "sorted (map (line_start ls) (filter (\<lambda>k. candidate (ls ! k)) [0..<length ls]))" "distinct (map (line_start ls) (filter (\<lambda>k. candidate (ls ! k)) [0..<length ls]))"
    using strict_sorted_iff by blast+
  have "line_start ls k < n" if "k < length ls" for k using mono [of k "length ls"] that assms(2) line_start_total [of ls] by simp
  then show "set (filter (flag (bi_cands idx)) [0..<n]) = set (map (line_start ls) (filter (\<lambda>k. candidate (ls ! k)) [0..<length ls]))"
    using index_flags(3) [OF assms(1)] by auto
qed (simp_all add: sorted_wrt_filter)

lemma chunks_run:
  assumes "index_of ls (64 * chunks) idx" and "list_all header_line ls" and "length (lines_of ls) \<le> 64 * chunks"
  shows "chunkLoop (lines_of ls) idx chunks 0 st = runAll (\<lambda>l. rf_field (fst (head_field l)) (snd (head_field l)) False) ls st"
proof -
  let ?f = "\<lambda>l. rf_field (fst (head_field l)) (snd (head_field l)) False"
  have "chunkLoop (lines_of ls) idx chunks 0 st = runAll (\<lambda>k. candField (lines_of ls) idx chunks (line_start ls k)) (filter (\<lambda>k. candidate (ls ! k)) [0..<length ls]) st"
    using cands_in_order [OF assms(1,3)] by (simp add: chunkLoop_all runAll_map)
  also have "\<dots> = runAll (\<lambda>k. ?f (ls ! k)) (filter (\<lambda>k. candidate (ls ! k)) [0..<length ls]) st"
    by (rule runAll_cong) (simp add: candField_line [OF assms])
  also have "\<dots> = runAll (\<lambda>k. ?f (ls ! k)) [0..<length ls] st"
    using assms(2) by (intro runAll_filter) (simp add: field_no_candidate list_all_length)
  also have "\<dots> = runAll ?f ls st" using runAll_map [of ?f "(!) ls" "[0..<length ls]" st] by (simp add: map_nth)
  finally show ?thesis .
qed

text \<open>The starts of the lines are at least four bytes apart, so a chunk holds at most sixteen.\<close>

lemma few_starts:
  assumes "index_of ls n idx" and "list_all header_line ls" and "64 * (ci + 1) \<le> n"
  shows "length (filter (flag (bi_starts idx)) [64 * ci..<64 * (ci + 1)]) \<le> 16"
proof -
  let ?S = "set (filter (flag (bi_starts idx)) [64 * ci..<64 * (ci + 1)])"
  have far: "line_start ls j + 4 \<le> line_start ls k" if "j < k" "k < length ls" for j k
    using line_start_mono [of j k ls] line_start_Suc [of j ls] header_line_nonempty [of "ls ! j"] assms(2) that by (simp add: list_all_length)
  have "inj_on (\<lambda>p. p div 4) ?S"
  proof (rule inj_onI)
    fix p q assume "p \<in> ?S" "q \<in> ?S" and eq: "p div 4 = q div 4"
    then obtain j k where jk: "j < length ls" "k < length ls" "p = line_start ls j" "q = line_start ls k" using index_flags(1) [OF assms(1)] assms(3) by auto
    have "\<not> j < k" using far [of j k] jk eq by auto
    moreover have "\<not> k < j" using far [of k j] jk eq by auto
    ultimately show "p = q" using jk by simp
  qed
  moreover have "(\<lambda>p. p div 4) ` ?S \<subseteq> {16 * ci..<16 * (ci + 1)}" by auto
  ultimately have "card ?S \<le> card {16 * ci..<16 * (ci + 1)}" by (intro card_inj_on_le) auto
  moreover have "card ?S = length (filter (flag (bi_starts idx)) [64 * ci..<64 * (ci + 1)])" by (rule distinct_card) simp
  ultimately show ?thesis by simp
qed

lemma onesCount_flags: "onesCount64 (ws ! ci) = length (filter (flag ws) [64 * ci..<64 * (ci + 1)])"
  by (simp only: flags_chunk [symmetric] onesCount64_def length_map)

lemma few_starts_rest:
  assumes "index_of ls (64 * chunks) idx" and "list_all header_line ls" and "ci \<le> chunks"
  shows "length (filter (flag (bi_starts idx)) [64 * ci..<64 * chunks]) \<le> (chunks - ci) * 16"
  using assms(3)
proof (induction "chunks - ci" arbitrary: ci)
  case (Suc d)
  then have c: "ci < chunks" by simp
  have "length (filter (flag (bi_starts idx)) [64 * (ci + 1)..<64 * chunks]) \<le> (chunks - (ci + 1)) * 16" using Suc c by (intro Suc.hyps(1)) auto
  moreover have "length (filter (flag (bi_starts idx)) [64 * ci..<64 * (ci + 1)]) \<le> 16" using few_starts [OF assms(1,2)] c by simp
  moreover have "chunks - ci = Suc (chunks - (ci + 1))" using c by simp
  ultimately show ?case unfolding chunk_upt [OF c] by simp
qed simp

lemma startsLoop_count:
  assumes "index_of ls (64 * chunks) idx" and "list_all header_line ls"
  shows "startsLoop (bi_starts idx) chunks maxCount ci count \<Longrightarrow> ci \<le> chunks \<Longrightarrow> count + length (filter (flag (bi_starts idx)) [64 * ci..<64 * chunks]) \<le> maxCount"
proof (induction "chunks - ci" arbitrary: ci count rule: less_induct)
  case less
  show ?case
  proof (cases "ci < chunks")
    case False
    then show ?thesis using less.prems by (subst (asm) startsLoop.simps) simp
  next
    case True
    let ?n = "length (filter (flag (bi_starts idx)) [64 * ci..<64 * (ci + 1)])" and ?r = "length (filter (flag (bi_starts idx)) [64 * (ci + 1)..<64 * chunks])"
    have t: "length (filter (flag (bi_starts idx)) [64 * ci..<64 * chunks]) = ?n + ?r" unfolding chunk_upt [OF True] by simp
    show ?thesis
    proof (cases "count + ?n + (chunks - 1 - ci) * 16 \<le> maxCount")
      case early: True
      then show ?thesis using few_starts_rest [OF assms, of "ci + 1"] True unfolding t by simp
    next
      case False
      then have "startsLoop (bi_starts idx) chunks maxCount (ci + 1) (count + ?n)"
        using less.prems(1) True unfolding startsLoop.simps [of _ _ _ ci] onesCount_flags maxH1FieldStartsPerChunk_def minH1FieldLineBytes_def by (simp add: Let_def)
      then have "count + ?n + ?r \<le> maxCount" using True by (intro less.hyps) simp_all
      then show ?thesis unfolding t by simp
    qed
  qed
qed

lemma starts_count:
  assumes "index_of ls n idx" and "length (lines_of ls) \<le> n"
  shows "length ls \<le> length (filter (flag (bi_starts idx)) [0..<n])"
proof -
  have mono: "line_start ls j < line_start ls k" if "j < k" "k \<le> length ls" for j k
    using line_start_mono [OF that] line_start_Suc [of j ls] that by simp
  have "inj_on (line_start ls) {0..<length ls}" by (rule linorder_inj_onI) (use mono in fastforce)+
  moreover have "line_start ls ` {0..<length ls} \<subseteq> set (filter (flag (bi_starts idx)) [0..<n])"
    using mono [of _ "length ls"] line_start_total [of ls] assms(2) index_flags(1) [OF assms(1)] by force
  ultimately have "card {0..<length ls} \<le> card (set (filter (flag (bi_starts idx)) [0..<n]))" by (intro card_inj_on_le) auto
  moreover have "card (set (filter (flag (bi_starts idx)) [0..<n])) = length (filter (flag (bi_starts idx)) [0..<n])" by (rule distinct_card) simp
  ultimately show ?thesis by simp
qed

lemma lines_length: "list_all header_line ls \<Longrightarrow> 4 * length ls \<le> length (lines_of ls)"
  by (induction ls) (auto simp: crlf_def dest: header_line_nonempty)

lemma rootRun_maxCount: "rootRun ls st = Some st' \<Longrightarrow> rf_maxCount st' = rf_maxCount st"
  by (induction ls arbitrary: st) (auto split: prod.splits if_splits dest: rf_field_maxCount)

lemma rf_fields_lines:
  assumes "vector_ok (rv_lines cpu)" and "block_ok cpu" and "rf_fields cpu block st = (st', True)"
  shows "\<exists>ls. block = lines_of ls \<and> list_all header_line ls \<and> rootRun ls st = Some st' \<and> length ls \<le> rf_maxCount st"
proof (cases "if length block \<ge> h1BlockMinBytes then indexedFields cpu block st else None")
  case None
  then have "lineFieldsLoop (rv_lines cpu) block 0 0 st = (st', True)" using assms(3) by (simp add: rf_fields_def lineFields_def)
  from lineFieldsLoop_lines [OF assms(1) this] show ?thesis using rootRun_maxCount by fastforce
next
  case (Some res)
  then have ix: "indexedFields cpu block st = Some (st', True)" using assms(3) by (simp add: rf_fields_def split: if_splits)
  then obtain idx where idx: "h1BlockIndexAVX2 cpu block = Some idx" by (auto simp: indexedFields_def h1BlockIndex_def Let_def split: option.splits if_splits)
  have hb: "h1BlockIndex cpu block = Some idx" using ix idx by (auto simp: indexedFields_def h1BlockIndex_def Let_def split: option.splits if_splits)
  let ?chunks = "(length block + 63) div 64"
  obtain ls where ls: "block = lines_of ls" "list_all header_line ls" "index_of ls (64 * ?chunks) idx" using assms(2) idx unfolding block_ok_def by blast
  have le: "length (lines_of ls) \<le> 64 * ?chunks" using ls(1) by simp
  obtain st1 where st1: "runAll (\<lambda>l. rf_field (fst (head_field l)) (snd (head_field l)) False) ls st = (st1, True)" "st1 = st'"
      "length block \<le> rf_maxCount st1 * 4 \<or> startsLoop (bi_starts idx) ?chunks (rf_maxCount st1) 0 0"
    using ix hb chunks_run [OF ls(3,2) le, of st] unfolding indexedFields_def h1BlockStartsWithin_def minH1FieldLineBytes_def ls(1) [symmetric]
    by (auto simp: Let_def split: prod.splits if_splits)
  have run: "rootRun ls st = Some st'" using st1(1,2) by (simp add: rootRun_all)
  have "length ls \<le> rf_maxCount st'"
    using st1(2,3)
  proof (elim disjE)
    show "length block \<le> rf_maxCount st1 * 4 \<Longrightarrow> st1 = st' \<Longrightarrow> length ls \<le> rf_maxCount st'" using lines_length [OF ls(2)] ls(1) by simp
    show "startsLoop (bi_starts idx) ?chunks (rf_maxCount st1) 0 0 \<Longrightarrow> st1 = st' \<Longrightarrow> length ls \<le> rf_maxCount st'"
      using startsLoop_count [OF ls(3,2), of "rf_maxCount st1" 0 0] starts_count [OF ls(3) le] by simp
  qed
  then show ?thesis using ls run rootRun_maxCount [OF run] by auto
qed

section \<open>The full parser on the same lines\<close>

definition agrees :: "rootFastState \<Rightarrow> headState \<Rightarrow> bool" where
  "agrees st s \<longleftrightarrow> hs_hostCount s = rf_hosts st \<and> hs_close s = (\<not> rf_keepAlive st) \<and> \<not> hs_chunked s \<and> \<not> hs_hasContentLength s \<and> \<not> hs_badTE s"

lemma field_agrees:
  assumes "rf_field name v False st = (st', True)" and "trimOWS v = v" and "agrees st s"
  shows "case headField name v False s of None \<Rightarrow> False | Some s' \<Rightarrow> agrees st' s' \<and> rq_expect (hs_req s') = rq_expect (hs_req s)"
proof -
  have n: "str ''host'' \<noteq> str ''connection''" "str ''connection'' \<noteq> str ''origin''" "str ''connection'' \<noteq> str ''upgrade''" "str ''connection'' \<noteq> str ''x-real-ip''" "str ''connection'' \<noteq> str ''host''" "str ''connection'' \<noteq> str ''expect''" by simp_all
  have e: "rq_expect (cacheBit b r) = rq_expect r" for b r by (simp add: cacheBit_def)
  consider "low name = str ''host''" | "low name = str ''connection''" | "low name \<noteq> str ''host''" "low name \<noteq> str ''connection''" by blast
  then show ?thesis
  proof cases
    case 1
    then show ?thesis using assms by (auto simp: headField_flat rf_field_flat Let_def agrees_def e simp del: str_simps)
  next
    case 2
    then show ?thesis using assms n by (auto simp: headField_flat rf_field_flat Let_def agrees_def e simp del: str_simps split: if_splits)
  next
    case 3
    then have k: "low name \<noteq> str ''expect''" "low name \<noteq> str ''content-length''" "low name \<noteq> str ''transfer-encoding''" "st' = st"
      using assms(1) by (auto simp: rf_field_flat Let_def simp del: str_simps)
    then show ?thesis using 3 assms(3) by (simp add: headField_flat Let_def agrees_def e del: str_simps)
  qed
qed

lemma lineStep_agrees:
  assumes "header_line l" and "rf_field (fst (head_field l)) (snd (head_field l)) False st = (st', True)" and "agrees st s" and "length (rq_Headers (hs_req s)) < maxCount"
  obtains s' where "lineStep maxCount l nl s = Inr s'" "agrees st' s'" "rq_expect (hs_req s') = rq_expect (hs_req s)"
    "rq_Headers (hs_req s') = rq_Headers (hs_req s) @ [head_field l]" "same_line ((hs_req s)\<lparr>rq_Headers := rq_Headers (hs_req s')\<rparr>) (hs_req s')"
proof -
  obtain name v where l: "isH1Token name" "clean v" "l = name @ b8 CHR '':'' # v" "head_field l = (name, trimOWS v)" using assms(1) by (rule header_lineE)
  let ?s = "s\<lparr>hs_req := (hs_req s)\<lparr>rq_Headers := rq_Headers (hs_req s) @ [head_field l]\<rparr>\<rparr>"
  have a: "agrees st ?s" using assms(3) by (simp add: agrees_def)
  have "rf_field name (trimOWS v) False st = (st', True)" using assms(2) l(4) by simp
  from field_agrees [OF this trimOWS_idem a] obtain s' where s': "headField name (trimOWS v) False ?s = Some s'" "agrees st' s'" "rq_expect (hs_req s') = rq_expect (hs_req s)"
    by (auto split: option.splits)
  have "lineStep maxCount l nl s = Inr s'"
    using s'(1) l header_line_parts(3) [OF l(1,2)] assms(4) unfolding lineStep_def by (simp add: isH1Token_iff)
  then show thesis using that s' headField_same_line [OF s'(1)] by (simp add: same_line_def)
qed

lemma parseFields_agrees:
  assumes "vector_ok cpu" and "list_all header_line ls" and "drop pos data = lines_of ls @ crlf @ rest" and "rootRun ls st = Some st'" and "agrees st s"
    and "pos + length (lines_of ls) \<le> maxBytes" and "length (rq_Headers (hs_req s)) + length ls \<le> maxCount"
  shows "\<exists>s'. parseFields cpu data maxBytes maxCount http10 absoluteHost s pos = headComplete http10 absoluteHost (pos + length (lines_of ls)) s'
    \<and> agrees st' s' \<and> rq_expect (hs_req s') = rq_expect (hs_req s) \<and> rq_Method (hs_req s') = rq_Method (hs_req s) \<and> rq_Path (hs_req s') = rq_Path (hs_req s)"
  using assms(2-7)
proof (induction ls arbitrary: pos st s)
  case Nil
  have pos: "pos < length data" "pos \<le> maxBytes" using Nil by (auto simp: crlf_def intro: ccontr)
  have "scanLine (drop pos data) = (Some 0, False)" unfolding scanLine_end using Nil(2) by (auto simp: clean_def crlf_def)
  then show ?case using Nil parseFields_step [OF assms(1) pos] by auto
next
  case (Cons l ls)
  have pos: "pos < length data" "pos \<le> maxBytes" using Cons.prems by (auto simp: crlf_def intro: ccontr)
  have h: "header_line l" "l \<noteq> []" "clean l" using Cons.prems(1) header_line_nonempty [of l] by (auto simp: header_line_def)
  have d: "drop pos data = l @ crlf @ (lines_of ls @ crlf @ rest)" using Cons.prems(2) by simp
  have sc: "scanLine (drop pos data) = (Some (length l), False)" unfolding scanLine_end d using h(3) by (auto simp: crlf_def)
  obtain st1 where f: "rf_field (fst (head_field l)) (snd (head_field l)) False st = (st1, True)" "rootRun ls st1 = Some st'"
    using Cons.prems(3) by (auto split: prod.splits if_splits)
  obtain s1 where s1: "lineStep maxCount l (pos + length l) s = Inr s1" "agrees st1 s1" "rq_expect (hs_req s1) = rq_expect (hs_req s)"
    "rq_Headers (hs_req s1) = rq_Headers (hs_req s) @ [head_field l]" "same_line ((hs_req s)\<lparr>rq_Headers := rq_Headers (hs_req s1)\<rparr>) (hs_req s1)"
    using lineStep_agrees [OF h(1) f(1) Cons.prems(4), of maxCount "pos + length l"] Cons.prems(6) by auto
  have "parseFields cpu data maxBytes maxCount http10 absoluteHost s pos = parseFields cpu data maxBytes maxCount http10 absoluteHost s1 (pos + length l + 2)"
    using parseFields_step [OF assms(1) pos, of maxCount http10 absoluteHost s] sc d h(2) s1(1) by simp
  moreover have "\<exists>s'. parseFields cpu data maxBytes maxCount http10 absoluteHost s1 (pos + length l + 2) = headComplete http10 absoluteHost (pos + length l + 2 + length (lines_of ls)) s'
    \<and> agrees st' s' \<and> rq_expect (hs_req s') = rq_expect (hs_req s1) \<and> rq_Method (hs_req s') = rq_Method (hs_req s1) \<and> rq_Path (hs_req s') = rq_Path (hs_req s1)"
    using Cons.prems f(2) s1(2,4) line_after [OF d] by (intro Cons.IH) (auto simp: crlf_def)
  ultimately show ?case using s1(3,5) by (auto simp: same_line_def crlf_def add.assoc)
qed

lemma fast_lines:
  assumes "vector_ok (rv_lines cpu)" and "block_ok cpu" and "crlf_ok (rv_crlf cpu)" and "parsePlainFastRootRequest cpu data n mc = Some (consumed, keepAlive)"
  shows "\<exists>ls rest m st. drop n data = lines_of ls @ crlf @ rest \<and> list_all header_line ls \<and> consumed = n + length (lines_of ls) + 2
    \<and> rootRun ls \<lparr>rf_hosts = 0, rf_maxCount = m, rf_keepAlive = True\<rparr> = Some st \<and> rf_hosts st = 1 \<and> rf_keepAlive st = keepAlive
    \<and> (length ls \<le> mc \<or> consumed \<le> rootScalarScanMaxBytes)"
proof -
  have block: ?thesis if r: "rootFastHeaders cpu (take k (drop n data)) mc = Some keepAlive" "drop k (drop n data) = crlf @ rest" "consumed = n + k + 2" "k \<le> length (drop n data)" for k rest
  proof -
    obtain st where st: "rf_fields cpu (take k (drop n data)) \<lparr>rf_hosts = 0, rf_maxCount = mc, rf_keepAlive = True\<rparr> = (st, True)" "rf_hosts st = 1" "rf_keepAlive st = keepAlive"
      using r(1) by (auto simp: rootFastHeaders_def split: prod.splits if_splits)
    from rf_fields_lines [OF assms(1,2) st(1)] obtain ls where ls: "take k (drop n data) = lines_of ls" "list_all header_line ls"
      "rootRun ls \<lparr>rf_hosts = 0, rf_maxCount = mc, rf_keepAlive = True\<rparr> = Some st" "length ls \<le> mc" by auto
    have "drop n data = lines_of ls @ crlf @ rest" using append_take_drop_id [of k "drop n data"] ls(1) r(2) by simp
    moreover have "length (lines_of ls) = k" using arg_cong [OF ls(1), of length] r(4) by simp
    ultimately show ?thesis using ls st r(3) by blast
  qed
  have scalar: ?thesis if r: "scanFields data n \<lparr>rf_hosts = 0, rf_maxCount = 0, rf_keepAlive = True\<rparr> = Some (consumed, st)" "rf_hosts st = 1" "rf_keepAlive st = keepAlive"
      "length data \<le> rootScalarScanMaxBytes" for st
  proof -
    from scanFields_lines [OF r(1)] obtain ls rest where ls: "drop n data = lines_of ls @ crlf @ rest" "list_all header_line ls" "consumed = n + length (lines_of ls) + 2"
      "rootRun ls \<lparr>rf_hosts = 0, rf_maxCount = 0, rf_keepAlive = True\<rparr> = Some st" by blast
    moreover have "consumed \<le> length data" using arg_cong [OF ls(1), of length] ls(3) by (simp add: crlf_def)
    ultimately show ?thesis using r by (intro exI [of _ ls] exI [of _ rest] exI [of _ 0] exI [of _ st]) simp
  qed
  have whole: ?thesis if r: "endsWithHeaderTerminator data n" "rootFastHeaders cpu (take (length data - 2 - n) (drop n data)) mc = Some keepAlive" "consumed = length data"
  proof -
    have l: "length data \<ge> n + 2" "length data \<ge> 4" "drop (length data - 4) data = [0x0d, 0x0a, 0x0d, 0x0a]" using r(1) by (auto simp: endsWithHeaderTerminator_def Let_def)
    have "length data - 2 - n + n = 2 + (length data - 4)" using l(1,2) by simp
    then have "drop (length data - 2 - n) (drop n data) = drop 2 (drop (length data - 4) data)" by (simp only: drop_drop)
    then have "drop (length data - 2 - n) (drop n data) = crlf @ []" using l(3) by (simp add: crlf_def)
    then show ?thesis using r(2,3) l(1) by (intro block) auto
  qed
  have search: ?thesis if r: "findHeaderTerminatorBytes (rv_crlf cpu) data n = Some consumed" "rootFastHeaders cpu (take (consumed - 2 - n) (drop n data)) mc = Some keepAlive"
  proof -
    obtain k where k: "indexCRLFCRLF (rv_crlf cpu) (drop n data) = Some k" "consumed = n + k + 4" using r(1) by (auto simp: findHeaderTerminatorBytes_def split: if_splits option.splits)
    have t: "take 4 (drop k (drop n data)) = [0x0d, 0x0a, 0x0d, 0x0a]" "k < length (drop n data)" using k(1) unfolding crlf_searches(2) [OF assms(3)] find_upt_iff by auto
    have "drop (k + 2) (drop n data) = drop 2 (drop k (drop n data))" by (simp only: drop_drop ac_simps)
    also have "drop k (drop n data) = [0x0d, 0x0a, 0x0d, 0x0a] @ drop 4 (drop k (drop n data))" unfolding t(1) [symmetric] by (rule append_take_drop_id [symmetric])
    finally have "drop (k + 2) (drop n data) = crlf @ drop 4 (drop k (drop n data))" by (simp add: crlf_def del: drop_drop)
    moreover have "k + 2 \<le> length (drop n data)" using arg_cong [OF t(1), of length] by simp
    ultimately show ?thesis using r(2) k(2) by (intro block) (auto simp: add.commute)
  qed
  consider st where "scanFields data n \<lparr>rf_hosts = 0, rf_maxCount = 0, rf_keepAlive = True\<rparr> = Some (consumed, st)" "rf_hosts st = 1" "rf_keepAlive st = keepAlive" "length data \<le> rootScalarScanMaxBytes"
    | "endsWithHeaderTerminator data n" "rootFastHeaders cpu (take (length data - 2 - n) (drop n data)) mc = Some keepAlive" "consumed = length data"
    | "findHeaderTerminatorBytes (rv_crlf cpu) data n = Some consumed" "rootFastHeaders cpu (take (consumed - 2 - n) (drop n data)) mc = Some keepAlive"
    using assms(4) unfolding parsePlainFastRootRequest_def Let_def by (auto split: if_splits option.splits prod.splits)
  then show ?thesis using scalar whole search by cases
qed

section \<open>The fast path agrees with the parser\<close>

lemma root_prefix: "length rootPrefix16 = 16" "rootPrefix16 = str ''GET / HTTP/1.1'' @ crlf"
  by (simp_all add: rootPrefix16_def crlf_def)

lemma le_word_inject: "length a = 8 \<Longrightarrow> length b = 8 \<Longrightarrow> le_word a = le_word b \<longleftrightarrow> a = b"
proof -
  assume l: "length a = 8" "length b = 8"
  have b: "0 \<le> le_int xs \<and> le_int xs < 256 ^ length xs" for xs :: "byte list"
  proof (induction xs)
    case (Cons x xs)
    have "uint x < 256" "0 \<le> uint x" using uint_bounded [of x] by simp_all
    then show ?case using Cons by simp
  qed simp
  have "le_int a = le_int b" if "le_word a = le_word b"
    using that l b [of a] b [of b] unfolding le_word_def by (simp add: word_of_int_eq_iff take_bit_int_eq_self)
  then show ?thesis using le_int_inject [of a b] l by auto
qed

lemma equalPrefix16_iff: "20 \<le> length data \<Longrightarrow> equalPrefix16 data rootPrefix16 \<longleftrightarrow> take 16 data = rootPrefix16"
proof -
  assume l: "20 \<le> length data"
  have "le_word xs = le_word (take 8 xs)" for xs by (simp add: le_word_def)
  then have "equalPrefix16 data rootPrefix16 \<longleftrightarrow> take 8 data = take 8 rootPrefix16 \<and> take 8 (drop 8 data) = take 8 (drop 8 rootPrefix16)"
    using le_word_inject [of "take 8 data" "take 8 rootPrefix16"] le_word_inject [of "take 8 (drop 8 data)" "take 8 (drop 8 rootPrefix16)"] l root_prefix(1)
    unfolding equalPrefix16_def by simp
  moreover have "take 16 data = take 8 data @ take 8 (drop 8 data)" using take_add [of 8 8 data] by simp
  moreover have "rootPrefix16 = take 8 rootPrefix16 @ take 8 (drop 8 rootPrefix16)" using take_add [of 8 8 rootPrefix16] root_prefix(1) by simp
  ultimately show ?thesis
    using append_eq_append_conv [of "take 8 data" "take 8 rootPrefix16" "take 8 (drop 8 data)" "take 8 (drop 8 rootPrefix16)"] l root_prefix(1) by simp
qed

lemma root_request_line:
  "\<exists>r. parseRequestLine (str ''GET / HTTP/1.1'') req = Inr (False, None, r) \<and> rq_Method r = str ''GET'' \<and> rq_Path r = str ''/'' \<and> rq_expect r = rq_expect req \<and> rq_Headers r = rq_Headers req"
proof -
  have "indexByte (str ''GET / HTTP/1.1'') (b8 CHR '' '') = Some 3" "indexByte (drop (3 + 1) (str ''GET / HTTP/1.1'')) (b8 CHR '' '') = Some 1" 
    "validH1Version (drop (1 + 3 + 1 + 1) (str ''GET / HTTP/1.1''))" "str ''GET / HTTP/1.1'' ! (1 + 3 + 1 + 8) \<noteq> b8 CHR ''0''" "take 3 (str ''GET / HTTP/1.1'') = str ''GET''" "isH1Token (str ''GET'')"
    "take (1 + 3 + 1 - (3 + 1)) (drop (3 + 1) (str ''GET / HTTP/1.1'')) = str ''/''" "str ''/'' ! 0 = b8 CHR ''/''" "splitPathQuery (str ''/'') = (str ''/'', [])" "sanitizeSplitPath (str ''/'') = str ''/''"
    by code_simp+
  then show ?thesis unfolding parseRequestLine_def by (simp add: Let_def del: str_simps)
qed

lemma lines_newlines: "list_all header_line ls \<Longrightarrow> count_list (lines_of ls) 0x0a = length ls"
proof (induction ls)
  case (Cons l ls)
  have "0x0a \<notin> set l" using Cons.prems by (auto simp: header_line_def clean_def list_all_iff isH1Special_def)
  then show ?case using Cons by (simp add: crlf_def count_list_0_iff)
qed simp

lemma fast_count:
  assumes "drop 16 data = lines_of ls @ crlf @ rest" and "list_all header_line ls" and "consumed = 16 + length (lines_of ls) + 2"
    and "length ls \<le> mc \<or> consumed \<le> rootScalarScanMaxBytes"
    and "\<not> (consumed > rootFastUncountedHeadLen mc \<and> scalarRootFieldsExceed data consumed mc)"
  shows "length ls \<le> mc"
proof (cases "consumed > rootFastUncountedHeadLen mc")
  case False
  then show ?thesis using lines_length [OF assms(2)] assms(3) by (simp add: rootFastUncountedHeadLen_def minH1FieldLineBytes_def rootFastHeadTerminatorLen_def root_prefix(1))
next
  case True
  have "take (consumed - 2 - 16) (drop 16 data) = lines_of ls" using assms(1,3) by simp
  then show ?thesis using True assms(4,5) lines_newlines [OF assms(2)] by (auto simp: scalarRootFieldsExceed_def rootFastHeadTerminatorLen_def root_prefix(1))
qed

text \<open>
  C39: the fast path for the root never disagrees with the full parser.  Whenever it answers a request,
  the parser accepts the same bytes as a request \<open>GET /\<close>, with the same end, the same decision to close
  the connection, no body and no expectation -- whichever of the three scanners read the header lines.
\<close>

theorem root_fast_agrees:
  assumes "vector_ok (rv_lines cpu)" and "block_ok cpu" and "crlf_ok (rv_crlf cpu)"
    and "matchPlainRootFastRequest cpu (Some f) maxHeaderSize data tls = Some (response, consumed, close)"
    and "uncountedHeadLen f = rootFastUncountedHeadLen (rr_maxHeaderCount f)" and "0 < rr_maxHeaderCount f" and "rq_Headers req = []" and "rq_expect req = H1ExpectNone"
  shows "case parseH1RequestHead (rv_lines cpu) data req maxHeaderSize (int (rr_maxHeaderCount f)) of (h, r) \<Rightarrow>
      hd_ok h \<and> hd_reject h = H1RejectNone \<and> \<not> hd_tooLarge h \<and> hd_end h = consumed \<and> hd_close h = close \<and> \<not> hd_chunked h \<and> \<not> hd_hasContentLength h
      \<and> rq_Method r = str ''GET'' \<and> rq_Path r = str ''/'' \<and> rq_expect r = H1ExpectNone \<and> response = bytesFor f (\<not> close) tls"
proof -
  let ?mb = "if maxHeaderSize \<le> 0 then 8192 else nat maxHeaderSize" and ?mc = "rr_maxHeaderCount f"
  have m: "20 \<le> length data" "equalPrefix16 data rootPrefix16" "parsePlainFastRootRequest cpu data 16 ?mc = Some (consumed, \<not> close)" "consumed \<le> ?mb + 2"
    "\<not> (consumed > uncountedHeadLen f \<and> scalarRootFieldsExceed data consumed ?mc)" "response = bytesFor f (\<not> close) tls"
    using assms(4) root_prefix(1) by (auto simp: matchPlainRootFastRequest_def Let_def split: if_splits option.splits prod.splits)
  obtain ls rest k st where ls: "drop 16 data = lines_of ls @ crlf @ rest" "list_all header_line ls" "consumed = 16 + length (lines_of ls) + 2"
      "rootRun ls \<lparr>rf_hosts = 0, rf_maxCount = k, rf_keepAlive = True\<rparr> = Some st" "rf_hosts st = 1" "rf_keepAlive st = (\<not> close)" "length ls \<le> ?mc \<or> consumed \<le> rootScalarScanMaxBytes"
    using fast_lines [OF assms(1-3) m(3)] by blast
  have count: "length ls \<le> ?mc" using fast_count [OF ls(1-3,7)] m(5) assms(5) by simp
  have "data = take 16 data @ drop 16 data" by simp
  also have "take 16 data = str ''GET / HTTP/1.1'' @ crlf" using m(1,2) equalPrefix16_iff [of data] root_prefix(2) by (simp only:)
  finally have pre: "data = str ''GET / HTTP/1.1'' @ crlf @ drop 16 data" by (simp only: append_assoc)
  have "clean (str ''GET / HTTP/1.1'')" "length (str ''GET / HTTP/1.1'') = 14" by (simp_all add: clean_def isH1Special_def)
  then have sc: "scanLine data = (Some 14, False)" unfolding scanLine_end using pre by (metis append_Cons append_Nil crlf_def)
  have "take 14 data = str ''GET / HTTP/1.1''" using pre \<open>length (str ''GET / HTTP/1.1'') = 14\<close> by (metis append_eq_conv_conj)
  obtain r where r: "parseRequestLine (take 14 data) req = Inr (False, None, r)" "rq_Method r = str ''GET''" "rq_Path r = str ''/''" "rq_expect r = rq_expect req" "rq_Headers r = rq_Headers req"
    using root_request_line [of req] \<open>take 14 data = str ''GET / HTTP/1.1''\<close> by auto
  have "agrees \<lparr>rf_hosts = 0, rf_maxCount = k, rf_keepAlive = True\<rparr> (headStart r)" by (simp add: agrees_def headStart_def)
  from parseFields_agrees [OF assms(1) ls(2,1,4) this, of ?mb ?mc False None]
  obtain s where s: "parseFields (rv_lines cpu) data ?mb ?mc False None (headStart r) 16 = headComplete False None (16 + length (lines_of ls)) s"
      "agrees st s" "rq_expect (hs_req s) = rq_expect r" "rq_Method (hs_req s) = rq_Method r" "rq_Path (hs_req s) = rq_Path r"
    using m(4) ls(3) count r(5) assms(7) by (auto simp: headStart_def)
  have "classifyFirstSpecial data (firstH1Special (rv_lines cpu) data) = (Some 14, False)"
    using sc vector_scans(1) [OF assms(1)] by (simp add: scanLine_def firstH1SpecialSWAR_tail)
  then have "parseH1RequestHead (rv_lines cpu) data req maxHeaderSize (int ?mc) = headComplete False None (16 + length (lines_of ls)) s"
    using r(1) s(1) assms(6) by (simp add: parseH1RequestHead_def Let_def)
  then show ?thesis using s(2-5) r(2-4) ls(3,5,6) m(6) assms(8) by (simp add: headComplete_def agrees_def Let_def)
qed

definition sample_vector :: rootVector where
  "sample_vector = \<lparr>rv_lines = plain_cpu, rv_crlf = \<lparr>cv_hasAVX2 = False, indexCRLF2AVX2 = indexCRLF2Swar, indexCRLF4AVX2 = indexCRLFCRLFSwar\<rparr>, h1BlockIndexAVX2 = (\<lambda>_. None)\<rparr>"

definition sample_response :: plainRootFastResponse where
  "sample_response = \<lparr>getKeepAlive = str ''k'', getClose = str ''c'', tlsKeepAlive = None, tlsClose = None, rr_maxHeaderCount = 9, uncountedHeadLen = rootFastUncountedHeadLen 9\<rparr>"

lemma sample_vector_ok: "vector_ok (rv_lines sample_vector)" "block_ok sample_vector" "crlf_ok (rv_crlf sample_vector)"
  using plain_cpu_ok by (simp_all add: sample_vector_def block_ok_def crlf_ok_def)

theorem root_fast_agrees_witness:
  "matchPlainRootFastRequest sample_vector (Some sample_response) 100 sample_head False = Some (str ''k'', 27, False)
   \<and> hd_end (fst (parseH1RequestHead plain_cpu sample_head sample_request 100 9)) = 27"
proof -
  have m: "matchPlainRootFastRequest sample_vector (Some sample_response) 100 sample_head False = Some (str ''k'', 27, False)" by code_simp
  have "uncountedHeadLen sample_response = rootFastUncountedHeadLen (rr_maxHeaderCount sample_response)" "0 < rr_maxHeaderCount sample_response"
    "rq_Headers sample_request = []" "rq_expect sample_request = H1ExpectNone" "rv_lines sample_vector = plain_cpu" "rr_maxHeaderCount sample_response = 9"
    by (simp_all add: sample_response_def sample_request_def sample_vector_def)
  then show ?thesis using m root_fast_agrees [OF sample_vector_ok m, of sample_request] by (auto split: prod.splits)
qed

end
