(* ===== verification/Spec2Isabelle.thy ===== *)
theory Spec2Isabelle
  imports Quic_Loss Quic_Reassembly Hpack_RequestMeta H2_HeadMemo H1_Body H1_RootFast
begin

text \<open>
  A verification library for the HTTP server \<open>alos-http\<close>.
\<close>

end
